(* ===== verification/Prelude.thy ===== *)
theory Prelude
  imports Main "HOL-Library.AList" "HOL-Library.Multiset" "HOL-Library.Char_ord"
    "HOL-Library.List_Lexorder" "HOL-Library.Word"
begin

text \<open>
  Shared vocabulary of the development: the error values of the Go packages, Go maps as
  association lists with distinct keys, the two run-time freedoms the Go specification leaves
  open (map iteration order, \<^verbatim>\<open>sort.Slice\<close> on equal elements), index reads that panic out of
  range, and the list and multiset lemmas the components share.
\<close>

section \<open>Collections of facts\<close>

named_theorems gomap_simps "reads of a Go map after writes"
named_theorems perm_simps "multiset facts of in-place list updates"

section \<open>Errors\<close>

text \<open>
  One constructor per sentinel error of \<^verbatim>\<open>internal/index\<close>, \<^verbatim>\<open>internal/index/ann\<close> and
  \<^verbatim>\<open>internal/core\<close>, and one per class of standard-library error the code distinguishes.
  Errors wrapped with \<^verbatim>\<open>%w (%d)\<close> keep the wrapped number. \<open>ErrPanic\<close> is not an error value of the
  program but the outcome "a run-time panic unwinds through the caller" of an operation.
\<close>

datatype goerror =
    ErrVectorExists
  | ErrVectorNotFound
  | ErrInvalidID
  | ErrInvalidValues
  | ErrVectorDimTooHigh int
  | ErrInvalidK
  | ErrKTooHigh int
  | ErrSkipWALOp
  | ErrAnnInvalidK
  | ErrInvalidVectorDim
  | ErrEOF
  | ErrUnexpectedEOF
  | ErrClosed
  | ErrUnknownOp
  | ErrJSON
  | ErrTooLong
  | ErrIO string
  | ErrPanic

text \<open>A Go function that returns \<^verbatim>\<open>(T, error)\<close> returns \<open>Inl err\<close> or \<open>Inr value\<close>.\<close>

type_synonym 'a result = "goerror + 'a"

section \<open>Operating-system faults\<close>

text \<open>
  A call to the operating system may fail. Every operation that makes such calls takes an argument
  that says which kinds of calls fail, and how many bytes of a failing write reach the file.
\<close>

datatype ioop = IoMkdir | IoOpen | IoRead | IoSeek | IoWrite | IoSync | IoClose | IoReadAt
  | IoOpenTmp | IoWriteTmp | IoSyncTmp | IoCloseTmp | IoRename | IoReopen | IoStat

record iofault =
  ioErr :: "ioop \<Rightarrow> goerror option"
  ioPartial :: nat

definition no_fault :: iofault where
  "no_fault = \<lparr>ioErr = (\<lambda>_. None), ioPartial = 0\<rparr>"

section \<open>Slices\<close>

text \<open>An index read: \<open>None\<close> is the run-time panic "index out of range".\<close>

definition idx :: "'a list \<Rightarrow> nat \<Rightarrow> 'a option" where
  "idx xs i = (if i < length xs then Some (xs ! i) else None)"

lemma idx_in [simp]: "i < length xs \<Longrightarrow> idx xs i = Some (xs ! i)"
  by (simp add: idx_def)

lemma idx_out [simp]: "length xs \<le> i \<Longrightarrow> idx xs i = None"
  by (simp add: idx_def)

lemma idx_eq_Some: "idx xs i = Some x \<longleftrightarrow> i < length xs \<and> xs ! i = x"
  by (auto simp: idx_def)

text \<open>The parallel assignment \<^verbatim>\<open>h[i], h[j] = h[j], h[i]\<close>.\<close>

definition swap :: "'a list \<Rightarrow> nat \<Rightarrow> nat \<Rightarrow> 'a list" where
  "swap xs i j = xs[i := xs ! j, j := xs ! i]"

lemma length_swap [simp]: "length (swap xs i j) = length xs"
  by (simp add: swap_def)

lemma mset_swap_eq [simp, perm_simps]:
  "i < length xs \<Longrightarrow> j < length xs \<Longrightarrow> mset (swap xs i j) = mset xs"
  by (simp add: swap_def mset_swap)

lemma set_swap_eq [simp, perm_simps]:
  "i < length xs \<Longrightarrow> j < length xs \<Longrightarrow> set (swap xs i j) = set xs"
  by (metis mset_swap_eq set_mset_mset)

lemma nth_swap:
  "i < length xs \<Longrightarrow> j < length xs \<Longrightarrow> n < length xs \<Longrightarrow>
     swap xs i j ! n = (if n = j then xs ! i else if n = i then xs ! j else xs ! n)"
  by (auto simp: swap_def nth_list_update)

lemma swap_same [simp]: "swap xs i i = xs"
  by (simp add: swap_def)

section \<open>Go maps\<close>

text \<open>
  A Go map is an association list with distinct keys. Its content is \<open>map_of\<close>; the position
  of an entry in the list carries no meaning, because a \<^verbatim>\<open>range\<close> loop visits the keys in an
  order that the run time picks: the loops below take that choice as an argument
  \<open>iter\<close>, a permutation of the key list.
\<close>

type_synonym ('k, 'v) gomap = "('k \<times> 'v) list"

definition gm_wf :: "('k, 'v) gomap \<Rightarrow> bool" where
  "gm_wf m \<longleftrightarrow> distinct (map fst m)"

definition gm_get :: "('k, 'v) gomap \<Rightarrow> 'k \<Rightarrow> 'v option" where
  "gm_get m k = map_of m k"

definition gm_put :: "'k \<Rightarrow> 'v \<Rightarrow> ('k, 'v) gomap \<Rightarrow> ('k, 'v) gomap" where
  "gm_put k v m = AList.update k v m"

definition gm_del :: "'k \<Rightarrow> ('k, 'v) gomap \<Rightarrow> ('k, 'v) gomap" where
  "gm_del k m = AList.delete k m"

definition gm_keys :: "('k, 'v) gomap \<Rightarrow> 'k list" where
  "gm_keys m = map fst m"

lemma gm_wf_Nil [simp]: "gm_wf []"
  by (simp add: gm_wf_def)

lemma gm_wf_put [simp, gomap_simps]: "gm_wf m \<Longrightarrow> gm_wf (gm_put k v m)"
  by (simp add: gm_wf_def gm_put_def distinct_update)

lemma gm_wf_del [simp, gomap_simps]: "gm_wf m \<Longrightarrow> gm_wf (gm_del k m)"
  by (simp add: gm_wf_def gm_del_def distinct_delete)

lemma gm_get_Nil [simp]: "gm_get [] k = None"
  by (simp add: gm_get_def)

lemma gm_get_put [simp, gomap_simps]:
  "gm_get (gm_put k v m) = (gm_get m)(k \<mapsto> v)"
  by (simp add: gm_get_def [abs_def] gm_put_def update_conv')

lemma gm_get_del [simp, gomap_simps]:
  "gm_get (gm_del k m) = (gm_get m)(k := None)"
  by (simp add: gm_get_def [abs_def] gm_del_def delete_conv')

lemma set_gm_keys [simp]: "set (gm_keys m) = dom (gm_get m)"
  by (simp add: gm_keys_def gm_get_def [abs_def] dom_map_of_conv_image_fst)

lemma gm_keys_Nil [simp]: "gm_keys [] = []"
  by (simp add: gm_keys_def)

lemma gm_keys_mem: "k \<in> set (gm_keys m) \<longleftrightarrow> gm_get m k \<noteq> None"
  by (auto simp: dom_def)

lemma distinct_gm_keys [simp]: "gm_wf m \<Longrightarrow> distinct (gm_keys m)"
  by (simp add: gm_wf_def gm_keys_def)

lemma length_gm_keys [simp]: "length (gm_keys m) = length m"
  by (simp add: gm_keys_def)

lemma gm_get_in_keys: "gm_get m k = Some v \<Longrightarrow> k \<in> set (gm_keys m)"
  by (auto simp: dom_def)

lemma length_gm_card: "gm_wf m \<Longrightarrow> length m = card (dom (gm_get m))"
  by (metis distinct_card distinct_gm_keys length_gm_keys set_gm_keys)

text \<open>The iteration order of a \<^verbatim>\<open>range\<close> loop over a map: some permutation of the keys.\<close>

definition iter_ok :: "('k list \<Rightarrow> 'k list) \<Rightarrow> bool" where
  "iter_ok iter \<longleftrightarrow> (\<forall>ks. mset (iter ks) = mset ks)"

lemma iter_ok_id [simp]: "iter_ok id" "iter_ok (\<lambda>ks. ks)" "iter_ok rev"
  by (simp_all add: iter_ok_def)

lemma iter_set [simp]: "iter_ok iter \<Longrightarrow> set (iter ks) = set ks"
  by (metis iter_ok_def set_mset_mset)

lemma iter_distinct [simp]: "iter_ok iter \<Longrightarrow> distinct (iter ks) \<longleftrightarrow> distinct ks"
  by (metis iter_ok_def mset_eq_imp_distinct_iff)

lemma iter_length [simp]: "iter_ok iter \<Longrightarrow> length (iter ks) = length ks"
  by (metis iter_ok_def size_mset)

text \<open>
  The values a \<^verbatim>\<open>for _, v := range m\<close> loop sees, in the order \<open>iter\<close> picks.
\<close>

definition gm_range :: "('k list \<Rightarrow> 'k list) \<Rightarrow> ('k, 'v) gomap \<Rightarrow> ('k \<times> 'v) list" where
  "gm_range iter m = map (\<lambda>k. (k, the (gm_get m k))) (iter (gm_keys m))"

lemma gm_range_mem:
  "iter_ok iter \<Longrightarrow> (k, v) \<in> set (gm_range iter m) \<longleftrightarrow> gm_get m k = Some v"
  by (auto simp: gm_range_def dom_def)

lemma gm_range_fst [simp]: "map fst (gm_range iter m) = iter (gm_keys m)"
  by (simp add: gm_range_def o_def)

lemma length_gm_range [simp]: "iter_ok iter \<Longrightarrow> length (gm_range iter m) = length m"
  by (simp add: gm_range_def)

text \<open>
  A callback traversal: the callback updates a state and returns whether to go on.
\<close>

fun range_while :: "('s \<Rightarrow> 'x \<Rightarrow> 's \<times> bool) \<Rightarrow> 's \<Rightarrow> 'x list \<Rightarrow> 's" where
  "range_while f s [] = s"
| "range_while f s (x # xs) =
     (case f s x of (s', go) \<Rightarrow> if go then range_while f s' xs else s')"

lemma range_while_all: "(\<And>s x. snd (f s x)) \<Longrightarrow> range_while f s xs = foldl (\<lambda>s x. fst (f s x)) s xs"
proof (induction xs arbitrary: s)
  case (Cons x xs)
  obtain s' go where "f s x = (s', go)" by force
  moreover from this have go using Cons.prems [of s x] by simp
  ultimately show ?case using Cons by simp
qed simp

lemma gm_range_mset:
  assumes "iter_ok iter" and "gm_wf m"
  shows "mset (gm_range iter m) = mset m"
proof -
  have "mset (gm_range iter m) = image_mset (\<lambda>k. (k, the (gm_get m k))) (mset (gm_keys m))"
    using assms(1) by (simp add: gm_range_def iter_ok_def)
  also have "\<dots> = mset (map (\<lambda>p. (fst p, the (gm_get m (fst p)))) m)"
    by (simp add: gm_keys_def image_mset.compositionality o_def)
  also have "map (\<lambda>p. (fst p, the (gm_get m (fst p)))) m = m"
    using assms(2) by (intro map_idI) (auto simp: gm_wf_def gm_get_def)
  finally show ?thesis .
qed

section \<open>Generic list facts\<close>

lemma foldl_invariant:
  assumes "P a" and "\<And>a x. P a \<Longrightarrow> x \<in> set xs \<Longrightarrow> P (f a x)"
  shows "P (foldl f a xs)"
  using assms by (induction xs arbitrary: a) auto

lemma take_min_length: "length xs = n \<Longrightarrow> take k xs = take (min k n) xs"
  by (cases "k \<le> n") simp_all

lemma map_nth_upt: "map ((!) xs) [0..<length xs] = xs"
  by (rule map_nth)

lemma sorted_wrt_trans_hd:
  "sorted_wrt r (x # xs) \<Longrightarrow> y \<in> set xs \<Longrightarrow> r x y"
  by simp

end
