(* ===== verification/ArrayHeap.thy ===== *)
theory ArrayHeap
  imports Prelude
begin

text \<open>
  The array heaps of the program. The same two loops occur four times in the sources, with
  different comparisons: \<^verbatim>\<open>upSearchResultMax\<close>/\<^verbatim>\<open>downSearchResultMax\<close> (\<^verbatim>\<open>internal/core/service.go\<close>),
  \<^verbatim>\<open>upMin\<close>/\<^verbatim>\<open>downMin\<close> and \<^verbatim>\<open>upMax\<close>/\<^verbatim>\<open>downMax\<close> (\<^verbatim>\<open>internal/index/ann/ann_index.go\<close>), and
  \<^verbatim>\<open>up\<close>/\<^verbatim>\<open>down\<close> of \<^verbatim>\<open>container/heap\<close>, which \<^verbatim>\<open>internal/core/list_vectors.go\<close> uses. They are defined
  here once over the comparisons the loops evaluate; the theories of those components
  instantiate them and interpret the locale below, whose lemmas give the heap property, the
  multiset of elements, the order of popped elements and the bounded selection
  ("keep the best \<open>k\<close>") that all of them run.
\<close>

section \<open>The loops\<close>

definition parent :: "nat \<Rightarrow> nat" where
  "parent j = (j - 1) div 2"

text \<open>
  \<open>stop (h ! j) (h ! i)\<close> is the condition under which the child \<open>j\<close> stays below its parent
  \<open>i\<close>. In Go \<open>(j - 1) / 2\<close> truncates towards zero, so it is \<open>0\<close> at \<open>j = 0\<close>, as here.
\<close>

function sift_up :: "('a \<Rightarrow> 'a \<Rightarrow> bool) \<Rightarrow> 'a list \<Rightarrow> nat \<Rightarrow> 'a list" where
  "sift_up stop h j =
     (let i = parent j
      in if i = j \<or> stop (h ! j) (h ! i) then h else sift_up stop (swap h i j) i)"
  by pat_completeness auto
termination
  by (relation "measure (\<lambda>(stop, h, j). j)") (auto simp: parent_def)

text \<open>
  \<open>better r l\<close> is the condition under which the right child is taken, \<open>stop p c\<close> the one under
  which the parent stays above the chosen child.
\<close>

definition sift_child :: "('a \<Rightarrow> 'a \<Rightarrow> bool) \<Rightarrow> 'a list \<Rightarrow> nat \<Rightarrow> nat" where
  "sift_child better h i =
     (let left = 2 * i + 1; right = left + 1
      in if right < length h \<and> better (h ! right) (h ! left) then right else left)"

lemma sift_child_bounds:
  "2 * i + 1 < length h \<Longrightarrow> sift_child better h i < length h \<and> i < sift_child better h i"
  by (auto simp: sift_child_def Let_def)

lemma sift_child_cases: "sift_child better h i = 2 * i + 1 \<or> sift_child better h i = 2 * i + 2"
  by (auto simp: sift_child_def Let_def)

function sift_down :: "('a \<Rightarrow> 'a \<Rightarrow> bool) \<Rightarrow> ('a \<Rightarrow> 'a \<Rightarrow> bool) \<Rightarrow> 'a list \<Rightarrow> nat \<Rightarrow> 'a list" where
  "sift_down better stop h i =
     (if length h \<le> 2 * i + 1 then h
      else let child = sift_child better h i
           in if stop (h ! i) (h ! child) then h
              else sift_down better stop (swap h i child) child)"
  by pat_completeness auto
termination
proof (relation "measure (\<lambda>(better, stop, h, i). length h - i)", goal_cases)
  case (2 better stop h i x)
  then show ?case using sift_child_bounds [of i h better] by auto
qed simp

declare sift_up.simps [simp del] sift_down.simps [simp del]

lemma mset_sift_down [simp]: "mset (sift_down better stop h i) = mset h"
proof (induction better stop h i rule: sift_down.induct)
  case (1 better stop h i)
  then show ?case
    using sift_child_bounds [of i h better]
    by (simp add: sift_down.simps [of better stop h i] Let_def)
qed

lemma length_sift_down [simp]: "length (sift_down better stop h i) = length h"
  by (metis mset_sift_down size_mset)

section \<open>Heap operations\<close>

definition heap_push :: "('a \<Rightarrow> 'a \<Rightarrow> bool) \<Rightarrow> 'a list \<Rightarrow> 'a \<Rightarrow> 'a list" where
  "heap_push stop h x = sift_up stop (h @ [x]) (length h)"

definition heap_replace_top :: "('a \<Rightarrow> 'a \<Rightarrow> bool) \<Rightarrow> ('a \<Rightarrow> 'a \<Rightarrow> bool) \<Rightarrow> 'a list \<Rightarrow> 'a \<Rightarrow> 'a list" where
  "heap_replace_top better stop h x = sift_down better stop (h[0 := x]) 0"

text \<open>Swap root and last element, restore the heap on the prefix, return the last element.\<close>

definition heap_pop :: "('a \<Rightarrow> 'a \<Rightarrow> bool) \<Rightarrow> ('a \<Rightarrow> 'a \<Rightarrow> bool) \<Rightarrow> 'a list \<Rightarrow> 'a \<times> 'a list" where
  "heap_pop better stop h =
     (let n = length h - 1; old = swap h 0 n
      in (old ! n, sift_down better stop (take n old) 0))"

text \<open>Pop until the heap is empty; the elements in the order they come out.\<close>

function heap_drain :: "('a \<Rightarrow> 'a \<Rightarrow> bool) \<Rightarrow> ('a \<Rightarrow> 'a \<Rightarrow> bool) \<Rightarrow> 'a list \<Rightarrow> 'a list" where
  "heap_drain better stop h =
     (if h = [] then []
      else case heap_pop better stop h of (x, r) \<Rightarrow> x # heap_drain better stop r)"
  by pat_completeness auto
termination
  by (relation "measure (\<lambda>(better, stop, h). length h)") (auto simp: heap_pop_def Let_def)

text \<open>
  Keep at most \<open>lim\<close> elements: push while there is room, otherwise drop the newcomer when
  \<open>skip x (h ! 0)\<close>, else let it take the place of the root.
\<close>

definition heap_offer :: "('a \<Rightarrow> 'a \<Rightarrow> bool) \<Rightarrow> ('a \<Rightarrow> 'a \<Rightarrow> bool) \<Rightarrow> ('a \<Rightarrow> 'a \<Rightarrow> bool) \<Rightarrow>
    ('a \<Rightarrow> 'a \<Rightarrow> bool) \<Rightarrow> nat \<Rightarrow> 'a list \<Rightarrow> 'a \<Rightarrow> 'a list" where
  "heap_offer skip up_stop better down_stop lim h x =
     (if length h < lim then heap_push up_stop h x
      else if skip x (h ! 0) then h
      else heap_replace_top better down_stop h x)"

declare heap_drain.simps [simp del]

section \<open>Facts that hold for any comparison\<close>

lemma parent_less: "0 < j \<Longrightarrow> parent j < j"
  by (auto simp: parent_def)

lemma parent_0 [simp]: "parent 0 = 0"
  by (simp add: parent_def)

lemma parent_eq_iff: "parent j = j \<longleftrightarrow> j = 0"
  by (cases "j = 0") (use parent_less [of j] in auto)

lemma parent_children: "0 < k \<and> parent k = i \<longleftrightarrow> k = 2 * i + 1 \<or> k = 2 * i + 2"
  unfolding parent_def by presburger

lemma mset_sift_up [simp]: "j < length h \<Longrightarrow> mset (sift_up stop h j) = mset h"
proof (induction stop h j rule: sift_up.induct)
  case (1 stop h j)
  then have "parent j < length h" using parent_less [of j] by (cases "j = 0") auto
  with 1 show ?case by (simp add: sift_up.simps [of stop h j] Let_def)
qed

lemma length_sift_up [simp]: "j < length h \<Longrightarrow> length (sift_up stop h j) = length h"
  by (metis mset_sift_up size_mset)

lemma set_sift_down [simp]: "set (sift_down better stop h i) = set h"
  by (metis mset_sift_down set_mset_mset)

lemma mset_heap_push [simp, perm_simps]: "mset (heap_push stop h x) = add_mset x (mset h)"
  by (simp add: heap_push_def)

lemma length_heap_push [simp]: "length (heap_push stop h x) = Suc (length h)"
  by (simp add: heap_push_def)

lemma set_heap_push [simp]: "set (heap_push stop h x) = insert x (set h)"
  by (metis mset_heap_push set_mset_add_mset_insert set_mset_mset)

lemma length_heap_replace_top [simp]: "length (heap_replace_top better stop h x) = length h"
  by (simp add: heap_replace_top_def)

lemma mset_heap_replace_top [simp, perm_simps]:
  "h \<noteq> [] \<Longrightarrow> mset (heap_replace_top better stop h x) = add_mset x (mset (tl h))"
  by (cases h) (simp_all add: heap_replace_top_def)

lemma set_heap_replace_top: "set (heap_replace_top better stop h x) \<subseteq> insert x (set h)"
  by (simp add: heap_replace_top_def set_update_subset_insert)

lemma heap_pop_mset:
  assumes "h \<noteq> []" and "heap_pop better stop h = (x, r)"
  shows "x = h ! 0" and "mset h = add_mset x (mset r)" and "length r = length h - 1"
proof -
  define n where "n = length h - 1"
  have n: "0 < length h" "n < length h" "length h = Suc n" using assms(1) by (simp_all add: n_def)
  have x: "x = swap h 0 n ! n" and r: "r = sift_down better stop (take n (swap h 0 n)) 0"
    using assms(2) by (simp_all add: heap_pop_def n_def Let_def)
  show "x = h ! 0" using n by (simp add: x nth_swap)
  have "take n (swap h 0 n) @ [x] = swap h 0 n"
    using n by (metis length_swap lessI take_Suc_conv_app_nth take_all_iff x order_refl)
  then have "mset (take n (swap h 0 n) @ [x]) = mset h" using n by simp
  then show "mset h = add_mset x (mset r)" by (simp add: r)
  then show "length r = length h - 1" by (metis diff_Suc_1 size_add_mset size_mset)
qed

lemma heap_pop_singleton [simp]: "heap_pop better stop [x] = (x, [])"
  by (simp add: heap_pop_def sift_down.simps)

lemma heap_pop_set:
  "h \<noteq> [] \<Longrightarrow> heap_pop better stop h = (x, r) \<Longrightarrow> set h = insert x (set r)"
  by (metis heap_pop_mset(2) set_mset_add_mset_insert set_mset_mset)

section \<open>The interface\<close>

text \<open>
  \<open>above x y\<close>: \<open>x\<close> may stand above \<open>y\<close>. The laws are required on the elements that satisfy
  \<open>ok\<close> (for distances: that are numbers, not NaN), where \<open>above\<close> is a total preorder and the
  tests of the loops decide it.
\<close>

locale array_heap =
  fixes ok :: "'a \<Rightarrow> bool"
    and above :: "'a \<Rightarrow> 'a \<Rightarrow> bool"
    and up_stop :: "'a \<Rightarrow> 'a \<Rightarrow> bool"
    and better :: "'a \<Rightarrow> 'a \<Rightarrow> bool"
    and down_stop :: "'a \<Rightarrow> 'a \<Rightarrow> bool"
  assumes above_trans: "\<lbrakk>ok x; ok y; ok z; above x y; above y z\<rbrakk> \<Longrightarrow> above x z"
    and above_total: "\<lbrakk>ok x; ok y\<rbrakk> \<Longrightarrow> above x y \<or> above y x"
    and up_stop_iff: "\<lbrakk>ok x; ok p\<rbrakk> \<Longrightarrow> up_stop x p \<longleftrightarrow> above p x"
    and better_iff: "\<lbrakk>ok r; ok l\<rbrakk> \<Longrightarrow> better r l \<longleftrightarrow> \<not> above l r"
    and down_stop_iff: "\<lbrakk>ok p; ok c\<rbrakk> \<Longrightarrow> down_stop p c \<longleftrightarrow> above p c"
begin

definition heap_inv :: "'a list \<Rightarrow> bool" where
  "heap_inv h \<longleftrightarrow> (\<forall>x \<in> set h. ok x) \<and> (\<forall>k. 0 < k \<and> k < length h \<longrightarrow> above (h ! parent k) (h ! k))"

text \<open>All edges are in order but the one from \<open>j\<close> to its parent, and the grandparent edges hold.\<close>

definition up_inv :: "'a list \<Rightarrow> nat \<Rightarrow> bool" where
  "up_inv h j \<longleftrightarrow> (\<forall>x \<in> set h. ok x) \<and>
     (\<forall>k. 0 < k \<and> k < length h \<and> k \<noteq> j \<longrightarrow> above (h ! parent k) (h ! k)) \<and>
     (\<forall>k. 0 < k \<and> k < length h \<and> parent k = j \<and> 0 < j \<longrightarrow> above (h ! parent j) (h ! k))"

text \<open>All edges are in order but the ones from \<open>i\<close> to its children.\<close>

definition down_inv :: "'a list \<Rightarrow> nat \<Rightarrow> bool" where
  "down_inv h i \<longleftrightarrow> (\<forall>x \<in> set h. ok x) \<and>
     (\<forall>k. 0 < k \<and> k < length h \<and> parent k \<noteq> i \<longrightarrow> above (h ! parent k) (h ! k)) \<and>
     (\<forall>k. 0 < k \<and> k < length h \<and> parent k = i \<and> 0 < i \<longrightarrow> above (h ! parent i) (h ! k))"

lemma above_refl: "ok x \<Longrightarrow> above x x"
  using above_total by blast

lemma heap_invI_up:
  assumes "up_inv h j" and "j = 0 \<or> above (h ! parent j) (h ! j)"
  shows "heap_inv h"
  using assms by (auto simp: heap_inv_def up_inv_def)

lemma up_inv_swap:
  assumes inv: "up_inv h j" and j: "0 < j" "j < length h" and na: "\<not> above (h ! parent j) (h ! j)"
  shows "up_inv (swap h (parent j) j) (parent j)"
proof -
  define p where "p = parent j"
  have p: "p < j" "p < length h" using j parent_less [of j] by (simp_all add: p_def)
  have ok: "k < length h \<Longrightarrow> ok (h ! k)" for k using inv by (simp add: up_inv_def)
  have edge: "0 < k \<Longrightarrow> k < length h \<Longrightarrow> k \<noteq> j \<Longrightarrow> above (h ! parent k) (h ! k)" for k
    using inv by (simp add: up_inv_def)
  have grand: "0 < k \<Longrightarrow> k < length h \<Longrightarrow> parent k = j \<Longrightarrow> above (h ! p) (h ! k)" for k
    using inv j by (simp add: up_inv_def p_def)
  have jp: "above (h ! j) (h ! p)" using na j p ok above_total by (metis p_def)
  have sw: "k < length h \<Longrightarrow> swap h p j ! k = (if k = j then h ! p else if k = p then h ! j else h ! k)" for k
    using p j by (simp add: nth_swap)
  have "above (swap h p j ! parent k) (swap h p j ! k)" if k: "0 < k" "k < length h" "k \<noteq> p" for k
  proof -
    have pk: "parent k < k" using k parent_less by simp
    then have "parent k < length h" using k by simp
    moreover have "above (h ! j) (h ! k)" if "parent k = p" "k \<noteq> j"
      using edge [of k] jp that k j p ok above_trans by metis
    ultimately show ?thesis
      using k pk sw edge [of k] grand [of k] jp by (auto simp: p_def)
  qed
  moreover have "above (swap h p j ! parent p) (swap h p j ! k)"
    if k: "0 < k" "k < length h" "parent k = p" "0 < p" for k
  proof -
    have pp: "parent p < p" using k parent_less by simp
    have e: "above (h ! parent p) (h ! p)" using edge [of p] k p by simp
    have "above (h ! p) (h ! k)" if "k \<noteq> j" using edge [of k] k that by simp
    then have "above (h ! parent p) (h ! k)" if "k \<noteq> j"
      using e that k pp p ok above_trans by (metis less_trans)
    moreover have "k \<noteq> p" using k pp by auto
    moreover have "parent p < length h" using pp p by simp
    ultimately show ?thesis using k pp p sw e by auto
  qed
  ultimately show ?thesis
    using inv p j unfolding up_inv_def p_def [symmetric] by simp
qed

lemma heap_inv_sift_up: "up_inv h j \<Longrightarrow> j < length h \<Longrightarrow> heap_inv (sift_up up_stop h j)"
proof (induction j arbitrary: h rule: less_induct)
  case (less j)
  have ok: "ok (h ! j)" "ok (h ! parent j)"
    using less.prems parent_less [of j] by (cases "j = 0"; simp add: up_inv_def)+
  show ?case
  proof (cases "j = 0 \<or> above (h ! parent j) (h ! j)")
    case True
    then show ?thesis
      using less.prems ok by (auto simp: sift_up.simps [of _ h j] Let_def up_stop_iff intro: heap_invI_up)
  next
    case False
    then have "up_inv (swap h (parent j) j) (parent j)" using less.prems up_inv_swap by simp
    moreover have "parent j < j" using False parent_less by simp
    ultimately show ?thesis
      using False less ok by (simp add: sift_up.simps [of _ h j] Let_def up_stop_iff parent_eq_iff)
  qed
qed

lemma heap_inv_push: "heap_inv h \<Longrightarrow> ok x \<Longrightarrow> heap_inv (heap_push up_stop h x)"
proof -
  assume h: "heap_inv h" "ok x"
  have par: "0 < k \<Longrightarrow> k < Suc (length h) \<Longrightarrow> parent k < length h" for k
    using parent_less [of k] by simp
  have "up_inv (h @ [x]) (length h)"
    unfolding up_inv_def
  proof (intro conjI allI impI)
    fix k assume "0 < k \<and> k < length (h @ [x]) \<and> k \<noteq> length h"
    then show "above ((h @ [x]) ! parent k) ((h @ [x]) ! k)"
      using h par [of k] by (simp add: heap_inv_def nth_append)
  next
    fix k assume "0 < k \<and> k < length (h @ [x]) \<and> parent k = length h \<and> 0 < length h"
    with par [of k] show "above ((h @ [x]) ! parent (length h)) ((h @ [x]) ! k)" by simp
  qed (use h in \<open>auto simp: heap_inv_def\<close>)
  then show ?thesis unfolding heap_push_def by (rule heap_inv_sift_up) simp
qed

lemma heap_invI_down:
  assumes inv: "down_inv h i"
    and ch: "\<And>k. k < length h \<Longrightarrow> k = 2 * i + 1 \<or> k = 2 * i + 2 \<Longrightarrow> above (h ! i) (h ! k)"
  shows "heap_inv h"
  unfolding heap_inv_def
proof (intro conjI allI impI)
  fix k assume k: "0 < k \<and> k < length h"
  show "above (h ! parent k) (h ! k)"
  proof (cases "parent k = i")
    case True
    with k ch [of k] parent_children [of k i] show ?thesis by auto
  next
    case False
    with k inv show ?thesis by (simp add: down_inv_def)
  qed
qed (use inv in \<open>simp add: down_inv_def\<close>)

lemma down_inv_swap:
  assumes inv: "down_inv h i" and c: "c < length h" "parent c = i" "0 < c"
    and best: "\<And>k. k < length h \<Longrightarrow> 0 < k \<Longrightarrow> parent k = i \<Longrightarrow> above (h ! c) (h ! k)"
    and na: "above (h ! c) (h ! i)"
  shows "down_inv (swap h i c) c"
proof -
  have i: "i < c" "i < length h" using c parent_less [of c] by auto
  have sw: "k < length h \<Longrightarrow> swap h i c ! k = (if k = c then h ! i else if k = i then h ! c else h ! k)" for k
    using i c by (simp add: nth_swap)
  have edge: "0 < k \<Longrightarrow> k < length h \<Longrightarrow> parent k \<noteq> i \<Longrightarrow> above (h ! parent k) (h ! k)" for k
    using inv by (simp add: down_inv_def)
  have grand: "0 < k \<Longrightarrow> k < length h \<Longrightarrow> parent k = i \<Longrightarrow> 0 < i \<Longrightarrow> above (h ! parent i) (h ! k)" for k
    using inv by (simp add: down_inv_def)
  have "above (swap h i c ! parent k) (swap h i c ! k)"
    if k: "0 < k" "k < length h" "parent k \<noteq> c" for k
  proof -
    have pk: "parent k < k" "parent k < length h" using k parent_less [of k] by auto
    show ?thesis
    proof (cases "parent k = i")
      case True
      then show ?thesis using k pk sw best na i by auto
    next
      case False
      then show ?thesis using k pk sw edge [of k] grand [of c] c i by auto
    qed
  qed
  moreover have "above (swap h i c ! parent c) (swap h i c ! k)"
    if k: "0 < k" "k < length h" "parent k = c" for k
  proof -
    have "c < k" using k parent_less [of k] by auto
    then show ?thesis using k sw edge [of k] c i by auto
  qed
  ultimately show ?thesis using inv i c by (simp add: down_inv_def)
qed

lemma sift_child_best:
  assumes "\<forall>x \<in> set h. ok x" and "2 * i + 1 < length h"
  shows "k < length h \<Longrightarrow> k = 2 * i + 1 \<or> k = 2 * i + 2 \<Longrightarrow> above (h ! sift_child better h i) (h ! k)"
proof -
  assume k: "k < length h" "k = 2 * i + 1 \<or> k = 2 * i + 2"
  have ok: "n < length h \<Longrightarrow> ok (h ! n)" for n using assms(1) by simp
  show ?thesis
    using k assms(2) ok [of k] ok [of "2 * i + 1"] ok [of "2 * i + 2"]
      above_total [of "h ! (2 * i + 1)" "h ! (2 * i + 2)"]
    by (auto simp: sift_child_def Let_def better_iff above_refl)
qed

lemma heap_inv_sift_down: "down_inv h i \<Longrightarrow> heap_inv (sift_down better down_stop h i)"
proof (induction "length h - i" arbitrary: h i rule: less_induct)
  case less
  note ih = less.hyps and inv = less.prems
  show ?case
  proof (cases "2 * i + 1 < length h")
    case False
    then have "heap_inv h" using inv by (intro heap_invI_down) auto
    with False show ?thesis by (simp add: sift_down.simps)
  next
    case True
    define c where "c = sift_child better h i"
    have c: "c < length h" "i < c" using True sift_child_bounds [of i h better] by (simp_all add: c_def)
    have pc: "parent c = i" using sift_child_cases [of better h i] by (auto simp: c_def parent_def)
    have oks: "\<forall>x \<in> set h. ok x" using inv by (simp add: down_inv_def)
    then have ok: "ok (h ! c)" "ok (h ! i)" using c by simp_all
    note best = sift_child_best [OF oks True, folded c_def]
    have unf: "sift_down better down_stop h i =
        (if above (h ! i) (h ! c) then h else sift_down better down_stop (swap h i c) c)"
      using True ok by (simp add: sift_down.simps [of _ _ h i] Let_def down_stop_iff flip: c_def)
    show ?thesis
    proof (cases "above (h ! i) (h ! c)")
      case True
      have "heap_inv h"
      proof (rule heap_invI_down [OF inv])
        fix k assume "k < length h" "k = 2 * i + 1 \<or> k = 2 * i + 2"
        then show "above (h ! i) (h ! k)" using True best [of k] ok oks above_trans by (meson nth_mem)
      qed
      with True show ?thesis by (simp add: unf)
    next
      case False
      then have "above (h ! c) (h ! i)" using ok above_total by blast
      then have "down_inv (swap h i c) c"
        using inv c pc best parent_children by (intro down_inv_swap) auto
      then show ?thesis using False c ih [of "swap h i c" c] by (simp add: unf)
    qed
  qed
qed

lemma heap_inv_ok: "heap_inv h \<Longrightarrow> x \<in> set h \<Longrightarrow> ok x"
  by (simp add: heap_inv_def)

lemma heap_inv_Nil [simp]: "heap_inv []"
  by (simp add: heap_inv_def)

lemma down_inv_root: "heap_inv h \<Longrightarrow> ok x \<Longrightarrow> down_inv (h[0 := x]) 0"
  unfolding down_inv_def heap_inv_def
  by (auto simp: nth_list_update dest!: set_update_subset_insert [THEN subsetD])

lemma heap_inv_replace_top:
  "heap_inv h \<Longrightarrow> ok x \<Longrightarrow> heap_inv (heap_replace_top better down_stop h x)"
  unfolding heap_replace_top_def by (intro heap_inv_sift_down down_inv_root)

text \<open>The root stands above every element.\<close>

lemma heap_inv_root: "heap_inv h \<Longrightarrow> k < length h \<Longrightarrow> above (h ! 0) (h ! k)"
proof (induction k rule: less_induct)
  case (less k)
  show ?case
  proof (cases "k = 0")
    case True
    with less.prems show ?thesis by (simp add: heap_inv_def above_refl)
  next
    case False
    then have p: "parent k < k" by (simp add: parent_less)
    with less have "above (h ! 0) (h ! parent k)" by simp
    moreover have "above (h ! parent k) (h ! k)" using less.prems False by (simp add: heap_inv_def)
    moreover have "h \<noteq> []" using less.prems by auto
    ultimately show ?thesis
      using above_trans [of "h ! 0" "h ! parent k" "h ! k"] less.prems p
      by (simp add: heap_inv_def)
  qed
qed

lemma heap_inv_root_set: "heap_inv h \<Longrightarrow> x \<in> set h \<Longrightarrow> above (h ! 0) x"
  by (metis heap_inv_root in_set_conv_nth)

lemma heap_pop_inv:
  assumes "heap_inv h" and "h \<noteq> []" and "heap_pop better down_stop h = (x, r)"
  shows "heap_inv r" and "\<forall>y \<in> set h. above x y"
proof -
  define n where "n = length h - 1"
  have n: "length h = Suc n" using assms(2) by (simp add: n_def)
  have eq: "take n (swap h 0 n) = (take n h)[0 := h ! n]"
    using n by (simp add: swap_def take_update_swap list_update_beyond)
  have "0 < k \<Longrightarrow> k < n \<Longrightarrow> parent k < n" for k using parent_less [of k] by simp
  then have "heap_inv (take n h)"
    using assms(1) n by (auto simp: heap_inv_def dest: in_set_takeD)
  moreover have "ok (h ! n)" using assms(1) n by (simp add: heap_inv_def)
  ultimately have "heap_inv (sift_down better down_stop (take n (swap h 0 n)) 0)"
    unfolding eq by (intro heap_inv_sift_down down_inv_root)
  then show "heap_inv r" using assms(3) by (simp add: heap_pop_def n_def Let_def)
  show "\<forall>y \<in> set h. above x y"
    using heap_pop_mset(1) [OF assms(2,3)] heap_inv_root_set [OF assms(1)] by simp
qed

lemma heap_drain_sorted:
  "heap_inv h \<Longrightarrow> sorted_wrt above (heap_drain better down_stop h) \<and>
     mset (heap_drain better down_stop h) = mset h"
proof (induction h rule: measure_induct_rule [of length])
  case (less h)
  show ?case
  proof (cases "h = []")
    case True
    then show ?thesis by (simp add: heap_drain.simps)
  next
    case False
    obtain x r where pop: "heap_pop better down_stop h = (x, r)" by force
    note m = heap_pop_mset [OF False pop]
    have "length r < length h" using m(3) False by simp
    with less heap_pop_inv(1) [OF less.prems False pop]
    have ih: "sorted_wrt above (heap_drain better down_stop r)"
      "mset (heap_drain better down_stop r) = mset r" by blast+
    have "set (heap_drain better down_stop r) \<subseteq> set h"
      using ih(2) m(2) by (metis mset_subset_eqD set_mset_mset subsetI union_iff add_mset_add_single)
    then show ?thesis
      using False pop ih m(2) heap_pop_inv(2) [OF less.prems False pop]
      by (auto simp: heap_drain.simps [of _ _ h])
  qed
qed

end

text \<open>The bounded selection: \<open>skip\<close> decides whether the newcomer would stand above the root.\<close>

locale bounded_heap = array_heap +
  fixes skip :: "'a \<Rightarrow> 'a \<Rightarrow> bool"
  assumes skip_iff: "\<lbrakk>ok x; ok t\<rbrakk> \<Longrightarrow> skip x t \<longleftrightarrow> above x t"
begin

definition selects :: "nat \<Rightarrow> 'a list \<Rightarrow> 'a list \<Rightarrow> bool" where
  "selects lim xs h \<longleftrightarrow> heap_inv h \<and> length h = min lim (length xs) \<and>
     (\<exists>rest. mset xs = mset h + mset rest \<and> (\<forall>r \<in> set rest. \<forall>x \<in> set h. above r x))"

lemma selects_Nil: "selects lim [] []"
  by (simp add: selects_def)

text \<open>Replacing the root of a full selection by an item that is nearer.\<close>

lemma selects_replace:
  assumes h: "heap_inv h" "h \<noteq> []" and rest: "mset xs = mset h + mset rest" "\<forall>r \<in> set rest. \<forall>y \<in> set h. above r y" "\<forall>r \<in> set rest. ok r"
    and x: "ok x" "above (h ! 0) x"
  shows "mset (xs @ [x]) = mset (heap_replace_top better down_stop h x) + mset (h ! 0 # rest)"
    and "\<forall>r \<in> set (h ! 0 # rest). \<forall>y \<in> set (heap_replace_top better down_stop h x). above r y"
proof -
  show "mset (xs @ [x]) = mset (heap_replace_top better down_stop h x) + mset (h ! 0 # rest)"
    using rest(1) h(2) by (cases h) auto
  have top: "ok (h ! 0)" using h by (simp add: heap_inv_def)
  have root: "\<forall>y \<in> set h. above (h ! 0) y" using h(1) heap_inv_root_set by blast
  show "\<forall>r \<in> set (h ! 0 # rest). \<forall>y \<in> set (heap_replace_top better down_stop h x). above r y"
  proof (intro ballI)
    fix r y assume r: "r \<in> set (h ! 0 # rest)" and y: "y \<in> set (heap_replace_top better down_stop h x)"
    have rt: "above r (h ! 0)" "ok r" using r rest(2,3) h(2) top by (auto intro: above_refl nth_mem)
    have "above (h ! 0) y" "ok y"
      using y set_heap_replace_top [of better down_stop h x] x root h(1) heap_inv_ok by blast+
    with rt top show "above r y" using above_trans by blast
  qed
qed

lemma selects_offer:
  assumes sel: "selects lim xs h" and x: "ok x" and lim: "0 < lim" and xs: "\<forall>y \<in> set xs. ok y"
  shows "selects lim (xs @ [x]) (heap_offer skip up_stop better down_stop lim h x)"
proof -
  obtain rest where h: "heap_inv h" "length h = min lim (length xs)"
    and rest: "mset xs = mset h + mset rest" "\<forall>r \<in> set rest. \<forall>y \<in> set h. above r y"
    using sel by (auto simp: selects_def)
  have okr: "\<forall>r \<in> set rest. ok r" using rest(1) xs by (metis UnCI set_mset_mset set_mset_union)
  show ?thesis
  proof (cases "length h < lim")
    case True
    then have "length xs = length h" using h(2) by simp
    moreover have "length xs = length h + length rest"
      using arg_cong [OF rest(1), of size] by simp
    ultimately have "mset xs = mset h" using rest(1) by simp
    then show ?thesis
      using True heap_inv_push [OF h(1) x] \<open>length xs = length h\<close>
      unfolding selects_def heap_offer_def by (auto intro!: exI [of _ "[]"])
  next
    case full: False
    then have hn: "h \<noteq> []" "length h = lim" "lim \<le> length xs" using lim h(2) by auto
    have top: "ok (h ! 0)" using h(1) hn(1) by (simp add: heap_inv_def)
    have root: "\<forall>y \<in> set h. above (h ! 0) y" using h(1) heap_inv_root_set by blast
    show ?thesis
    proof (cases "above x (h ! 0)")
      case True
      have "\<forall>y \<in> set h. above x y"
        using True root x top h(1) above_trans heap_inv_ok by blast
      with True full h rest hn x top show ?thesis
        by (auto simp: selects_def heap_offer_def skip_iff intro!: exI [of _ "x # rest"])
    next
      case False
      let ?h = "heap_replace_top better down_stop h x"
      have inv: "heap_inv ?h" using h(1) x by (rule heap_inv_replace_top)
      have "above (h ! 0) x" using False x top above_total by blast
      from selects_replace [OF h(1) hn(1) rest okr x this] inv hn x top False full show ?thesis
        unfolding selects_def heap_offer_def by (auto simp: skip_iff intro!: exI [of _ "h ! 0 # rest"])
    qed
  qed
qed

lemma selects_foldl:
  assumes "0 < lim" and "\<forall>x \<in> set xs. ok x"
  shows "selects lim xs (foldl (heap_offer skip up_stop better down_stop lim) [] xs)"
  using assms(2)
proof (induction xs rule: rev_induct)
  case Nil
  show ?case by (simp add: selects_Nil)
next
  case (snoc x xs)
  then show ?case using selects_offer [OF _ _ assms(1)] by simp
qed

end

end
