(* ===== verification/GoFloat.thy ===== *)
theory GoFloat
  imports Prelude
begin

text \<open>
  Go's \<^verbatim>\<open>float32\<close> and \<^verbatim>\<open>float64\<close>: IEEE 754 binary32 and binary64 bit patterns with
  round-to-nearest-even arithmetic, as executable functions on natural numbers. Every
  operation is rounded on its own (no fused multiply-add, which the Go specification permits
  but the amd64 baseline compiler does not emit). The payload of a NaN is not modelled: every
  operation that yields a NaN yields the one of \<^verbatim>\<open>math.NaN()\<close>.
\<close>

type_synonym float64 = "64 word"
type_synonym float32 = "32 word"

section \<open>Formats and bit fields\<close>

text \<open>
  \<open>fbits\<close> fraction bits, \<open>qmin\<close> the exponent of the least subnormal, \<open>infb\<close> the magnitude
  bits of infinity, \<open>sbit\<close> the weight of the sign bit, \<open>nanb\<close> the quiet NaN.
\<close>

record flfmt =
  fbits :: nat
  qmin :: int
  infb :: nat
  sbit :: nat
  nanb :: nat

definition F64 :: flfmt where
  "F64 = \<lparr>fbits = 52, qmin = -1074, infb = 2047 * 2 ^ 52, sbit = 2 ^ 63,
          nanb = 0x7FF8000000000001\<rparr>"

definition F32 :: flfmt where
  "F32 = \<lparr>fbits = 23, qmin = -149, infb = 255 * 2 ^ 23, sbit = 2 ^ 31,
          nanb = 0x7FC00000\<rparr>"

definition fl_sgn :: "flfmt \<Rightarrow> nat \<Rightarrow> bool" where
  "fl_sgn F x \<longleftrightarrow> sbit F \<le> x"

definition fl_mag :: "flfmt \<Rightarrow> nat \<Rightarrow> nat" where
  "fl_mag F x = (if fl_sgn F x then x - sbit F else x)"

definition fl_pack :: "flfmt \<Rightarrow> bool \<Rightarrow> nat \<Rightarrow> nat" where
  "fl_pack F s m = (if s then sbit F + m else m)"

definition fl_isnan :: "flfmt \<Rightarrow> nat \<Rightarrow> bool" where
  "fl_isnan F x \<longleftrightarrow> infb F < fl_mag F x"

definition fl_isinf :: "flfmt \<Rightarrow> nat \<Rightarrow> bool" where
  "fl_isinf F x \<longleftrightarrow> fl_mag F x = infb F"

definition fl_iszero :: "flfmt \<Rightarrow> nat \<Rightarrow> bool" where
  "fl_iszero F x \<longleftrightarrow> fl_mag F x = 0"

text \<open>A finite magnitude as an integer significand and the exponent of its unit.\<close>

definition fl_unpack :: "flfmt \<Rightarrow> nat \<Rightarrow> nat \<times> int" where
  "fl_unpack F m =
     (let k = m div 2 ^ fbits F; f = m mod 2 ^ fbits F
      in if k = 0 then (f, qmin F) else (2 ^ fbits F + f, qmin F + int k - 1))"

section \<open>Rounding\<close>

fun bitlen :: "nat \<Rightarrow> nat" where
  "bitlen n = (if n = 0 then 0 else Suc (bitlen (n div 2)))"

declare bitlen.simps [simp del]

text \<open>The exponent of the unit in the last place of the float nearest to \<open>m * 2 ^ e\<close>.\<close>

definition fl_quant :: "flfmt \<Rightarrow> nat \<Rightarrow> int \<Rightarrow> int" where
  "fl_quant F m e = max (e + int (bitlen m) - int (fbits F + 1)) (qmin F)"

text \<open>
  The magnitude bits of the float nearest to \<open>m * 2 ^ e\<close>, ties to even. Adding the
  significand to the scaled exponent carries into the exponent field when rounding up reaches
  the next binade, and saturates at infinity.
\<close>

definition fl_round :: "flfmt \<Rightarrow> nat \<Rightarrow> int \<Rightarrow> nat" where
  "fl_round F m e =
     (if m = 0 then 0
      else let q = fl_quant F m e;
               base = nat (q - qmin F) * 2 ^ fbits F
           in if q \<le> e then min (infb F) (base + m * 2 ^ nat (e - q))
              else let s = nat (q - e); d = m div 2 ^ s; r = m mod 2 ^ s; h = 2 ^ (s - 1)
                   in min (infb F) (base + (if h < r \<or> (r = h \<and> odd d) then d + 1 else d)))"

section \<open>Arithmetic on bit patterns\<close>

definition fl_signed :: "bool \<Rightarrow> nat \<Rightarrow> int" where
  "fl_signed s m = (if s then - int m else int m)"

definition fl_neg :: "flfmt \<Rightarrow> nat \<Rightarrow> nat" where
  "fl_neg F x = fl_pack F (\<not> fl_sgn F x) (fl_mag F x)"

definition fl_add :: "flfmt \<Rightarrow> nat \<Rightarrow> nat \<Rightarrow> nat" where
  "fl_add F x y =
     (if fl_isnan F x \<or> fl_isnan F y then nanb F
      else if fl_isinf F x then
        (if fl_isinf F y \<and> fl_sgn F x \<noteq> fl_sgn F y then nanb F else x)
      else if fl_isinf F y then y
      else case (fl_unpack F (fl_mag F x), fl_unpack F (fl_mag F y)) of
        ((mx, ex), (my, ey)) \<Rightarrow>
          (let e = min ex ey;
               v = fl_signed (fl_sgn F x) (mx * 2 ^ nat (ex - e))
                 + fl_signed (fl_sgn F y) (my * 2 ^ nat (ey - e))
           in if v = 0 then fl_pack F (fl_sgn F x \<and> fl_sgn F y) 0
              else fl_pack F (v < 0) (fl_round F (nat \<bar>v\<bar>) e)))"

definition fl_sub :: "flfmt \<Rightarrow> nat \<Rightarrow> nat \<Rightarrow> nat" where
  "fl_sub F x y = fl_add F x (fl_neg F y)"

definition fl_mul :: "flfmt \<Rightarrow> nat \<Rightarrow> nat \<Rightarrow> nat" where
  "fl_mul F x y =
     (let s = (fl_sgn F x \<noteq> fl_sgn F y)
      in if fl_isnan F x \<or> fl_isnan F y then nanb F
         else if fl_isinf F x \<or> fl_isinf F y then
           (if fl_iszero F x \<or> fl_iszero F y then nanb F else fl_pack F s (infb F))
         else case (fl_unpack F (fl_mag F x), fl_unpack F (fl_mag F y)) of
           ((mx, ex), (my, ey)) \<Rightarrow> fl_pack F s (fl_round F (mx * my) (ex + ey)))"

text \<open>
  Division computes a quotient with more bits than the format keeps and a sticky bit for the
  remainder, then rounds once.
\<close>

definition fl_div :: "flfmt \<Rightarrow> nat \<Rightarrow> nat \<Rightarrow> nat" where
  "fl_div F x y =
     (let s = (fl_sgn F x \<noteq> fl_sgn F y)
      in if fl_isnan F x \<or> fl_isnan F y then nanb F
         else if fl_isinf F x then (if fl_isinf F y then nanb F else fl_pack F s (infb F))
         else if fl_isinf F y then fl_pack F s 0
         else if fl_iszero F y then
           (if fl_iszero F x then nanb F else fl_pack F s (infb F))
         else case (fl_unpack F (fl_mag F x), fl_unpack F (fl_mag F y)) of
           ((mx, ex), (my, ey)) \<Rightarrow>
             (let k = 2 * fbits F + 6; n = mx * 2 ^ k; q = n div my;
                  st = (if n mod my = 0 then 0 else 1)
              in fl_pack F s (fl_round F (2 * q + st) (ex - ey - int k - 1))))"

text \<open>The integer square root, one bit of the root per pair of bits of the argument.\<close>

fun isqrt :: "nat \<Rightarrow> nat" where
  "isqrt n = (if n = 0 then 0
              else let r = 2 * isqrt (n div 4) in if (r + 1) * (r + 1) \<le> n then r + 1 else r)"

declare isqrt.simps [simp del]

definition fl_sqrt :: "flfmt \<Rightarrow> nat \<Rightarrow> nat" where
  "fl_sqrt F x =
     (if fl_isnan F x then nanb F
      else if fl_iszero F x then x
      else if fl_sgn F x then nanb F
      else if fl_isinf F x then x
      else case fl_unpack F (fl_mag F x) of (m, e) \<Rightarrow>
        (let t = 2 * fbits F + 8 + (if even e then 0 else 1); n = m * 2 ^ t; r = isqrt n;
             st = (if r * r = n then 0 else 1)
         in fl_round F (2 * r + st) ((e - int t) div 2 - 1)))"

section \<open>The Go types and operators\<close>

definition f64_isnan :: "float64 \<Rightarrow> bool" where
  "f64_isnan x = fl_isnan F64 (unat x)"

definition f64_add :: "float64 \<Rightarrow> float64 \<Rightarrow> float64" where
  "f64_add x y = word_of_nat (fl_add F64 (unat x) (unat y))"

definition f64_sub :: "float64 \<Rightarrow> float64 \<Rightarrow> float64" where
  "f64_sub x y = word_of_nat (fl_sub F64 (unat x) (unat y))"

definition f64_mul :: "float64 \<Rightarrow> float64 \<Rightarrow> float64" where
  "f64_mul x y = word_of_nat (fl_mul F64 (unat x) (unat y))"

definition f64_div :: "float64 \<Rightarrow> float64 \<Rightarrow> float64" where
  "f64_div x y = word_of_nat (fl_div F64 (unat x) (unat y))"

definition f64_sqrt :: "float64 \<Rightarrow> float64" where
  "f64_sqrt x = word_of_nat (fl_sqrt F64 (unat x))"

definition f64_NaN :: float64 where
  "f64_NaN = word_of_nat (nanb F64)"

text \<open>\<^verbatim>\<open>float64(n)\<close> for an integer \<open>n\<close>.\<close>

definition f64_of_int :: "int \<Rightarrow> float64" where
  "f64_of_int n = word_of_nat (fl_pack F64 (n < 0) (fl_round F64 (nat \<bar>n\<bar>) 0))"

definition f32_isnan :: "float32 \<Rightarrow> bool" where
  "f32_isnan x = fl_isnan F32 (unat x)"

definition f32_sub :: "float32 \<Rightarrow> float32 \<Rightarrow> float32" where
  "f32_sub x y = word_of_nat (fl_sub F32 (unat x) (unat y))"

text \<open>Conversion between formats: exact when widening, one rounding when narrowing.\<close>

definition fl_conv :: "flfmt \<Rightarrow> flfmt \<Rightarrow> nat \<Rightarrow> nat" where
  "fl_conv F G x =
     (if fl_isnan F x then nanb G
      else if fl_isinf F x then fl_pack G (fl_sgn F x) (infb G)
      else case fl_unpack F (fl_mag F x) of (m, e) \<Rightarrow> fl_pack G (fl_sgn F x) (fl_round G m e))"

definition f32_to_f64 :: "float32 \<Rightarrow> float64" where
  "f32_to_f64 x = word_of_nat (fl_conv F32 F64 (unat x))"

definition f64_to_f32 :: "float64 \<Rightarrow> float32" where
  "f64_to_f32 x = word_of_nat (fl_conv F64 F32 (unat x))"

text \<open>
  Comparison. On patterns that are not NaN the value order is the order of the signed
  magnitudes (both zeros have key 0); every comparison with a NaN is false.
\<close>

definition f64_key :: "float64 \<Rightarrow> int" where
  "f64_key x = fl_signed (fl_sgn F64 (unat x)) (fl_mag F64 (unat x))"

definition f64_lt :: "float64 \<Rightarrow> float64 \<Rightarrow> bool" where
  "f64_lt x y \<longleftrightarrow> \<not> f64_isnan x \<and> \<not> f64_isnan y \<and> f64_key x < f64_key y"

definition f64_le :: "float64 \<Rightarrow> float64 \<Rightarrow> bool" where
  "f64_le x y \<longleftrightarrow> \<not> f64_isnan x \<and> \<not> f64_isnan y \<and> f64_key x \<le> f64_key y"

definition f64_eq :: "float64 \<Rightarrow> float64 \<Rightarrow> bool" where
  "f64_eq x y \<longleftrightarrow> \<not> f64_isnan x \<and> \<not> f64_isnan y \<and> f64_key x = f64_key y"

section \<open>Facts on rounding\<close>

lemma bitlen_0 [simp]: "bitlen 0 = 0"
  by (simp add: bitlen.simps)

lemma bitlen_bounds: "0 < m \<Longrightarrow> 2 ^ (bitlen m - 1) \<le> m \<and> m < 2 ^ bitlen m \<and> 0 < bitlen m"
proof (induction m rule: bitlen.induct)
  case (1 m)
  show ?case
  proof (cases "m = 1")
    case True
    then show ?thesis by (simp add: bitlen.simps [of "Suc 0"])
  next
    case False
    with "1.prems" have half: "0 < m div 2" by simp
    with "1.IH" "1.prems" have IH: "2 ^ (bitlen (m div 2) - 1) \<le> m div 2"
      "m div 2 < 2 ^ bitlen (m div 2)" "0 < bitlen (m div 2)" by auto
    have len: "bitlen m = Suc (bitlen (m div 2))"
      using "1.prems" by (simp add: bitlen.simps [of m])
    have pow: "(2::nat) ^ bitlen (m div 2) = 2 * 2 ^ (bitlen (m div 2) - 1)"
      using IH(3) by (cases "bitlen (m div 2)") auto
    have "2 ^ bitlen (m div 2) \<le> m"
      unfolding pow using IH(1) by linarith
    moreover have "m < 2 * 2 ^ bitlen (m div 2)"
      using IH(2) by linarith
    ultimately show ?thesis by (simp add: len)
  qed
qed

lemma bitlen_unique:
  assumes "2 ^ k \<le> m" and "m < 2 ^ Suc k"
  shows "bitlen m = Suc k"
proof -
  have "0 < m" using assms(1) by (metis gr0I not_exp_less_eq_0_int power_not_zero not_less less_le_trans zero_less_numeral zero_less_power)
  then have b: "2 ^ (bitlen m - 1) \<le> m" "m < 2 ^ bitlen m" "0 < bitlen m"
    using bitlen_bounds by auto
  have "(2::nat) ^ k < 2 ^ bitlen m" "(2::nat) ^ (bitlen m - 1) < 2 ^ Suc k"
    using assms b by linarith+
  then have "k < bitlen m" "bitlen m - 1 < Suc k"
    by (simp_all only: power_strict_increasing_iff one_less_numeral_iff semiring_norm)
  then show ?thesis by linarith
qed

lemma bitlen_le: "m < 2 ^ k \<Longrightarrow> bitlen m \<le> k"
proof (cases "m = 0")
  case False
  assume "m < 2 ^ k"
  moreover have "2 ^ (bitlen m - 1) \<le> m" using False bitlen_bounds by auto
  ultimately have "(2::nat) ^ (bitlen m - 1) < 2 ^ k" by linarith
  then have "bitlen m - 1 < k" by simp
  then show ?thesis by linarith
qed simp

lemma bitlen_shift: "0 < m \<Longrightarrow> bitlen (m * 2 ^ s) = bitlen m + s"
proof -
  assume "0 < m"
  then have b: "2 ^ (bitlen m - 1) \<le> m" "m < 2 ^ bitlen m" "0 < bitlen m"
    using bitlen_bounds by auto
  then obtain k where k: "bitlen m = Suc k" by (cases "bitlen m") auto
  have "2 ^ (k + s) \<le> m * 2 ^ s" "m * 2 ^ s < 2 ^ Suc (k + s)"
    using b by (auto simp: k power_add)
  from bitlen_unique [OF this] show ?thesis by (simp add: k)
qed

text \<open>Rounding depends on the value \<open>m * 2 ^ e\<close> only, not on how it is written.\<close>

lemma fl_round_shift: "fl_round F (m * 2 ^ s) (e - int s) = fl_round F m e"
proof (cases "m = 0")
  case True
  then show ?thesis by (simp add: fl_round_def)
next
  case False
  define q where "q = fl_quant F m e"
  have q': "fl_quant F (m * 2 ^ s) (e - int s) = q"
    using False by (simp add: q_def fl_quant_def bitlen_shift)
  consider (small) "q \<le> e - int s" | (mid) "e - int s < q" "q \<le> e" | (large) "e < q"
    by linarith
  then show ?thesis
  proof cases
    case small
    then have "nat (e - q) = s + nat (e - int s - q)" by simp
    then show ?thesis
      using False small q' by (simp add: fl_round_def Let_def power_add mult.assoc flip: q_def)
  next
    case mid
    define t where "t = nat (q - (e - int s))"
    have t: "t \<le> s" "s - t = nat (e - q)" "0 < t" using mid by (auto simp: t_def)
    have split: "(2::nat) ^ s = 2 ^ (s - t) * 2 ^ t"
      using t(1) by (simp flip: power_add)
    have dm: "m * 2 ^ s div 2 ^ t = m * 2 ^ (s - t)" "m * 2 ^ s mod 2 ^ t = 0"
      by (simp_all add: split flip: mult.assoc)
    show ?thesis
      using False mid q' by (simp add: fl_round_def Let_def dm t(2) flip: q_def t_def)
  next
    case large
    then obtain u where u': "nat (q - e) = Suc u"
      by (metis gr0_implies_Suc zero_less_nat_eq diff_gt_0_iff_gt)
    then have u: "nat (q - (e - int s)) = Suc u + s" by simp
    have dv: "m * 2 ^ s div 2 ^ (Suc u + s) = m div 2 ^ Suc u"
      and md: "m * 2 ^ s mod 2 ^ (Suc u + s) = m mod 2 ^ Suc u * 2 ^ s"
      by (simp_all only: power_add mult_mod_left div_mult_mult2 power_not_zero) simp_all
    have h: "(2::nat) ^ (u + s) = 2 ^ u * 2 ^ s"
      by (simp add: power_add)
    show ?thesis
      using False large q'
      by (simp add: fl_round_def Let_def u u' dv md h del: power_Suc add_Suc flip: q_def)
  qed
qed

text \<open>A finite magnitude rounds to itself.\<close>

lemma fl_round_unpack:
  assumes "mg < infb F" and "fl_unpack F mg = (m, e)"
  shows "fl_round F m e = mg"
proof -
  define k f where "k = mg div 2 ^ fbits F" and "f = mg mod 2 ^ fbits F"
  have mg: "mg = k * 2 ^ fbits F + f" and f: "f < 2 ^ fbits F"
    by (simp_all add: k_def f_def mult.commute)
  show ?thesis
  proof (cases "k = 0")
    case True
    then have me: "m = f" "e = qmin F" "mg = f"
      using assms(2) mg f by (auto simp: fl_unpack_def Let_def)
    have "bitlen f \<le> fbits F" using f by (rule bitlen_le)
    then have "fl_quant F m e = e"
      by (simp add: me fl_quant_def)
    then show ?thesis using assms(1) me by (auto simp: fl_round_def Let_def)
  next
    case False
    then have me: "m = 2 ^ fbits F + f" "e = qmin F + int k - 1"
      using assms(2) by (auto simp: fl_unpack_def Let_def simp flip: k_def f_def)
    have "bitlen m = Suc (fbits F)"
      using f by (intro bitlen_unique) (auto simp: me)
    then have q: "fl_quant F m e = e"
      using False by (simp add: me fl_quant_def)
    have "nat (e - qmin F) * 2 ^ fbits F + m = mg"
    proof -
      have "nat (e - qmin F) = k - 1" using False by (simp add: me nat_diff_distrib')
      then show ?thesis using False by (cases k) (simp_all add: me mg)
    qed
    then show ?thesis using assms(1) q by (auto simp: fl_round_def Let_def me(1))
  qed
qed

text \<open>
  A value that needs no more bits than the format has is represented exactly: unpacking the
  rounded magnitude gives the same value, written with the exponent of its own unit.
\<close>

lemma fl_unpack_round:
  assumes "0 < m" and "q = fl_quant F m e" and "q \<le> e"
    and "nat (q - qmin F) * 2 ^ fbits F + m * 2 ^ nat (e - q) < infb F"
  shows "fl_unpack F (fl_round F m e) = (m * 2 ^ nat (e - q), q)"
proof -
  define m' where "m' = m * 2 ^ nat (e - q)"
  have len: "bitlen m' = bitlen m + nat (e - q)"
    using assms(1) by (simp add: m'_def bitlen_shift)
  have b: "2 ^ (bitlen m' - 1) \<le> m'" "m' < 2 ^ bitlen m'" "0 < bitlen m'"
    using bitlen_bounds [of m'] assms(1) by (auto simp: m'_def)
  have lem: "bitlen m' \<le> fbits F + 1"
    using assms(2,3) by (simp add: len fl_quant_def) linarith
  have r: "fl_round F m e = nat (q - qmin F) * 2 ^ fbits F + m'"
    using assms by (simp add: fl_round_def Let_def m'_def flip: assms(2))
  have up: "m' < 2 * 2 ^ fbits F"
    using b(2) lem power_increasing [OF lem, of "2::nat"] by simp
  show ?thesis
  proof (cases "q = qmin F")
    case True
    show ?thesis
    proof (cases "m' < 2 ^ fbits F")
      case True
      with \<open>q = qmin F\<close> show ?thesis by (simp add: r fl_unpack_def m'_def)
    next
      case False
      then have "m' div 2 ^ fbits F = 1" "m' mod 2 ^ fbits F = m' - 2 ^ fbits F"
        using up by (simp_all add: div_nat_eqI mod_if [of m'])
      with \<open>q = qmin F\<close> False show ?thesis by (simp add: r fl_unpack_def m'_def)
    qed
  next
    case False
    then have gt: "qmin F < q" and "e + int (bitlen m) - int (fbits F + 1) = q"
      using assms(2) by (simp_all add: fl_quant_def)
    then have "bitlen m' = Suc (fbits F)"
      using assms(3) by (simp add: len)
    then have lo: "2 ^ fbits F \<le> m'" using b(1) by simp
    have "(nat (q - qmin F) * 2 ^ fbits F + m') div 2 ^ fbits F = nat (q - qmin F) + 1"
      "(nat (q - qmin F) * 2 ^ fbits F + m') mod 2 ^ fbits F = m' - 2 ^ fbits F"
      using lo up by (simp_all add: div_nat_eqI mod_if [of m'])
    with lo gt show ?thesis by (simp add: r fl_unpack_def flip: m'_def)
  qed
qed

lemma fl_round_le_inf: "fl_round F m e \<le> infb F"
  by (simp add: fl_round_def Let_def)

lemma fl_round_0 [simp]: "fl_round F 0 e = 0"
  by (simp add: fl_round_def)

section \<open>Facts on the two formats\<close>

lemma F64_sel [simp]:
  "fbits F64 = 52" "qmin F64 = -1074" "infb F64 = 9218868437227405312"
  "sbit F64 = 9223372036854775808" "nanb F64 = 9221120237041090561"
  by (simp_all add: F64_def)

lemma F32_sel [simp]:
  "fbits F32 = 23" "qmin F32 = -149" "infb F32 = 2139095040"
  "sbit F32 = 2147483648" "nanb F32 = 2143289344"
  by (simp_all add: F32_def)

definition fmt_ok :: "flfmt \<Rightarrow> bool" where
  "fmt_ok F \<longleftrightarrow> 0 < infb F \<and> infb F < nanb F \<and> nanb F < sbit F"

lemma fmt_ok_std [simp]: "fmt_ok F64" "fmt_ok F32"
  by (simp_all add: fmt_ok_def)

lemma fl_pack_fields:
  "m < sbit F \<Longrightarrow> fl_sgn F (fl_pack F s m) = s"
  "m < sbit F \<Longrightarrow> fl_mag F (fl_pack F s m) = m"
  by (simp_all add: fl_sgn_def fl_mag_def fl_pack_def)

lemma fl_pack_eta [simp]: "fl_pack F (fl_sgn F x) (fl_mag F x) = x"
  by (simp add: fl_pack_def fl_mag_def fl_sgn_def)

lemma fl_nan_fields [simp]:
  "fmt_ok F \<Longrightarrow> fl_isnan F (nanb F)" "fmt_ok F \<Longrightarrow> \<not> fl_sgn F (nanb F)"
  "fmt_ok F \<Longrightarrow> fl_mag F (nanb F) = nanb F"
  by (simp_all add: fmt_ok_def fl_isnan_def fl_mag_def fl_sgn_def)

lemma fl_round_lt_sbit: "fmt_ok F \<Longrightarrow> fl_round F m e < sbit F"
  using fl_round_le_inf [of F m e] by (simp add: fmt_ok_def)

lemma fl_pack_round [simp]:
  "fmt_ok F \<Longrightarrow> fl_sgn F (fl_pack F s (fl_round F m e)) = s"
  "fmt_ok F \<Longrightarrow> fl_mag F (fl_pack F s (fl_round F m e)) = fl_round F m e"
  "fmt_ok F \<Longrightarrow> fl_sgn F (fl_pack F s 0) = s"
  "fmt_ok F \<Longrightarrow> fl_mag F (fl_pack F s 0) = 0"
  "fmt_ok F \<Longrightarrow> fl_sgn F (fl_pack F s (infb F)) = s"
  "fmt_ok F \<Longrightarrow> fl_mag F (fl_pack F s (infb F)) = infb F"
  by (auto intro!: fl_pack_fields fl_round_lt_sbit simp: fmt_ok_def)

lemma fl_neg_fields [simp]:
  "fl_mag F x < sbit F \<Longrightarrow> fl_sgn F (fl_neg F x) = (\<not> fl_sgn F x)"
  "fl_mag F x < sbit F \<Longrightarrow> fl_mag F (fl_neg F x) = fl_mag F x"
  by (simp_all add: fl_neg_def fl_pack_fields)

lemma fl_isnan_mag: "fl_isnan F x \<longleftrightarrow> infb F < fl_mag F x"
  and fl_isinf_mag: "fl_isinf F x \<longleftrightarrow> fl_mag F x = infb F"
  by (simp_all add: fl_isnan_def fl_isinf_def)

subsection \<open>Signs\<close>

lemma fl_mul_self_sgn: "fmt_ok F \<Longrightarrow> \<not> fl_sgn F (fl_mul F x x)"
  by (auto simp: fl_mul_def Let_def split: prod.splits)

lemma fl_add_sgn:
  assumes "fmt_ok F" and "\<not> fl_sgn F x" and "\<not> fl_sgn F y"
  shows "\<not> fl_sgn F (fl_add F x y)"
  using assms
  by (auto simp: fl_add_def Let_def fl_signed_def not_less [symmetric] simp flip: of_nat_mult of_nat_power
      split: prod.splits)

subsection \<open>Ranges\<close>

lemma fl_pack_lt: "m < sbit F \<Longrightarrow> fl_pack F s m < 2 * sbit F"
  by (simp add: fl_pack_def)

lemma fl_add_lt: "fmt_ok F \<Longrightarrow> x < 2 * sbit F \<Longrightarrow> y < 2 * sbit F \<Longrightarrow> fl_add F x y < 2 * sbit F"
  using fl_round_lt_sbit [of F]
  by (auto simp: fl_add_def Let_def fmt_ok_def intro!: fl_pack_lt split: prod.splits)

lemma fl_mul_lt: "fmt_ok F \<Longrightarrow> fl_mul F x y < 2 * sbit F"
  using fl_round_lt_sbit [of F]
  by (auto simp: fl_mul_def Let_def fmt_ok_def intro!: fl_pack_lt split: prod.splits)

lemma fl_conv_lt: "fmt_ok G \<Longrightarrow> fl_conv F G x < 2 * sbit G"
  using fl_round_lt_sbit [of G]
  by (auto simp: fl_conv_def fmt_ok_def intro!: fl_pack_lt split: prod.splits)

lemma fl_mag_lt: "x < 2 * sbit F \<Longrightarrow> 0 < sbit F \<Longrightarrow> fl_mag F x < sbit F"
  by (auto simp: fl_mag_def fl_sgn_def)

lemma fl_neg_lt: "x < 2 * sbit F \<Longrightarrow> 0 < sbit F \<Longrightarrow> fl_neg F x < 2 * sbit F"
  by (auto simp: fl_neg_def intro!: fl_pack_lt fl_mag_lt)

lemma unat_lt_fmt [simp]: "unat (x :: float64) < 2 * sbit F64" "unat (y :: float32) < 2 * sbit F32"
  using unsigned_less [of x, where 'a = nat] unsigned_less [of y, where 'a = nat] by simp_all

lemma unat_of_fl64: "n < 2 * sbit F64 \<Longrightarrow> unat (word_of_nat n :: float64) = n"
  and unat_of_fl32: "n < 2 * sbit F32 \<Longrightarrow> unat (word_of_nat n :: float32) = n"
  by (simp_all add: unsigned_of_nat take_bit_nat_eq_self)

lemma fl64_results [simp]:
  "unat (f64_add a b) = fl_add F64 (unat a) (unat b)"
  "unat (f64_mul a b) = fl_mul F64 (unat a) (unat b)"
  "unat (f32_to_f64 x) = fl_conv F32 F64 (unat x)"
  "unat (f64_to_f32 a) = fl_conv F64 F32 (unat a)"
  unfolding f64_add_def f64_mul_def f32_to_f64_def f64_to_f32_def
  by (intro unat_of_fl64 unat_of_fl32 fl_add_lt fl_mul_lt fl_conv_lt; simp del: F64_sel F32_sel)+

lemma fl32_sub_result [simp]: "unat (f32_sub x y) = fl_sub F32 (unat x) (unat y)"
proof -
  have "0 < sbit F32" by simp
  with unat_lt_fmt(2) have "fl_neg F32 (unat y) < 2 * sbit F32" by (rule fl_neg_lt)
  then show ?thesis
    unfolding f32_sub_def fl_sub_def by (intro unat_of_fl32 fl_add_lt) (simp_all del: F32_sel)
qed


subsection \<open>Widening and narrowing\<close>

lemma fl_unpack_bounds32:
  assumes "mg < infb F32" and "fl_unpack F32 mg = (m, e)"
  shows "m < 2 ^ 24" and "-149 \<le> e" and "e \<le> 104"
proof -
  have "mg mod 8388608 < 8388608" by simp
  moreover have "mg div 8388608 < 255" using assms(1) by simp
  ultimately show "m < 2 ^ 24" "-149 \<le> e" "e \<le> 104"
    using assms(2) by (auto simp: fl_unpack_def Let_def split: if_splits)
qed

lemma fl_widen_exact:
  assumes "mg < infb F32" and "fl_unpack F32 mg = (m, e)" and "0 < m"
  shows "fl_round F64 m e < infb F64"
    and "\<exists>s. fl_unpack F64 (fl_round F64 m e) = (m * 2 ^ s, e - int s)"
proof -
  note b = fl_unpack_bounds32 [OF assms(1,2)]
  define q where "q = fl_quant F64 m e"
  have L: "bitlen m \<le> 24" using b(1) by (rule bitlen_le)
  have q: "q = max (e + int (bitlen m) - 53) (-1074)" by (simp add: q_def fl_quant_def)
  have qe: "q \<le> e" "-1074 \<le> q" "q \<le> 75" using L b by (auto simp: q)
  have "bitlen m + nat (e - q) \<le> 53" using qe(1) q by linarith
  then have "bitlen (m * 2 ^ nat (e - q)) \<le> 53" using assms(3) by (simp add: bitlen_shift)
  moreover have "m * 2 ^ nat (e - q) < 2 ^ bitlen (m * 2 ^ nat (e - q))"
    using bitlen_bounds [of "m * 2 ^ nat (e - q)"] assms(3) by simp
  ultimately have up: "m * 2 ^ nat (e - q) < 2 ^ 53"
    by (meson less_le_trans one_le_numeral power_increasing)
  have "nat (q + 1074) \<le> 1149" using qe by simp
  then have "nat (q + 1074) * 2 ^ 52 \<le> 1149 * 2 ^ (52::nat)" by simp
  then have lt: "nat (q - qmin F64) * 2 ^ fbits F64 + m * 2 ^ nat (e - q) < infb F64"
    using up by simp
  have "fl_round F64 m e = nat (q - qmin F64) * 2 ^ fbits F64 + m * 2 ^ nat (e - q)"
    using assms(3) qe(1) lt by (simp add: fl_round_def Let_def flip: q_def)
  with lt show "fl_round F64 m e < infb F64" by simp
  from fl_unpack_round [OF assms(3) q_def qe(1) lt] qe(1)
  show "\<exists>s. fl_unpack F64 (fl_round F64 m e) = (m * 2 ^ s, e - int s)"
    by (intro exI [of _ "nat (e - q)"]) simp
qed

lemma fl_conv_roundtrip:
  assumes "\<not> fl_isnan F32 x"
  shows "fl_conv F64 F32 (fl_conv F32 F64 x) = x"
proof (cases "fl_isinf F32 x")
  case True
  then have "fl_conv F32 F64 x = fl_pack F64 (fl_sgn F32 x) (infb F64)"
    using assms by (simp add: fl_conv_def)
  moreover have "x = fl_pack F32 (fl_sgn F32 x) (infb F32)"
    using True by (metis fl_isinf_mag fl_pack_eta)
  ultimately show ?thesis
    by (simp add: fl_conv_def fl_isnan_mag fl_isinf_mag del: F64_sel F32_sel)
next
  case False
  define mg where "mg = fl_mag F32 x"
  have mg: "mg < infb F32" using assms False by (auto simp: mg_def fl_isnan_mag fl_isinf_mag)
  obtain m e where me: "fl_unpack F32 mg = (m, e)" by fastforce
  have w: "fl_conv F32 F64 x = fl_pack F64 (fl_sgn F32 x) (fl_round F64 m e)"
    using assms False me by (simp add: fl_conv_def flip: mg_def)
  have rt: "fl_round F32 m e = mg" using mg me by (rule fl_round_unpack)
  show ?thesis
  proof (cases "m = 0")
    case True
    then have "mg = 0" using rt by simp
    moreover have "fl_unpack F64 0 = (0, -1074)" by (simp add: fl_unpack_def)
    ultimately show ?thesis
      using True w fl_pack_eta [of F32 x]
      by (simp add: fl_conv_def fl_isnan_mag fl_isinf_mag flip: mg_def del: fl_pack_eta)
  next
    case False
    then have pos: "0 < m" by simp
    note fin = fl_widen_exact(1) [OF mg me pos]
    obtain s where s: "fl_unpack F64 (fl_round F64 m e) = (m * 2 ^ s, e - int s)"
      using fl_widen_exact(2) [OF mg me pos] by blast
    have "fl_conv F64 F32 (fl_conv F32 F64 x) = fl_pack F32 (fl_sgn F32 x) mg"
      unfolding w using fin s
      by (simp add: fl_conv_def [of F64] fl_isnan_mag fl_isinf_mag fl_round_shift rt
          del: F64_sel F32_sel)
    then show ?thesis by (simp add: mg_def)
  qed
qed

lemma f32_f64_roundtrip: "\<not> f32_isnan x \<Longrightarrow> f64_to_f32 (f32_to_f64 x) = x"
  by (rule word_unat_eq_iff [THEN iffD2]) (simp add: f32_isnan_def fl_conv_roundtrip)

lemma inf_lt_nan: "infb F64 < nanb F64" "infb F32 < nanb F32"
  by simp_all

lemma f32_to_f64_isnan [simp]: "f64_isnan (f32_to_f64 x) = f32_isnan x"
  using fl_round_le_inf [of F64] inf_lt_nan
  by (auto simp: f64_isnan_def f32_isnan_def fl_conv_def fl_isnan_mag [of F64] not_less
      simp del: F64_sel split: prod.splits)

lemma f64_to_f32_isnan [simp]: "f32_isnan (f64_to_f32 x) = f64_isnan x"
  using fl_round_le_inf [of F32] inf_lt_nan
  by (auto simp: f64_isnan_def f32_isnan_def fl_conv_def fl_isnan_mag [of F32] not_less
      simp del: F32_sel split: prod.splits)

subsection \<open>Differences and squares\<close>

lemma f32_sub_self: "\<not> fl_isnan F32 (unat x) \<Longrightarrow> \<not> fl_isinf F32 (unat x) \<Longrightarrow> f32_sub x x = 0"
proof -
  assume fin: "\<not> fl_isnan F32 (unat x)" "\<not> fl_isinf F32 (unat x)"
  have lt: "fl_mag F32 (unat x) < sbit F32" using unat_lt_fmt(2) by (rule fl_mag_lt) simp
  have "fl_sub F32 (unat x) (unat x) = 0"
    using fin lt
    by (auto simp: fl_sub_def fl_add_def fl_isnan_mag fl_isinf_mag fl_signed_def fl_pack_def
        split: prod.splits)
  then show ?thesis by (simp add: f32_sub_def)
qed

lemma fl_mul_self_mag:
  "fl_mag F x = fl_mag F y \<Longrightarrow> fl_mul F x x = fl_mul F y y"
  by (simp add: fl_mul_def fl_isnan_mag fl_isinf_mag fl_iszero_def)

lemma fl_conv_mag:
  assumes "fmt_ok G" and "fl_mag F x = fl_mag F y"
  shows "fl_mag G (fl_conv F G x) = fl_mag G (fl_conv F G y)"
  using assms by (simp add: fl_conv_def fl_isnan_mag fl_isinf_mag split: prod.splits)

lemma fl_sub_finite:
  assumes "fmt_ok F" and "fl_mag F x < infb F" and "fl_mag F y < infb F"
    and "fl_unpack F (fl_mag F x) = (mx, ex)" and "fl_unpack F (fl_mag F y) = (my, ey)"
  shows "fl_mag F (fl_sub F x y) =
    fl_round F (nat \<bar>fl_signed (fl_sgn F x) (mx * 2 ^ nat (ex - min ex ey))
                   - fl_signed (fl_sgn F y) (my * 2 ^ nat (ey - min ex ey))\<bar>) (min ex ey)"
proof -
  have lt: "fl_mag F y < sbit F" using assms(1,3) by (simp add: fmt_ok_def)
  have neg: "fl_signed (\<not> s) k = - fl_signed s k" for s k by (simp add: fl_signed_def)
  have cls: "\<not> fl_isnan F x" "\<not> fl_isinf F x"
    "\<not> fl_isnan F (fl_neg F y)" "\<not> fl_isinf F (fl_neg F y)"
    using assms(2,3) lt by (simp_all add: fl_isnan_mag fl_isinf_mag)
  show ?thesis
    using assms(1) lt cls by (simp add: fl_sub_def fl_add_def assms(4,5) neg Let_def)
qed

lemma fl_sub_swap_mag:
  assumes "fmt_ok F" and "fl_mag F x < sbit F" and "fl_mag F y < sbit F"
  shows "fl_mag F (fl_sub F x y) = fl_mag F (fl_sub F y x)"
proof (cases "fl_mag F x < infb F \<and> fl_mag F y < infb F")
  case True
  obtain mx ex my ey where u: "fl_unpack F (fl_mag F x) = (mx, ex)"
    "fl_unpack F (fl_mag F y) = (my, ey)" by fastforce
  show ?thesis
    using True assms(1) fl_sub_finite [OF _ _ _ u] fl_sub_finite [OF _ _ _ u(2,1)]
    by (simp add: min.commute abs_minus_commute)
next
  case False
  then consider "fl_isnan F x \<or> fl_isnan F y"
    | "\<not> fl_isnan F x" "\<not> fl_isnan F y" "fl_isinf F x \<or> fl_isinf F y"
    using less_linear [of "infb F" "fl_mag F x"] less_linear [of "infb F" "fl_mag F y"]
    by (metis fl_isnan_mag fl_isinf_mag)
  then show ?thesis
    using assms by cases (auto simp: fl_sub_def fl_add_def fl_isnan_mag fl_isinf_mag)
qed

section \<open>Order\<close>

lemma f64_cmp_key:
  "\<not> f64_isnan x \<Longrightarrow> \<not> f64_isnan y \<Longrightarrow> f64_le x y \<longleftrightarrow> f64_key x \<le> f64_key y"
  "\<not> f64_isnan x \<Longrightarrow> \<not> f64_isnan y \<Longrightarrow> f64_lt x y \<longleftrightarrow> f64_key x < f64_key y"
  "\<not> f64_isnan x \<Longrightarrow> \<not> f64_isnan y \<Longrightarrow> f64_eq x y \<longleftrightarrow> f64_key x = f64_key y"
  by (simp_all add: f64_le_def f64_lt_def f64_eq_def)

text \<open>The idiom \<^verbatim>\<open>d == d\<close> tests for a number.\<close>

lemma f64_eq_self: "f64_eq x x \<longleftrightarrow> \<not> f64_isnan x"
  by (simp add: f64_eq_def)

lemma f64_cmp_nan:
  "f64_isnan x \<Longrightarrow> \<not> f64_le x y" "f64_isnan y \<Longrightarrow> \<not> f64_le x y"
  "f64_isnan x \<Longrightarrow> \<not> f64_lt x y" "f64_isnan y \<Longrightarrow> \<not> f64_lt x y"
  by (simp_all add: f64_le_def f64_lt_def)

section \<open>Evaluation on literals\<close>

lemma bitlen_numeral [simp]:
  "bitlen (Suc 0) = 1"
  "bitlen (numeral Num.One) = 1"
  "bitlen (numeral (Num.Bit0 n)) = bitlen (numeral n) + 1"
  "bitlen (numeral (Num.Bit1 n)) = bitlen (numeral n) + 1"
  by (simp_all add: bitlen.simps [of "Suc 0"] bitlen.simps [of "numeral (Num.Bit0 n)"]
      bitlen.simps [of "numeral (Num.Bit1 n)"])

lemmas float_eval =
  f64_add_def f64_sub_def f64_mul_def f64_isnan_def f32_isnan_def f32_sub_def f32_to_f64_def
  f64_to_f32_def f64_NaN_def fl_add_def fl_sub_def fl_mul_def fl_conv_def fl_neg_def fl_signed_def
  fl_round_def fl_quant_def fl_unpack_def fl_isnan_def fl_isinf_def fl_iszero_def fl_mag_def
  fl_pack_def fl_sgn_def f64_lt_def f64_le_def f64_eq_def f64_key_def Let_def

end
