(* ===== verification/Distance.thy ===== *)
theory Distance
  imports GoFloat "HOL-Library.Monad_Syntax"
begin

text \<open>
  \<^verbatim>\<open>internal/vector\<close>: the vector arithmetic of \<^verbatim>\<open>vector.go\<close> and the distance kernels of
  \<^verbatim>\<open>distance.go\<close>, with their loop structure (four components per iteration, then the tail) and
  their index reads: a kernel result \<open>None\<close> is the run-time panic of an out-of-range index.
  The lemmas reduce the unrolled kernels to one recursion over the list of differences, and
  derive from it when the kernels panic, that the four-query kernel computes the same bits as
  the single-query kernel, and that distances are symmetric, never negative, and zero on equal
  finite vectors.
\<close>

section \<open>Vectors (\<^verbatim>\<open>vector.go\<close>)\<close>

record mvector =
  mvValues :: "float64 list"

definition NewVector :: "float64 list \<Rightarrow> mvector" where
  "NewVector values = \<lparr>mvValues = values\<rparr>"

definition Vector_Add :: "mvector \<Rightarrow> mvector \<Rightarrow> mvector option" where
  "Vector_Add v other =
     (if length (mvValues v) \<noteq> length (mvValues other) then None
      else Some (NewVector
        (map (\<lambda>i. f64_add (mvValues v ! i) (mvValues other ! i)) [0..<length (mvValues v)])))"

definition Vector_Subtract :: "mvector \<Rightarrow> mvector \<Rightarrow> mvector option" where
  "Vector_Subtract v other =
     (if length (mvValues v) \<noteq> length (mvValues other) then None
      else Some (NewVector
        (map (\<lambda>i. f64_sub (mvValues v ! i) (mvValues other ! i)) [0..<length (mvValues v)])))"

definition Vector_Length :: "mvector \<Rightarrow> float64" where
  "Vector_Length v = f64_sqrt (foldl (\<lambda>sum x. f64_add sum (f64_mul x x)) 0 (mvValues v))"

definition Vector_Normalize :: "mvector \<Rightarrow> mvector option" where
  "Vector_Normalize v =
     (let length' = Vector_Length v
      in if f64_eq length' 0 then None
         else Some (NewVector (map (\<lambda>x. f64_div x length') (mvValues v))))"

section \<open>Conversions and distances on \<^verbatim>\<open>float64\<close> (\<^verbatim>\<open>distance.go\<close>)\<close>

definition ToFloat32 :: "float64 list \<Rightarrow> float32 list" where
  "ToFloat32 values = map f64_to_f32 values"

definition ToFloat64 :: "float32 list \<Rightarrow> float64 list" where
  "ToFloat64 values = map f32_to_f64 values"

definition SquaredEuclideanDistance :: "float64 list \<Rightarrow> float64 list \<Rightarrow> float64" where
  "SquaredEuclideanDistance a b =
     (if length a \<noteq> length b then f64_NaN
      else foldl (\<lambda>sum i. let diff = f64_sub (a ! i) (b ! i) in f64_add sum (f64_mul diff diff))
             0 [0..<length a])"

definition EuclideanDistance :: "float64 list \<Rightarrow> float64 list \<Rightarrow> float64" where
  "EuclideanDistance a b =
     (let squared = SquaredEuclideanDistance a b
      in if \<not> f64_eq squared squared then f64_NaN else f64_sqrt squared)"

definition SquaredEuclideanDistance64To32 :: "float64 list \<Rightarrow> float32 list \<Rightarrow> float64" where
  "SquaredEuclideanDistance64To32 a b =
     (if length a \<noteq> length b then f64_NaN
      else foldl (\<lambda>sum i. let diff = f64_sub (a ! i) (f32_to_f64 (b ! i))
                          in f64_add sum (f64_mul diff diff))
             0 [0..<length a])"

definition CosineDistance :: "float64 list \<Rightarrow> float64 list \<Rightarrow> float64" where
  "CosineDistance a b =
     (if length a \<noteq> length b then f64_NaN
      else case foldl (\<lambda>(dot, ma, mb) i.
                  (f64_add dot (f64_mul (a ! i) (b ! i)),
                   f64_add ma (f64_mul (a ! i) (a ! i)),
                   f64_add mb (f64_mul (b ! i) (b ! i)))) (0, 0, 0) [0..<length a] of
        (dotProduct, magnitudeA, magnitudeB) \<Rightarrow>
          if f64_eq magnitudeA 0 \<or> f64_eq magnitudeB 0 then f64_of_int 1
          else f64_sub (f64_of_int 1)
                 (f64_div dotProduct (f64_mul (f64_sqrt magnitudeA) (f64_sqrt magnitudeB))))"

section \<open>The \<^verbatim>\<open>float32\<close> kernels\<close>

text \<open>\<^verbatim>\<open>float64(a[i] - b[i])\<close>: the subtraction is rounded to \<^verbatim>\<open>float32\<close>, then widened.\<close>

definition diff32 :: "float32 list \<Rightarrow> float32 list \<Rightarrow> nat \<Rightarrow> float64 option" where
  "diff32 a b i = do { x \<leftarrow> idx a i; y \<leftarrow> idx b i; Some (f32_to_f64 (f32_sub x y)) }"

text \<open>\<^verbatim>\<open>d0*d0 + d1*d1 + d2*d2 + d3*d3\<close>, associated to the left.\<close>

definition sq4 :: "float64 \<Rightarrow> float64 \<Rightarrow> float64 \<Rightarrow> float64 \<Rightarrow> float64" where
  "sq4 d0 d1 d2 d3 =
     f64_add (f64_add (f64_add (f64_mul d0 d0) (f64_mul d1 d1)) (f64_mul d2 d2)) (f64_mul d3 d3)"

definition block32 :: "float32 list \<Rightarrow> float32 list \<Rightarrow> nat \<Rightarrow> float64 option" where
  "block32 a b i =
     do { d0 \<leftarrow> diff32 a b i; d1 \<leftarrow> diff32 a b (i + 1);
          d2 \<leftarrow> diff32 a b (i + 2); d3 \<leftarrow> diff32 a b (i + 3);
          Some (sq4 d0 d1 d2 d3) }"

function sameLen_loop4 :: "float32 list \<Rightarrow> float32 list \<Rightarrow> nat \<Rightarrow> nat \<Rightarrow> float64 \<Rightarrow>
    (nat \<times> float64) option" where
  "sameLen_loop4 a b limit i acc =
     (if i < limit then
        do { s \<leftarrow> block32 a b i; sameLen_loop4 a b limit (i + 4) (f64_add acc s) }
      else Some (i, acc))"
  by pat_completeness auto
termination
  by (relation "measure (\<lambda>(a, b, limit, i, acc). limit - i)") auto

function sameLen_tail :: "float32 list \<Rightarrow> float32 list \<Rightarrow> nat \<Rightarrow> nat \<Rightarrow> float64 \<Rightarrow> float64 option" where
  "sameLen_tail a b n i acc =
     (if i < n then
        do { diff \<leftarrow> diff32 a b i; sameLen_tail a b n (i + 1) (f64_add acc (f64_mul diff diff)) }
      else Some acc)"
  by pat_completeness auto
termination
  by (relation "measure (\<lambda>(a, b, n, i, acc). n - i)") auto

declare sameLen_loop4.simps [simp del] sameLen_tail.simps [simp del]

definition SquaredEuclideanDistance32SameLen :: "float32 list \<Rightarrow> float32 list \<Rightarrow> float64 option" where
  "SquaredEuclideanDistance32SameLen a b =
     (let limit = length a - length a mod 4
      in do { (i, acc) \<leftarrow> sameLen_loop4 a b limit 0 0; sameLen_tail a b (length a) i acc })"

definition SquaredEuclideanDistance32 :: "float32 list \<Rightarrow> float32 list \<Rightarrow> float64 option" where
  "SquaredEuclideanDistance32 a b =
     (if length a \<noteq> length b then Some f64_NaN else SquaredEuclideanDistance32SameLen a b)"

text \<open>The copy of the kernel in \<^verbatim>\<open>internal/index/ann\<close> is the same code.\<close>

definition squaredDistance32 :: "float32 list \<Rightarrow> float32 list \<Rightarrow> float64 option" where
  "squaredDistance32 a b =
     (let limit = length a - length a mod 4
      in do { (i, acc) \<leftarrow> sameLen_loop4 a b limit 0 0; sameLen_tail a b (length a) i acc })"

text \<open>Four queries against one vector; the four sums advance together.\<close>

type_synonym f64x4 = "float64 \<times> float64 \<times> float64 \<times> float64"

function x4_loop4 :: "float32 list \<Rightarrow> float32 list \<Rightarrow> float32 list \<Rightarrow> float32 list \<Rightarrow> float32 list \<Rightarrow>
    nat \<Rightarrow> nat \<Rightarrow> f64x4 \<Rightarrow> (nat \<times> f64x4) option" where
  "x4_loop4 a0 a1 a2 a3 b limit i sums =
     (if i < limit then
        case sums of (sum0, sum1, sum2, sum3) \<Rightarrow>
        do { s0 \<leftarrow> block32 a0 b i; s1 \<leftarrow> block32 a1 b i;
             s2 \<leftarrow> block32 a2 b i; s3 \<leftarrow> block32 a3 b i;
             x4_loop4 a0 a1 a2 a3 b limit (i + 4)
               (f64_add sum0 s0, f64_add sum1 s1, f64_add sum2 s2, f64_add sum3 s3) }
      else Some (i, sums))"
  by pat_completeness auto
termination
  by (relation "measure (\<lambda>(a0, a1, a2, a3, b, limit, i, sums). limit - i)") auto

function x4_tail :: "float32 list \<Rightarrow> float32 list \<Rightarrow> float32 list \<Rightarrow> float32 list \<Rightarrow> float32 list \<Rightarrow>
    nat \<Rightarrow> nat \<Rightarrow> f64x4 \<Rightarrow> f64x4 option" where
  "x4_tail a0 a1 a2 a3 b n i sums =
     (if i < n then
        case sums of (sum0, sum1, sum2, sum3) \<Rightarrow>
        do { d0 \<leftarrow> diff32 a0 b i; d1 \<leftarrow> diff32 a1 b i;
             d2 \<leftarrow> diff32 a2 b i; d3 \<leftarrow> diff32 a3 b i;
             x4_tail a0 a1 a2 a3 b n (i + 1)
               (f64_add sum0 (f64_mul d0 d0), f64_add sum1 (f64_mul d1 d1),
                f64_add sum2 (f64_mul d2 d2), f64_add sum3 (f64_mul d3 d3)) }
      else Some sums)"
  by pat_completeness auto
termination
  by (relation "measure (\<lambda>(a0, a1, a2, a3, b, n, i, sums). n - i)") auto

declare x4_loop4.simps [simp del] x4_tail.simps [simp del]

definition SquaredEuclideanDistance32x4SameLen :: "float32 list \<Rightarrow> float32 list \<Rightarrow> float32 list \<Rightarrow>
    float32 list \<Rightarrow> float32 list \<Rightarrow> f64x4 option" where
  "SquaredEuclideanDistance32x4SameLen a0 a1 a2 a3 b =
     (let limit = length b - length b mod 4
      in do { (i, sums) \<leftarrow> x4_loop4 a0 a1 a2 a3 b limit 0 (0, 0, 0, 0);
              x4_tail a0 a1 a2 a3 b (length b) i sums })"

section \<open>One recursion for the unrolled kernels\<close>

text \<open>The differences the kernel squares, and their sum in the kernel's order.\<close>

definition diffs32 :: "float32 list \<Rightarrow> float32 list \<Rightarrow> float64 list" where
  "diffs32 a b = map2 (\<lambda>x y. f32_to_f64 (f32_sub x y)) a b"

fun sum4 :: "float64 \<Rightarrow> float64 list \<Rightarrow> float64" where
  "sum4 acc (d0 # d1 # d2 # d3 # ds) = sum4 (f64_add acc (sq4 d0 d1 d2 d3)) ds"
| "sum4 acc ds = foldl (\<lambda>s d. f64_add s (f64_mul d d)) acc ds"

lemma length_diffs32 [simp]: "length (diffs32 a b) = min (length a) (length b)"
  by (simp add: diffs32_def)

lemma diff32_Some [simp]:
  "i < length a \<Longrightarrow> i < length b \<Longrightarrow> diff32 a b i = Some (diffs32 a b ! i)"
  by (simp add: diff32_def diffs32_def)

lemma diff32_None [simp]: "length b \<le> i \<Longrightarrow> diff32 a b i = None"
  by (cases "i < length a") (simp_all add: diff32_def)

lemma sum4_short: "length ds < 4 \<Longrightarrow> sum4 acc ds = foldl (\<lambda>s d. f64_add s (f64_mul d d)) acc ds"
  by (induction acc ds rule: sum4.induct) auto

lemma sum4_append: "4 dvd length xs \<Longrightarrow> sum4 acc (xs @ ys) = sum4 (sum4 acc xs) ys"
proof (induction acc xs rule: sum4.induct)
  case (1 acc d0 d1 d2 d3 ds)
  have "4 dvd 4 + length ds" using "1.prems" by (simp add: numeral_eq_Suc)
  then have "4 dvd length ds" by simp
  with "1.IH" show ?case by simp
qed (auto dest: dvd_imp_le)

lemma drop4_Cons:
  assumes "i + 3 < length ds"
  shows "drop i ds = ds ! i # ds ! (i + 1) # ds ! (i + 2) # ds ! (i + 3) # drop (i + 4) ds"
  using assms by (simp add: Cons_nth_drop_Suc numeral_eq_Suc)

lemma sameLen_loop4_eq:
  assumes "length a \<le> length b" and "i \<le> limit" and "limit \<le> length a" and "4 dvd limit - i"
  shows "sameLen_loop4 a b limit i acc =
    Some (limit, sum4 acc (take (limit - i) (drop i (diffs32 a b))))"
  using assms
proof (induction a b limit i acc rule: sameLen_loop4.induct)
  case (1 a b limit i acc)
  show ?case
  proof (cases "i < limit")
    case False
    with 1 show ?thesis by (simp add: sameLen_loop4.simps)
  next
    case True
    with "1.prems" have le: "i + 4 \<le> limit"
      by (metis add.commute dvd_imp_le le_diff_conv2 zero_less_diff less_imp_le_nat)
    then obtain r where r: "limit = i + 4 + r" using le_Suc_ex by blast
    have blk: "block32 a b i = Some (sq4 (diffs32 a b ! i) (diffs32 a b ! (i + 1))
        (diffs32 a b ! (i + 2)) (diffs32 a b ! (i + 3)))"
      using le "1.prems" by (simp add: block32_def)
    have "4 dvd limit - (i + 4)" using "1.prems"(4) by (simp add: r)
    with 1 True le blk have "sameLen_loop4 a b limit i acc =
      Some (limit, sum4 (f64_add acc (sq4 (diffs32 a b ! i) (diffs32 a b ! (i + 1))
        (diffs32 a b ! (i + 2)) (diffs32 a b ! (i + 3)))) (take (limit - (i + 4)) (drop (i + 4) (diffs32 a b))))"
      by (simp add: sameLen_loop4.simps [of a b limit i])
    moreover have "take (limit - i) (drop i (diffs32 a b)) =
      diffs32 a b ! i # diffs32 a b ! (i + 1) # diffs32 a b ! (i + 2) # diffs32 a b ! (i + 3) #
      take (limit - (i + 4)) (drop (i + 4) (diffs32 a b))"
      using le "1.prems" by (subst drop4_Cons) (auto simp: r numeral_eq_Suc)
    ultimately show ?thesis by simp
  qed
qed

lemma sameLen_tail_eq:
  assumes "length a \<le> length b" and "n = length a" and "i \<le> n"
  shows "sameLen_tail a b n i acc =
    Some (foldl (\<lambda>s d. f64_add s (f64_mul d d)) acc (drop i (diffs32 a b)))"
  using assms
proof (induction a b n i acc rule: sameLen_tail.induct)
  case (1 a b n i acc)
  show ?case
  proof (cases "i < n")
    case True
    then have "drop i (diffs32 a b) = diffs32 a b ! i # drop (i + 1) (diffs32 a b)"
      using "1.prems" by (simp add: Cons_nth_drop_Suc)
    with 1 True show ?thesis by (simp add: sameLen_tail.simps [of a b "length a" i])
  next
    case False
    with "1.prems" show ?thesis by (simp add: sameLen_tail.simps)
  qed
qed

theorem sameLen_eq:
  assumes "length a \<le> length b"
  shows "SquaredEuclideanDistance32SameLen a b = Some (sum4 0 (diffs32 a b))"
proof -
  define n where "n = length a"
  define l where "l = n - n mod 4"
  have l: "l \<le> n" "4 dvd l" "n - l < 4" by (simp_all add: l_def minus_mod_eq_mult_div)
  let ?ds = "diffs32 a b"
  have len: "length ?ds = n" using assms by (simp add: n_def)
  have "SquaredEuclideanDistance32SameLen a b = sameLen_tail a b n l (sum4 0 (take l ?ds))"
    using assms l sameLen_loop4_eq [of a b 0 l 0]
    by (simp add: SquaredEuclideanDistance32SameLen_def flip: n_def) (simp flip: l_def)
  also have "\<dots> = Some (foldl (\<lambda>s d. f64_add s (f64_mul d d)) (sum4 0 (take l ?ds)) (drop l ?ds))"
    using assms l by (simp add: sameLen_tail_eq n_def)
  also have "\<dots> = Some (sum4 (sum4 0 (take l ?ds)) (drop l ?ds))"
    using l len by (simp add: sum4_short)
  also have "\<dots> = Some (sum4 0 ?ds)"
    using l len sum4_append [of "take l ?ds" 0 "drop l ?ds"] by simp
  finally show ?thesis .
qed


lemma dvd4_step:
  assumes "4 dvd limit - i" and "i < (limit :: nat)"
  shows "i + 4 \<le> limit" and "4 dvd limit - (i + 4)"
proof -
  from assms have "4 \<le> limit - i" by (simp add: dvd_imp_le)
  then show "i + 4 \<le> limit" by simp
  from assms(1) have "4 dvd limit - i - 4" by (rule dvd_diff_nat) simp
  then show "4 dvd limit - (i + 4)" by (simp only: diff_diff_left)
qed

section \<open>When the kernel panics\<close>

lemma block32_None: "length b \<le> i + 3 \<Longrightarrow> block32 a b i = None"
  by (auto simp: block32_def Option.bind_eq_None_conv split: option.splits)

lemma sameLen_loop4_None:
  assumes "i \<le> length b" and "length b < limit"
  shows "sameLen_loop4 a b limit i acc = None"
  using assms
proof (induction a b limit i acc rule: sameLen_loop4.induct)
  case (1 a b limit i acc)
  show ?case
  proof (cases "block32 a b i")
    case None
    with "1.prems" show ?thesis by (simp add: sameLen_loop4.simps)
  next
    case (Some s)
    then have "\<not> length b \<le> i + 3" by (auto simp: block32_None)
    with 1 Some show ?thesis by (simp add: sameLen_loop4.simps [of a b limit i])
  qed
qed

lemma sameLen_tail_None:
  assumes "i \<le> length b" and "length b < n"
  shows "sameLen_tail a b n i acc = None"
  using assms
proof (induction a b n i acc rule: sameLen_tail.induct)
  case (1 a b n i acc)
  show ?case
  proof (cases "diff32 a b i")
    case None
    with "1.prems" show ?thesis by (simp add: sameLen_tail.simps)
  next
    case (Some d)
    then have "i < length b" by (metis diff32_None not_le option.distinct(1))
    with 1 Some show ?thesis by (simp add: sameLen_tail.simps [of a b n i])
  qed
qed

lemma sameLen_loop4_limit:
  "sameLen_loop4 a b limit i acc = Some (j, s) \<Longrightarrow> 4 dvd limit - i \<Longrightarrow> i \<le> limit \<Longrightarrow> j = limit"
proof (induction a b limit i acc rule: sameLen_loop4.induct)
  case (1 a b limit i acc)
  show ?case
  proof (cases "i < limit")
    case True
    note step = dvd4_step [OF "1.prems"(2) True]
    with "1.prems"(1) True obtain t where "block32 a b i = Some t"
      and "sameLen_loop4 a b limit (i + 4) (f64_add acc t) = Some (j, s)"
      by (auto simp: sameLen_loop4.simps [of a b limit i] split: Option.bind_splits)
    with "1.IH" True step show ?thesis by blast
  next
    case False
    with "1.prems" show ?thesis by (simp add: sameLen_loop4.simps)
  qed
qed

lemma sameLen_panics:
  assumes "length b < length a"
  shows "SquaredEuclideanDistance32SameLen a b = None"
proof -
  define n where "n = length a"
  define l where "l = n - n mod 4"
  have l: "4 dvd l" by (simp add: l_def minus_mod_eq_mult_div)
  have "sameLen_loop4 a b l 0 0 \<bind> (\<lambda>(i, s). sameLen_tail a b n i s) = None"
  proof (cases "length b < l")
    case True
    then show ?thesis by (simp add: sameLen_loop4_None)
  next
    case False
    then show ?thesis
      using l assms
      by (auto simp: n_def split: Option.bind_splits dest!: sameLen_loop4_limit intro: sameLen_tail_None)
  qed
  then show ?thesis
    by (simp add: SquaredEuclideanDistance32SameLen_def flip: n_def) (simp flip: l_def)
qed

lemma sameLen_Some_iff:
  "SquaredEuclideanDistance32SameLen a b \<noteq> None \<longleftrightarrow> length a \<le> length b"
  by (cases "length a \<le> length b") (simp_all add: sameLen_eq sameLen_panics)

lemma squaredDistance32_eq: "squaredDistance32 a b = SquaredEuclideanDistance32SameLen a b"
  by (simp add: squaredDistance32_def SquaredEuclideanDistance32SameLen_def)

section \<open>The four-query kernel\<close>

definition zip4 :: "'a option \<Rightarrow> 'a option \<Rightarrow> 'a option \<Rightarrow> 'a option \<Rightarrow>
    ('a \<times> 'a \<times> 'a \<times> 'a) option" where
  "zip4 x0 x1 x2 x3 = do { a \<leftarrow> x0; b \<leftarrow> x1; c \<leftarrow> x2; d \<leftarrow> x3; Some (a, b, c, d) }"

lemma zip4_Some [simp]: "zip4 (Some a) (Some b) (Some c) (Some d) = Some (a, b, c, d)"
  by (simp add: zip4_def)

lemma block32_Some:
  "length a = length b \<Longrightarrow> i + 3 < length b \<Longrightarrow> \<exists>s. block32 a b i = Some s"
  by (simp add: block32_def)

lemma x4_loop4_eq:
  assumes "length a0 = length b" "length a1 = length b" "length a2 = length b" "length a3 = length b"
    and "i \<le> limit" and "limit \<le> length b" and "4 dvd limit - i"
    and "sameLen_loop4 a0 b limit i s0 = Some (j0, r0)" "sameLen_loop4 a1 b limit i s1 = Some (j1, r1)"
    and "sameLen_loop4 a2 b limit i s2 = Some (j2, r2)" "sameLen_loop4 a3 b limit i s3 = Some (j3, r3)"
  shows "x4_loop4 a0 a1 a2 a3 b limit i (s0, s1, s2, s3) = Some (limit, r0, r1, r2, r3)"
  using assms
proof (induction "limit - i" arbitrary: i s0 s1 s2 s3 rule: less_induct)
  case less
  show ?case
  proof (cases "i < limit")
    case True
    note step = dvd4_step [OF less.prems(7) True]
    from step(1) less.prems(6) have lt: "i + 3 < length b" by simp
    obtain t0 t1 t2 t3 where t: "block32 a0 b i = Some t0" "block32 a1 b i = Some t1"
      "block32 a2 b i = Some t2" "block32 a3 b i = Some t3"
      using block32_Some [OF _ lt] less.prems(1-4) by metis
    have "x4_loop4 a0 a1 a2 a3 b limit (i + 4)
        (f64_add s0 t0, f64_add s1 t1, f64_add s2 t2, f64_add s3 t3) = Some (limit, r0, r1, r2, r3)"
      using less.prems True t step
      by (intro less.hyps) (simp_all add: sameLen_loop4.simps [of _ b limit i])
    with True t show ?thesis by (simp add: x4_loop4.simps [of a0 a1 a2 a3 b limit i])
  next
    case False
    with less.prems show ?thesis by (simp add: x4_loop4.simps sameLen_loop4.simps)
  qed
qed

lemma x4_tail_eq:
  assumes "length a0 = n" "length a1 = n" "length a2 = n" "length a3 = n" "length b = n"
    and "sameLen_tail a0 b n i s0 = Some r0" "sameLen_tail a1 b n i s1 = Some r1"
    and "sameLen_tail a2 b n i s2 = Some r2" "sameLen_tail a3 b n i s3 = Some r3"
  shows "x4_tail a0 a1 a2 a3 b n i (s0, s1, s2, s3) = Some (r0, r1, r2, r3)"
  using assms
proof (induction "n - i" arbitrary: i s0 s1 s2 s3 rule: less_induct)
  case less
  show ?case
  proof (cases "i < n")
    case True
    with less show ?thesis
      by (simp add: x4_tail.simps [of a0 a1 a2 a3 b n i] sameLen_tail.simps [of _ b n i])
  next
    case False
    with less.prems show ?thesis by (simp add: x4_tail.simps sameLen_tail.simps)
  qed
qed

lemma sameLen_split:
  assumes "length a = length b"
  shows "\<exists>s r. sameLen_loop4 a b (length b - length b mod 4) 0 0 =
        Some (length b - length b mod 4, s) \<and>
      sameLen_tail a b (length b) (length b - length b mod 4) s = Some r \<and>
      SquaredEuclideanDistance32SameLen a b = Some r"
proof -
  define l where "l = length b - length b mod 4"
  have l: "4 dvd l - 0" "l \<le> length a" "l \<le> length b"
    using assms by (simp_all add: l_def minus_mod_eq_mult_div)
  obtain s where s: "sameLen_loop4 a b l 0 0 = Some (l, s)"
    by (rule that [OF sameLen_loop4_eq]) (use assms l in auto)
  obtain r where r: "sameLen_tail a b (length b) l s = Some r"
    by (rule that [OF sameLen_tail_eq]) (use assms l in auto)
  have "SquaredEuclideanDistance32SameLen a b = Some r"
    unfolding SquaredEuclideanDistance32SameLen_def assms Let_def l_def [symmetric] s
    by (simp add: r)
  with s r show ?thesis unfolding l_def [symmetric] by blast
qed

lemma x4_eq_single:
  assumes "length a0 = length b" "length a1 = length b" "length a2 = length b" "length a3 = length b"
  shows "SquaredEuclideanDistance32x4SameLen a0 a1 a2 a3 b =
    zip4 (SquaredEuclideanDistance32SameLen a0 b) (SquaredEuclideanDistance32SameLen a1 b)
         (SquaredEuclideanDistance32SameLen a2 b) (SquaredEuclideanDistance32SameLen a3 b)"
proof -
  define l where "l = length b - length b mod 4"
  have dvd: "4 dvd l - 0" "l \<le> length b" by (simp_all add: l_def minus_mod_eq_mult_div)
  obtain s0 r0 where k0: "sameLen_loop4 a0 b l 0 0 = Some (l, s0)"
    "sameLen_tail a0 b (length b) l s0 = Some r0" "SquaredEuclideanDistance32SameLen a0 b = Some r0"
    using sameLen_split [OF assms(1)] unfolding l_def by blast
  obtain s1 r1 where k1: "sameLen_loop4 a1 b l 0 0 = Some (l, s1)"
    "sameLen_tail a1 b (length b) l s1 = Some r1" "SquaredEuclideanDistance32SameLen a1 b = Some r1"
    using sameLen_split [OF assms(2)] unfolding l_def by blast
  obtain s2 r2 where k2: "sameLen_loop4 a2 b l 0 0 = Some (l, s2)"
    "sameLen_tail a2 b (length b) l s2 = Some r2" "SquaredEuclideanDistance32SameLen a2 b = Some r2"
    using sameLen_split [OF assms(3)] unfolding l_def by blast
  obtain s3 r3 where k3: "sameLen_loop4 a3 b l 0 0 = Some (l, s3)"
    "sameLen_tail a3 b (length b) l s3 = Some r3" "SquaredEuclideanDistance32SameLen a3 b = Some r3"
    using sameLen_split [OF assms(4)] unfolding l_def by blast
  show ?thesis
    using x4_loop4_eq [OF assms _ dvd(2,1) k0(1) k1(1) k2(1) k3(1)]
      x4_tail_eq [OF assms refl k0(2) k1(2) k2(2) k3(2)]
    by (simp add: SquaredEuclideanDistance32x4SameLen_def k0(3) k1(3) k2(3) k3(3) flip: l_def)
qed

section \<open>Metric properties, bit for bit\<close>

definition finite32 :: "float32 \<Rightarrow> bool" where
  "finite32 x \<longleftrightarrow> \<not> fl_isnan F32 (unat x) \<and> \<not> fl_isinf F32 (unat x)"

definition f64_signbit :: "float64 \<Rightarrow> bool" where
  "f64_signbit x = fl_sgn F64 (unat x)"

lemma f64_square_swap:
  "f64_mul (f32_to_f64 (f32_sub x y)) (f32_to_f64 (f32_sub x y)) =
   f64_mul (f32_to_f64 (f32_sub y x)) (f32_to_f64 (f32_sub y x))"
proof -
  have "fl_mag F32 (unat x) < sbit F32" "fl_mag F32 (unat y) < sbit F32"
    by (rule fl_mag_lt [OF unat_lt_fmt(2)], simp)+
  then have "fl_mag F32 (fl_sub F32 (unat x) (unat y)) = fl_mag F32 (fl_sub F32 (unat y) (unat x))"
    by (rule fl_sub_swap_mag [OF fmt_ok_std(2)])
  then have "fl_mag F64 (unat (f32_to_f64 (f32_sub x y))) = fl_mag F64 (unat (f32_to_f64 (f32_sub y x)))"
    unfolding fl64_results fl32_sub_result by (rule fl_conv_mag [OF fmt_ok_std(1)])
  then show ?thesis
    unfolding f64_mul_def by (rule arg_cong [OF fl_mul_self_mag])
qed

lemma sum4_squares:
  "list_all2 (\<lambda>d e. f64_mul d d = f64_mul e e) ds es \<Longrightarrow> sum4 acc ds = sum4 acc es"
proof (induction acc ds arbitrary: es rule: sum4.induct)
  case (1 acc d0 d1 d2 d3 ds)
  then show ?case by (auto simp: list_all2_Cons1 sq4_def)
qed (auto simp: list_all2_Cons1)

lemma sameLen_comm:
  assumes "length a = length b"
  shows "SquaredEuclideanDistance32SameLen a b = SquaredEuclideanDistance32SameLen b a"
proof -
  have "list_all2 (\<lambda>d e. f64_mul d d = f64_mul e e) (diffs32 a b) (diffs32 b a)"
    using assms by (auto simp: list_all2_conv_all_nth diffs32_def f64_square_swap)
  with assms show ?thesis by (simp add: sameLen_eq sum4_squares)
qed

lemma f64_signbit_add: "\<not> f64_signbit x \<Longrightarrow> \<not> f64_signbit y \<Longrightarrow> \<not> f64_signbit (f64_add x y)"
  unfolding f64_signbit_def fl64_results by (rule fl_add_sgn [OF fmt_ok_std(1)])

lemma f64_signbit_square: "\<not> f64_signbit (f64_mul x x)"
  unfolding f64_signbit_def fl64_results by (rule fl_mul_self_sgn [OF fmt_ok_std(1)])

lemma sum4_signbit: "\<not> f64_signbit acc \<Longrightarrow> \<not> f64_signbit (sum4 acc ds)"
  by (induction acc ds rule: sum4.induct)
     (simp_all add: sq4_def f64_signbit_add f64_signbit_square)

lemma sameLen_signbit: "SquaredEuclideanDistance32SameLen a b = Some d \<Longrightarrow> \<not> f64_signbit d"
proof (cases "length a \<le> length b")
  case True
  have "\<not> f64_signbit 0" by (simp add: f64_signbit_def fl_sgn_def)
  moreover assume "SquaredEuclideanDistance32SameLen a b = Some d"
  ultimately show ?thesis using True sameLen_eq sum4_signbit by fastforce
qed (simp add: sameLen_panics)

lemma f32_to_f64_0: "f32_to_f64 0 = 0"
  by (simp add: float_eval)

lemma f64_mul_0: "f64_mul 0 0 = 0"
  by (simp add: float_eval)

lemma f64_add_0: "f64_add 0 0 = 0"
  by (simp add: float_eval)

lemma sum4_zeros: "\<forall>d \<in> set ds. d = 0 \<Longrightarrow> sum4 0 ds = 0"
proof (induction "0 :: float64" ds rule: sum4.induct)
  case (1 d0 d1 d2 d3 ds)
  then show ?case by (simp add: sq4_def f64_mul_0 f64_add_0)
qed (simp_all add: f64_mul_0 f64_add_0)

lemma sameLen_self:
  assumes "\<forall>x \<in> set a. finite32 x"
  shows "SquaredEuclideanDistance32SameLen a a = Some 0"
proof -
  have "\<forall>d \<in> set (diffs32 a a). d = 0"
    using assms by (auto simp: diffs32_def zip_same finite32_def f32_sub_self f32_to_f64_0)
  then show ?thesis by (simp add: sameLen_eq sum4_zeros)
qed

text \<open>Distances of finite vectors are numbers: sums of squares may overflow to infinity, never to NaN.\<close>

lemma fl_mul_self_num:
  assumes "fmt_ok F" and "0 < infb F" and "\<not> fl_isnan F x"
  shows "\<not> fl_isnan F (fl_mul F x x)"
  using assms fl_round_le_inf [of F]
  by (auto simp: fl_mul_def fl_isnan_mag fl_iszero_def fl_isinf_mag not_less Let_def split: prod.splits)

lemma fl_add_nonneg_num:
  assumes "fmt_ok F" and "\<not> fl_isnan F x" "\<not> fl_isnan F y" and "\<not> fl_sgn F x" "\<not> fl_sgn F y"
  shows "\<not> fl_isnan F (fl_add F x y)"
  using assms fl_round_le_inf [of F]
  by (auto simp: fl_add_def fl_isnan_mag not_less Let_def split: prod.splits)

lemma fl_sub_num:
  assumes "fmt_ok F" and "\<not> fl_isnan F x" "\<not> fl_isinf F x" "\<not> fl_isnan F y" "\<not> fl_isinf F y"
  shows "\<not> fl_isnan F (fl_sub F x y)"
proof -
  obtain mx ex my ey where u: "fl_unpack F (fl_mag F x) = (mx, ex)" "fl_unpack F (fl_mag F y) = (my, ey)"
    by fastforce
  have "fl_mag F x < infb F" "fl_mag F y < infb F"
    using assms by (auto simp: fl_isnan_mag fl_isinf_mag)
  from fl_sub_finite [OF assms(1) this u] show ?thesis
    using fl_round_le_inf [of F] by (simp add: fl_isnan_mag not_less)
qed

definition nonneg_num :: "float64 \<Rightarrow> bool" where
  "nonneg_num x \<longleftrightarrow> \<not> f64_isnan x \<and> \<not> f64_signbit x"

lemma nonneg_num_0: "nonneg_num 0"
  by (simp add: nonneg_num_def f64_signbit_def float_eval)

lemma nonneg_num_add: "nonneg_num x \<Longrightarrow> nonneg_num y \<Longrightarrow> nonneg_num (f64_add x y)"
  using fl_add_nonneg_num [OF fmt_ok_std(1), of "unat x" "unat y"]
  by (simp add: nonneg_num_def f64_signbit_add) (simp add: f64_isnan_def f64_signbit_def)

lemma nonneg_num_square: "\<not> f64_isnan x \<Longrightarrow> nonneg_num (f64_mul x x)"
  using fl_mul_self_num [OF fmt_ok_std(1), of "unat x"]
  by (simp add: nonneg_num_def f64_signbit_square) (simp add: f64_isnan_def)

lemma sum4_num: "nonneg_num acc \<Longrightarrow> \<forall>d \<in> set ds. \<not> f64_isnan d \<Longrightarrow> nonneg_num (sum4 acc ds)"
  by (induction acc ds rule: sum4.induct) (simp_all add: sq4_def nonneg_num_add nonneg_num_square)

lemma sameLen_num:
  assumes "\<forall>x \<in> set a. finite32 x" and "\<forall>y \<in> set b. finite32 y"
    and "SquaredEuclideanDistance32SameLen a b = Some d"
  shows "\<not> f64_isnan d"
proof -
  have le: "length a \<le> length b" using assms(3) by (metis option.distinct(1) sameLen_Some_iff)
  have "\<not> f64_isnan e" if e: "e \<in> set (diffs32 a b)" for e
  proof -
    obtain x y where "x \<in> set a" "y \<in> set b" "e = f32_to_f64 (f32_sub x y)"
      using e by (auto simp: diffs32_def dest: set_zip_leftD set_zip_rightD)
    then show ?thesis
      using assms(1,2) fl_sub_num [OF fmt_ok_std(2), of "unat x" "unat y"]
      by (simp add: f32_isnan_def finite32_def)
  qed
  then have "nonneg_num (sum4 0 (diffs32 a b))" by (intro sum4_num nonneg_num_0) simp
  then show ?thesis using assms(3) le by (simp add: sameLen_eq nonneg_num_def)
qed

lemma ToFloat32_ToFloat64:
  "\<forall>x \<in> set xs. \<not> f32_isnan x \<Longrightarrow> ToFloat32 (ToFloat64 xs) = xs"
  by (simp add: ToFloat32_def ToFloat64_def map_idI f32_f64_roundtrip)

section \<open>Properties\<close>

text \<open>
  C34. The four-query kernel returns, for each of the four queries, the same bits as the
  single-query kernel, whenever all lengths agree (the condition the batch scan checks).
\<close>

theorem x4_kernel_agrees:
  assumes "length a0 = length b" "length a1 = length b" "length a2 = length b" "length a3 = length b"
  shows "SquaredEuclideanDistance32x4SameLen a0 a1 a2 a3 b =
    zip4 (SquaredEuclideanDistance32SameLen a0 b) (SquaredEuclideanDistance32SameLen a1 b)
         (SquaredEuclideanDistance32SameLen a2 b) (SquaredEuclideanDistance32SameLen a3 b)"
  using assms by (rule x4_eq_single)

theorem x4_kernel_agrees_witness:
  "SquaredEuclideanDistance32x4SameLen [0x3f800000] [0] [0x40000000] [0] [0x40400000] =
    zip4 (SquaredEuclideanDistance32SameLen [0x3f800000] [0x40400000])
         (SquaredEuclideanDistance32SameLen [0] [0x40400000])
         (SquaredEuclideanDistance32SameLen [0x40000000] [0x40400000])
         (SquaredEuclideanDistance32SameLen [0] [0x40400000])"
  by (rule x4_kernel_agrees) simp_all

text \<open>
  The kernel without a length check panics exactly when the first argument (the query) is
  longer than the second (the stored vector); otherwise it computes the distance to the prefix
  of the stored vector.
\<close>

theorem kernel_panics_iff:
  "SquaredEuclideanDistance32SameLen a b =
     (if length a \<le> length b then SquaredEuclideanDistance32 a (take (length a) b) else None)"
proof (cases "length a \<le> length b")
  case True
  then have "diffs32 a (take (length a) b) = diffs32 a b"
    by (intro nth_equalityI) (simp_all add: diffs32_def)
  with True show ?thesis by (simp add: SquaredEuclideanDistance32_def sameLen_eq)
qed (simp add: sameLen_panics)

lemma distance_metric_facts:
  assumes "length a = length b"
  shows "SquaredEuclideanDistance32 a b = SquaredEuclideanDistance32 b a"
    and "\<exists>d. SquaredEuclideanDistance32 a b = Some d \<and> \<not> f64_signbit d"
    and "\<forall>x \<in> set a. finite32 x \<Longrightarrow> SquaredEuclideanDistance32 a a = Some 0"
proof -
  show "SquaredEuclideanDistance32 a b = SquaredEuclideanDistance32 b a"
    using assms by (simp add: SquaredEuclideanDistance32_def sameLen_comm)
  have "SquaredEuclideanDistance32 a b = Some (sum4 0 (diffs32 a b))"
    using assms by (simp add: SquaredEuclideanDistance32_def sameLen_eq)
  then show "\<exists>d. SquaredEuclideanDistance32 a b = Some d \<and> \<not> f64_signbit d"
    using assms sameLen_signbit by (auto simp: SquaredEuclideanDistance32_def)
  show "\<forall>x \<in> set a. finite32 x \<Longrightarrow> SquaredEuclideanDistance32 a a = Some 0"
    by (simp add: SquaredEuclideanDistance32_def sameLen_self)
qed

text \<open>
  On vectors of the same dimension the computed squared distance is symmetric bit for bit,
  its sign bit is never set, and the distance of a finite vector to itself is zero.
\<close>

theorem distance_metric:
  assumes "length a = length b"
  shows "SquaredEuclideanDistance32 a b = SquaredEuclideanDistance32 b a \<and>
    (\<exists>d. SquaredEuclideanDistance32 a b = Some d \<and> \<not> f64_signbit d) \<and>
    ((\<forall>x \<in> set a. finite32 x) \<longrightarrow> SquaredEuclideanDistance32 a a = Some 0)"
  using distance_metric_facts [OF assms] by blast

theorem distance_metric_witness:
  "SquaredEuclideanDistance32 [0x3f800000, 0] [0x40400000, 0] = SquaredEuclideanDistance32 [0x40400000, 0] [0x3f800000, 0]
   \<and> (\<exists>d. SquaredEuclideanDistance32 [0x3f800000, 0] [0x40400000, 0] = Some d \<and> \<not> f64_signbit d)
   \<and> SquaredEuclideanDistance32 [0x3f800000, 0] [0x3f800000, 0] = Some 0"
proof -
  have fin: "\<forall>x \<in> set [0x3f800000, 0]. finite32 x" by (simp add: finite32_def float_eval)
  have len: "length [0x3f800000 :: float32, 0] = length [0x40400000 :: float32, 0]" by simp
  show ?thesis using distance_metric [OF len] fin by blast
qed

text \<open>
  Widening a stored vector and narrowing it again is the identity on every vector without
  NaN: reading a vector and writing it back does not change it.
\<close>

theorem float_roundtrip:
  assumes "\<forall>x \<in> set xs. \<not> f32_isnan x"
  shows "ToFloat32 (ToFloat64 xs) = xs"
  using assms by (rule ToFloat32_ToFloat64)

theorem float_roundtrip_witness:
  "ToFloat32 (ToFloat64 [0x3f800000, 0x7f800000, 1]) = [0x3f800000, 0x7f800000, 1]"
  by (rule float_roundtrip) (simp add: float_eval)

end
