(* ===== verification/ExactIndex.thy ===== *)
theory ExactIndex
  imports Distance
begin

text \<open>
  \<^verbatim>\<open>internal/index/index.go\<close> and \<^verbatim>\<open>internal/core/id_resolver.go\<close>: the in-memory exact index (a map
  from identifiers to single-precision vectors) and the resolver that gives every identifier a
  number for the approximate index. Both hold their state under one mutex, so each operation is
  one atomic function on the state. The lemmas characterise every operation by the map it
  leaves, and show that the resolver is an injection whose numbers are never reused.
\<close>

section \<open>The exact index\<close>

record vector =
  vID :: string
  vValues :: "float64 list"

record storedVector =
  svID :: string
  svValues :: "float32 list"

record index =
  ixVectors :: "(string, storedVector) gomap"

definition NewIndex :: index where
  "NewIndex = \<lparr>ixVectors = []\<rparr>"

definition Index_AddVector :: "index \<Rightarrow> vector \<Rightarrow> goerror option \<times> index" where
  "Index_AddVector i vec =
     (case gm_get (ixVectors i) (vID vec) of
        Some _ \<Rightarrow> (Some ErrVectorExists, i)
      | None \<Rightarrow> (None, i\<lparr>ixVectors := gm_put (vID vec)
                  \<lparr>svID = vID vec, svValues = ToFloat32 (vValues vec)\<rparr> (ixVectors i)\<rparr>))"

definition Index_SearchVector :: "index \<Rightarrow> string \<Rightarrow> vector result" where
  "Index_SearchVector i vid =
     (case gm_get (ixVectors i) vid of
        None \<Rightarrow> Inl ErrVectorNotFound
      | Some vec \<Rightarrow> Inr \<lparr>vID = svID vec, vValues = ToFloat64 (svValues vec)\<rparr>)"

definition Index_DeleteVector :: "index \<Rightarrow> string \<Rightarrow> goerror option \<times> index" where
  "Index_DeleteVector i vid =
     (case gm_get (ixVectors i) vid of
        None \<Rightarrow> (Some ErrVectorNotFound, i)
      | Some _ \<Rightarrow> (None, i\<lparr>ixVectors := gm_del vid (ixVectors i)\<rparr>))"

definition Index_ListVectors :: "(string list \<Rightarrow> string list) \<Rightarrow> index \<Rightarrow> vector list" where
  "Index_ListVectors iter i =
     map (\<lambda>(_, vec). \<lparr>vID = svID vec, vValues = ToFloat64 (svValues vec)\<rparr>)
       (gm_range iter (ixVectors i))"

definition Index_RangeVectors :: "(string list \<Rightarrow> string list) \<Rightarrow> index \<Rightarrow>
    ('s \<Rightarrow> vector \<Rightarrow> 's \<times> bool) \<Rightarrow> 's \<Rightarrow> 's" where
  "Index_RangeVectors iter i fn s =
     range_while (\<lambda>s (_, vec). fn s \<lparr>vID = svID vec, vValues = ToFloat64 (svValues vec)\<rparr>) s
       (gm_range iter (ixVectors i))"

definition Index_RangeVectors32 :: "(string list \<Rightarrow> string list) \<Rightarrow> index \<Rightarrow>
    ('s \<Rightarrow> string \<Rightarrow> float32 list \<Rightarrow> 's \<times> bool) \<Rightarrow> 's \<Rightarrow> 's" where
  "Index_RangeVectors32 iter i fn s =
     range_while (\<lambda>s (_, vec). fn s (svID vec) (svValues vec)) s (gm_range iter (ixVectors i))"

subsection \<open>The abstract index\<close>

text \<open>
  What the index promises: a partial map from identifiers to single-precision vectors. The
  invariant says that the map's key is the identifier stored beside the values.
\<close>

definition ix_abs :: "index \<Rightarrow> string \<rightharpoonup> float32 list" where
  "ix_abs i vid = map_option svValues (gm_get (ixVectors i) vid)"

definition ix_wf :: "index \<Rightarrow> bool" where
  "ix_wf i \<longleftrightarrow> gm_wf (ixVectors i) \<and> list_all (\<lambda>(k, v). svID v = k) (ixVectors i)"

lemma ix_wf_get: "ix_wf i \<Longrightarrow> gm_get (ixVectors i) vid = Some v \<Longrightarrow> svID v = vid"
  by (auto simp: ix_wf_def list_all_iff gm_get_def dest: map_of_SomeD)

lemma ix_wf_intro:
  assumes "gm_wf (ixVectors i)" and "\<And>k v. gm_get (ixVectors i) k = Some v \<Longrightarrow> svID v = k"
  shows "ix_wf i"
  using assms by (auto simp: ix_wf_def list_all_iff gm_get_def gm_wf_def)

lemma ix_wf_New [simp]: "ix_wf NewIndex"
  by (simp add: ix_wf_def NewIndex_def)

lemma ix_abs_New [simp]: "ix_abs NewIndex = Map.empty"
  by (rule ext) (simp add: ix_abs_def NewIndex_def)

lemma ix_wf_Add [simp]: "ix_wf i \<Longrightarrow> ix_wf (snd (Index_AddVector i v))"
  by (auto simp: Index_AddVector_def ix_wf_get split: option.split if_splits
      intro!: ix_wf_intro dest: ix_wf_get) (simp add: ix_wf_def)

lemma ix_wf_Delete [simp]: "ix_wf i \<Longrightarrow> ix_wf (snd (Index_DeleteVector i vid))"
  by (auto simp: Index_DeleteVector_def ix_wf_get split: option.split if_splits
      intro!: ix_wf_intro dest: ix_wf_get) (simp add: ix_wf_def)

lemma ix_abs_Add:
  "Index_AddVector i v = (e, i') \<Longrightarrow>
     (if vID v \<in> dom (ix_abs i) then e = Some ErrVectorExists \<and> i' = i
      else e = None \<and> ix_abs i' = (ix_abs i)(vID v \<mapsto> ToFloat32 (vValues v)))"
  by (auto simp: Index_AddVector_def ix_abs_def dom_def fun_eq_iff split: option.splits)

lemma ix_abs_Delete:
  "Index_DeleteVector i vid = (e, i') \<Longrightarrow>
     (if vid \<in> dom (ix_abs i) then e = None else e = Some ErrVectorNotFound \<and> i' = i) \<and>
     ix_abs i' = (ix_abs i)(vid := None)"
  by (auto simp: Index_DeleteVector_def ix_abs_def dom_def fun_eq_iff split: option.splits)

lemma ix_abs_Search:
  "ix_wf i \<Longrightarrow> Index_SearchVector i vid =
     (case ix_abs i vid of None \<Rightarrow> Inl ErrVectorNotFound
      | Some vs \<Rightarrow> Inr \<lparr>vID = vid, vValues = ToFloat64 vs\<rparr>)"
  by (auto simp: Index_SearchVector_def ix_abs_def ix_wf_get split: option.splits)

text \<open>Every stored vector once, in some order.\<close>

definition ix_entries :: "(string list \<Rightarrow> string list) \<Rightarrow> index \<Rightarrow> (string \<times> float32 list) list" where
  "ix_entries iter i = map (\<lambda>(_, vec). (svID vec, svValues vec)) (gm_range iter (ixVectors i))"

lemma ix_entries_eq:
  assumes "ix_wf i" and "iter_ok iter"
  shows "ix_entries iter i = map (\<lambda>(k, vec). (k, svValues vec)) (gm_range iter (ixVectors i))"
  unfolding ix_entries_def
proof (rule map_cong [OF refl])
  fix p assume "p \<in> set (gm_range iter (ixVectors i))"
  then have "gm_get (ixVectors i) (fst p) = Some (snd p)"
    using assms(2) gm_range_mem [of iter "fst p" "snd p"] by simp
  then show "(\<lambda>(_, vec). (svID vec, svValues vec)) p = (\<lambda>(k, vec). (k, svValues vec)) p"
    using assms(1) by (simp add: ix_wf_get split_beta)
qed

lemma ix_entries_fst:
  assumes "ix_wf i" and "iter_ok iter"
  shows "map fst (ix_entries iter i) = iter (gm_keys (ixVectors i))"
proof -
  have "map fst (ix_entries iter i) = map fst (gm_range iter (ixVectors i))"
    by (simp add: ix_entries_eq [OF assms] o_def split_beta)
  then show ?thesis by simp
qed

lemma ix_entries_set:
  assumes "ix_wf i" and "iter_ok iter"
  shows "(vid, vs) \<in> set (ix_entries iter i) \<longleftrightarrow> ix_abs i vid = Some vs"
proof -
  have "(vid, vs) \<in> set (ix_entries iter i) \<longleftrightarrow>
      (\<exists>v. (vid, v) \<in> set (gm_range iter (ixVectors i)) \<and> vs = svValues v)"
    by (auto simp: ix_entries_eq [OF assms])
  then show ?thesis using assms(2) by (auto simp: gm_range_mem ix_abs_def)
qed

lemma ix_entries_distinct: "ix_wf i \<Longrightarrow> iter_ok iter \<Longrightarrow> distinct (map fst (ix_entries iter i))"
  by (simp add: ix_entries_fst ix_wf_def)

lemma ix_entries_mset: "ix_wf i \<Longrightarrow> iter_ok iter \<Longrightarrow>
    mset (ix_entries iter i) = mset (map (\<lambda>(_, vec). (svID vec, svValues vec)) (ixVectors i))"
  by (simp add: ix_entries_def gm_range_mset ix_wf_def)

lemma Index_RangeVectors32_entries:
  "Index_RangeVectors32 iter i fn s = range_while (\<lambda>s (vid, vs). fn s vid vs) s (ix_entries iter i)"
proof -
  have "range_while (\<lambda>s (_, vec). fn s (svID vec) (svValues vec)) s xs =
      range_while (\<lambda>s (vid, vs). fn s vid vs) s (map (\<lambda>(_, vec). (svID vec, svValues vec)) xs)" for xs
    by (induction xs arbitrary: s) (auto split: prod.split)
  then show ?thesis by (simp add: Index_RangeVectors32_def ix_entries_def)
qed

lemma Index_ListVectors_entries:
  "Index_ListVectors iter i = map (\<lambda>(vid, vs). \<lparr>vID = vid, vValues = ToFloat64 vs\<rparr>) (ix_entries iter i)"
  by (auto simp: Index_ListVectors_def ix_entries_def)

section \<open>The identifier resolver\<close>

record memoryIDResolver =
  idToInternal :: "(string, int) gomap"
  internalToID :: "(int, string) gomap"
  nextInternal :: int

definition newMemoryIDResolver :: memoryIDResolver where
  "newMemoryIDResolver = \<lparr>idToInternal = [], internalToID = [], nextInternal = 0\<rparr>"

definition Assign :: "memoryIDResolver \<Rightarrow> string \<Rightarrow> int \<times> memoryIDResolver" where
  "Assign r vid =
     (case gm_get (idToInternal r) vid of
        Some internalID \<Rightarrow> (internalID, r)
      | None \<Rightarrow>
          (let internalID = nextInternal r + 1
           in (internalID, \<lparr>idToInternal = gm_put vid internalID (idToInternal r),
                internalToID = gm_put internalID vid (internalToID r),
                nextInternal = internalID\<rparr>)))"

definition Lookup :: "memoryIDResolver \<Rightarrow> int \<Rightarrow> string option" where
  "Lookup r internalID = gm_get (internalToID r) internalID"

definition Remove :: "memoryIDResolver \<Rightarrow> string \<Rightarrow> memoryIDResolver" where
  "Remove r vid =
     (case gm_get (idToInternal r) vid of
        None \<Rightarrow> r
      | Some internalID \<Rightarrow> r\<lparr>idToInternal := gm_del vid (idToInternal r),
                              internalToID := gm_del internalID (internalToID r)\<rparr>)"

text \<open>The two maps are inverse to each other, and no number above \<open>nextInternal\<close> is in use.\<close>

definition res_wf :: "memoryIDResolver \<Rightarrow> bool" where
  "res_wf r \<longleftrightarrow>
     (\<forall>vid n. gm_get (idToInternal r) vid = Some n \<longleftrightarrow> gm_get (internalToID r) n = Some vid) \<and>
     (\<forall>n vid. gm_get (internalToID r) n = Some vid \<longrightarrow> 0 < n \<and> n \<le> nextInternal r) \<and>
     0 \<le> nextInternal r"

lemma res_wf_new [simp]: "res_wf newMemoryIDResolver"
  by (simp add: res_wf_def newMemoryIDResolver_def)

lemma res_wf_Assign: "res_wf r \<Longrightarrow> res_wf (snd (Assign r vid))"
  by (force simp: res_wf_def Assign_def Let_def split: option.splits if_splits)

lemma res_wf_Remove: "res_wf r \<Longrightarrow> res_wf (Remove r vid)"
  by (auto simp: res_wf_def Remove_def split: option.splits if_splits) (metis option.inject)+

lemma Assign_Lookup:
  "res_wf r \<Longrightarrow> Assign r vid = (n, r') \<Longrightarrow>
     Lookup r' n = Some vid \<and> (\<forall>m. m \<noteq> n \<longrightarrow> Lookup r' m = Lookup r m) \<and>
     nextInternal r \<le> nextInternal r' \<and> gm_get (idToInternal r') vid = Some n"
  by (auto simp: res_wf_def Assign_def Lookup_def Let_def split: option.splits)

lemma Assign_again: "Assign r vid = (n, r') \<Longrightarrow> Assign r' vid = (n, r')"
  by (auto simp: Assign_def Let_def split: option.splits)

lemma res_wf_inv: "res_wf r \<Longrightarrow> Lookup r n = Some vid \<longleftrightarrow> gm_get (idToInternal r) vid = Some n"
  by (simp add: res_wf_def Lookup_def)

lemma Remove_Lookup:
  assumes "res_wf r"
  shows "Lookup (Remove r vid) n = (if Lookup r n = Some vid then None else Lookup r n)"
proof (cases "gm_get (idToInternal r) vid")
  case None
  with assms show ?thesis by (simp add: Remove_def res_wf_inv)
next
  case (Some m)
  with assms show ?thesis by (simp add: Remove_def res_wf_inv) (simp add: Lookup_def)
qed

section \<open>Properties\<close>

lemma resolver_correct_facts:
  assumes "res_wf r" and "Assign r vid = (n, r')"
  shows "res_wf r'" and "Lookup r' n = Some vid" and "m \<noteq> n \<Longrightarrow> Lookup r' m = Lookup r m"
    and "Assign r' vid = (n, r')"
    and "res_wf (Remove r' vid)" and "Lookup (Remove r' vid) n = None"
    and "m \<noteq> n \<Longrightarrow> Lookup (Remove r' vid) m = Lookup r' m"
proof -
  show wf: "res_wf r'" using res_wf_Assign [OF assms(1), of vid] assms(2) by simp
  note l = Assign_Lookup [OF assms]
  show "Lookup r' n = Some vid" "m \<noteq> n \<Longrightarrow> Lookup r' m = Lookup r m" using l by simp_all
  show "Assign r' vid = (n, r')" using assms(2) by (rule Assign_again)
  show "res_wf (Remove r' vid)" using wf by (rule res_wf_Remove)
  show "Lookup (Remove r' vid) n = None" using wf l by (simp add: Remove_Lookup)
  show "m \<noteq> n \<Longrightarrow> Lookup (Remove r' vid) m = Lookup r' m"
    using wf l by (auto simp: Remove_Lookup res_wf_inv)
qed

text \<open>
  The identifier resolver stays an injection: after \<^verbatim>\<open>Assign\<close> the number resolves to the
  identifier and no other number changes its meaning; assigning again gives the same number; a
  removed identifier resolves no longer; the invariant is kept by both operations.
\<close>

theorem resolver_correct:
  assumes "res_wf r" and "Assign r vid = (n, r')"
  shows "res_wf r' \<and> Lookup r' n = Some vid \<and> (\<forall>m. m \<noteq> n \<longrightarrow> Lookup r' m = Lookup r m) \<and>
    Assign r' vid = (n, r') \<and> res_wf (Remove r' vid) \<and> Lookup (Remove r' vid) n = None \<and>
    (\<forall>m. m \<noteq> n \<longrightarrow> Lookup (Remove r' vid) m = Lookup r' m)"
  using resolver_correct_facts [OF assms] by blast

theorem resolver_correct_witness:
  "case Assign newMemoryIDResolver ''a'' of (n, r) \<Rightarrow>
     n = 1 \<and> res_wf r \<and> Lookup r n = Some ''a'' \<and> Lookup (Remove r ''a'') n = None"
proof -
  obtain n r where a: "Assign newMemoryIDResolver ''a'' = (n, r)" by force
  have "n = 1" using a by (simp add: Assign_def newMemoryIDResolver_def Let_def)
  with resolver_correct [OF res_wf_new a] a show ?thesis by simp
qed

end
