(* ===== verification/ExactSearch.thy ===== *)
theory ExactSearch
  imports ArrayHeap ExactIndex
begin

text \<open>
  The exact search of \<^verbatim>\<open>internal/core/service.go\<close>: the bounded top-\<open>k\<close> accumulator with its max-heap,
  the scan of the exact index for one query, and the batch scan that advances four queries at a
  time, serially or in parallel chunks. The specification \<open>topk_spec\<close> says what a search result is:
  the \<open>k\<close> nearest candidates (all of them if there are fewer), in ascending order of distance.
\<close>

section \<open>The accumulator\<close>

record searchResult =
  srID :: string
  srDistance :: float64

record topKAccumulator =
  accLimit :: int
  accItems :: "searchResult list"

definition sr_up_stop :: "searchResult \<Rightarrow> searchResult \<Rightarrow> bool" where
  "sr_up_stop c p = f64_le (srDistance c) (srDistance p)"

definition sr_better :: "searchResult \<Rightarrow> searchResult \<Rightarrow> bool" where
  "sr_better r l = f64_lt (srDistance l) (srDistance r)"

definition sr_down_stop :: "searchResult \<Rightarrow> searchResult \<Rightarrow> bool" where
  "sr_down_stop p c = f64_le (srDistance c) (srDistance p)"

definition upSearchResultMax :: "searchResult list \<Rightarrow> nat \<Rightarrow> searchResult list" where
  "upSearchResultMax h j = sift_up sr_up_stop h j"

definition downSearchResultMax :: "searchResult list \<Rightarrow> nat \<Rightarrow> searchResult list" where
  "downSearchResultMax h i = sift_down sr_better sr_down_stop h i"

definition newTopKAccumulator :: "int \<Rightarrow> topKAccumulator" where
  "newTopKAccumulator limit =
     (if limit \<le> 0 then \<lparr>accLimit = 0, accItems = []\<rparr> else \<lparr>accLimit = limit, accItems = []\<rparr>)"

definition acc_push :: "topKAccumulator \<Rightarrow> searchResult \<Rightarrow> topKAccumulator" where
  "acc_push a item =
     (let items = accItems a @ [item]
      in a\<lparr>accItems := upSearchResultMax items (length items - 1)\<rparr>)"

definition acc_replaceTop :: "topKAccumulator \<Rightarrow> searchResult \<Rightarrow> topKAccumulator" where
  "acc_replaceTop a item = a\<lparr>accItems := downSearchResultMax ((accItems a)[0 := item]) 0\<rparr>"

definition acc_Add :: "topKAccumulator \<Rightarrow> searchResult \<Rightarrow> topKAccumulator" where
  "acc_Add a item =
     (if accLimit a \<le> 0 then a
      else if int (length (accItems a)) < accLimit a then acc_push a item
      else if f64_le (srDistance (accItems a ! 0)) (srDistance item) then a
      else acc_replaceTop a item)"

definition sqrtDistance :: "float64 \<Rightarrow> float64" where
  "sqrtDistance distance = f64_sqrt distance"

text \<open>
  \<^verbatim>\<open>sort.Slice\<close> is not stable: on equal distances it may return any order. It is an argument,
  some function that permutes, and that sorts when the comparison is a strict weak order.
\<close>

definition slice_sort_ok :: "(searchResult list \<Rightarrow> searchResult list) \<Rightarrow> bool" where
  "slice_sort_ok srt \<longleftrightarrow> (\<forall>xs. mset (srt xs) = mset xs \<and>
     ((\<forall>x \<in> set xs. \<not> f64_isnan (srDistance x)) \<longrightarrow>
      sorted_wrt (\<lambda>x y. f64_le (srDistance x) (srDistance y)) (srt xs)))"

definition acc_Results :: "(searchResult list \<Rightarrow> searchResult list) \<Rightarrow> topKAccumulator \<Rightarrow> searchResult list" where
  "acc_Results srt a =
     (if accItems a = [] then []
      else map (\<lambda>r. r\<lparr>srDistance := sqrtDistance (srDistance r)\<rparr>) (srt (accItems a)))"

section \<open>The top-k specification\<close>

definition topk_spec :: "nat \<Rightarrow> searchResult list \<Rightarrow> searchResult list \<Rightarrow> bool" where
  "topk_spec k cands res \<longleftrightarrow> (\<exists>sel rest.
     res = map (\<lambda>r. r\<lparr>srDistance := sqrtDistance (srDistance r)\<rparr>) sel \<and>
     mset cands = mset sel + mset rest \<and> length sel = min k (length cands) \<and>
     sorted_wrt (\<lambda>x y. f64_le (srDistance x) (srDistance y)) sel \<and>
     (\<forall>x \<in> set sel. \<forall>y \<in> set rest. f64_le (srDistance x) (srDistance y)))"

definition sr_skip :: "searchResult \<Rightarrow> searchResult \<Rightarrow> bool" where
  "sr_skip x t = f64_le (srDistance t) (srDistance x)"

definition sr_ok :: "searchResult \<Rightarrow> bool" where
  "sr_ok x \<longleftrightarrow> \<not> f64_isnan (srDistance x)"

interpretation sr: bounded_heap sr_ok "\<lambda>x y. f64_le (srDistance y) (srDistance x)"
  sr_up_stop sr_better sr_down_stop sr_skip
  by unfold_locales
     (auto simp: sr_ok_def sr_up_stop_def sr_better_def sr_down_stop_def sr_skip_def f64_cmp_key)

lemma acc_Add_offer:
  "0 < accLimit a \<Longrightarrow> acc_Add a x =
     a\<lparr>accItems := heap_offer sr_skip sr_up_stop sr_better sr_down_stop (nat (accLimit a)) (accItems a) x\<rparr>"
  by (auto simp: acc_Add_def heap_offer_def acc_push_def acc_replaceTop_def heap_push_def heap_replace_top_def
      upSearchResultMax_def downSearchResultMax_def sr_skip_def Let_def nat_less_iff zless_nat_eq_int_zless)

lemma acc_Add_limit [simp]: "accLimit (acc_Add a x) = accLimit a"
  by (simp add: acc_Add_def acc_push_def acc_replaceTop_def Let_def)

lemma acc_foldl:
  assumes "0 < k"
  shows "foldl acc_Add (newTopKAccumulator k) xs =
    \<lparr>accLimit = k, accItems = foldl (heap_offer sr_skip sr_up_stop sr_better sr_down_stop (nat k)) [] xs\<rparr>"
proof (induction xs rule: rev_induct)
  case Nil
  then show ?case using assms by (simp add: newTopKAccumulator_def)
next
  case (snoc x xs)
  then show ?case using assms by (simp add: acc_Add_offer)
qed

lemma acc_topk:
  assumes "0 < k" and "\<forall>x \<in> set xs. sr_ok x" and "slice_sort_ok srt"
  shows "topk_spec (nat k) xs (acc_Results srt (foldl acc_Add (newTopKAccumulator k) xs))"
proof -
  define h where "h = foldl (heap_offer sr_skip sr_up_stop sr_better sr_down_stop (nat k)) [] xs"
  have "sr.selects (nat k) xs h"
    unfolding h_def using assms(1,2) by (intro sr.selects_foldl) simp_all
  then obtain rest where len: "length h = min (nat k) (length xs)"
    and m: "mset xs = mset h + mset rest"
    and best: "\<forall>r \<in> set rest. \<forall>x \<in> set h. f64_le (srDistance x) (srDistance r)"
    by (auto simp: sr.selects_def)
  have ok: "\<forall>x \<in> set h. \<not> f64_isnan (srDistance x)"
    using assms(2) m by (metis UnCI set_mset_mset set_mset_union sr_ok_def)
  have srt: "mset (srt h) = mset h" "sorted_wrt (\<lambda>x y. f64_le (srDistance x) (srDistance y)) (srt h)"
    using assms(3) ok by (simp_all add: slice_sort_ok_def)
  then have "length (srt h) = length h" "set (srt h) = set h" by (metis size_mset) (metis srt(1) set_mset_mset)
  moreover have "acc_Results srt (foldl acc_Add (newTopKAccumulator k) xs) =
      map (\<lambda>r. r\<lparr>srDistance := sqrtDistance (srDistance r)\<rparr>) (srt h)"
    using assms(1) srt(1) by (simp add: acc_foldl acc_Results_def flip: h_def) (metis mset_zero_iff)
  ultimately show ?thesis
    unfolding topk_spec_def using len m best srt
    by (intro exI [of _ "srt h"] exI [of _ rest]) auto
qed

section \<open>One query\<close>

text \<open>
  \<^verbatim>\<open>rangeExactVectors\<close> uses \<^verbatim>\<open>RangeVectors32\<close>, which the index implements. \<open>None\<close> is a panic of the
  kernel inside the callback.
\<close>

definition exact_visit :: "float32 list \<Rightarrow> topKAccumulator option \<Rightarrow> string \<Rightarrow> float32 list \<Rightarrow>
    topKAccumulator option \<times> bool" where
  "exact_visit query32 acc vid vecValues =
     (case acc of None \<Rightarrow> (None, False)
      | Some a \<Rightarrow>
          (case SquaredEuclideanDistance32SameLen query32 vecValues of None \<Rightarrow> (None, False)
           | Some dist \<Rightarrow>
               (if f64_eq dist dist then Some (acc_Add a \<lparr>srID = vid, srDistance = dist\<rparr>) else Some a, True)))"

definition searchExact :: "(string list \<Rightarrow> string list) \<Rightarrow> (searchResult list \<Rightarrow> searchResult list) \<Rightarrow>
    index \<Rightarrow> float64 list \<Rightarrow> int \<Rightarrow> searchResult list option" where
  "searchExact iter srt i values k =
     map_option (acc_Results srt)
       (Index_RangeVectors32 iter i (exact_visit (ToFloat32 values)) (Some (newTopKAccumulator k)))"

text \<open>The candidates of a query: every stored vector with its distance, unless it is NaN.\<close>

definition exact_cands :: "float32 list \<Rightarrow> (string \<times> float32 list) list \<Rightarrow> searchResult list" where
  "exact_cands q es = filter sr_ok
     (map (\<lambda>(vid, vs). \<lparr>srID = vid, srDistance = the (SquaredEuclideanDistance32SameLen q vs)\<rparr>) es)"

lemma exact_range:
  assumes "\<forall>(vid, vs) \<in> set es. length q \<le> length vs"
  shows "range_while (\<lambda>s (vid, vs). exact_visit q s vid vs) (Some a) es =
    Some (foldl acc_Add a (exact_cands q es))"
  using assms
proof (induction es arbitrary: a)
  case (Cons e es)
  obtain vid vs where e: "e = (vid, vs)" by force
  then obtain d where d: "SquaredEuclideanDistance32SameLen q vs = Some d"
    using Cons.prems sameLen_eq by fastforce
  then show ?case
    using Cons by (simp add: e exact_visit_def exact_cands_def sr_ok_def f64_eq_self)
qed (simp add: exact_cands_def)

lemma searchExact_eq:
  assumes "ix_wf i" and "iter_ok iter" and "\<And>vid vs. ix_abs i vid = Some vs \<Longrightarrow> length values \<le> length vs"
  shows "searchExact iter srt i values k =
    Some (acc_Results srt (foldl acc_Add (newTopKAccumulator k) (exact_cands (ToFloat32 values) (ix_entries iter i))))"
proof -
  have "\<forall>(vid, vs) \<in> set (ix_entries iter i). length (ToFloat32 values) \<le> length vs"
    using assms ix_entries_set by (auto simp: ToFloat32_def)
  then show ?thesis
    by (simp add: searchExact_def Index_RangeVectors32_entries exact_range)
qed

lemma exact_panics:
  assumes "(vid, vs) \<in> set es" and "length vs < length q"
  shows "range_while (\<lambda>s (vid, vs). exact_visit q s vid vs) (Some a) es = None"
  using assms
proof (induction es arbitrary: a)
  case (Cons e es)
  obtain id' vs' where e: "e = (id', vs')" by force
  show ?case
  proof (cases "SquaredEuclideanDistance32SameLen q vs'")
    case None
    then show ?thesis by (simp add: e exact_visit_def)
  next
    case (Some d)
    then have "length q \<le> length vs'" by (metis option.distinct(1) sameLen_Some_iff)
    with Cons e have "(vid, vs) \<in> set es" by auto
    with Cons Some e show ?thesis by (simp add: exact_visit_def)
  qed
qed simp

section \<open>Batches\<close>

record batchSearchResult =
  bsID :: string
  bsResults :: "searchResult list"

record preparedBatchQuery =
  pqID :: string
  pqVals :: "float64 list"
  pqVals32 :: "float32 list"
  pqAcc :: topKAccumulator

definition pq_add :: "string \<Rightarrow> float64 \<Rightarrow> preparedBatchQuery \<Rightarrow> preparedBatchQuery" where
  "pq_add vid d p = p\<lparr>pqAcc := acc_Add (pqAcc p) \<lparr>srID = vid, srDistance = d\<rparr>\<rparr>"

text \<open>One query against one vector, with the length check and the NaN test.\<close>

definition scan_checked :: "string \<Rightarrow> float32 list \<Rightarrow> preparedBatchQuery \<Rightarrow> preparedBatchQuery option" where
  "scan_checked vid values p =
     do { dist \<leftarrow> SquaredEuclideanDistance32 (pqVals32 p) values;
          Some (if \<not> f64_eq dist dist then p else pq_add vid dist p) }"

fun scan_tail :: "string \<Rightarrow> float32 list \<Rightarrow> preparedBatchQuery list \<Rightarrow> preparedBatchQuery list option" where
  "scan_tail vid values [] = Some []"
| "scan_tail vid values (p # ps) =
     do { p' \<leftarrow> scan_checked vid values p; ps' \<leftarrow> scan_tail vid values ps; Some (p' # ps') }"

text \<open>
  All queries against one stored vector, four at a time; the four-query kernel is used when all
  four have the dimension of the vector, and its results are added without a NaN test.
\<close>

fun scan_vector :: "string \<Rightarrow> float32 list \<Rightarrow> preparedBatchQuery list \<Rightarrow> preparedBatchQuery list option" where
  "scan_vector vid values (p0 # p1 # p2 # p3 # ps) =
     do { grp \<leftarrow>
            (if length (pqVals32 p0) = length values \<and> length (pqVals32 p1) = length values
               \<and> length (pqVals32 p2) = length values \<and> length (pqVals32 p3) = length values
             then do { (d0, d1, d2, d3) \<leftarrow> SquaredEuclideanDistance32x4SameLen (pqVals32 p0) (pqVals32 p1)
                         (pqVals32 p2) (pqVals32 p3) values;
                       Some [pq_add vid d0 p0, pq_add vid d1 p1, pq_add vid d2 p2, pq_add vid d3 p3] }
             else scan_tail vid values [p0, p1, p2, p3]);
          ps' \<leftarrow> scan_vector vid values ps;
          Some (grp @ ps') }"
| "scan_vector vid values ps = scan_tail vid values ps"

definition scan_visit :: "preparedBatchQuery list option \<Rightarrow> string \<Rightarrow> float32 list \<Rightarrow>
    preparedBatchQuery list option \<times> bool" where
  "scan_visit st vid values =
     (case st of None \<Rightarrow> (None, False)
      | Some ps \<Rightarrow> (case scan_vector vid values ps of None \<Rightarrow> (None, False) | Some ps' \<Rightarrow> (Some ps', True)))"

definition scanExactBatch :: "(string list \<Rightarrow> string list) \<Rightarrow> index \<Rightarrow> preparedBatchQuery list \<Rightarrow>
    preparedBatchQuery list option" where
  "scanExactBatch iter i prepared = Index_RangeVectors32 iter i scan_visit (Some prepared)"

definition batchResultsFromPrepared :: "(searchResult list \<Rightarrow> searchResult list) \<Rightarrow>
    preparedBatchQuery list \<Rightarrow> batchSearchResult list" where
  "batchResultsFromPrepared srt prepared =
     map (\<lambda>query. \<lparr>bsID = pqID query, bsResults = acc_Results srt (pqAcc query)\<rparr>) prepared"

definition searchBatchExactSerial :: "(string list \<Rightarrow> string list) \<Rightarrow> (searchResult list \<Rightarrow> searchResult list) \<Rightarrow>
    index \<Rightarrow> preparedBatchQuery list \<Rightarrow> batchSearchResult list option" where
  "searchBatchExactSerial iter srt i prepared =
     map_option (batchResultsFromPrepared srt) (scanExactBatch iter i prepared)"

text \<open>
  The parallel scan: the chunk size is rounded up to a multiple of four, and one goroutine scans
  each chunk. The chunks are disjoint slices of one array, so the goroutines do not interfere;
  each iterates over the index in its own order \<open>iters j\<close>. A panic in a goroutine ends the process.
\<close>

definition batch_chunk_size :: "nat \<Rightarrow> nat \<Rightarrow> nat" where
  "batch_chunk_size n workers =
     (let chunkSize = (n + workers - 1) div workers; rem = chunkSize mod 4
      in if rem \<noteq> 0 then chunkSize + (4 - rem) else chunkSize)"

function batch_chunks :: "nat \<Rightarrow> 'a list \<Rightarrow> 'a list list" where
  "batch_chunks n xs = (if xs = [] \<or> n = 0 then [] else take n xs # batch_chunks n (drop n xs))"
  by pat_completeness auto
termination
  by (relation "measure (\<lambda>(n, xs). length xs)") auto

declare batch_chunks.simps [simp del]

fun scan_chunks :: "(nat \<Rightarrow> string list \<Rightarrow> string list) \<Rightarrow> index \<Rightarrow> nat \<Rightarrow> preparedBatchQuery list list \<Rightarrow>
    preparedBatchQuery list option" where
  "scan_chunks iters i j [] = Some []"
| "scan_chunks iters i j (b # bs) =
     do { b' \<leftarrow> scanExactBatch (iters j) i b; rest \<leftarrow> scan_chunks iters i (j + 1) bs; Some (b' @ rest) }"

definition searchBatchExactParallel :: "nat \<Rightarrow> (nat \<Rightarrow> string list \<Rightarrow> string list) \<Rightarrow>
    (searchResult list \<Rightarrow> searchResult list) \<Rightarrow> index \<Rightarrow> preparedBatchQuery list \<Rightarrow>
    batchSearchResult list option" where
  "searchBatchExactParallel gomaxprocs iters srt i prepared =
     (let workers = min gomaxprocs (length prepared div 4)
      in if workers \<le> 1 then searchBatchExactSerial (iters 0) srt i prepared
         else map_option (batchResultsFromPrepared srt)
                (scan_chunks iters i 0 (batch_chunks (batch_chunk_size (length prepared) workers) prepared)))"

section \<open>Correctness of the batch scan\<close>

lemma list_all2_mono_set: "list_all2 R xs ys \<Longrightarrow> (\<And>x y. x \<in> set xs \<Longrightarrow> R x y \<Longrightarrow> Q x y) \<Longrightarrow> list_all2 Q xs ys"
  by (induction rule: list_all2_induct) auto

lemma list_all2_map_eq: "list_all2 (\<lambda>x y. g y = f x) xs ys \<Longrightarrow> map g ys = map f xs"
  by (induction rule: list_all2_induct) auto

text \<open>What one stored vector does to one query.\<close>

definition pq_step :: "string \<times> float32 list \<Rightarrow> preparedBatchQuery \<Rightarrow> preparedBatchQuery" where
  "pq_step e p = (case e of (vid, values) \<Rightarrow>
     if length (pqVals32 p) = length values \<and> sr_ok \<lparr>srID = vid, srDistance = the (SquaredEuclideanDistance32SameLen (pqVals32 p) values)\<rparr>
     then pq_add vid (the (SquaredEuclideanDistance32SameLen (pqVals32 p) values)) p else p)"

definition pq_finite :: "preparedBatchQuery \<Rightarrow> bool" where
  "pq_finite p \<longleftrightarrow> list_all finite32 (pqVals32 p)"

lemma pq_add_vals [simp]: "pqVals32 (pq_add vid d p) = pqVals32 p" "pqID (pq_add vid d p) = pqID p"
  by (simp_all add: pq_add_def)

lemma pq_step_vals [simp]: "pqVals32 (pq_step e p) = pqVals32 p" "pqID (pq_step e p) = pqID p"
  by (simp_all add: pq_step_def split: prod.split)

lemma f64_NaN_isnan: "f64_isnan f64_NaN"
  by (simp add: float_eval)

lemma scan_checked_step: "scan_checked vid values p = Some (pq_step (vid, values) p)"
proof (cases "length (pqVals32 p) = length values")
  case True
  then obtain d where "SquaredEuclideanDistance32SameLen (pqVals32 p) values = Some d"
    using sameLen_eq by fastforce
  with True show ?thesis
    by (simp add: scan_checked_def SquaredEuclideanDistance32_def pq_step_def sr_ok_def f64_eq_self)
next
  case False
  then show ?thesis
    by (simp add: scan_checked_def SquaredEuclideanDistance32_def pq_step_def f64_eq_self f64_NaN_isnan)
qed

lemma scan_tail_step: "scan_tail vid values ps = Some (map (pq_step (vid, values)) ps)"
  by (induction ps) (simp_all add: scan_checked_step)

text \<open>The four-query kernel agrees as long as its distances are numbers.\<close>

lemma pq_step_finite:
  assumes "pq_finite p" and "list_all finite32 values" and "length (pqVals32 p) = length values"
    and "SquaredEuclideanDistance32SameLen (pqVals32 p) values = Some d"
  shows "pq_step (vid, values) p = pq_add vid d p"
  using assms sameLen_num [of "pqVals32 p" "values" d]
  by (simp add: pq_step_def pq_finite_def list_all_iff sr_ok_def)

lemma scan_group_step:
  assumes "list_all pq_finite [p0, p1, p2, p3]" and "list_all finite32 values"
    and len: "length (pqVals32 p0) = length values" "length (pqVals32 p1) = length values"
      "length (pqVals32 p2) = length values" "length (pqVals32 p3) = length values"
  shows "\<exists>d0 d1 d2 d3. SquaredEuclideanDistance32x4SameLen (pqVals32 p0) (pqVals32 p1) (pqVals32 p2) (pqVals32 p3) values =
      Some (d0, d1, d2, d3) \<and>
    [pq_add vid d0 p0, pq_add vid d1 p1, pq_add vid d2 p2, pq_add vid d3 p3] = map (pq_step (vid, values)) [p0, p1, p2, p3]"
proof -
  have "\<exists>d. SquaredEuclideanDistance32SameLen (pqVals32 p) values = Some d" if "length (pqVals32 p) = length values" for p
    using that sameLen_eq by simp
  then obtain d0 d1 d2 d3 where d: "SquaredEuclideanDistance32SameLen (pqVals32 p0) values = Some d0"
    "SquaredEuclideanDistance32SameLen (pqVals32 p1) values = Some d1"
    "SquaredEuclideanDistance32SameLen (pqVals32 p2) values = Some d2"
    "SquaredEuclideanDistance32SameLen (pqVals32 p3) values = Some d3"
    using len by metis
  have "SquaredEuclideanDistance32x4SameLen (pqVals32 p0) (pqVals32 p1) (pqVals32 p2) (pqVals32 p3) values =
      Some (d0, d1, d2, d3)"
    by (simp add: x4_eq_single [OF len] d)
  moreover have "map (pq_step (vid, values)) [p0, p1, p2, p3] =
      [pq_add vid d0 p0, pq_add vid d1 p1, pq_add vid d2 p2, pq_add vid d3 p3]"
    using assms(1,2) len d by (simp add: pq_step_finite)
  ultimately show ?thesis by (intro exI conjI) (assumption, simp only:)
qed

lemma scan_vector_step:
  assumes "list_all pq_finite ps" and "list_all finite32 values"
  shows "scan_vector vid values ps = Some (map (pq_step (vid, values)) ps)"
  using assms
proof (induction vid "values" ps rule: scan_vector.induct)
  case (1 vid "values" p0 p1 p2 p3 ps)
  have fin: "list_all pq_finite [p0, p1, p2, p3]" "list_all pq_finite ps" using "1.prems"(1) by simp_all
  let ?same = "length (pqVals32 p0) = length values \<and> length (pqVals32 p1) = length values
      \<and> length (pqVals32 p2) = length values \<and> length (pqVals32 p3) = length values"
  have grp: "(if ?same
     then do { (d0, d1, d2, d3) \<leftarrow> SquaredEuclideanDistance32x4SameLen (pqVals32 p0) (pqVals32 p1)
                 (pqVals32 p2) (pqVals32 p3) values;
               Some [pq_add vid d0 p0, pq_add vid d1 p1, pq_add vid d2 p2, pq_add vid d3 p3] }
     else scan_tail vid values [p0, p1, p2, p3]) = Some (map (pq_step (vid, values)) [p0, p1, p2, p3])"
  proof (cases ?same)
    case True
    then have l: "length (pqVals32 p0) = length values" "length (pqVals32 p1) = length values"
      "length (pqVals32 p2) = length values" "length (pqVals32 p3) = length values" by simp_all
    obtain d0 d1 d2 d3 where "SquaredEuclideanDistance32x4SameLen (pqVals32 p0) (pqVals32 p1) (pqVals32 p2) (pqVals32 p3) values =
        Some (d0, d1, d2, d3)"
      "[pq_add vid d0 p0, pq_add vid d1 p1, pq_add vid d2 p2, pq_add vid d3 p3] = map (pq_step (vid, values)) [p0, p1, p2, p3]"
      using scan_group_step [OF fin(1) "1.prems"(2) l, of vid] by (elim exE conjE)
    with True show ?thesis by simp
  next
    case False
    then show ?thesis by (simp only: if_False scan_tail_step)
  qed
  from "1.IH" [OF grp fin(2) "1.prems"(2)] grp show ?case by simp
qed (simp_all add: scan_checked_step)

lemma scan_range:
  assumes "list_all pq_finite ps" and "\<forall>(vid, vs) \<in> set es. list_all finite32 vs"
  shows "range_while (\<lambda>s (vid, vs). scan_visit s vid vs) (Some ps) es =
    Some (map (\<lambda>p. foldl (\<lambda>p e. pq_step e p) p es) ps)"
  using assms
proof (induction es arbitrary: ps)
  case (Cons e es)
  obtain vid vs where e: "e = (vid, vs)" by force
  have "scan_vector vid vs ps = Some (map (pq_step e) ps)"
    using Cons.prems by (simp add: e scan_vector_step)
  moreover have "list_all pq_finite (map (pq_step e) ps)"
    using Cons.prems(1) by (simp add: list_all_iff pq_finite_def)
  ultimately show ?case using Cons by (simp add: e scan_visit_def o_def)
qed simp

lemma pq_steps_acc:
  "foldl (\<lambda>p e. pq_step e p) p es = p\<lparr>pqAcc := foldl acc_Add (pqAcc p)
     (exact_cands (pqVals32 p) (filter (\<lambda>(vid, vs). length vs = length (pqVals32 p)) es))\<rparr>"
proof (induction es arbitrary: p)
  case (Cons e es)
  then show ?case
    by (cases e) (auto simp: pq_step_def pq_add_def exact_cands_def)
qed (simp add: exact_cands_def)

lemma scanExactBatch_eq:
  assumes "ix_wf i" and "iter_ok iter" and "list_all pq_finite ps"
    and "\<And>vid vs. ix_abs i vid = Some vs \<Longrightarrow> list_all finite32 vs"
  shows "scanExactBatch iter i ps = Some (map (\<lambda>p. foldl (\<lambda>p e. pq_step e p) p (ix_entries iter i)) ps)"
proof -
  have "\<forall>(vid, vs) \<in> set (ix_entries iter i). list_all finite32 vs"
    using assms ix_entries_set by blast
  then show ?thesis
    using assms(3) by (simp add: scanExactBatch_def Index_RangeVectors32_entries scan_range)
qed

text \<open>The chunks partition the batch.\<close>

lemma concat_batch_chunks: "0 < n \<Longrightarrow> concat (batch_chunks n xs) = xs"
proof (induction n xs rule: batch_chunks.induct)
  case (1 n xs)
  then show ?case by (cases "xs = []") (simp_all add: batch_chunks.simps [of n xs] batch_chunks.simps [of n "[]"])
qed

lemma batch_chunk_size_pos: "0 < n \<Longrightarrow> 0 < workers \<Longrightarrow> 0 < batch_chunk_size n workers"
  by (auto simp: batch_chunk_size_def Let_def div_greater_zero_iff)

lemma scan_chunks_eq:
  assumes "ix_wf i" and "\<And>j. iter_ok (iters j)" and "list_all (list_all pq_finite) bs"
    and "\<And>vid vs. ix_abs i vid = Some vs \<Longrightarrow> list_all finite32 vs"
  shows "\<exists>ps. scan_chunks iters i j bs = Some ps \<and>
    list_all2 (\<lambda>p p'. \<exists>j. p' = foldl (\<lambda>p e. pq_step e p) p (ix_entries (iters j) i)) (concat bs) ps"
  using assms(3)
proof (induction bs arbitrary: j)
  case (Cons b bs)
  obtain ps where ps: "scan_chunks iters i (j + 1) bs = Some ps"
    "list_all2 (\<lambda>p p'. \<exists>j. p' = foldl (\<lambda>p e. pq_step e p) p (ix_entries (iters j) i)) (concat bs) ps"
    using Cons by auto
  have "scanExactBatch (iters j) i b = Some (map (\<lambda>p. foldl (\<lambda>p e. pq_step e p) p (ix_entries (iters j) i)) b)"
    using assms Cons.prems by (intro scanExactBatch_eq) simp_all
  moreover have "list_all2 (\<lambda>p p'. \<exists>j. p' = foldl (\<lambda>p e. pq_step e p) p (ix_entries (iters j) i)) b
      (map (\<lambda>p. foldl (\<lambda>p e. pq_step e p) p (ix_entries (iters j) i)) b)"
    by (auto simp: list_all2_conv_all_nth)
  ultimately show ?case using ps by (auto intro: list_all2_appendI)
qed simp

section \<open>Properties\<close>

text \<open>The candidates as a set: one per stored vector of the query's dimension, unless its distance is NaN.\<close>

definition ix_cands :: "index \<Rightarrow> float32 list \<Rightarrow> searchResult set" where
  "ix_cands i q = {\<lparr>srID = vid, srDistance = d\<rparr> | vid vs d. ix_abs i vid = Some vs \<and>
     SquaredEuclideanDistance32SameLen q vs = Some d \<and> \<not> f64_isnan d \<and> length vs = length q}"

lemma exact_cands_set:
  assumes "ix_wf i" and "iter_ok iter"
  shows "set (exact_cands q (filter (\<lambda>(vid, vs). length vs = length q) (ix_entries iter i))) = ix_cands i q"
    and "distinct (map srID (exact_cands q (filter (\<lambda>(vid, vs). length vs = length q) (ix_entries iter i))))"
proof -
  have "SquaredEuclideanDistance32SameLen q vs \<noteq> None" if "length vs = length q" for vs
    using sameLen_eq [of q vs] that by simp
  then have the: "length vs = length q \<Longrightarrow>
      SquaredEuclideanDistance32SameLen q vs = Some d \<longleftrightarrow> d = the (SquaredEuclideanDistance32SameLen q vs)" for vs d
    by (metis option.collapse option.sel)
  have "x \<in> set (exact_cands q (filter (\<lambda>(vid, vs). length vs = length q) (ix_entries iter i))) \<longleftrightarrow>
      (\<exists>vid vs. ix_abs i vid = Some vs \<and> length vs = length q \<and> sr_ok x \<and>
        x = \<lparr>srID = vid, srDistance = the (SquaredEuclideanDistance32SameLen q vs)\<rparr>)" for x
    unfolding exact_cands_def using ix_entries_set [OF assms] by (simp add: image_iff Bex_def split_beta) metis
  moreover have "x \<in> ix_cands i q \<longleftrightarrow> (\<exists>vid vs. ix_abs i vid = Some vs \<and> length vs = length q \<and> sr_ok x \<and>
        x = \<lparr>srID = vid, srDistance = the (SquaredEuclideanDistance32SameLen q vs)\<rparr>)" for x
    unfolding ix_cands_def sr_ok_def mem_Collect_eq using the by (metis searchResult.select_convs(2))
  ultimately show "set (exact_cands q (filter (\<lambda>(vid, vs). length vs = length q) (ix_entries iter i))) = ix_cands i q"
    by (intro set_eqI) (simp only:)
  have "distinct (map fst (ix_entries iter i))" using assms by (rule ix_entries_distinct)
  then have "distinct (map srID (map (\<lambda>(vid, vs). \<lparr>srID = vid, srDistance = the (SquaredEuclideanDistance32SameLen q vs)\<rparr>)
      (filter (\<lambda>(vid, vs). length vs = length q) (ix_entries iter i))))"
    by (simp add: o_def split_beta distinct_map_filter)
  then show "distinct (map srID (exact_cands q (filter (\<lambda>(vid, vs). length vs = length q) (ix_entries iter i))))"
    unfolding exact_cands_def by (rule distinct_map_filter)
qed

lemma searchExact_topk:
  assumes "ix_wf i" and "iter_ok iter" and "slice_sort_ok srt" and "0 < k"
    and "\<And>vid vs. ix_abs i vid = Some vs \<Longrightarrow> length vs = length values"
  shows "\<exists>res cands. searchExact iter srt i values k = Some res \<and> topk_spec (nat k) cands res \<and>
    set cands = ix_cands i (ToFloat32 values) \<and> distinct (map srID cands)"
proof -
  let ?q = "ToFloat32 values"
  define cands where "cands = exact_cands ?q (ix_entries iter i)"
  have "filter (\<lambda>(vid, vs). length vs = length ?q) (ix_entries iter i) = ix_entries iter i"
    using assms(1,2,5) by (auto simp: filter_id_conv ToFloat32_def ix_entries_set)
  then have "set cands = ix_cands i ?q" "distinct (map srID cands)"
    using exact_cands_set [OF assms(1,2), of ?q] by (simp_all add: cands_def)
  moreover have "searchExact iter srt i values k = Some (acc_Results srt (foldl acc_Add (newTopKAccumulator k) cands))"
    using assms unfolding cands_def by (intro searchExact_eq) simp_all
  moreover have "topk_spec (nat k) cands (acc_Results srt (foldl acc_Add (newTopKAccumulator k) cands))"
    using assms(3,4) by (intro acc_topk) (auto simp: cands_def exact_cands_def)
  ultimately show ?thesis by blast
qed

text \<open>
  C10. Exact search returns the \<open>k\<close> nearest vectors: when every stored vector has the dimension of
  the query, \<^verbatim>\<open>searchExact\<close> does not panic, and for any map iteration order and any behaviour of
  the unstable sort its result is the top \<open>k\<close> of all stored vectors whose distance is a number,
  in ascending order of distance, with square roots taken.
\<close>

theorem search_exact_topk:
  assumes "ix_wf i" and "iter_ok iter" and "slice_sort_ok srt" and "0 < k"
    and "\<And>vid vs. ix_abs i vid = Some vs \<Longrightarrow> length vs = length values"
  shows "\<exists>res cands. searchExact iter srt i values k = Some res \<and> topk_spec (nat k) cands res \<and>
    set cands = ix_cands i (ToFloat32 values) \<and> distinct (map srID cands)"
  by (rule searchExact_topk [OF assms])

text \<open>A sort that satisfies the hypothesis: insertion by the key of the distance.\<close>

definition key_sort :: "searchResult list \<Rightarrow> searchResult list" where
  "key_sort = sort_key (\<lambda>r. f64_key (srDistance r))"

lemma key_sort_ok: "slice_sort_ok key_sort"
proof -
  have "sorted_wrt (\<lambda>x y. f64_le (srDistance x) (srDistance y)) (key_sort xs)"
    if nn: "\<forall>x \<in> set xs. \<not> f64_isnan (srDistance x)" for xs
  proof -
    have "sorted_wrt (\<lambda>x y. f64_key (srDistance x) \<le> f64_key (srDistance y)) (key_sort xs)"
      using sorted_sort_key [of "\<lambda>r. f64_key (srDistance r)" xs] by (simp add: key_sort_def sorted_map)
    then show ?thesis
      by (rule sorted_wrt_mono_rel [rotated]) (use nn in \<open>auto simp: key_sort_def f64_cmp_key\<close>)
  qed
  then show ?thesis by (simp add: slice_sort_ok_def key_sort_def)
qed

definition sample_index :: index where
  "sample_index = snd (Index_AddVector (snd (Index_AddVector NewIndex \<lparr>vID = ''a'', vValues = [0, 0]\<rparr>))
     \<lparr>vID = ''b'', vValues = [0x3FF0000000000000, 0]\<rparr>)"

lemma sample_index_facts:
  "ix_wf sample_index" "ix_abs sample_index vid = Some vs \<Longrightarrow> length vs = 2"
  by (auto simp: sample_index_def ix_abs_def Index_AddVector_def NewIndex_def gm_get_def gm_put_def ToFloat32_def
      ix_wf_def gm_wf_def split: if_splits)

theorem search_exact_topk_witness:
  "\<exists>res cands. searchExact rev key_sort sample_index [0, 0] 1 = Some res \<and> topk_spec (nat 1) cands res \<and>
    set cands = ix_cands sample_index (ToFloat32 [0, 0]) \<and> distinct (map srID cands)"
  by (rule search_exact_topk) (auto simp: sample_index_facts key_sort_ok)

lemma searchExact_panics:
  assumes "ix_wf i" and "iter_ok iter" and "ix_abs i vid = Some vs" and "length vs < length values"
  shows "searchExact iter srt i values k = None"
proof -
  have "(vid, vs) \<in> set (ix_entries iter i)" using assms(1-3) ix_entries_set by blast
  from exact_panics [OF this] assms(4) show ?thesis
    by (simp add: searchExact_def Index_RangeVectors32_entries ToFloat32_def)
qed

text \<open>
  Exact search panics as soon as some stored vector is shorter than the query, wherever the
  iteration meets it: the single-query path does not check dimensions.
\<close>

theorem search_exact_panics:
  assumes "ix_wf i" and "iter_ok iter" and "ix_abs i vid = Some vs" and "length vs < length values"
  shows "searchExact iter srt i values k = None"
  by (rule searchExact_panics [OF assms])

theorem search_exact_panics_witness:
  "searchExact rev key_sort sample_index [0, 0, 0] 1 = None"
proof (rule search_exact_panics)
  show "ix_wf sample_index" by (rule sample_index_facts)
  show "ix_abs sample_index ''a'' = Some [0, 0]"
    by (simp add: sample_index_def ix_abs_def Index_AddVector_def NewIndex_def gm_get_def gm_put_def ToFloat32_def float_eval)
qed simp_all

text \<open>Serial or in chunks, every prepared query is advanced over all entries, in some order.\<close>

lemma searchBatch_scans:
  assumes "ix_wf i" and "\<And>j. iter_ok (iters j)" and "list_all pq_finite ps" and "\<And>vid vs. ix_abs i vid = Some vs \<Longrightarrow> list_all finite32 vs"
  shows "\<exists>ps'. searchBatchExactParallel procs iters srt i ps = Some (batchResultsFromPrepared srt ps') \<and>
    list_all2 (\<lambda>p p'. \<exists>j. p' = foldl (\<lambda>p e. pq_step e p) p (ix_entries (iters j) i)) ps ps'"
proof (cases "min procs (length ps div 4) \<le> 1")
  case True
  have "scanExactBatch (iters 0) i ps = Some (map (\<lambda>p. foldl (\<lambda>p e. pq_step e p) p (ix_entries (iters 0) i)) ps)"
    using assms by (intro scanExactBatch_eq) simp_all
  with True show ?thesis
    by (intro exI [of _ "map (\<lambda>p. foldl (\<lambda>p e. pq_step e p) p (ix_entries (iters 0) i)) ps"] conjI)
       (auto simp: searchBatchExactParallel_def searchBatchExactSerial_def list_all2_conv_all_nth)
next
  case False
  let ?R = "\<lambda>p p'. \<exists>j. p' = foldl (\<lambda>p e. pq_step e p) p (ix_entries (iters j) i)"
  let ?n = "batch_chunk_size (length ps) (min procs (length ps div 4))"
  have cc: "concat (batch_chunks ?n ps) = ps"
    using False by (intro concat_batch_chunks batch_chunk_size_pos) auto
  have "list_all pq_finite (concat (batch_chunks ?n ps))" using assms(3) cc by simp
  then have "list_all (list_all pq_finite) (batch_chunks ?n ps)" by (auto simp: list_all_iff)
  then have "\<exists>ps'. scan_chunks iters i 0 (batch_chunks ?n ps) = Some ps' \<and> list_all2 ?R (concat (batch_chunks ?n ps)) ps'"
    by (intro scan_chunks_eq) (use assms in simp_all)
  then obtain ps' where "scan_chunks iters i 0 (batch_chunks ?n ps) = Some ps'" "list_all2 ?R ps ps'"
    unfolding cc by (elim exE conjE)
  with False show ?thesis
    by (intro exI [of _ ps'] conjI) (simp_all add: searchBatchExactParallel_def Let_def)
qed

lemma scanned_topk:
  assumes "ix_wf i" and "iter_ok iter" and "slice_sort_ok srt" and k: "0 < k" "pqAcc p = newTopKAccumulator k"
    and p': "p' = foldl (\<lambda>p e. pq_step e p) p (ix_entries iter i)"
  shows "\<exists>cands. topk_spec (nat (accLimit (pqAcc p))) cands (acc_Results srt (pqAcc p')) \<and>
    set cands = ix_cands i (pqVals32 p) \<and> distinct (map srID cands)" and "pqID p' = pqID p"
proof -
  define cands where "cands = exact_cands (pqVals32 p)
    (filter (\<lambda>(vid, vs). length vs = length (pqVals32 p)) (ix_entries iter i))"
  have "pqAcc p' = foldl acc_Add (newTopKAccumulator k) cands"
    unfolding p' pq_steps_acc by (simp add: k cands_def)
  moreover have "topk_spec (nat k) cands (acc_Results srt (foldl acc_Add (newTopKAccumulator k) cands))"
    using k(1) assms(3) by (intro acc_topk) (auto simp: cands_def exact_cands_def)
  moreover have "nat (accLimit (pqAcc p)) = nat k" using k by (simp add: newTopKAccumulator_def)
  ultimately show "\<exists>cands. topk_spec (nat (accLimit (pqAcc p))) cands (acc_Results srt (pqAcc p')) \<and>
    set cands = ix_cands i (pqVals32 p) \<and> distinct (map srID cands)"
    using exact_cands_set [OF assms(1,2), of "pqVals32 p"] unfolding cands_def by metis
  show "pqID p' = pqID p" unfolding p' pq_steps_acc by simp
qed

lemma searchBatch_topk:
  assumes "ix_wf i" and "\<And>j. iter_ok (iters j)" and "slice_sort_ok srt" and "list_all pq_finite ps"
    and "\<And>vid vs. ix_abs i vid = Some vs \<Longrightarrow> list_all finite32 vs"
    and "\<forall>p \<in> set ps. \<exists>k > 0. pqAcc p = newTopKAccumulator k"
  shows "\<exists>res. searchBatchExactParallel procs iters srt i ps = Some res \<and> map bsID res = map pqID ps \<and>
    list_all2 (\<lambda>p r. \<exists>cands. topk_spec (nat (accLimit (pqAcc p))) cands (bsResults r) \<and>
      set cands = ix_cands i (pqVals32 p) \<and> distinct (map srID cands)) ps res"
proof -
  let ?R = "\<lambda>p p'. \<exists>j. p' = foldl (\<lambda>p e. pq_step e p) p (ix_entries (iters j) i)"
  have "\<exists>ps'. searchBatchExactParallel procs iters srt i ps = Some (batchResultsFromPrepared srt ps') \<and> list_all2 ?R ps ps'"
    by (rule searchBatch_scans) (use assms in blast)+
  then obtain ps' where res: "searchBatchExactParallel procs iters srt i ps = Some (batchResultsFromPrepared srt ps')"
    and all: "list_all2 ?R ps ps'" by blast
  have one: "\<exists>cands. topk_spec (nat (accLimit (pqAcc p))) cands (acc_Results srt (pqAcc p')) \<and>
      set cands = ix_cands i (pqVals32 p) \<and> distinct (map srID cands)" "pqID p' = pqID p"
    if p: "p \<in> set ps" and R: "?R p p'" for p p'
  proof -
    obtain j where j: "p' = foldl (\<lambda>p e. pq_step e p) p (ix_entries (iters j) i)" using R by blast
    obtain k where k: "0 < k" "pqAcc p = newTopKAccumulator k" using assms(6) p by blast
    note t = scanned_topk [OF assms(1) assms(2) assms(3) k j]
    show "\<exists>cands. topk_spec (nat (accLimit (pqAcc p))) cands (acc_Results srt (pqAcc p')) \<and>
      set cands = ix_cands i (pqVals32 p) \<and> distinct (map srID cands)" by (rule t(1))
    show "pqID p' = pqID p" by (rule t(2))
  qed
  have "list_all2 (\<lambda>p p'. pqID p' = pqID p) ps ps'"
    by (rule list_all2_mono_set [OF all]) (rule one(2))
  then have "map bsID (batchResultsFromPrepared srt ps') = map pqID ps"
    by (simp add: batchResultsFromPrepared_def o_def list_all2_map_eq)
  moreover have "list_all2 (\<lambda>p r. \<exists>cands. topk_spec (nat (accLimit (pqAcc p))) cands (bsResults r) \<and>
      set cands = ix_cands i (pqVals32 p) \<and> distinct (map srID cands)) ps (batchResultsFromPrepared srt ps')"
    unfolding batchResultsFromPrepared_def list_all2_map2 batchSearchResult.simps
    by (rule list_all2_mono_set [OF all]) (rule one(1))
  ultimately show ?thesis using res by blast
qed

text \<open>
  Batch search agrees with the specification for every query, also when it runs in parallel:
  for finite queries and stored vectors, any number of processors and any iteration order of each
  goroutine, the result has one entry per query, in the order of the queries and under the query's
  identifier, and each entry is the top \<open>k\<close> of the stored vectors of that query's dimension.
\<close>

theorem batch_search_topk:
  assumes "ix_wf i" and "\<And>j. iter_ok (iters j)" and "slice_sort_ok srt" and "list_all pq_finite ps"
    and "\<And>vid vs. ix_abs i vid = Some vs \<Longrightarrow> list_all finite32 vs"
    and "\<forall>p \<in> set ps. \<exists>k > 0. pqAcc p = newTopKAccumulator k"
  shows "\<exists>res. searchBatchExactParallel procs iters srt i ps = Some res \<and> map bsID res = map pqID ps \<and>
    list_all2 (\<lambda>p r. \<exists>cands. topk_spec (nat (accLimit (pqAcc p))) cands (bsResults r) \<and>
      set cands = ix_cands i (pqVals32 p) \<and> distinct (map srID cands)) ps res"
  by (rule searchBatch_topk [OF assms])

lemma sample_index_finite: "ix_abs sample_index vid = Some vs \<Longrightarrow> list_all finite32 vs"
  by (auto simp: sample_index_def ix_abs_def Index_AddVector_def NewIndex_def gm_get_def gm_put_def ToFloat32_def
      finite32_def float_eval split: if_splits)

theorem batch_search_topk_witness:
  "\<exists>res. searchBatchExactParallel 2 (\<lambda>_. rev) key_sort sample_index
     (replicate 8 \<lparr>pqID = ''q'', pqVals = [0, 0], pqVals32 = [0, 0], pqAcc = newTopKAccumulator 1\<rparr>) = Some res \<and>
     length res = 8"
proof -
  let ?p = "\<lparr>pqID = ''q'', pqVals = [0, 0], pqVals32 = [0, 0], pqAcc = newTopKAccumulator 1\<rparr>"
  have fin: "list_all pq_finite (replicate 8 ?p)"
    by (simp add: list_all_iff pq_finite_def finite32_def float_eval)
  have acc: "\<forall>p \<in> set (replicate 8 ?p). \<exists>k > 0. pqAcc p = newTopKAccumulator k" by force
  note use = batch_search_topk [where i = sample_index and iters = "\<lambda>_. rev" and srt = key_sort and procs = 2, OF _ _ _ fin _ acc]
  obtain res where "searchBatchExactParallel 2 (\<lambda>_. rev) key_sort sample_index (replicate 8 ?p) = Some res"
    "map bsID res = map pqID (replicate 8 ?p)"
    using use sample_index_facts(1) key_sort_ok sample_index_finite iter_ok_id(3) by blast
  then show ?thesis by (metis length_map length_replicate)
qed

text \<open>
  The batch path does not filter NaN where the single path does: a finite \<^verbatim>\<open>float64\<close> such as
  \<open>10\<^sup>3\<^sup>9\<close> becomes \<open>+Inf\<close> in single precision, its distance to itself is NaN; the single search
  then finds nothing, while a batch of four equal queries returns the vector with distance NaN.
\<close>

theorem batch_leaks_nan:
  "let i = snd (Index_AddVector NewIndex \<lparr>vID = ''a'', vValues = [0x48078287F49C4A1D]\<rparr>);
       q = \<lparr>pqID = ''q'', pqVals = [0x48078287F49C4A1D], pqVals32 = ToFloat32 [0x48078287F49C4A1D],
            pqAcc = newTopKAccumulator 1\<rparr>
   in searchExact rev key_sort i [0x48078287F49C4A1D] 1 = Some [] \<and>
      (\<exists>r. searchBatchExactSerial rev key_sort i [q, q, q, q] =
         Some (replicate 4 \<lparr>bsID = ''q'', bsResults = [\<lparr>srID = ''a'', srDistance = r\<rparr>]\<rparr>) \<and> f64_isnan r)"
proof -
  have c: "f64_to_f32 0x48078287F49C4A1D = 0x7F800000" by (simp add: float_eval)
  have d: "SquaredEuclideanDistance32SameLen [0x7F800000] [0x7F800000] = Some f64_NaN"
    by (simp add: sameLen_eq diffs32_def float_eval)
  have d4: "SquaredEuclideanDistance32x4SameLen [0x7F800000] [0x7F800000] [0x7F800000] [0x7F800000] [0x7F800000] =
      Some (f64_NaN, f64_NaN, f64_NaN, f64_NaN)"
    by (simp add: x4_eq_single d)
  have e: "\<not> f64_eq f64_NaN f64_NaN" "f64_isnan (sqrtDistance f64_NaN)"
    by (simp_all add: sqrtDistance_def f64_sqrt_def fl_sqrt_def float_eval)
  have "searchBatchExactSerial rev key_sort (snd (Index_AddVector NewIndex \<lparr>vID = ''a'', vValues = [0x48078287F49C4A1D]\<rparr>))
      (replicate 4 \<lparr>pqID = ''q'', pqVals = [0x48078287F49C4A1D], pqVals32 = ToFloat32 [0x48078287F49C4A1D],
            pqAcc = newTopKAccumulator 1\<rparr>) =
      Some (replicate 4 \<lparr>bsID = ''q'', bsResults = [\<lparr>srID = ''a'', srDistance = sqrtDistance f64_NaN\<rparr>]\<rparr>)"
    using c d4
    by (simp add: searchBatchExactSerial_def scanExactBatch_def Index_RangeVectors32_def Index_AddVector_def NewIndex_def
        gm_get_def gm_put_def gm_range_def gm_keys_def ToFloat32_def scan_visit_def numeral_eq_Suc pq_add_def
        acc_Add_def newTopKAccumulator_def acc_push_def upSearchResultMax_def sift_up.simps
        batchResultsFromPrepared_def acc_Results_def key_sort_def Let_def del: F32_sel)
  moreover have "searchExact rev key_sort (snd (Index_AddVector NewIndex \<lparr>vID = ''a'', vValues = [0x48078287F49C4A1D]\<rparr>))
      [0x48078287F49C4A1D] 1 = Some []"
    using c d e
    by (simp add: searchExact_def Index_RangeVectors32_def Index_AddVector_def NewIndex_def gm_get_def gm_put_def
        gm_range_def gm_keys_def ToFloat32_def exact_visit_def newTopKAccumulator_def acc_Results_def)
  ultimately show ?thesis using e(2) by (simp add: numeral_eq_Suc Let_def)
qed

end
