(* ===== verification/AnnSearch.thy ===== *)
theory AnnSearch
  imports ArrayHeap ExactIndex
begin

text \<open>
  The read side of \<^verbatim>\<open>internal/index/ann/ann_index.go\<close>: the node graph, the pooled search workspace with
  its epoch-stamped visited marks, the two distance heaps, the best-first search and the selection
  of the nearest candidates. Slots are positions in the node array. \<open>None\<close> is a run-time panic.
  The lemmas show that a reused workspace starts with no slot visited, also when the 32-bit epoch
  wraps around; that the search ends and does not panic on a well-formed graph; that what it returns
  are reachable slots with their true distances, in ascending order; and that with a beam at least as
  wide as the graph it returns every reachable slot.
\<close>

section \<open>State\<close>

record annNode =
  ndSlot :: nat
  ndID :: int
  ndVector :: "float32 list"
  ndNeighbors :: "nat list"

text \<open>\<open>anRnd\<close> is the state of the generator \<^verbatim>\<open>rnd\<close>: its seed, and how many numbers it has drawn.\<close>

record annIndex =
  anNodes :: "annNode list"
  anIdToSlot :: "(int, nat) gomap"
  anDeleted :: "bool list"
  anDeletedCount :: int
  anEntrypoint :: nat
  anHasEntrypoint :: bool
  anDim :: nat
  anM :: int
  anEfConstruction :: int
  anEfSearch :: int
  anRnd :: "int \<times> nat"

record distancePair =
  dpID :: nat
  dpDistance :: float64

record annResult =
  arID :: int
  arDistance :: float64

section \<open>The distance heaps\<close>

definition min_up_stop :: "distancePair \<Rightarrow> distancePair \<Rightarrow> bool" where
  "min_up_stop c p = f64_le (dpDistance p) (dpDistance c)"

definition min_better :: "distancePair \<Rightarrow> distancePair \<Rightarrow> bool" where
  "min_better r l = f64_lt (dpDistance r) (dpDistance l)"

definition min_down_stop :: "distancePair \<Rightarrow> distancePair \<Rightarrow> bool" where
  "min_down_stop p c = f64_le (dpDistance p) (dpDistance c)"

definition max_up_stop :: "distancePair \<Rightarrow> distancePair \<Rightarrow> bool" where
  "max_up_stop c p = f64_le (dpDistance c) (dpDistance p)"

definition max_better :: "distancePair \<Rightarrow> distancePair \<Rightarrow> bool" where
  "max_better r l = f64_lt (dpDistance l) (dpDistance r)"

definition max_down_stop :: "distancePair \<Rightarrow> distancePair \<Rightarrow> bool" where
  "max_down_stop p c = f64_le (dpDistance c) (dpDistance p)"

definition upMin :: "distancePair list \<Rightarrow> nat \<Rightarrow> distancePair list" where
  "upMin h j = sift_up min_up_stop h j"

definition downMin :: "distancePair list \<Rightarrow> nat \<Rightarrow> distancePair list" where
  "downMin h i = sift_down min_better min_down_stop h i"

definition upMax :: "distancePair list \<Rightarrow> nat \<Rightarrow> distancePair list" where
  "upMax h j = sift_up max_up_stop h j"

definition downMax :: "distancePair list \<Rightarrow> nat \<Rightarrow> distancePair list" where
  "downMax h i = sift_down max_better max_down_stop h i"

definition min_Push :: "distancePair list \<Rightarrow> distancePair \<Rightarrow> distancePair list" where
  "min_Push h x = (let h' = h @ [x] in upMin h' (length h' - 1))"

text \<open>\<^verbatim>\<open>Pop\<close> is called on non-empty heaps only.\<close>

definition min_Pop :: "distancePair list \<Rightarrow> distancePair \<times> distancePair list" where
  "min_Pop h = (let n = length h - 1; old = swap h 0 n in (old ! n, downMin (take n old) 0))"

definition max_Push :: "distancePair list \<Rightarrow> distancePair \<Rightarrow> distancePair list" where
  "max_Push h x = (let h' = h @ [x] in upMax h' (length h' - 1))"

definition max_ReplaceTop :: "distancePair list \<Rightarrow> distancePair \<Rightarrow> distancePair list" where
  "max_ReplaceTop h x = downMax (h[0 := x]) 0"

definition max_Pop :: "distancePair list \<Rightarrow> distancePair \<times> distancePair list" where
  "max_Pop h = (let n = length h - 1; old = swap h 0 n in (old ! n, downMax (take n old) 0))"

section \<open>The workspace\<close>

text \<open>
  \<open>wsMarks\<close> is the backing array of \<^verbatim>\<open>visitedMarks\<close>, its length the capacity; \<open>wsLen\<close> is the length of
  the slice. The other buffers are emptied by every reset, so their capacities are not observable.
\<close>

record searchWorkspace =
  wsMarks :: "32 word list"
  wsLen :: nat
  wsVisitEpoch :: "32 word"
  wsMinQ :: "distancePair list"
  wsMaxQ :: "distancePair list"
  wsCandidates :: "distancePair list"
  wsQuery32 :: "float32 list"

definition newWorkspace :: searchWorkspace where
  "newWorkspace = \<lparr>wsMarks = [], wsLen = 0, wsVisitEpoch = 0, wsMinQ = [], wsMaxQ = [], wsCandidates = [], wsQuery32 = []\<rparr>"

definition ws_reset :: "searchWorkspace \<Rightarrow> nat \<Rightarrow> searchWorkspace" where
  "ws_reset w nodes =
     (let marks = (if length (wsMarks w) < nodes then replicate nodes 0 else wsMarks w);
          epoch = wsVisitEpoch w + 1;
          (marks', epoch') = (if epoch = 0 then (replicate nodes 0 @ drop nodes marks, 1) else (marks, epoch))
      in w\<lparr>wsMarks := marks', wsLen := nodes, wsVisitEpoch := epoch', wsMinQ := [], wsMaxQ := [], wsCandidates := []\<rparr>)"

definition query32From64 :: "searchWorkspace \<Rightarrow> float64 list \<Rightarrow> searchWorkspace" where
  "query32From64 w query = w\<lparr>wsQuery32 := ToFloat32 query\<rparr>"

definition visitedMarks :: "searchWorkspace \<Rightarrow> 32 word list" where
  "visitedMarks w = take (wsLen w) (wsMarks w)"

definition isVisited :: "searchWorkspace \<Rightarrow> nat \<Rightarrow> bool option" where
  "isVisited w slot = map_option (\<lambda>m. m = wsVisitEpoch w) (idx (visitedMarks w) slot)"

definition markVisited :: "searchWorkspace \<Rightarrow> nat \<Rightarrow> searchWorkspace option" where
  "markVisited w slot =
     (if slot < length (visitedMarks w) then Some (w\<lparr>wsMarks := (wsMarks w)[slot := wsVisitEpoch w]\<rparr>) else None)"

text \<open>The number of slots not visited yet: what the search loop uses up.\<close>

definition unvisited :: "searchWorkspace \<Rightarrow> nat" where
  "unvisited w = length (filter (\<lambda>m. m \<noteq> wsVisitEpoch w) (visitedMarks w))"

section \<open>The search\<close>

text \<open>The loop over the neighbours of the current node.\<close>

fun visit_neighbors :: "annIndex \<Rightarrow> int \<Rightarrow> float32 list \<Rightarrow> nat list \<Rightarrow>
    searchWorkspace \<times> distancePair list \<times> distancePair list \<Rightarrow>
    (searchWorkspace \<times> distancePair list \<times> distancePair list) option" where
  "visit_neighbors a ef query [] st = Some st"
| "visit_neighbors a ef query (nid # nids) (ws, minQ, maxQ) =
     do { seen \<leftarrow> isVisited ws nid;
          if seen then visit_neighbors a ef query nids (ws, minQ, maxQ)
          else do {
            ws' \<leftarrow> markVisited ws nid;
            neighbor \<leftarrow> idx (anNodes a) nid;
            dist \<leftarrow> squaredDistance32 query (ndVector neighbor);
            let dp = \<lparr>dpID = nid, dpDistance = dist\<rparr>
            in if int (length maxQ) < ef
               then visit_neighbors a ef query nids (ws', min_Push minQ dp, max_Push maxQ dp)
               else do {
                 worst \<leftarrow> idx maxQ 0;
                 if f64_lt dist (dpDistance worst)
                 then visit_neighbors a ef query nids (ws', min_Push minQ dp, max_ReplaceTop maxQ dp)
                 else visit_neighbors a ef query nids (ws', minQ, maxQ) } } }"

lemma length_min_Push [simp]: "length (min_Push h x) = Suc (length h)"
  by (simp add: min_Push_def upMin_def Let_def)

lemma length_min_Pop: "h \<noteq> [] \<Longrightarrow> min_Pop h = (x, r) \<Longrightarrow> length r < length h"
  by (auto simp: min_Pop_def downMin_def Let_def)

lemma markVisited_Some:
  assumes "markVisited w slot = Some w'"
  shows "slot < length (visitedMarks w)" and "visitedMarks w' = (visitedMarks w)[slot := wsVisitEpoch w]"
    and "wsVisitEpoch w' = wsVisitEpoch w" and "wsLen w' = wsLen w" and "length (wsMarks w') = length (wsMarks w)"
  using assms by (auto simp: markVisited_def visitedMarks_def take_update_swap split: if_splits)

lemma filter_update_less:
  "i < length xs \<Longrightarrow> P (xs ! i) \<Longrightarrow> \<not> P y \<Longrightarrow> Suc (length (filter P (xs[i := y]))) = length (filter P xs)"
proof (induction xs arbitrary: i)
  case (Cons x xs)
  then show ?case by (cases i) auto
qed simp

lemma unvisited_mark:
  assumes "isVisited w slot = Some False" and "markVisited w slot = Some w'"
  shows "Suc (unvisited w') = unvisited w"
  using assms markVisited_Some [OF assms(2)]
  by (auto simp: unvisited_def isVisited_def idx_eq_Some filter_update_less)

lemma visit_neighbors_measure:
  "visit_neighbors a ef query nids (ws, minQ, maxQ) = Some (ws', minQ', maxQ') \<Longrightarrow>
     unvisited ws' + length minQ' \<le> unvisited ws + length minQ"
proof (induction nids arbitrary: ws minQ maxQ)
  case (Cons nid nids)
  obtain seen where seen: "isVisited ws nid = Some seen"
    using Cons.prems by (cases "isVisited ws nid") auto
  show ?case
  proof (cases seen)
    case True
    with Cons seen show ?thesis by simp
  next
    case False
    with Cons.prems seen obtain w where w: "markVisited ws nid = Some w"
      by (cases "markVisited ws nid") auto
    have "Suc (unvisited w) = unvisited ws" using seen False w unvisited_mark by simp
    then show ?thesis
      using Cons.prems False seen w
      by (auto simp: Let_def bind_eq_Some_conv split: if_splits dest!: Cons.IH)
  qed
qed simp

text \<open>
  The best-first loop. Its measure is the number of unvisited slots plus the length of the queue: an
  iteration takes one element from the queue, and every element it adds is a slot visited for the
  first time.
\<close>

function search_loop :: "annIndex \<Rightarrow> int \<Rightarrow> float32 list \<Rightarrow> searchWorkspace \<Rightarrow> distancePair list \<Rightarrow> distancePair list \<Rightarrow>
    (searchWorkspace \<times> distancePair list) option" where
  "search_loop a ef query ws minQ maxQ =
     (if minQ = [] then Some (ws, maxQ)
      else case min_Pop minQ of (current, minQ1) \<Rightarrow>
        (case idx maxQ 0 of
           None \<Rightarrow> None
         | Some worst \<Rightarrow>
             if ef \<le> int (length maxQ) \<and> f64_lt (dpDistance worst) (dpDistance current) then Some (ws, maxQ)
             else case idx (anNodes a) (dpID current) of
                 None \<Rightarrow> None
               | Some currNode \<Rightarrow>
                   (case visit_neighbors a ef query (ndNeighbors currNode) (ws, minQ1, maxQ) of
                      None \<Rightarrow> None
                    | Some (ws', minQ', maxQ') \<Rightarrow> search_loop a ef query ws' minQ' maxQ')))"
  by pat_completeness auto
termination
proof (relation "measure (\<lambda>(a, ef, query, ws, minQ, maxQ). unvisited ws + length minQ)", goal_cases)
  case (2 a ef query ws minQ maxQ current minQ1 worst currNode r ws' q minQ' maxQ')
  then have "length minQ1 < length minQ" using length_min_Pop by metis
  moreover have "unvisited ws' + length minQ' \<le> unvisited ws + length minQ1"
    using 2 visit_neighbors_measure by blast
  ultimately show ?case by simp
qed simp

declare search_loop.simps [simp del]

text \<open>\<^verbatim>\<open>drainCandidates\<close> fills its result from the end with what \<^verbatim>\<open>Pop\<close> returns.\<close>

definition drainCandidates :: "searchWorkspace \<Rightarrow> distancePair list \<Rightarrow> distancePair list \<times> searchWorkspace" where
  "drainCandidates w maxQ =
     (let out = rev (heap_drain max_better max_down_stop maxQ)
      in (out, w\<lparr>wsMaxQ := [], wsCandidates := out\<rparr>))"

definition searchCandidates32WithWorkspaceLocked :: "annIndex \<Rightarrow> searchWorkspace \<Rightarrow> int \<Rightarrow> float32 list \<Rightarrow>
    (distancePair list \<times> searchWorkspace) option" where
  "searchCandidates32WithWorkspaceLocked a ws ef query =
     do { let start = anEntrypoint a;
          startNode \<leftarrow> idx (anNodes a) start;
          startDist \<leftarrow> squaredDistance32 query (ndVector startNode);
          let minQ = min_Push (wsMinQ ws) \<lparr>dpID = start, dpDistance = startDist\<rparr>;
          let maxQ = max_Push (wsMaxQ ws) \<lparr>dpID = start, dpDistance = startDist\<rparr>;
          ws1 \<leftarrow> markVisited ws start;
          (ws2, maxQ2) \<leftarrow> search_loop a ef query ws1 minQ maxQ;
          Some (drainCandidates (ws2\<lparr>wsMinQ := []\<rparr>) maxQ2) }"

section \<open>Selection\<close>

definition select_best :: "distancePair list \<Rightarrow> nat \<Rightarrow> nat" where
  "select_best cands i =
     foldl (\<lambda>best j. if f64_lt (dpDistance (cands ! j)) (dpDistance (cands ! best)) then j else best)
       i [i + 1..<length cands]"

definition selectNearest :: "distancePair list \<Rightarrow> nat \<Rightarrow> distancePair list" where
  "selectNearest cands k = foldl (\<lambda>c i. swap c i (select_best c i)) cands [0..<k]"

definition clampK :: "int \<Rightarrow> distancePair list \<Rightarrow> int" where
  "clampK k cands = (if k > int (length cands) then int (length cands) else k)"

definition nearestIDs :: "distancePair list \<Rightarrow> int \<Rightarrow> nat list" where
  "nearestIDs cands k0 =
     (let k = clampK k0 cands
      in if k \<le> 0 then [] else map dpID (take (nat k) (selectNearest cands (nat k))))"

definition nearestExternalIDs :: "annIndex \<Rightarrow> distancePair list \<Rightarrow> int \<Rightarrow> int list option" where
  "nearestExternalIDs a cands k0 =
     (let k = clampK k0 cands
      in if k \<le> 0 then Some []
         else those (map (\<lambda>c. map_option ndID (idx (anNodes a) (dpID c))) (take (nat k) (selectNearest cands (nat k)))))"

definition nearestResults :: "annIndex \<Rightarrow> distancePair list \<Rightarrow> int \<Rightarrow> annResult list option" where
  "nearestResults a cands k0 =
     (let k = clampK k0 cands
      in if k \<le> 0 then Some []
         else those (map (\<lambda>c. map_option (\<lambda>n. \<lparr>arID = ndID n, arDistance = dpDistance c\<rparr>) (idx (anNodes a) (dpID c)))
                (take (nat k) (selectNearest cands (nat k)))))"

definition liveCandidates :: "annIndex \<Rightarrow> distancePair list \<Rightarrow> distancePair list" where
  "liveCandidates a cands =
     (if anDeletedCount a = 0 then cands
      else filter (\<lambda>c. \<not> (dpID c < length (anDeleted a) \<and> anDeleted a ! dpID c)) cands)"

definition effective_ef :: "annIndex \<Rightarrow> int \<Rightarrow> int" where
  "effective_ef a ef = (if ef \<le> 0 then anEfSearch a else ef)"

definition searchCandidates32Locked :: "annIndex \<Rightarrow> searchWorkspace \<Rightarrow> float32 list \<Rightarrow> int \<Rightarrow>
    (distancePair list \<times> searchWorkspace) option" where
  "searchCandidates32Locked a ws query ef =
     searchCandidates32WithWorkspaceLocked a (ws_reset ws (length (anNodes a))) (effective_ef a ef) query"

definition searchIDs64Locked :: "annIndex \<Rightarrow> searchWorkspace \<Rightarrow> float64 list \<Rightarrow> int \<Rightarrow> int \<Rightarrow>
    (int list \<times> searchWorkspace) option" where
  "searchIDs64Locked a ws query k ef =
     do { let ws1 = query32From64 (ws_reset ws (length (anNodes a))) query;
          (cands, ws2) \<leftarrow> searchCandidates32WithWorkspaceLocked a ws1 (effective_ef a ef) (wsQuery32 ws1);
          ids \<leftarrow> nearestExternalIDs a (liveCandidates a cands) k;
          Some (ids, ws2) }"

definition searchResults64Locked :: "annIndex \<Rightarrow> searchWorkspace \<Rightarrow> float64 list \<Rightarrow> int \<Rightarrow> int \<Rightarrow>
    (annResult list \<times> searchWorkspace) option" where
  "searchResults64Locked a ws query k ef =
     do { let ws1 = query32From64 (ws_reset ws (length (anNodes a))) query;
          (cands, ws2) \<leftarrow> searchCandidates32WithWorkspaceLocked a ws1 (effective_ef a ef) (wsQuery32 ws1);
          res \<leftarrow> nearestResults a (liveCandidates a cands) k;
          Some (res, ws2) }"

definition Ann_Search :: "annIndex \<Rightarrow> searchWorkspace \<Rightarrow> float64 list \<Rightarrow> int \<Rightarrow>
    (int list result \<times> searchWorkspace) option" where
  "Ann_Search a ws query k =
     (if k \<le> 0 then Some (Inl ErrAnnInvalidK, ws)
      else if length query = 0 \<or> length query \<noteq> anDim a then Some (Inl ErrInvalidVectorDim, ws)
      else if length (anNodes a) = 0 then Some (Inr [], ws)
      else map_option (\<lambda>(ids, ws'). (Inr ids, ws')) (searchIDs64Locked a ws query k (anEfSearch a)))"

definition SearchWithDistancesInto :: "annIndex \<Rightarrow> searchWorkspace \<Rightarrow> float64 list \<Rightarrow> int \<Rightarrow>
    (annResult list result \<times> searchWorkspace) option" where
  "SearchWithDistancesInto a ws query k =
     (if k \<le> 0 then Some (Inl ErrAnnInvalidK, ws)
      else if length query = 0 \<or> length query \<noteq> anDim a then Some (Inl ErrInvalidVectorDim, ws)
      else if length (anNodes a) = 0 then Some (Inr [], ws)
      else map_option (\<lambda>(res, ws'). (Inr res, ws')) (searchResults64Locked a ws query k (anEfSearch a)))"

section \<open>The heaps as instances of the library\<close>

definition max_skip :: "distancePair \<Rightarrow> distancePair \<Rightarrow> bool" where
  "max_skip x t \<longleftrightarrow> \<not> f64_lt (dpDistance x) (dpDistance t)"

definition dp_ok :: "distancePair \<Rightarrow> bool" where
  "dp_ok d \<longleftrightarrow> \<not> f64_isnan (dpDistance d)"

interpretation mn: array_heap dp_ok "\<lambda>x y. f64_le (dpDistance x) (dpDistance y)"
  min_up_stop min_better min_down_stop
  by unfold_locales
     (auto simp: dp_ok_def min_up_stop_def min_better_def min_down_stop_def f64_cmp_key)

interpretation mx: bounded_heap dp_ok "\<lambda>x y. f64_le (dpDistance y) (dpDistance x)"
  max_up_stop max_better max_down_stop max_skip
  by unfold_locales
     (auto simp: dp_ok_def max_up_stop_def max_better_def max_down_stop_def max_skip_def f64_cmp_key)

lemma dist_heap_ops:
  "min_Push h x = heap_push min_up_stop h x"
  "min_Pop h = heap_pop min_better min_down_stop h"
  "max_Push h x = heap_push max_up_stop h x"
  "max_ReplaceTop h x = heap_replace_top max_better max_down_stop h x"
  "max_Pop h = heap_pop max_better max_down_stop h"
  by (simp_all add: min_Push_def min_Pop_def max_Push_def max_ReplaceTop_def max_Pop_def heap_push_def heap_pop_def
      heap_replace_top_def upMin_def downMin_def upMax_def downMax_def Let_def)

text \<open>What the code does with a new neighbour is an offer to the bounded heap.\<close>

definition max_offer :: "int \<Rightarrow> distancePair list \<Rightarrow> distancePair \<Rightarrow> distancePair list" where
  "max_offer ef h x = heap_offer max_skip max_up_stop max_better max_down_stop (nat ef) h x"

lemma max_offer_mset:
  assumes "h \<noteq> []" and "0 < ef"
  shows "mset (max_offer ef h x) \<subseteq># add_mset x (mset h)" and "max_offer ef h x \<noteq> []"
    and "int (length h) \<le> ef \<Longrightarrow> int (length (max_offer ef h x)) \<le> ef"
proof -
  show m: "mset (max_offer ef h x) \<subseteq># add_mset x (mset h)"
    using assms by (cases h) (auto simp: max_offer_def heap_offer_def)
  have l: "length (max_offer ef h x) = (if length h < nat ef then Suc (length h) else length h)"
    using assms(1) by (simp add: max_offer_def heap_offer_def)
  then show "max_offer ef h x \<noteq> []" using assms(1) by (auto split: if_splits)
  show "int (length h) \<le> ef \<Longrightarrow> int (length (max_offer ef h x)) \<le> ef" using l by auto
qed

section \<open>Workspace reuse\<close>

text \<open>
  A workspace comes from the pool of its index. Between two uses the index may have grown, never
  shrunk, and the epoch only counts up; so all marks are at most the epoch.
\<close>

definition ws_ok :: "nat \<Rightarrow> searchWorkspace \<Rightarrow> bool" where
  "ws_ok n w \<longleftrightarrow> wsLen w = length (wsMarks w) \<and> wsLen w \<le> n \<and> (\<forall>m \<in> set (wsMarks w). m \<le> wsVisitEpoch w)"

definition ws_visited :: "searchWorkspace \<Rightarrow> nat set" where
  "ws_visited w = {s. isVisited w s = Some True}"

lemma ws_ok_new [simp]: "ws_ok n newWorkspace"
  by (simp add: ws_ok_def newWorkspace_def)

lemma ws_ok_mono: "ws_ok n w \<Longrightarrow> n \<le> n' \<Longrightarrow> ws_ok n' w"
  by (simp add: ws_ok_def)

lemma word_Suc_less: "w + 1 \<noteq> 0 \<Longrightarrow> m \<le> w \<Longrightarrow> m < w + (1 :: 'a :: len word)"
proof -
  assume "w + 1 \<noteq> 0" and "m \<le> w"
  then have "unat (w + 1) = Suc (unat w)" by (metis add.commute unatSuc)
  with \<open>m \<le> w\<close> show ?thesis by (simp add: word_less_nat_alt word_le_nat_alt)
qed

lemma ws_reset_facts:
  assumes "ws_ok n w"
  shows "ws_ok n (ws_reset w n)" and "wsLen (ws_reset w n) = n" and "length (visitedMarks (ws_reset w n)) = n"
    and "s < n \<Longrightarrow> isVisited (ws_reset w n) s = Some False"
    and "wsMinQ (ws_reset w n) = []" and "wsMaxQ (ws_reset w n) = []"
proof -
  let ?m = "if length (wsMarks w) < n then replicate n 0 else wsMarks w"
  have len: "length ?m = n" and le: "\<forall>m \<in> set ?m. m \<le> wsVisitEpoch w"
    using assms by (auto simp: ws_ok_def)
  have fresh: "\<forall>m \<in> set (wsMarks (ws_reset w n)). m < wsVisitEpoch (ws_reset w n)"
  proof (cases "wsVisitEpoch w + 1 = 0")
    case True
    then show ?thesis using len by (auto simp: ws_reset_def Let_def)
  next
    case False
    then have "\<forall>m \<in> set ?m. m < wsVisitEpoch w + 1" using le word_Suc_less by blast
    then show ?thesis using False by (simp add: ws_reset_def Let_def)
  qed
  have l: "length (wsMarks (ws_reset w n)) = n" using len by (auto simp: ws_reset_def Let_def)
  show wl: "wsLen (ws_reset w n) = n" by (simp add: ws_reset_def Let_def)
  show "ws_ok n (ws_reset w n)" using fresh l wl by (auto simp: ws_ok_def)
  show "length (visitedMarks (ws_reset w n)) = n" using l wl by (simp add: visitedMarks_def)
  show "s < n \<Longrightarrow> isVisited (ws_reset w n) s = Some False"
    using l wl fresh by (auto simp: isVisited_def visitedMarks_def) (metis nless_le nth_mem)
  show "wsMinQ (ws_reset w n) = []" "wsMaxQ (ws_reset w n) = []" by (simp_all add: ws_reset_def Let_def)
qed

lemma ws_ok_mark: "ws_ok n w \<Longrightarrow> markVisited w s = Some w' \<Longrightarrow> ws_ok n w'"
  by (auto simp: ws_ok_def markVisited_def split: if_splits dest!: set_update_subset_insert [THEN subsetD])

lemma isVisited_total: "s < length (visitedMarks w) \<Longrightarrow> isVisited w s = Some (s \<in> ws_visited w)"
  by (simp add: ws_visited_def isVisited_def)

lemma ws_visited_bound: "ws_visited w \<subseteq> {..<length (visitedMarks w)}"
  by (auto simp: ws_visited_def isVisited_def idx_eq_Some)

lemma markVisited_visited:
  assumes "s < length (visitedMarks w)"
  shows "\<exists>w'. markVisited w s = Some w' \<and> ws_visited w' = insert s (ws_visited w) \<and>
    length (visitedMarks w') = length (visitedMarks w)"
proof -
  obtain w' where w': "markVisited w s = Some w'" using assms by (simp add: markVisited_def)
  note m = markVisited_Some [OF w']
  have "ws_visited w' = insert s (ws_visited w)"
    using m by (auto simp: ws_visited_def isVisited_def idx_eq_Some nth_list_update split: if_splits)
  with w' m show ?thesis by simp
qed

lemma ws_visited_reset: "ws_ok n w \<Longrightarrow> ws_visited (ws_reset w n) = {}"
  using ws_reset_facts(3,4) [of n w] ws_visited_bound [of "ws_reset w n"]
  by (fastforce simp: ws_visited_def)


section \<open>The search never panics and returns slots with their distances\<close>

definition ann_graph_ok :: "annIndex \<Rightarrow> bool" where
  "ann_graph_ok a \<longleftrightarrow> anEntrypoint a < length (anNodes a) \<and>
     (\<forall>s < length (anNodes a). length (ndVector (anNodes a ! s)) = anDim a \<and>
        (\<forall>t \<in> set (ndNeighbors (anNodes a ! s)). t < length (anNodes a)))"

text \<open>A pair that carries the distance of its slot.\<close>

definition dp_true :: "annIndex \<Rightarrow> float32 list \<Rightarrow> distancePair \<Rightarrow> bool" where
  "dp_true a q d \<longleftrightarrow> dpID d < length (anNodes a) \<and>
     squaredDistance32 q (ndVector (anNodes a ! dpID d)) = Some (dpDistance d)"

definition dp_of :: "annIndex \<Rightarrow> float32 list \<Rightarrow> nat \<Rightarrow> distancePair" where
  "dp_of a q s = \<lparr>dpID = s, dpDistance = the (squaredDistance32 q (ndVector (anNodes a ! s)))\<rparr>"

lemma dp_of_true:
  assumes "ann_graph_ok a" and "length q = anDim a" and "s < length (anNodes a)"
  shows "squaredDistance32 q (ndVector (anNodes a ! s)) = Some (dpDistance (dp_of a q s))"
    and "dp_true a q (dp_of a q s)" and "dpID (dp_of a q s) = s"
proof -
  have "length q \<le> length (ndVector (anNodes a ! s))" using assms by (simp add: ann_graph_ok_def)
  then have "squaredDistance32 q (ndVector (anNodes a ! s)) \<noteq> None"
    by (simp add: squaredDistance32_eq sameLen_eq)
  then show "squaredDistance32 q (ndVector (anNodes a ! s)) = Some (dpDistance (dp_of a q s))"
    by (simp add: dp_of_def)
  with assms(3) show "dp_true a q (dp_of a q s)" by (simp add: dp_true_def dp_of_def)
  show "dpID (dp_of a q s) = s" by (simp add: dp_of_def)
qed

lemma dp_true_unique: "dp_true a q d \<Longrightarrow> d = dp_of a q (dpID d)"
  by (cases d) (simp add: dp_true_def dp_of_def)

definition search_inv :: "annIndex \<Rightarrow> int \<Rightarrow> float32 list \<Rightarrow>
    searchWorkspace \<times> distancePair list \<times> distancePair list \<Rightarrow> bool" where
  "search_inv a ef q st \<longleftrightarrow> (case st of (ws, minQ, maxQ) \<Rightarrow>
     length (visitedMarks ws) = length (anNodes a) \<and> maxQ \<noteq> [] \<and> int (length maxQ) \<le> ef \<and>
     distinct (map dpID maxQ) \<and> dpID ` set maxQ \<subseteq> ws_visited ws \<and>
     (\<forall>d \<in> set minQ \<union> set maxQ. dp_true a q d))"

text \<open>The two queues after a slot is visited for the first time.\<close>

definition push_min :: "int \<Rightarrow> distancePair list \<Rightarrow> distancePair list \<Rightarrow> distancePair \<Rightarrow> distancePair list" where
  "push_min ef minQ maxQ dp =
     (if int (length maxQ) < ef \<or> f64_lt (dpDistance dp) (dpDistance (maxQ ! 0)) then min_Push minQ dp else minQ)"

lemma set_push_min: "set (push_min ef minQ maxQ dp) \<subseteq> insert dp (set minQ)"
  by (auto simp: push_min_def dist_heap_ops)

lemma visit_neighbors_seen:
  "isVisited ws nid = Some True \<Longrightarrow>
     visit_neighbors a ef q (nid # nids) (ws, minQ, maxQ) = visit_neighbors a ef q nids (ws, minQ, maxQ)"
  by simp

lemma visit_neighbors_new:
  assumes "ann_graph_ok a" and "length q = anDim a" and "nid < length (anNodes a)" and "maxQ \<noteq> []"
    and "isVisited ws nid = Some False" and "markVisited ws nid = Some ws'"
  shows "visit_neighbors a ef q (nid # nids) (ws, minQ, maxQ) =
    visit_neighbors a ef q nids (ws', push_min ef minQ maxQ (dp_of a q nid), max_offer ef maxQ (dp_of a q nid))"
proof -
  have dp: "\<lparr>dpID = nid, dpDistance = dpDistance (dp_of a q nid)\<rparr> = dp_of a q nid" by (simp add: dp_of_def)
  have "int (length maxQ) < ef \<longleftrightarrow> length maxQ < nat ef" by auto
  then show ?thesis
    using assms dp_of_true(1) [OF assms(1-3)] dp
    by (auto simp: Let_def push_min_def max_offer_def heap_offer_def max_skip_def dist_heap_ops)
qed

lemma distinct_submset: "distinct ys \<Longrightarrow> mset xs \<subseteq># mset ys \<Longrightarrow> distinct xs"
  by (metis distinct_append ex_mset mset_append mset_eq_imp_distinct_iff mset_subset_eq_exists_conv)

lemma search_inv_step:
  assumes "search_inv a ef q (ws, minQ, maxQ)" and "ann_graph_ok a" and "length q = anDim a" and "0 < ef"
    and "nid < length (anNodes a)" and "nid \<notin> ws_visited ws" and "markVisited ws nid = Some ws'"
    and "ws_visited ws' = insert nid (ws_visited ws)" and "length (visitedMarks ws') = length (visitedMarks ws)"
  shows "search_inv a ef q (ws', push_min ef minQ maxQ (dp_of a q nid), max_offer ef maxQ (dp_of a q nid))"
proof -
  let ?d = "dp_of a q nid" and ?m = "max_offer ef maxQ (dp_of a q nid)"
  have inv: "maxQ \<noteq> []" "int (length maxQ) \<le> ef" "distinct (map dpID maxQ)" "dpID ` set maxQ \<subseteq> ws_visited ws"
    "\<forall>d \<in> set minQ \<union> set maxQ. dp_true a q d" "length (visitedMarks ws) = length (anNodes a)"
    using assms(1) by (simp_all add: search_inv_def)
  note m = max_offer_mset [OF inv(1) assms(4), of ?d]
  have "image_mset dpID (mset ?m) \<subseteq># image_mset dpID (add_mset ?d (mset maxQ))"
    using m(1) by (rule image_mset_subseteq_mono)
  then have "mset (map dpID ?m) \<subseteq># mset (nid # map dpID maxQ)"
    using dp_of_true(3) [OF assms(2,3,5)] by simp
  moreover have "distinct (nid # map dpID maxQ)" using inv(3,4) assms(6) by auto
  ultimately have "distinct (map dpID ?m)"
    by (rule distinct_submset [rotated])
  moreover have sub: "set ?m \<subseteq> insert ?d (set maxQ)"
    using m(1) by (metis set_mset_add_mset_insert set_mset_mono set_mset_mset)
  moreover have "\<forall>d \<in> set (push_min ef minQ maxQ ?d) \<union> set ?m. dp_true a q d"
    using sub set_push_min [of ef minQ maxQ ?d] inv(5) dp_of_true(2) [OF assms(2,3,5)] by blast
  moreover have "dpID ` set ?m \<subseteq> ws_visited ws'"
    using sub inv(4) assms(8) dp_of_true(3) [OF assms(2,3,5)] by auto
  ultimately show ?thesis using m(2,3) inv assms(9) by (simp add: search_inv_def)
qed

lemma visit_neighbors_ok:
  assumes "search_inv a ef q (ws, minQ, maxQ)" and "ann_graph_ok a" and "length q = anDim a" and "0 < ef"
    and "\<forall>t \<in> set nids. t < length (anNodes a)"
  shows "\<exists>ws' minQ' maxQ'. visit_neighbors a ef q nids (ws, minQ, maxQ) = Some (ws', minQ', maxQ') \<and>
    search_inv a ef q (ws', minQ', maxQ') \<and> (\<forall>n. ws_ok n ws \<longrightarrow> ws_ok n ws')"
  using assms(1,5)
proof (induction nids arbitrary: ws minQ maxQ)
  case (Cons nid nids)
  have len: "length (visitedMarks ws) = length (anNodes a)" and ne: "maxQ \<noteq> []"
    using Cons.prems(1) by (simp_all add: search_inv_def)
  have nid: "nid < length (anNodes a)" using Cons.prems(2) by simp
  show ?case
  proof (cases "nid \<in> ws_visited ws")
    case True
    then have "isVisited ws nid = Some True" by (simp add: ws_visited_def)
    with Cons show ?thesis by simp
  next
    case False
    then have new: "isVisited ws nid = Some False" using isVisited_total len nid by metis
    obtain ws1 where w: "markVisited ws nid = Some ws1" "ws_visited ws1 = insert nid (ws_visited ws)"
      "length (visitedMarks ws1) = length (visitedMarks ws)"
      using markVisited_visited len nid by metis
    have inv: "search_inv a ef q (ws1, push_min ef minQ maxQ (dp_of a q nid), max_offer ef maxQ (dp_of a q nid))"
      using Cons.prems(1) assms(2-4) nid False w by (rule search_inv_step)
    have "\<forall>n. ws_ok n ws \<longrightarrow> ws_ok n ws1" using w(1) ws_ok_mark by blast
    moreover have "\<forall>t \<in> set nids. t < length (anNodes a)" using Cons.prems(2) by simp
    ultimately show ?thesis
      using Cons.IH [OF inv] unfolding visit_neighbors_new [OF assms(2,3) nid ne new w(1)] by blast
  qed
qed auto

lemma search_loop_ok:
  assumes "search_inv a ef q (ws, minQ, maxQ)" and "ann_graph_ok a" and "length q = anDim a" and "0 < ef"
  shows "\<exists>ws' maxQ'. search_loop a ef q ws minQ maxQ = Some (ws', maxQ') \<and>
    search_inv a ef q (ws', [], maxQ') \<and> (\<forall>n. ws_ok n ws \<longrightarrow> ws_ok n ws')"
  using assms(1)
proof (induction "unvisited ws + length minQ" arbitrary: ws minQ maxQ rule: less_induct)
  case less
  have stop: "search_inv a ef q (ws, [], maxQ)" using less.prems by (simp add: search_inv_def)
  show ?case
  proof (cases "minQ = []")
    case True
    with stop show ?thesis by (simp add: search_loop.simps)
  next
    case False
    obtain current minQ1 where pop: "min_Pop minQ = (current, minQ1)" by force
    have set: "set minQ = insert current (set minQ1)"
      using pop False unfolding dist_heap_ops(2) by (intro heap_pop_set)
    have len1: "length minQ1 < length minQ" using pop False by (intro length_min_Pop)
    have ne: "maxQ \<noteq> []" using less.prems by (simp add: search_inv_def)
    have cur: "dpID current < length (anNodes a)"
      using less.prems set by (auto simp: search_inv_def dp_true_def)
    have inv1: "search_inv a ef q (ws, minQ1, maxQ)" using less.prems set by (auto simp: search_inv_def)
    have "\<forall>t \<in> set (ndNeighbors (anNodes a ! dpID current)). t < length (anNodes a)"
      using assms(2) cur by (simp add: ann_graph_ok_def)
    then obtain ws' minQ' maxQ' where v: "visit_neighbors a ef q (ndNeighbors (anNodes a ! dpID current)) (ws, minQ1, maxQ) =
        Some (ws', minQ', maxQ')" "search_inv a ef q (ws', minQ', maxQ')" "\<forall>n. ws_ok n ws \<longrightarrow> ws_ok n ws'"
      using visit_neighbors_ok [OF inv1 assms(2-4)] by blast
    have "unvisited ws' + length minQ' < unvisited ws + length minQ"
      using visit_neighbors_measure [OF v(1)] len1 by simp
    from less.hyps [OF this v(2)] v(3) stop show ?thesis
      unfolding search_loop.simps [of a ef q ws minQ maxQ] using False pop ne cur v(1)
      by (auto simp: idx_def)
  qed
qed


lemma mset_heap_drain [simp]: "mset (heap_drain better stop h) = mset h"
proof (induction h rule: measure_induct_rule [of length])
  case (less h)
  show ?case
  proof (cases "h = []")
    case False
    obtain x r where pop: "heap_pop better stop h = (x, r)" by force
    then have "mset h = add_mset x (mset r)" "length r < length h"
      using heap_pop_mset(2,3) [OF False pop] False by simp_all
    with less pop False show ?thesis by (simp add: heap_drain.simps [of better stop h])
  qed (simp add: heap_drain.simps)
qed

lemma searchCandidates_start:
  assumes "ann_graph_ok a" and "length q = anDim a" and "ws_ok (length (anNodes a)) ws" and "0 < ef"
    and "r = (ws_reset ws (length (anNodes a)))\<lparr>wsQuery32 := qb\<rparr>"
  shows "\<exists>ws1. searchCandidates32WithWorkspaceLocked a r ef q =
      map_option (\<lambda>(ws2, maxQ). drainCandidates (ws2\<lparr>wsMinQ := []\<rparr>) maxQ)
        (search_loop a ef q ws1 [dp_of a q (anEntrypoint a)] [dp_of a q (anEntrypoint a)]) \<and>
    search_inv a ef q (ws1, [dp_of a q (anEntrypoint a)], [dp_of a q (anEntrypoint a)]) \<and>
    ws_visited ws1 = {anEntrypoint a} \<and> ws_ok (length (anNodes a)) ws1"
proof -
  let ?n = "length (anNodes a)" and ?e = "anEntrypoint a" and ?d = "dp_of a q (anEntrypoint a)"
  have e: "?e < ?n" using assms(1) by (simp add: ann_graph_ok_def)
  note rf = ws_reset_facts [OF assms(3)]
  have r: "ws_ok ?n r" "length (visitedMarks r) = ?n" "ws_visited r = {}" "wsMinQ r = []" "wsMaxQ r = []"
    using rf ws_visited_reset [OF assms(3)]
    by (simp_all add: assms(5) ws_ok_def visitedMarks_def ws_visited_def isVisited_def)
  obtain ws1 where ws1: "markVisited r ?e = Some ws1" "ws_visited ws1 = {?e}" "length (visitedMarks ws1) = ?n"
    using markVisited_visited [of ?e r] r e by auto
  have heaps: "min_Push [] ?d = [?d]" "max_Push [] ?d = [?d]"
    by (simp_all add: dist_heap_ops heap_push_def sift_up.simps)
  have dp: "\<lparr>dpID = ?e, dpDistance = dpDistance ?d\<rparr> = ?d" by (simp add: dp_of_def)
  note d = dp_of_true [OF assms(1,2) e]
  have "search_inv a ef q (ws1, [?d], [?d])"
    using ws1 d assms(4) by (simp add: search_inv_def)
  moreover have "searchCandidates32WithWorkspaceLocked a r ef q =
      map_option (\<lambda>(ws2, maxQ). drainCandidates (ws2\<lparr>wsMinQ := []\<rparr>) maxQ) (search_loop a ef q ws1 [?d] [?d])"
    using e d(1) ws1(1) r(4,5) heaps dp
    by (cases "search_loop a ef q ws1 [?d] [?d]")
       (auto simp: searchCandidates32WithWorkspaceLocked_def Let_def)
  ultimately show ?thesis using ws1(2) ws_ok_mark [OF r(1) ws1(1)] by blast
qed

definition cands_ok :: "annIndex \<Rightarrow> int \<Rightarrow> float32 list \<Rightarrow> distancePair list \<Rightarrow> bool" where
  "cands_ok a ef q cands \<longleftrightarrow> cands \<noteq> [] \<and> int (length cands) \<le> ef \<and> distinct (map dpID cands) \<and>
     (\<forall>d \<in> set cands. dp_true a q d)"

lemma searchCandidates_ok:
  assumes "ann_graph_ok a" and "length q = anDim a" and "ws_ok (length (anNodes a)) ws" and "0 < ef"
    and "r = (ws_reset ws (length (anNodes a)))\<lparr>wsQuery32 := qb\<rparr>"
  shows "\<exists>cands ws'. searchCandidates32WithWorkspaceLocked a r ef q = Some (cands, ws') \<and>
    cands_ok a ef q cands \<and> ws_ok (length (anNodes a)) ws'"
proof -
  let ?d = "dp_of a q (anEntrypoint a)"
  obtain ws1 where s: "searchCandidates32WithWorkspaceLocked a r ef q =
      map_option (\<lambda>(ws2, maxQ). drainCandidates (ws2\<lparr>wsMinQ := []\<rparr>) maxQ) (search_loop a ef q ws1 [?d] [?d])"
    "search_inv a ef q (ws1, [?d], [?d])" "ws_ok (length (anNodes a)) ws1"
    using searchCandidates_start [OF assms] by blast
  obtain ws2 maxQ where l: "search_loop a ef q ws1 [?d] [?d] = Some (ws2, maxQ)" "search_inv a ef q (ws2, [], maxQ)"
    "ws_ok (length (anNodes a)) ws2"
    using search_loop_ok [OF s(2) assms(1,2,4)] s(3) by blast
  let ?out = "rev (heap_drain max_better max_down_stop maxQ)"
  have m: "mset ?out = mset maxQ" by simp
  have "set ?out = set maxQ" "length ?out = length maxQ" "?out = [] \<longleftrightarrow> maxQ = []"
    using m by (metis set_mset_mset) (use m in \<open>metis size_mset\<close>, use m in \<open>metis mset_zero_iff\<close>)
  moreover have "distinct (map dpID ?out) \<longleftrightarrow> distinct (map dpID maxQ)"
    using m by (metis mset_eq_imp_distinct_iff mset_map)
  ultimately have "cands_ok a ef q ?out" using l(2) by (auto simp: cands_ok_def search_inv_def)
  moreover have "ws_ok (length (anNodes a)) (ws2\<lparr>wsMinQ := [], wsMaxQ := [], wsCandidates := ?out\<rparr>)"
    using l(3) by (simp add: ws_ok_def)
  ultimately show ?thesis by (simp add: s(1) l(1) drainCandidates_def Let_def)
qed

section \<open>Selection sorts\<close>

lemma select_best_bounds: "i < length c \<Longrightarrow> i \<le> select_best c i \<and> select_best c i < length c"
proof -
  assume "i < length c"
  moreover have "P (foldl (\<lambda>b j. if Q j b then j else b) i js)" if "P i" "\<forall>j \<in> set js. P j" for P Q js
    using that by (induction js arbitrary: i) auto
  from this [of "\<lambda>b. i \<le> b \<and> b < length c" "[i + 1..<length c]"] calculation
  show ?thesis unfolding select_best_def by auto
qed

lemma select_best_least:
  assumes "i < length c" and "\<forall>d \<in> set c. dp_ok d" and "t \<in> {i..<length c}"
  shows "f64_le (dpDistance (c ! select_best c i)) (dpDistance (c ! t))"
proof -
  let ?f = "\<lambda>b j. if f64_lt (dpDistance (c ! j)) (dpDistance (c ! b)) then j else b"
  let ?k = "\<lambda>j. f64_key (dpDistance (c ! j))"
  have nn: "j < length c \<Longrightarrow> \<not> f64_isnan (dpDistance (c ! j))" for j
    using assms(2) by (simp add: dp_ok_def)
  have "foldl ?f b js < length c \<and> (\<forall>j \<in> insert b (set js). ?k (foldl ?f b js) \<le> ?k j)"
    if "b < length c" "\<forall>j \<in> set js. j < length c" for b js
    using that
  proof (induction js arbitrary: b)
    case (Cons j js)
    then have "foldl ?f (?f b j) js < length c \<and> (\<forall>i \<in> insert (?f b j) (set js). ?k (foldl ?f (?f b j) js) \<le> ?k i)"
      by simp
    moreover have "?k (?f b j) \<le> ?k b" "?k (?f b j) \<le> ?k j" using Cons.prems nn by (auto simp: f64_cmp_key)
    ultimately show ?case by (auto intro: order_trans)
  qed simp
  from this [of i "[i + 1..<length c]"] assms(1,3) have "?k (select_best c i) \<le> ?k t"
    unfolding select_best_def by (cases "t = i") auto
  then show ?thesis using nn select_best_bounds [OF assms(1)] assms(3) by (simp add: f64_cmp_key)
qed

lemma mset_selectNearest: "k \<le> length c \<Longrightarrow> mset (selectNearest c k) = mset c"
proof (induction k)
  case (Suc k)
  then have "length (selectNearest c k) = length c" by (metis Suc_leD size_mset)
  with Suc select_best_bounds [of k "selectNearest c k"] show ?case by (simp add: selectNearest_def)
qed (simp add: selectNearest_def)

lemma selectNearest_sorted:
  assumes "k \<le> length c" and "\<forall>d \<in> set c. dp_ok d"
  shows "\<forall>i j. i < k \<longrightarrow> i < j \<longrightarrow> j < length c \<longrightarrow>
    f64_le (dpDistance (selectNearest c k ! i)) (dpDistance (selectNearest c k ! j))"
  using assms(1)
proof (induction k)
  case (Suc k)
  let ?s = "selectNearest c k" and ?b = "select_best (selectNearest c k) k"
  have m: "mset ?s = mset c" using Suc.prems by (intro mset_selectNearest) simp
  then have len: "length ?s = length c" and ok: "\<forall>d \<in> set ?s. dp_ok d"
    using assms(2) by (metis size_mset) (metis m assms(2) set_mset_mset)
  have b: "k \<le> ?b" "?b < length c" using select_best_bounds [of k ?s] Suc.prems len by simp_all
  have step: "selectNearest c (Suc k) = swap ?s k ?b" by (simp add: selectNearest_def)
  have least: "f64_le (dpDistance (?s ! ?b)) (dpDistance (?s ! t))" if "k \<le> t" "t < length c" for t
    using select_best_least [of k ?s t] Suc.prems len ok that by simp
  have ih: "i < k \<Longrightarrow> i < j \<Longrightarrow> j < length c \<Longrightarrow> f64_le (dpDistance (?s ! i)) (dpDistance (?s ! j))" for i j
    using Suc by simp
  show ?case
  proof (intro allI impI)
    fix i j assume ij: "i < Suc k" "i < j" "j < length c"
    have nth: "n < length c \<Longrightarrow> swap ?s k ?b ! n = (if n = ?b then ?s ! k else if n = k then ?s ! ?b else ?s ! n)" for n
      using nth_swap [of k ?s ?b n] Suc.prems len b by simp
    show "f64_le (dpDistance (selectNearest c (Suc k) ! i)) (dpDistance (selectNearest c (Suc k) ! j))"
    proof (cases "i = k")
      case True
      then show ?thesis unfolding step using nth [of i] nth [of j] ij b least [of k] least [of j] Suc.prems
        by (auto split: if_splits)
    next
      case False
      then have "i < k" using ij by simp
      then show ?thesis unfolding step using nth [of i] nth [of j] ij b ih [of i k] ih [of i ?b] ih [of i j] Suc.prems
        by (auto split: if_splits)
    qed
  qed
qed simp

text \<open>The first \<open>k\<close> after the selection are the \<open>k\<close> nearest, in ascending order.\<close>

lemma selectNearest_nearest:
  assumes "k \<le> length c"
  shows "mset c = mset (take k (selectNearest c k)) + mset (drop k (selectNearest c k))"
    and "length (take k (selectNearest c k)) = k"
    and "\<forall>d \<in> set c. dp_ok d \<Longrightarrow> sorted_wrt (\<lambda>x y. f64_le (dpDistance x) (dpDistance y)) (take k (selectNearest c k)) \<and>
      (\<forall>x \<in> set (take k (selectNearest c k)). \<forall>y \<in> set (drop k (selectNearest c k)). f64_le (dpDistance x) (dpDistance y))"
proof -
  have m: "mset (selectNearest c k) = mset c" using assms by (rule mset_selectNearest)
  then have len: "length (selectNearest c k) = length c" by (metis size_mset)
  show "mset c = mset (take k (selectNearest c k)) + mset (drop k (selectNearest c k))"
    by (metis m append_take_drop_id mset_append)
  show "length (take k (selectNearest c k)) = k" using assms len by simp
  assume "\<forall>d \<in> set c. dp_ok d"
  note s = selectNearest_sorted [OF assms this]
  have "sorted_wrt (\<lambda>x y. f64_le (dpDistance x) (dpDistance y)) (take k (selectNearest c k))"
    using s len assms by (auto simp: sorted_wrt_iff_nth_less)
  moreover have "f64_le (dpDistance x) (dpDistance y)"
    if x: "x \<in> set (take k (selectNearest c k))" and y: "y \<in> set (drop k (selectNearest c k))" for x y
  proof -
    obtain i where i: "i < k" "x = selectNearest c k ! i" using x len assms by (auto simp: in_set_conv_nth)
    obtain j where "j < length c - k" "y = selectNearest c k ! (k + j)" using y len assms by (auto simp: in_set_conv_nth)
    then show ?thesis using s i by auto
  qed
  ultimately show "sorted_wrt (\<lambda>x y. f64_le (dpDistance x) (dpDistance y)) (take k (selectNearest c k)) \<and>
      (\<forall>x \<in> set (take k (selectNearest c k)). \<forall>y \<in> set (drop k (selectNearest c k)). f64_le (dpDistance x) (dpDistance y))"
    by blast
qed


section \<open>What the search finds\<close>

inductive ann_reach :: "annIndex \<Rightarrow> nat \<Rightarrow> bool" for a where
  ann_reach_start: "ann_reach a (anEntrypoint a)"
| ann_reach_step: "ann_reach a s \<Longrightarrow> t \<in> set (ndNeighbors (anNodes a ! s)) \<Longrightarrow> ann_reach a t"

definition expanded :: "annIndex \<Rightarrow> searchWorkspace \<Rightarrow> nat \<Rightarrow> bool" where
  "expanded a ws s \<longleftrightarrow> set (ndNeighbors (anNodes a ! s)) \<subseteq> ws_visited ws"

text \<open>
  \<open>xs\<close> lists the visited slots with their distances; \<open>cur\<close> is the slot whose neighbours are being
  visited. The result queue holds the nearest of \<open>xs\<close>, and each of its elements still waits in the
  candidate queue or has had all its neighbours visited.
\<close>

definition quality_inv :: "annIndex \<Rightarrow> int \<Rightarrow> float32 list \<Rightarrow> nat option \<Rightarrow> distancePair list \<Rightarrow>
    searchWorkspace \<times> distancePair list \<times> distancePair list \<Rightarrow> bool" where
  "quality_inv a ef q cur xs st \<longleftrightarrow> search_inv a ef q st \<and> (case st of (ws, minQ, maxQ) \<Rightarrow>
     mn.heap_inv minQ \<and> mx.selects (nat ef) xs maxQ \<and> distinct (map dpID xs) \<and> dpID ` set xs = ws_visited ws \<and>
     (\<forall>x \<in> set xs. dp_true a q x \<and> dp_ok x) \<and> (\<forall>s \<in> ws_visited ws. ann_reach a s) \<and> anEntrypoint a \<in> ws_visited ws \<and>
     dpID ` set minQ \<subseteq> ws_visited ws \<and>
     (\<forall>d \<in> set maxQ. d \<in> set minQ \<or> expanded a ws (dpID d) \<or> cur = Some (dpID d)))"

definition dists_num :: "annIndex \<Rightarrow> float32 list \<Rightarrow> bool" where
  "dists_num a q \<longleftrightarrow> (\<forall>s < length (anNodes a). dp_ok (dp_of a q s))"

lemma quality_inv_step:
  assumes q: "quality_inv a ef q cur xs (ws, minQ, maxQ)" and "ann_graph_ok a" and "length q = anDim a" and "0 < ef"
    and nid: "nid < length (anNodes a)" "nid \<notin> ws_visited ws" and mark: "markVisited ws nid = Some ws'"
      "ws_visited ws' = insert nid (ws_visited ws)" "length (visitedMarks ws') = length (visitedMarks ws)"
    and "dists_num a q" and "ann_reach a nid"
  shows "quality_inv a ef q cur (xs @ [dp_of a q nid])
    (ws', push_min ef minQ maxQ (dp_of a q nid), max_offer ef maxQ (dp_of a q nid))"
proof -
  let ?d = "dp_of a q nid" and ?m = "max_offer ef maxQ (dp_of a q nid)" and ?n = "push_min ef minQ maxQ (dp_of a q nid)"
  note dt = dp_of_true [OF assms(2,3) nid(1)]
  have inv: "search_inv a ef q (ws, minQ, maxQ)" "mn.heap_inv minQ" "mx.selects (nat ef) xs maxQ"
    "distinct (map dpID xs)" "dpID ` set xs = ws_visited ws" "\<forall>x \<in> set xs. dp_true a q x \<and> dp_ok x"
    "\<forall>s \<in> ws_visited ws. ann_reach a s" "anEntrypoint a \<in> ws_visited ws"
    "\<forall>d \<in> set maxQ. d \<in> set minQ \<or> expanded a ws (dpID d) \<or> cur = Some (dpID d)" "dpID ` set minQ \<subseteq> ws_visited ws"
    using q by (simp_all add: quality_inv_def)
  have ok: "dp_ok ?d" using assms(10) nid(1) by (simp add: dists_num_def)
  have mq: "maxQ \<noteq> []" "dpID ` set maxQ \<subseteq> ws_visited ws" using inv(1) by (simp_all add: search_inv_def)
  have "search_inv a ef q (ws', ?n, ?m)"
    using inv(1) assms(2-4) nid mark by (rule search_inv_step)
  moreover have "mn.heap_inv ?n"
    using inv(2) ok by (simp add: push_min_def dist_heap_ops mn.heap_inv_push)
  moreover have "mx.selects (nat ef) (xs @ [?d]) ?m"
    unfolding max_offer_def using inv(3,6) ok assms(4) by (intro mx.selects_offer) simp_all
  moreover have "distinct (map dpID (xs @ [?d]))" using inv(4,5) nid(2) dt(3) by auto
  moreover have "dpID ` set (xs @ [?d]) = ws_visited ws'" using inv(5) mark(2) dt(3) by auto
  moreover have "\<forall>x \<in> set (xs @ [?d]). dp_true a q x \<and> dp_ok x" using inv(6) dt(2) ok by auto
  moreover have "\<forall>s \<in> ws_visited ws'. ann_reach a s" "anEntrypoint a \<in> ws_visited ws'"
    using inv(7,8) mark(2) assms(11) by auto
  moreover have "dpID ` set ?n \<subseteq> ws_visited ws'"
    using inv(10) mark(2) set_push_min [of ef minQ maxQ ?d] dt(3) by auto
  moreover have "d \<in> set ?n \<or> expanded a ws' (dpID d) \<or> cur = Some (dpID d)" if d: "d \<in> set ?m" for d
  proof (cases "int (length maxQ) < ef \<or> f64_lt (dpDistance ?d) (dpDistance (maxQ ! 0))")
    case True
    then have "set ?n = insert ?d (set minQ)" by (simp add: push_min_def dist_heap_ops)
    moreover have "d = ?d \<or> d \<in> set maxQ"
      using d max_offer_mset(1) [OF mq(1) assms(4), of ?d]
      by (metis insert_iff set_mset_add_mset_insert set_mset_mono set_mset_mset subsetD)
    ultimately show ?thesis using inv(9) mark(2) by (auto simp: expanded_def)
  next
    case False
    then have "?m = maxQ" "?n = minQ"
      by (auto simp: max_offer_def heap_offer_def push_min_def max_skip_def)
    with d inv(9) mark(2) show ?thesis by (auto simp: expanded_def)
  qed
  ultimately show ?thesis by (simp add: quality_inv_def)
qed

lemma visit_neighbors_quality:
  assumes "quality_inv a ef q cur xs (ws, minQ, maxQ)" and "ann_graph_ok a" and "length q = anDim a" and "0 < ef"
    and "\<forall>t \<in> set nids. t < length (anNodes a) \<and> ann_reach a t" and "dists_num a q"
  shows "\<exists>ws' minQ' maxQ' xs'. visit_neighbors a ef q nids (ws, minQ, maxQ) = Some (ws', minQ', maxQ') \<and>
    quality_inv a ef q cur xs' (ws', minQ', maxQ') \<and> ws_visited ws' = ws_visited ws \<union> set nids"
  using assms(1,5)
proof (induction nids arbitrary: ws minQ maxQ xs)
  case (Cons nid nids)
  have len: "length (visitedMarks ws) = length (anNodes a)" and ne: "maxQ \<noteq> []"
    using Cons.prems(1) by (simp_all add: search_inv_def quality_inv_def)
  have nid: "nid < length (anNodes a)" "ann_reach a nid" and nids: "\<forall>t \<in> set nids. t < length (anNodes a) \<and> ann_reach a t"
    using Cons.prems(2) by simp_all
  show ?case
  proof (cases "nid \<in> ws_visited ws")
    case True
    then have "isVisited ws nid = Some True" by (simp add: ws_visited_def)
    with Cons.IH [OF Cons.prems(1) nids] True show ?thesis by (simp add: insert_absorb)
  next
    case False
    then have new: "isVisited ws nid = Some False" using isVisited_total len nid by metis
    obtain ws1 where w: "markVisited ws nid = Some ws1" "ws_visited ws1 = insert nid (ws_visited ws)"
      "length (visitedMarks ws1) = length (visitedMarks ws)"
      using markVisited_visited len nid by metis
    have inv: "quality_inv a ef q cur (xs @ [dp_of a q nid])
        (ws1, push_min ef minQ maxQ (dp_of a q nid), max_offer ef maxQ (dp_of a q nid))"
      using Cons.prems(1) assms(2-4) nid(1) False w assms(6) nid(2) by (rule quality_inv_step)
    show ?thesis
      using Cons.IH [OF inv nids] w(2) unfolding visit_neighbors_new [OF assms(2,3) nid(1) ne new w(1)] by simp
  qed
qed auto

text \<open>When the nearest waiting slot is farther than the farthest candidate, no candidate is waiting.\<close>

lemma beam_excludes:
  assumes "mn.heap_inv minQ" and "mx.selects n xs maxQ" and "maxQ \<noteq> []" and "current \<in> set minQ"
    and "\<forall>y \<in> set minQ. f64_le (dpDistance current) (dpDistance y)" and "d \<in> set maxQ" and "f64_lt (dpDistance (maxQ ! 0)) (dpDistance current)"
  shows "d \<notin> set minQ"
proof
  assume dm: "d \<in> set minQ"
  have hx: "mx.heap_inv maxQ" using assms(2) by (simp add: mx.selects_def)
  have oks: "dp_ok d" "dp_ok current" "dp_ok (maxQ ! 0)"
    using mn.heap_inv_ok [OF assms(1)] assms(3,4) dm mx.heap_inv_ok [OF hx, of "maxQ ! 0"] by auto
  have "f64_le (dpDistance d) (dpDistance (maxQ ! 0))" using mx.heap_inv_root_set [OF hx assms(6)] .
  moreover have "f64_le (dpDistance current) (dpDistance d)" using assms(5) dm by blast
  ultimately show False using assms(7) oks by (auto simp: dp_ok_def f64_cmp_key)
qed

lemma search_loop_quality:
  assumes "quality_inv a ef q None xs (ws, minQ, maxQ)" and "ann_graph_ok a" and "length q = anDim a" and "0 < ef"
    and "dists_num a q"
  shows "\<exists>ws' maxQ' xs'. search_loop a ef q ws minQ maxQ = Some (ws', maxQ') \<and> quality_inv a ef q None xs' (ws', [], maxQ')"
  using assms(1)
proof (induction "unvisited ws + length minQ" arbitrary: ws minQ maxQ xs rule: less_induct)
  case less
  have sinv: "search_inv a ef q (ws, minQ, maxQ)" "mn.heap_inv minQ" "mx.selects (nat ef) xs maxQ"
    and wait: "\<forall>d \<in> set maxQ. d \<in> set minQ \<or> expanded a ws (dpID d)"
    using less.prems by (simp_all add: quality_inv_def)
  have stop: "quality_inv a ef q None xs (ws, [], maxQ)" if "\<forall>d \<in> set maxQ. d \<notin> set minQ"
    using less.prems that wait by (auto simp: quality_inv_def search_inv_def)
  show ?case
  proof (cases "minQ = []")
    case True
    with stop show ?thesis by (auto simp: search_loop.simps)
  next
    case False
    obtain current minQ1 where pop: "min_Pop minQ = (current, minQ1)" by force
    note hp = pop [unfolded dist_heap_ops(2)]
    have set: "set minQ = insert current (set minQ1)" using heap_pop_set [OF False hp] .
    have h1: "mn.heap_inv minQ1" and least: "\<forall>y \<in> set minQ. f64_le (dpDistance current) (dpDistance y)"
      using mn.heap_pop_inv [OF sinv(2) False hp] by simp_all
    have len1: "length minQ1 < length minQ" using False pop by (rule length_min_Pop)
    have ne: "maxQ \<noteq> []" and tr: "dp_true a q current" using sinv(1) set by (auto simp: search_inv_def)
    have cur: "dpID current < length (anNodes a)" using tr by (simp add: dp_true_def)
    show ?thesis
    proof (cases "ef \<le> int (length maxQ) \<and> f64_lt (dpDistance (maxQ ! 0)) (dpDistance current)")
      case True
      have "d \<notin> set minQ" if "d \<in> set maxQ" for d
        using beam_excludes [OF sinv(2,3) ne _ least that] set True by blast
      with stop True pop ne False show ?thesis by (auto simp: search_loop.simps [of a ef q ws minQ maxQ])
    next
      case go: False
      let ?nb = "ndNeighbors (anNodes a ! dpID current)"
      have cq: "quality_inv a ef q (Some (dpID current)) xs (ws, minQ1, maxQ)"
        using less.prems set h1 by (auto simp: quality_inv_def search_inv_def)
      have "ann_reach a (dpID current)" using less.prems set by (auto simp: quality_inv_def)
      then have nb: "\<forall>t \<in> set ?nb. t < length (anNodes a) \<and> ann_reach a t"
        using assms(2) cur ann_reach_step by (auto simp: ann_graph_ok_def)
      obtain ws' minQ' maxQ' xs' where v: "visit_neighbors a ef q ?nb (ws, minQ1, maxQ) = Some (ws', minQ', maxQ')"
        "quality_inv a ef q (Some (dpID current)) xs' (ws', minQ', maxQ')" "ws_visited ws' = ws_visited ws \<union> set ?nb"
        using visit_neighbors_quality [OF cq assms(2-4) nb assms(5)] by blast
      have "quality_inv a ef q None xs' (ws', minQ', maxQ')"
        using v(2,3) by (auto simp: quality_inv_def expanded_def)
      moreover have "unvisited ws' + length minQ' < unvisited ws + length minQ"
        using visit_neighbors_measure [OF v(1)] len1 by simp
      ultimately show ?thesis
        using less.hyps go False pop ne cur v(1) by (auto simp: search_loop.simps [of a ef q ws minQ maxQ])
    qed
  qed
qed


text \<open>
  The guarantee of the best-first search on numbers: some duplicate-free list \<open>vs\<close> of slots was visited, all of them
  reachable and the entry point among them; the candidates are the \<open>ef\<close> nearest of \<open>vs\<close>; and every
  neighbour of a candidate is in \<open>vs\<close>. So a slot next to a candidate that was left out is not nearer than any candidate.
\<close>

definition ann_found :: "annIndex \<Rightarrow> int \<Rightarrow> float32 list \<Rightarrow> distancePair list \<Rightarrow> bool" where
  "ann_found a ef q cands \<longleftrightarrow> (\<exists>vs rest. distinct vs \<and> anEntrypoint a \<in> set vs \<and> (\<forall>s \<in> set vs. ann_reach a s) \<and>
     mset (map (dp_of a q) vs) = mset cands + mset rest \<and> length cands = min (nat ef) (length vs) \<and>
     (\<forall>c \<in> set cands. \<forall>r \<in> set rest. f64_le (dpDistance c) (dpDistance r)) \<and>
     (\<forall>c \<in> set cands. set (ndNeighbors (anNodes a ! dpID c)) \<subseteq> set vs))"

lemma map_dp_of:
  assumes "\<forall>x \<in> set xs. dp_true a q x"
  shows "map (dp_of a q) (map dpID xs) = xs"
  unfolding map_map using assms dp_true_unique by (intro map_idI) (metis comp_apply)

lemma searchCandidates_found:
  assumes "ann_graph_ok a" and "length q = anDim a" and "ws_ok (length (anNodes a)) ws" and "0 < ef"
    and "r = (ws_reset ws (length (anNodes a)))\<lparr>wsQuery32 := qb\<rparr>" and "dists_num a q"
  shows "\<exists>cands ws'. searchCandidates32WithWorkspaceLocked a r ef q = Some (cands, ws') \<and> ann_found a ef q cands"
proof -
  let ?d = "dp_of a q (anEntrypoint a)"
  have e: "anEntrypoint a < length (anNodes a)" using assms(1) by (simp add: ann_graph_ok_def)
  note dt = dp_of_true [OF assms(1,2) e]
  obtain ws1 where s: "searchCandidates32WithWorkspaceLocked a r ef q =
      map_option (\<lambda>(ws2, maxQ). drainCandidates (ws2\<lparr>wsMinQ := []\<rparr>) maxQ) (search_loop a ef q ws1 [?d] [?d])"
    "search_inv a ef q (ws1, [?d], [?d])" "ws_visited ws1 = {anEntrypoint a}"
    using searchCandidates_start [OF assms(1-5)] by blast
  have ok: "dp_ok ?d" using assms(6) e by (simp add: dists_num_def)
  have "mx.selects (nat ef) [?d] (heap_offer max_skip max_up_stop max_better max_down_stop (nat ef) [] ?d)"
    using mx.selects_foldl [of "nat ef" "[?d]"] ok assms(4) by simp
  moreover have "heap_offer max_skip max_up_stop max_better max_down_stop (nat ef) [] ?d = [?d]"
    using assms(4) by (simp add: heap_offer_def heap_push_def sift_up.simps)
  moreover have "mn.heap_inv [?d]" using ok by (simp add: mn.heap_inv_def)
  ultimately have "quality_inv a ef q None [?d] (ws1, [?d], [?d])"
    using s(2,3) dt ok by (simp add: quality_inv_def ann_reach_start)
  then obtain ws2 maxQ xs where l: "search_loop a ef q ws1 [?d] [?d] = Some (ws2, maxQ)" "quality_inv a ef q None xs (ws2, [], maxQ)"
    using search_loop_quality [OF _ assms(1,2,4,6)] by blast
  let ?out = "rev (heap_drain max_better max_down_stop maxQ)"
  have qi: "mx.selects (nat ef) xs maxQ" "distinct (map dpID xs)" "dpID ` set xs = ws_visited ws2"
    "\<forall>x \<in> set xs. dp_true a q x" "\<forall>s \<in> ws_visited ws2. ann_reach a s" "anEntrypoint a \<in> ws_visited ws2"
    "\<forall>d \<in> set maxQ. expanded a ws2 (dpID d)"
    using l(2) by (simp_all add: quality_inv_def)
  obtain rest where rest: "mset xs = mset maxQ + mset rest" "length maxQ = min (nat ef) (length xs)"
    "\<forall>r \<in> set rest. \<forall>x \<in> set maxQ. f64_le (dpDistance x) (dpDistance r)"
    using qi(1) by (auto simp: mx.selects_def)
  have m: "mset ?out = mset maxQ" by simp
  then have so: "set ?out = set maxQ" "length ?out = length maxQ" by (metis set_mset_mset) (metis m size_mset)
  have "ann_found a ef q ?out"
    unfolding ann_found_def
  proof (intro exI [of _ "map dpID xs"] exI [of _ rest] conjI)
    show "mset (map (dp_of a q) (map dpID xs)) = mset ?out + mset rest"
      unfolding map_dp_of [OF qi(4)] using rest(1) m by simp
    show "\<forall>c \<in> set ?out. set (ndNeighbors (anNodes a ! dpID c)) \<subseteq> set (map dpID xs)"
      using qi(3,7) so by (simp add: expanded_def)
  qed (use qi rest so in auto)
  then show ?thesis by (simp add: s(1) l(1) drainCandidates_def Let_def)
qed

text \<open>With a beam at least as wide as the graph, the candidates are exactly the reachable slots.\<close>

lemma ann_found_all:
  assumes "ann_found a ef q cands" and "ann_graph_ok a" and "int (length (anNodes a)) \<le> ef"
  shows "dpID ` set cands = {s. ann_reach a s}"
proof -
  obtain vs rest where f: "distinct vs" "anEntrypoint a \<in> set vs" "\<forall>s \<in> set vs. ann_reach a s"
    "mset (map (dp_of a q) vs) = mset cands + mset rest" "length cands = min (nat ef) (length vs)"
    "\<forall>c \<in> set cands. set (ndNeighbors (anNodes a ! dpID c)) \<subseteq> set vs"
    using assms(1) by (auto simp: ann_found_def)
  have bound: "ann_reach a s \<Longrightarrow> s < length (anNodes a)" for s
    by (induction rule: ann_reach.induct) (use assms(2) in \<open>auto simp: ann_graph_ok_def\<close>)
  then have "set vs \<subseteq> {..<length (anNodes a)}" using f(3) by auto
  then have "length vs \<le> length (anNodes a)" using f(1) by (metis card_lessThan card_mono distinct_card finite_lessThan)
  then have "length cands = length vs" using f(5) assms(3) by auto
  then have "rest = []" using f(4) by (metis add_cancel_right_right length_0_conv length_map size_mset size_union)
  then have set: "dpID ` set cands = set vs"
    using f(4) by (metis (no_types, lifting) add.right_neutral dp_of_def distancePair.select_convs(1) image_cong image_ident
        image_image list.set_map mset.simps(1) set_mset_mset)
  have "s \<in> set vs" if "ann_reach a s" for s
    using that
  proof (induction rule: ann_reach.induct)
    case (ann_reach_step s t)
    then obtain c where "c \<in> set cands" "dpID c = s" using set by (metis imageE)
    with f(6) ann_reach_step(2) show ?case by auto
  qed (use f(2) in simp)
  with f(3) set show ?thesis by blast
qed

section \<open>A search does not depend on the workspace it reuses\<close>

definition ws_same :: "searchWorkspace \<Rightarrow> searchWorkspace \<Rightarrow> bool" where
  "ws_same w w' \<longleftrightarrow> (\<forall>s. isVisited w s = isVisited w' s)"

lemma isVisited_None: "isVisited w s \<noteq> None \<longleftrightarrow> s < length (visitedMarks w)"
  by (simp add: isVisited_def idx_def)

lemma ws_same_mark:
  assumes "ws_same w w'"
  shows "rel_option ws_same (markVisited w s) (markVisited w' s)"
proof -
  have len: "s < length (visitedMarks w) \<longleftrightarrow> s < length (visitedMarks w')"
    using assms unfolding ws_same_def by (metis isVisited_None)
  show ?thesis
  proof (cases "markVisited w s")
    case None
    with len show ?thesis by (simp add: markVisited_def split: if_splits)
  next
    case (Some v)
    then obtain v' where v': "markVisited w' s = Some v'" using len by (auto simp: markVisited_def split: if_splits)
    have "isVisited v t = isVisited v' t" for t
      using assms markVisited_Some [OF Some] markVisited_Some [OF v']
      by (auto simp: ws_same_def isVisited_def idx_def nth_list_update split: if_splits)
    with Some v' show ?thesis by (simp add: ws_same_def)
  qed
qed

definition st_same :: "searchWorkspace \<times> 'q \<Rightarrow> searchWorkspace \<times> 'q \<Rightarrow> bool" where
  "st_same p p' \<longleftrightarrow> ws_same (fst p) (fst p') \<and> snd p = snd p'"

lemma visit_neighbors_same:
  "ws_same w w' \<Longrightarrow> rel_option st_same (visit_neighbors a ef q nids (w, minQ, maxQ)) (visit_neighbors a ef q nids (w', minQ, maxQ))"
proof (induction nids arbitrary: w w' minQ maxQ)
  case (Cons nid nids)
  have vis: "isVisited w' nid = isVisited w nid" using Cons.prems by (simp add: ws_same_def)
  consider "isVisited w nid = None" | "isVisited w nid = Some True"
    | "isVisited w nid = Some False" "markVisited w nid = None" "markVisited w' nid = None"
    | v v' where "isVisited w nid = Some False" "markVisited w nid = Some v" "markVisited w' nid = Some v'" "ws_same v v'"
    using ws_same_mark [OF Cons.prems, of nid] by (cases "isVisited w nid") (auto elim!: option.rel_cases)
  then show ?case
  proof cases
    case 4
    then show ?thesis
      using vis Cons.IH [OF 4(4)]
      by (cases "idx (anNodes a) nid"; cases "idx maxQ 0") (auto simp: Let_def bind_eq_None_conv split: Option.bind_split)
  qed (use vis Cons in simp_all)
qed (simp add: st_same_def)

lemma search_loop_same:
  "ws_same w w' \<Longrightarrow> rel_option st_same (search_loop a ef q w minQ maxQ) (search_loop a ef q w' minQ maxQ)"
proof (induction "unvisited w + length minQ" arbitrary: w w' minQ maxQ rule: less_induct)
  case less
  show ?case
  proof (cases "minQ = []")
    case True
    with less.prems show ?thesis by (simp add: search_loop.simps st_same_def)
  next
    case False
    obtain current minQ1 where pop: "min_Pop minQ = (current, minQ1)" by force
    have len: "length minQ1 < length minQ" using False pop by (rule length_min_Pop)
    have rec: "rel_option st_same
        (case visit_neighbors a ef q nb (w, minQ1, maxQ) of None \<Rightarrow> None | Some (ws', minQ', maxQ') \<Rightarrow> search_loop a ef q ws' minQ' maxQ')
        (case visit_neighbors a ef q nb (w', minQ1, maxQ) of None \<Rightarrow> None | Some (ws', minQ', maxQ') \<Rightarrow> search_loop a ef q ws' minQ' maxQ')" for nb
    proof (cases "visit_neighbors a ef q nb (w, minQ1, maxQ)")
      case None
      then show ?thesis using visit_neighbors_same [OF less.prems, of a ef q nb minQ1 maxQ] by simp
    next
      case (Some r)
      obtain v minQ' maxQ' where r: "r = (v, minQ', maxQ')" by (cases r)
      then obtain v' where v': "visit_neighbors a ef q nb (w', minQ1, maxQ) = Some (v', minQ', maxQ')" "ws_same v v'"
        using visit_neighbors_same [OF less.prems, of a ef q nb minQ1 maxQ] Some
        by (auto simp: st_same_def option_rel_Some1)
      have "unvisited v + length minQ' < unvisited w + length minQ"
        using visit_neighbors_measure [of a ef q nb w minQ1 maxQ v minQ' maxQ'] Some r len by simp
      from less.hyps [OF this v'(2)] Some r v'(1) show ?thesis by simp
    qed
    show ?thesis
      unfolding search_loop.simps [of a ef q w minQ maxQ] search_loop.simps [of a ef q w' minQ maxQ]
      using False pop rec less.prems by (auto simp: st_same_def split: option.split)
  qed
qed

lemma ws_same_reset: "ws_ok n w \<Longrightarrow> ws_ok n w' \<Longrightarrow> ws_same (ws_reset w n) (ws_reset w' n)"
proof -
  assume ok: "ws_ok n w" "ws_ok n w'"
  have "isVisited (ws_reset w n) s = isVisited (ws_reset w' n) s" for s
  proof (cases "s < n")
    case True
    then show ?thesis using ws_reset_facts(4) ok by simp
  next
    case False
    then have "isVisited (ws_reset w n) s = None" "isVisited (ws_reset w' n) s = None"
      using ws_reset_facts(3) [OF ok(1)] ws_reset_facts(3) [OF ok(2)] by (simp_all add: isVisited_def)
    then show ?thesis by simp
  qed
  then show ?thesis by (simp add: ws_same_def)
qed

lemma ws_same_query [simp]: "ws_same (w\<lparr>wsQuery32 := x\<rparr>) w' \<longleftrightarrow> ws_same w w'" "ws_same w (w'\<lparr>wsQuery32 := x\<rparr>) \<longleftrightarrow> ws_same w w'"
  by (simp_all add: ws_same_def isVisited_def visitedMarks_def)


lemma searchCandidates_same:
  assumes "ws_same w w'" and "wsMinQ w = wsMinQ w'" and "wsMaxQ w = wsMaxQ w'"
  shows "map_option fst (searchCandidates32WithWorkspaceLocked a w ef q) =
    map_option fst (searchCandidates32WithWorkspaceLocked a w' ef q)"
proof (cases "markVisited w (anEntrypoint a)")
  case None
  then have "markVisited w' (anEntrypoint a) = None" using ws_same_mark [OF assms(1), of "anEntrypoint a"] by simp
  with None show ?thesis
    by (simp add: searchCandidates32WithWorkspaceLocked_def Let_def split: Option.bind_split)
next
  case (Some v)
  then obtain v' where v': "markVisited w' (anEntrypoint a) = Some v'" "ws_same v v'"
    using ws_same_mark [OF assms(1), of "anEntrypoint a"] by (auto simp: option_rel_Some1)
  have "map_option snd (search_loop a ef q v minQ maxQ) = map_option snd (search_loop a ef q v' minQ maxQ)" for minQ maxQ
    using search_loop_same [OF v'(2), of a ef q minQ maxQ]
    by (cases "search_loop a ef q v minQ maxQ"; cases "search_loop a ef q v' minQ maxQ") (auto simp: st_same_def)
  moreover have "map_option fst (X \<bind> (\<lambda>(ws2, m). Some (drainCandidates (ws2\<lparr>wsMinQ := []\<rparr>) m))) =
      map_option (\<lambda>m. rev (heap_drain max_better max_down_stop m)) (map_option snd X)" for X
    by (cases X) (auto simp: drainCandidates_def Let_def)
  ultimately have "map_option fst (search_loop a ef q v minQ maxQ \<bind> (\<lambda>(ws2, m). Some (drainCandidates (ws2\<lparr>wsMinQ := []\<rparr>) m))) =
      map_option fst (search_loop a ef q v' minQ maxQ \<bind> (\<lambda>(ws2, m). Some (drainCandidates (ws2\<lparr>wsMinQ := []\<rparr>) m)))" for minQ maxQ
    by simp
  with Some v' assms(2,3) show ?thesis
    unfolding searchCandidates32WithWorkspaceLocked_def Let_def
    by (cases "idx (anNodes a) (anEntrypoint a)"; cases "squaredDistance32 q (ndVector (the (idx (anNodes a) (anEntrypoint a))))")
       simp_all
qed

lemma SearchWithDistancesInto_same:
  assumes "ws_ok (length (anNodes a)) ws" and "ws_ok (length (anNodes a)) ws'"
  shows "map_option fst (SearchWithDistancesInto a ws q k) = map_option fst (SearchWithDistancesInto a ws' q k)"
proof -
  let ?n = "length (anNodes a)"
  let ?w = "query32From64 (ws_reset ws ?n) q" and ?w' = "query32From64 (ws_reset ws' ?n) q"
  have "ws_same ?w ?w'" "wsMinQ ?w = wsMinQ ?w'" "wsMaxQ ?w = wsMaxQ ?w'" "wsQuery32 ?w = wsQuery32 ?w'"
    using ws_same_reset [OF assms] ws_reset_facts(5,6) [OF assms(1)] ws_reset_facts(5,6) [OF assms(2)]
    by (simp_all add: query32From64_def)
  then have "map_option fst (searchCandidates32WithWorkspaceLocked a ?w (effective_ef a ef) (wsQuery32 ?w)) =
      map_option fst (searchCandidates32WithWorkspaceLocked a ?w' (effective_ef a ef) (wsQuery32 ?w'))" for ef
    using searchCandidates_same by simp
  moreover have "map_option fst (C \<bind> (\<lambda>(cands, ws2). nearestResults a (liveCandidates a cands) k \<bind> (\<lambda>res. Some (res, ws2)))) =
      map_option fst C \<bind> (\<lambda>cands. nearestResults a (liveCandidates a cands) k)"
    for C :: "(distancePair list \<times> searchWorkspace) option"
    by (cases C) (auto split: Option.bind_split)
  ultimately have "map_option fst (searchResults64Locked a ws q k ef) = map_option fst (searchResults64Locked a ws' q k ef)" for ef
    unfolding searchResults64Locked_def Let_def by simp
  moreover have "map_option fst (map_option (\<lambda>(res, ws'). (Inr res :: annResult list result, ws')) X) = map_option Inr (map_option fst X)"
    for X :: "(annResult list \<times> searchWorkspace) option"
    by (cases X) auto
  ultimately show ?thesis
    unfolding SearchWithDistancesInto_def by (auto simp del: option.map_comp)
qed

end
