(* ===== verification/AnnIndex.thy ===== *)
theory AnnIndex
  imports AnnSearch
begin

text \<open>
  The write side of \<^verbatim>\<open>internal/index/ann/ann_index.go\<close>: construction, insertion with linking and pruning,
  soft deletion and statistics. The generator's \<open>n\<close>-th \<^verbatim>\<open>Intn(100)\<close> for a seed is the argument \<open>intn\<close>.
  The invariant \<open>ann_wf\<close> says that slots, identifiers, deletion flags and neighbour lists fit
  together; every operation preserves it, none panics under it, and the live part of the index is the partial
  map \<open>ann_abs\<close> from identifiers to vectors, which insertion updates and deletion restricts.
\<close>

section \<open>Operations\<close>

record annOptions =
  aoM :: int
  aoEfConstruction :: int
  aoEfSearch :: int
  aoSeed :: int

definition NewAnnIndexWithOptions :: "annOptions \<Rightarrow> annIndex" where
  "NewAnnIndexWithOptions opts =
     \<lparr>anNodes = [], anIdToSlot = [], anDeleted = [], anDeletedCount = 0, anEntrypoint = 0, anHasEntrypoint = False,
      anDim = 0,
      anM = (if aoM opts \<le> 0 then 16 else aoM opts),
      anEfConstruction = (if aoEfConstruction opts \<le> 0 then 64 else aoEfConstruction opts),
      anEfSearch = (if aoEfSearch opts \<le> 0 then 64 else aoEfSearch opts),
      anRnd = (if aoSeed opts = 0 then 42 else aoSeed opts, 0)\<rparr>"

definition NewAnnIndex :: annIndex where
  "NewAnnIndex = NewAnnIndexWithOptions \<lparr>aoM = 0, aoEfConstruction = 0, aoEfSearch = 0, aoSeed = 0\<rparr>"

definition addNeighbor :: "annNode \<Rightarrow> nat \<Rightarrow> annNode" where
  "addNeighbor n nid =
     (if nid = ndSlot n then n
      else if nid \<in> set (ndNeighbors n) then n
      else n\<lparr>ndNeighbors := ndNeighbors n @ [nid]\<rparr>)"

text \<open>A write through \<^verbatim>\<open>&a.nodes[slot]\<close>.\<close>

definition upd_node :: "annIndex \<Rightarrow> nat \<Rightarrow> (annNode \<Rightarrow> annNode) \<Rightarrow> annIndex option" where
  "upd_node a slot f =
     map_option (\<lambda>n. a\<lparr>anNodes := (anNodes a)[slot := f n]\<rparr>) (idx (anNodes a) slot)"

definition neighbor_pair :: "annIndex \<Rightarrow> annNode \<Rightarrow> nat \<Rightarrow> distancePair option" where
  "neighbor_pair a n nid =
     do { neighbor \<leftarrow> idx (anNodes a) nid;
          dist \<leftarrow> squaredDistance32 (ndVector n) (ndVector neighbor);
          Some \<lparr>dpID = nid, dpDistance = dist\<rparr> }"

definition pruneNeighborsLocked :: "annIndex \<Rightarrow> nat \<Rightarrow> annIndex option" where
  "pruneNeighborsLocked a slot =
     do { n \<leftarrow> idx (anNodes a) slot;
          if int (length (ndNeighbors n)) \<le> anM a then Some a
          else do {
            pairs \<leftarrow> those (map (neighbor_pair a n) (ndNeighbors n));
            upd_node a slot (\<lambda>n. n\<lparr>ndNeighbors := nearestIDs pairs (anM a)\<rparr>) } }"

fun link_slots :: "annIndex \<Rightarrow> nat \<Rightarrow> nat list \<Rightarrow> annIndex option" where
  "link_slots a slot [] = Some a"
| "link_slots a slot (neighborSlot # rest) =
     (if neighborSlot = slot then link_slots a slot rest
      else do {
        a1 \<leftarrow> upd_node a slot (\<lambda>n. addNeighbor n neighborSlot);
        a2 \<leftarrow> upd_node a1 neighborSlot (\<lambda>n. addNeighbor n slot);
        a3 \<leftarrow> pruneNeighborsLocked a2 neighborSlot;
        link_slots a3 slot rest })"

definition revive_node :: "annIndex \<Rightarrow> nat \<Rightarrow> float32 list \<Rightarrow> annIndex option" where
  "revive_node a slot vecCopy =
     do { a1 \<leftarrow> upd_node a slot (\<lambda>n. n\<lparr>ndVector := vecCopy\<rparr>);
          del \<leftarrow> idx (anDeleted a1) slot;
          Some (if del then a1\<lparr>anDeleted := (anDeleted a1)[slot := False], anDeletedCount := anDeletedCount a1 - 1\<rparr>
                else a1) }"

definition append_node :: "annIndex \<Rightarrow> int \<Rightarrow> float32 list \<Rightarrow> annIndex" where
  "append_node a nid vecCopy =
     a\<lparr>anNodes := anNodes a @ [\<lparr>ndSlot = length (anNodes a), ndID = nid, ndVector = vecCopy, ndNeighbors = []\<rparr>],
       anIdToSlot := gm_put nid (length (anNodes a)) (anIdToSlot a),
       anDeleted := anDeleted a @ [False]\<rparr>"

definition draw_entrypoint :: "(int \<times> nat \<Rightarrow> int) \<Rightarrow> annIndex \<Rightarrow> nat \<Rightarrow> annIndex" where
  "draw_entrypoint intn a slot =
     (let a1 = a\<lparr>anRnd := (fst (anRnd a), snd (anRnd a) + 1)\<rparr>
      in if intn (anRnd a) < 5 then a1\<lparr>anEntrypoint := slot\<rparr> else a1)"

definition insert_node :: "(int \<times> nat \<Rightarrow> int) \<Rightarrow> annIndex \<Rightarrow> searchWorkspace \<Rightarrow> int \<Rightarrow> float32 list \<Rightarrow>
    (annIndex \<times> searchWorkspace) option" where
  "insert_node intn a0 ws nid vecCopy =
     (let slot = length (anNodes a0); a = append_node a0 nid vecCopy
      in if \<not> anHasEntrypoint a then Some (a\<lparr>anEntrypoint := slot, anHasEntrypoint := True\<rparr>, ws)
         else do {
           (cands, ws') \<leftarrow> searchCandidates32Locked a ws vecCopy (anEfConstruction a);
           a1 \<leftarrow> link_slots a slot (nearestIDs cands (anM a));
           a2 \<leftarrow> pruneNeighborsLocked a1 slot;
           Some (draw_entrypoint intn a2 slot, ws') })"

definition Ann_AddVector :: "(int \<times> nat \<Rightarrow> int) \<Rightarrow> annIndex \<Rightarrow> searchWorkspace \<Rightarrow> int \<Rightarrow> float64 list \<Rightarrow>
    (goerror option \<times> annIndex \<times> searchWorkspace) option" where
  "Ann_AddVector intn a0 ws nid vec =
     (if length vec = 0 then Some (Some ErrInvalidVectorDim, a0, ws)
      else let a = (if anDim a0 = 0 then a0\<lparr>anDim := length vec\<rparr> else a0)
           in if length vec \<noteq> anDim a then Some (Some ErrInvalidVectorDim, a, ws)
              else case gm_get (anIdToSlot a) nid of
                  Some slot \<Rightarrow> map_option (\<lambda>a'. (None, a', ws)) (revive_node a slot (ToFloat32 vec))
                | None \<Rightarrow> map_option (\<lambda>(a', ws'). (None, a', ws')) (insert_node intn a ws nid (ToFloat32 vec)))"

definition Ann_DeleteVector :: "annIndex \<Rightarrow> int \<Rightarrow> annIndex option" where
  "Ann_DeleteVector a nid =
     (case gm_get (anIdToSlot a) nid of
        None \<Rightarrow> Some a
      | Some slot \<Rightarrow>
          map_option (\<lambda>del. if del then a
              else a\<lparr>anDeleted := (anDeleted a)[slot := True], anDeletedCount := anDeletedCount a + 1\<rparr>)
            (idx (anDeleted a) slot))"

record annStats =
  asNodes :: nat
  asDeleted :: int

definition Ann_Stats :: "annIndex \<Rightarrow> annStats" where
  "Ann_Stats a = \<lparr>asNodes = length (anNodes a), asDeleted = anDeletedCount a\<rparr>"

section \<open>The invariant\<close>

text \<open>What does not depend on the neighbour lists.\<close>

definition ann_base :: "annIndex \<Rightarrow> bool" where
  "ann_base a \<longleftrightarrow> length (anDeleted a) = length (anNodes a) \<and> gm_wf (anIdToSlot a) \<and>
     (\<forall>nid s. gm_get (anIdToSlot a) nid = Some s \<longrightarrow> s < length (anNodes a) \<and> ndID (anNodes a ! s) = nid) \<and>
     (\<forall>s < length (anNodes a). ndSlot (anNodes a ! s) = s \<and> gm_get (anIdToSlot a) (ndID (anNodes a ! s)) = Some s \<and>
        length (ndVector (anNodes a ! s)) = anDim a) \<and>
     anDeletedCount a = int (length (filter (\<lambda>d. d) (anDeleted a))) \<and> 0 < anM a \<and> 0 < anEfConstruction a \<and> 0 < anEfSearch a \<and>
     (anHasEntrypoint a \<longleftrightarrow> anNodes a \<noteq> []) \<and> (anNodes a \<noteq> [] \<longrightarrow> 0 < anDim a \<and> anEntrypoint a < length (anNodes a))"

definition nbrs_ok :: "nat \<Rightarrow> nat \<Rightarrow> nat list \<Rightarrow> bool" where
  "nbrs_ok n s ns \<longleftrightarrow> distinct ns \<and> (\<forall>t \<in> set ns. t < n \<and> t \<noteq> s)"

definition ann_nbrs :: "annIndex \<Rightarrow> nat \<Rightarrow> nat list" where
  "ann_nbrs a s = ndNeighbors (anNodes a ! s)"

text \<open>All degrees are at most \<open>m\<close>, those of the slots in \<open>E\<close> excepted.\<close>

definition ann_core :: "nat set \<Rightarrow> annIndex \<Rightarrow> bool" where
  "ann_core E a \<longleftrightarrow> ann_base a \<and> (\<forall>s < length (anNodes a). nbrs_ok (length (anNodes a)) s (ann_nbrs a s) \<and>
     (s \<notin> E \<longrightarrow> int (length (ann_nbrs a s)) \<le> anM a))"

definition ann_wf :: "annIndex \<Rightarrow> bool" where
  "ann_wf a \<longleftrightarrow> ann_core {} a"

definition ann_abs :: "annIndex \<Rightarrow> int \<rightharpoonup> float32 list" where
  "ann_abs a nid = (case gm_get (anIdToSlot a) nid of None \<Rightarrow> None
     | Some s \<Rightarrow> if anDeleted a ! s then None else Some (ndVector (anNodes a ! s)))"

lemma ann_abs_upd [simp]:
  "ann_abs (a\<lparr>anEntrypoint := e\<rparr>) = ann_abs a" "ann_abs (a\<lparr>anHasEntrypoint := h\<rparr>) = ann_abs a"
  "ann_abs (a\<lparr>anDim := d\<rparr>) = ann_abs a" "ann_abs (a\<lparr>anRnd := r\<rparr>) = ann_abs a"
  by (rule ext, simp add: ann_abs_def split: option.split)+

definition ann_strip :: "annIndex \<Rightarrow> annIndex" where
  "ann_strip a = a\<lparr>anNodes := map (\<lambda>n. n\<lparr>ndNeighbors := []\<rparr>) (anNodes a)\<rparr>"

lemma ann_strip_base: "ann_base (ann_strip a) = ann_base a"
  by (simp add: ann_base_def ann_strip_def cong: conj_cong)

lemma ann_strip_abs: "ann_base a \<Longrightarrow> ann_abs (ann_strip a) = ann_abs a"
  by (rule ext) (auto simp: ann_abs_def ann_strip_def ann_base_def split: option.split)

lemma ann_strip_eq:
  assumes "ann_strip a = ann_strip a'" and "ann_base a"
  shows "ann_base a'" and "ann_abs a' = ann_abs a" and "length (anNodes a') = length (anNodes a)" and "anM a' = anM a"
    and "anDim a' = anDim a"
proof -
  show b: "ann_base a'" using assms by (metis ann_strip_base)
  show "ann_abs a' = ann_abs a" using assms b by (metis ann_strip_abs)
  show "length (anNodes a') = length (anNodes a)"
    using assms(1) by (metis (no_types, lifting) ann_strip_def annIndex.select_convs(1) annIndex.surjective annIndex.update_convs(1) length_map)
  show "anM a' = anM a"
    using arg_cong [OF assms(1), of anM] by (simp add: ann_strip_def)
  show "anDim a' = anDim a"
    using arg_cong [OF assms(1), of anDim] by (simp add: ann_strip_def)
qed

lemma ann_core_graph: "ann_core E a \<Longrightarrow> anNodes a \<noteq> [] \<Longrightarrow> ann_graph_ok a"
  by (simp add: ann_core_def ann_base_def ann_graph_ok_def nbrs_ok_def ann_nbrs_def)

lemma ann_wf_New [simp]: "ann_wf (NewAnnIndexWithOptions opts)"
  by (simp add: ann_wf_def ann_core_def ann_base_def NewAnnIndexWithOptions_def)

lemma ann_abs_New [simp]: "ann_abs (NewAnnIndexWithOptions opts) = Map.empty"
  by (rule ext) (simp add: ann_abs_def NewAnnIndexWithOptions_def)

lemma ann_base_inj:
  assumes "ann_base a" and "s < length (anNodes a)" and "t < length (anNodes a)" and "ndID (anNodes a ! s) = ndID (anNodes a ! t)"
  shows "s = t"
proof -
  have "\<forall>s < length (anNodes a). gm_get (anIdToSlot a) (ndID (anNodes a ! s)) = Some s"
    using assms(1) by (simp add: ann_base_def)
  then have "gm_get (anIdToSlot a) (ndID (anNodes a ! s)) = Some s" "gm_get (anIdToSlot a) (ndID (anNodes a ! t)) = Some t"
    using assms(2,3) by blast+
  with assms(4) show ?thesis by (metis option.inject)
qed

section \<open>Linking and pruning\<close>

lemma those_map_Some: "(\<And>x. x \<in> set xs \<Longrightarrow> f x = Some (g x)) \<Longrightarrow> those (map f xs) = Some (map g xs)"
  by (induction xs) simp_all

lemma nearestIDs_facts:
  shows "mset (nearestIDs c k) \<subseteq># mset (map dpID c)" and "0 \<le> k \<Longrightarrow> int (length (nearestIDs c k)) \<le> k"
proof -
  have "mset (map dpID (take (nat j) (selectNearest c (nat j)))) \<subseteq># mset (map dpID c)" if "j \<le> int (length c)" for j
  proof -
    have "mset (selectNearest c (nat j)) = mset c" using that by (intro mset_selectNearest) simp
    then have "mset (take (nat j) (selectNearest c (nat j))) \<subseteq># mset c"
      by (metis append_take_drop_id mset_append mset_subset_eq_add_left)
    then show ?thesis by (simp add: image_mset_subseteq_mono)
  qed
  then show "mset (nearestIDs c k) \<subseteq># mset (map dpID c)"
    by (simp add: nearestIDs_def Let_def clampK_def)
  show "0 \<le> k \<Longrightarrow> int (length (nearestIDs c k)) \<le> k"
    by (auto simp: nearestIDs_def Let_def clampK_def min_def)
qed

lemma nearestIDs_nbrs: "nbrs_ok n s (map dpID c) \<Longrightarrow> nbrs_ok n s (nearestIDs c k)"
  using nearestIDs_facts(1) [of c k] distinct_submset [of "map dpID c" "nearestIDs c k"] set_mset_mono [OF nearestIDs_facts(1) [of c k]]
  by (auto simp: nbrs_ok_def)

text \<open>Writing an admissible neighbour list keeps the invariant.\<close>

lemma set_nbrs_core:
  assumes "ann_core E a" and "s < length (anNodes a)" and "nbrs_ok (length (anNodes a)) s ns"
    and "a' = a\<lparr>anNodes := (anNodes a)[s := (anNodes a ! s)\<lparr>ndNeighbors := ns\<rparr>]\<rparr>"
  shows "ann_core (insert s E) a'" and "int (length ns) \<le> anM a \<Longrightarrow> ann_core (E - {s}) a'" and "ann_strip a' = ann_strip a"
    and "ann_nbrs a' t = (if t = s then ns else ann_nbrs a t)"
proof -
  show strip: "ann_strip a' = ann_strip a"
    using assms(2) by (simp add: assms(4) ann_strip_def map_update list_update_same_conv)
  show nb: "ann_nbrs a' t = (if t = s then ns else ann_nbrs a t)" for t
    using assms(2) by (simp add: assms(4) ann_nbrs_def nth_list_update)
  have base: "ann_base a'" using strip assms(1) by (metis ann_strip_base ann_core_def)
  have len: "length (anNodes a') = length (anNodes a)" "anM a' = anM a" by (simp_all add: assms(4))
  show "ann_core (insert s E) a'" "int (length ns) \<le> anM a \<Longrightarrow> ann_core (E - {s}) a'"
    using assms(1-3) base by (simp_all add: ann_core_def len nb)
qed

lemma addNeighbor_core:
  assumes "ann_core E a" and "s < length (anNodes a)" and "t < length (anNodes a)" and "t \<noteq> s"
  shows "\<exists>a'. upd_node a s (\<lambda>n. addNeighbor n t) = Some a' \<and> ann_core (insert s E) a' \<and> ann_strip a' = ann_strip a"
proof -
  let ?n = "anNodes a ! s"
  define ns where "ns = ndNeighbors (addNeighbor ?n t)"
  have slot: "ndSlot ?n = s" using assms(1,2) by (simp add: ann_core_def ann_base_def)
  have "nbrs_ok (length (anNodes a)) s (ndNeighbors ?n)" using assms(1,2) by (simp add: ann_core_def ann_nbrs_def)
  then have ok: "nbrs_ok (length (anNodes a)) s ns"
    using assms(3,4) by (auto simp: ns_def nbrs_ok_def addNeighbor_def)
  have "addNeighbor ?n t = ?n\<lparr>ndNeighbors := ns\<rparr>" by (simp add: ns_def addNeighbor_def)
  then have "upd_node a s (\<lambda>n. addNeighbor n t) = Some (a\<lparr>anNodes := (anNodes a)[s := ?n\<lparr>ndNeighbors := ns\<rparr>]\<rparr>)"
    using assms(2) by (simp add: upd_node_def)
  then show ?thesis using set_nbrs_core [OF assms(1,2) ok refl] by blast
qed

lemma prune_core:
  assumes "ann_core E a" and "s < length (anNodes a)"
  shows "\<exists>a'. pruneNeighborsLocked a s = Some a' \<and> ann_core (E - {s}) a' \<and> ann_strip a' = ann_strip a"
proof -
  let ?n = "anNodes a ! s"
  have ok: "nbrs_ok (length (anNodes a)) s (ndNeighbors ?n)" using assms by (simp add: ann_core_def ann_nbrs_def)
  show ?thesis
  proof (cases "int (length (ndNeighbors ?n)) \<le> anM a")
    case True
    then have "ann_core (E - {s}) a" using assms by (auto simp: ann_core_def ann_nbrs_def)
    with True assms(2) show ?thesis by (simp add: pruneNeighborsLocked_def)
  next
    case False
    have g: "ann_graph_ok a" using assms ann_core_graph by fastforce
    have len: "length (ndVector ?n) = anDim a" using assms by (simp add: ann_core_def ann_base_def)
    let ?ps = "map (dp_of a (ndVector ?n)) (ndNeighbors ?n)"
    have dp: "\<lparr>dpID = t, dpDistance = dpDistance (dp_of a v t)\<rparr> = dp_of a v t" for t v by (simp add: dp_of_def)
    have "neighbor_pair a ?n t = Some (dp_of a (ndVector ?n) t)" if "t \<in> set (ndNeighbors ?n)" for t
      using that ok dp_of_true(1) [OF g len, of t] by (simp add: neighbor_pair_def nbrs_ok_def dp)
    then have pairs: "those (map (neighbor_pair a ?n) (ndNeighbors ?n)) = Some ?ps" by (rule those_map_Some)
    have ids: "map dpID ?ps = ndNeighbors ?n" by (simp add: o_def dp_of_def)
    have m: "0 < anM a" using assms(1) by (simp add: ann_core_def ann_base_def)
    have "nbrs_ok (length (anNodes a)) s (nearestIDs ?ps (anM a))" using ok ids by (metis nearestIDs_nbrs)
    moreover have "int (length (nearestIDs ?ps (anM a))) \<le> anM a" using m by (intro nearestIDs_facts(2)) simp
    moreover have "pruneNeighborsLocked a s = Some (a\<lparr>anNodes := (anNodes a)[s := ?n\<lparr>ndNeighbors := nearestIDs ?ps (anM a)\<rparr>]\<rparr>)"
      using False assms(2) pairs by (simp add: pruneNeighborsLocked_def upd_node_def)
    ultimately show ?thesis using set_nbrs_core(2,3) [OF assms] by blast
  qed
qed

lemma link_core:
  assumes "ann_core {slot} a" and "slot < length (anNodes a)" and "\<forall>t \<in> set links. t < length (anNodes a)"
  shows "\<exists>a'. link_slots a slot links = Some a' \<and> ann_core {slot} a' \<and> ann_strip a' = ann_strip a"
  using assms
proof (induction links arbitrary: a)
  case (Cons t links)
  show ?case
  proof (cases "t = slot")
    case True
    with Cons show ?thesis by simp
  next
    case False
    have t: "t < length (anNodes a)" using Cons.prems(3) by simp
    obtain a1 where a1: "upd_node a slot (\<lambda>n. addNeighbor n t) = Some a1" "ann_core (insert slot {slot}) a1" "ann_strip a1 = ann_strip a"
      using addNeighbor_core [OF Cons.prems(1,2) t False] by blast
    note l1 = ann_strip_eq(3) [OF a1(3)]
    obtain a2 where a2: "upd_node a1 t (\<lambda>n. addNeighbor n slot) = Some a2" "ann_core (insert t {slot}) a2" "ann_strip a2 = ann_strip a1"
      using addNeighbor_core [OF a1(2), of t slot] t Cons.prems(2) False l1 a1(2) by (auto simp: ann_core_def)
    note l2 = ann_strip_eq(3) [OF a2(3)]
    obtain a3 where a3: "pruneNeighborsLocked a2 t = Some a3" "ann_core (insert t {slot} - {t}) a3" "ann_strip a3 = ann_strip a2"
      using prune_core [OF a2(2), of t] t l1 l2 a1(2) a2(2) by (auto simp: ann_core_def)
    note l3 = ann_strip_eq(3) [OF a3(3)]
    have c3: "ann_core {slot} a3" using a3(2) False by (simp add: insert_Diff_if)
    have len: "length (anNodes a3) = length (anNodes a)"
      using l1 l2 l3 a1(2) a2(2) c3 by (simp add: ann_core_def)
    obtain a' where "link_slots a3 slot links = Some a'" "ann_core {slot} a'" "ann_strip a' = ann_strip a3"
      using Cons.IH [OF c3] Cons.prems(2,3) len by auto
    then show ?thesis using a1 a2 a3 False by simp
  qed
qed simp

section \<open>Insertion\<close>

lemma append_node_facts:
  assumes "ann_wf a" and "anDim a = length v" and "gm_get (anIdToSlot a) nid = None" and "0 < length v"
    and "a' = append_node a nid v"
  shows "anNodes a \<noteq> [] \<Longrightarrow> ann_core {} a'"
    and "anNodes a = [] \<Longrightarrow> ann_core {} (a'\<lparr>anEntrypoint := length (anNodes a), anHasEntrypoint := True\<rparr>)"
    and "ann_abs a' = (ann_abs a)(nid \<mapsto> v)"
proof -
  have base: "ann_base a" and nb: "\<forall>s < length (anNodes a). nbrs_ok (length (anNodes a)) s (ann_nbrs a s) \<and> int (length (ann_nbrs a s)) \<le> anM a"
    using assms(1) by (simp_all add: ann_wf_def ann_core_def)
  have nid: "s < length (anNodes a) \<Longrightarrow> ndID (anNodes a ! s) \<noteq> nid" for s
    using base assms(3) by (auto simp: ann_base_def)
  have nb': "\<forall>s < length (anNodes a'). nbrs_ok (length (anNodes a')) s (ann_nbrs a' s) \<and> int (length (ann_nbrs a' s)) \<le> anM a'"
    using nb base by (auto simp: assms(5) append_node_def ann_nbrs_def nbrs_ok_def nth_append ann_base_def less_Suc_eq)
  show "anNodes a \<noteq> [] \<Longrightarrow> ann_core {} a'"
    using base nb' assms(2) nid unfolding ann_core_def
    by (auto simp: assms(5) append_node_def ann_base_def nth_append less_Suc_eq)
  show "anNodes a = [] \<Longrightarrow> ann_core {} (a'\<lparr>anEntrypoint := length (anNodes a), anHasEntrypoint := True\<rparr>)"
    using base nb' assms(2,4) unfolding ann_core_def
    by (auto simp: assms(5) append_node_def ann_base_def ann_nbrs_def)
  show "ann_abs a' = (ann_abs a)(nid \<mapsto> v)"
    using base
    by (auto simp: fun_eq_iff ann_abs_def assms(5) append_node_def ann_base_def nth_append split: option.split)
qed

lemma draw_entrypoint_facts:
  assumes "ann_core E a" and "slot < length (anNodes a)"
  shows "ann_core E (draw_entrypoint intn a slot)" and "ann_abs (draw_entrypoint intn a slot) = ann_abs a"
    and "length (anNodes (draw_entrypoint intn a slot)) = length (anNodes a)" and "anDim (draw_entrypoint intn a slot) = anDim a"
  using assms by (auto simp: draw_entrypoint_def Let_def ann_core_def ann_base_def ann_nbrs_def)

text \<open>The first node becomes the entry point.\<close>

lemma insert_first_facts:
  assumes "ann_wf a0" and "anDim a0 = length v" and "gm_get (anIdToSlot a0) nid = None" and "0 < length v"
    and "ws_ok (length (anNodes a0)) ws" and "anNodes a0 = []"
  shows "\<exists>a' ws'. insert_node intn a0 ws nid v = Some (a', ws') \<and> ann_wf a' \<and> ann_abs a' = (ann_abs a0)(nid \<mapsto> v) \<and>
    ws_ok (length (anNodes a')) ws' \<and> length (anNodes a') = Suc (length (anNodes a0)) \<and> anDim a' = length v"
proof -
  let ?a' = "(append_node a0 nid v)\<lparr>anEntrypoint := length (anNodes a0), anHasEntrypoint := True\<rparr>"
  note app = append_node_facts [OF assms(1-4) refl]
  have len: "length (anNodes ?a') = Suc (length (anNodes a0))" "anDim ?a' = length v" using assms(2) by (simp_all add: append_node_def)
  have "\<not> anHasEntrypoint (append_node a0 nid v)"
    using assms(1,6) by (simp add: append_node_def ann_wf_def ann_core_def ann_base_def)
  then have "insert_node intn a0 ws nid v = Some (?a', ws)" by (simp add: insert_node_def Let_def)
  moreover have "ann_abs ?a' = (ann_abs a0)(nid \<mapsto> v)" using app(3) by simp
  moreover have "ann_wf ?a'" using app(2) [OF assms(6)] unfolding ann_wf_def .
  moreover have "ws_ok (length (anNodes ?a')) ws" using assms(5) len by (auto intro: ws_ok_mono)
  ultimately show ?thesis using len by (intro exI [of _ ?a'] exI [of _ ws]) simp
qed

lemma insert_node_facts:
  assumes "ann_wf a0" and "anDim a0 = length v" and "gm_get (anIdToSlot a0) nid = None" and "0 < length v"
    and "ws_ok (length (anNodes a0)) ws"
  shows "\<exists>a' ws'. insert_node intn a0 ws nid v = Some (a', ws') \<and> ann_wf a' \<and> ann_abs a' = (ann_abs a0)(nid \<mapsto> v) \<and>
    ws_ok (length (anNodes a')) ws' \<and> length (anNodes a') = Suc (length (anNodes a0)) \<and> anDim a' = length v"
proof -
  let ?a = "append_node a0 nid v" and ?slot = "length (anNodes a0)"
  note app = append_node_facts [OF assms(1-4) refl]
  have len: "length (anNodes ?a) = Suc ?slot" by (simp add: append_node_def)
  have ent: "anHasEntrypoint ?a \<longleftrightarrow> anNodes a0 \<noteq> []"
    using assms(1) by (simp add: append_node_def ann_wf_def ann_core_def ann_base_def)
  show ?thesis
  proof (cases "anNodes a0 = []")
    case True
    then show ?thesis by (rule insert_first_facts [OF assms])
  next
    case False
    have core: "ann_core {} ?a" using app(1) [OF False] .
    have g: "ann_graph_ok ?a" using core len ann_core_graph by fastforce
    have efc: "0 < effective_ef ?a (anEfConstruction ?a)" and m: "0 < anM ?a"
      using core by (simp_all add: effective_ef_def ann_core_def ann_base_def)
    have dim: "length v = anDim ?a" using assms(2) by (simp add: append_node_def)
    have wsn: "ws_ok (length (anNodes ?a)) ws" using assms(5) len by (auto intro: ws_ok_mono)
    obtain cands ws' where c: "searchCandidates32Locked ?a ws v (anEfConstruction ?a) = Some (cands, ws')"
      "cands_ok ?a (effective_ef ?a (anEfConstruction ?a)) v cands" "ws_ok (length (anNodes ?a)) ws'"
      using searchCandidates_ok [OF g dim wsn efc, of "ws_reset ws (length (anNodes ?a))" "wsQuery32 (ws_reset ws (length (anNodes ?a)))"]
      by (auto simp: searchCandidates32Locked_def)
    have "\<forall>t \<in> set (nearestIDs cands (anM ?a)). t < length (anNodes ?a)"
      using set_mset_mono [OF nearestIDs_facts(1) [of cands "anM ?a"]] c(2) by (auto simp: cands_ok_def dp_true_def)
    moreover have "ann_core {?slot} ?a" using core by (auto simp: ann_core_def)
    ultimately obtain a1 where a1: "link_slots ?a ?slot (nearestIDs cands (anM ?a)) = Some a1" "ann_core {?slot} a1" "ann_strip a1 = ann_strip ?a"
      using link_core [of ?slot ?a "nearestIDs cands (anM ?a)"] len by auto
    have b: "ann_base ?a" using core by (simp add: ann_core_def)
    note s1 = ann_strip_eq [OF a1(3) [symmetric] b]
    obtain a2 where a2: "pruneNeighborsLocked a1 ?slot = Some a2" "ann_core ({?slot} - {?slot}) a2" "ann_strip a2 = ann_strip a1"
      using prune_core [OF a1(2), of ?slot] s1(3) len by auto
    note s2 = ann_strip_eq [OF a2(3) [symmetric] s1(1)]
    have c2: "ann_core {} a2" and l2: "?slot < length (anNodes a2)" "length (anNodes a2) = Suc ?slot"
      using a2(2) s1(3) s2(3) len by simp_all
    note d = draw_entrypoint_facts [OF c2 l2(1), of intn]
    have "insert_node intn a0 ws nid v = Some (draw_entrypoint intn a2 ?slot, ws')"
      using ent False c(1) a1(1) a2(1) by (simp add: insert_node_def Let_def)
    moreover have "ann_abs (draw_entrypoint intn a2 ?slot) = (ann_abs a0)(nid \<mapsto> v)"
      using d(2) s1(2) s2(2) app(3) by simp
    moreover have "anDim (draw_entrypoint intn a2 ?slot) = length v" using d(4) s1(5) s2(5) dim by simp
    ultimately show ?thesis using d(1,3) l2 c(3) len by (auto simp: ann_wf_def)
  qed
qed

lemma revive_node_facts:
  assumes "ann_wf a" and "anDim a = length v" and "gm_get (anIdToSlot a) nid = Some slot"
  shows "\<exists>a'. revive_node a slot v = Some a' \<and> ann_wf a' \<and> ann_abs a' = (ann_abs a)(nid \<mapsto> v) \<and> length (anNodes a') = length (anNodes a) \<and> anDim a' = length v"
proof -
  have base: "ann_base a" using assms(1) by (simp add: ann_wf_def ann_core_def)
  then have s: "slot < length (anNodes a)" "slot < length (anDeleted a)" "ndID (anNodes a ! slot) = nid"
    using assms(3) by (auto simp: ann_base_def)
  have inj: "gm_get (anIdToSlot a) k = Some slot \<longleftrightarrow> k = nid" for k
    using base assms(3) unfolding ann_base_def by metis
  let ?a1 = "a\<lparr>anNodes := (anNodes a)[slot := (anNodes a ! slot)\<lparr>ndVector := v\<rparr>]\<rparr>"
  let ?a' = "if anDeleted a ! slot then ?a1\<lparr>anDeleted := (anDeleted a)[slot := False], anDeletedCount := anDeletedCount a - 1\<rparr> else ?a1"
  have r: "revive_node a slot v = Some ?a'" using s by (simp add: revive_node_def upd_node_def)
  have "length (filter (\<lambda>d. d) ((anDeleted a)[slot := False])) + 1 = length (filter (\<lambda>d. d) (anDeleted a))" if "anDeleted a ! slot"
    using filter_update_less [of slot "anDeleted a" "\<lambda>d. d" False] s(2) that by simp
  then have "ann_base ?a'"
    using base s assms(2) by (auto simp: ann_base_def nth_list_update)
  then have "ann_wf ?a'"
    using assms(1) s by (auto simp: ann_wf_def ann_core_def ann_nbrs_def nth_list_update)
  moreover have "ann_abs ?a' k = ((ann_abs a)(nid \<mapsto> v)) k" for k
    using s(1,2) assms(3) inj [of k]
    by (cases "k = nid"; cases "gm_get (anIdToSlot a) k") (auto simp: ann_abs_def nth_list_update)
  then have "ann_abs ?a' = (ann_abs a)(nid \<mapsto> v)" by (rule ext)
  ultimately show ?thesis using r assms(2) by (intro exI [of _ ?a']) auto
qed

lemma Ann_AddVector_facts:
  assumes "ann_wf a" and "ws_ok (length (anNodes a)) ws"
  shows "\<exists>e a' ws'. Ann_AddVector intn a ws nid vec = Some (e, a', ws') \<and> ann_wf a' \<and>
    ws_ok (length (anNodes a')) ws' \<and> length (anNodes a) \<le> length (anNodes a') \<and>
    (if vec = [] \<or> anDim a \<noteq> 0 \<and> anDim a \<noteq> length vec
     then e = Some ErrInvalidVectorDim \<and> a' = a
     else e = None \<and> anDim a' = length vec \<and> ann_abs a' = (ann_abs a)(nid \<mapsto> ToFloat32 vec))"
proof -
  have len: "length (ToFloat32 vec) = length vec" by (simp add: ToFloat32_def)
  show ?thesis
  proof (cases "vec = [] \<or> anDim a \<noteq> 0 \<and> anDim a \<noteq> length vec")
    case True
    then show ?thesis using assms by (auto simp: Ann_AddVector_def)
  next
    case False
    let ?a = "if anDim a = 0 then a\<lparr>anDim := length vec\<rparr> else a"
    have "anDim a = 0 \<Longrightarrow> anNodes a = []"
      using assms(1) by (auto simp: ann_wf_def ann_core_def ann_base_def)
    then have wf: "ann_wf ?a" using assms(1) by (auto simp: ann_wf_def ann_core_def ann_base_def)
    have dim: "anDim ?a = length (ToFloat32 vec)" using False len by auto
    have eq: "ann_abs ?a = ann_abs a" "length (anNodes ?a) = length (anNodes a)" by simp_all
    have ne: "length vec \<noteq> 0" and same: "\<not> length vec \<noteq> anDim ?a" using False dim len by auto
    show ?thesis
    proof (cases "gm_get (anIdToSlot ?a) nid")
      case None
      have "0 < length (ToFloat32 vec)" using ne len by simp
      from insert_node_facts [OF wf dim None this, of ws intn] assms(2) eq len
      obtain a' ws' where i: "insert_node intn ?a ws nid (ToFloat32 vec) = Some (a', ws')" "ann_wf a'"
        "ann_abs a' = (ann_abs a)(nid \<mapsto> ToFloat32 vec)" "ws_ok (length (anNodes a')) ws'" "length (anNodes a') = Suc (length (anNodes a))" "anDim a' = length vec"
        by auto
      then have "Ann_AddVector intn a ws nid vec = Some (None, a', ws')"
        unfolding Ann_AddVector_def Let_def using ne same None by simp
      with i show ?thesis using False by auto
    next
      case (Some slot)
      from revive_node_facts [OF wf dim Some] eq len obtain a' where i: "revive_node ?a slot (ToFloat32 vec) = Some a'" "ann_wf a'"
        "ann_abs a' = (ann_abs a)(nid \<mapsto> ToFloat32 vec)" "length (anNodes a') = length (anNodes a)" "anDim a' = length vec"
        by auto
      then have "Ann_AddVector intn a ws nid vec = Some (None, a', ws)"
        unfolding Ann_AddVector_def Let_def using ne same Some by simp
      with i show ?thesis using False assms(2) by auto
    qed
  qed
qed

section \<open>Deletion\<close>

lemma Ann_DeleteVector_facts:
  assumes "ann_wf a"
  shows "\<exists>a'. Ann_DeleteVector a nid = Some a' \<and> ann_wf a' \<and> ann_abs a' = (ann_abs a)(nid := None) \<and> anNodes a' = anNodes a \<and>
    anDim a' = anDim a"
proof (cases "gm_get (anIdToSlot a) nid")
  case None
  then show ?thesis using assms by (auto simp: Ann_DeleteVector_def ann_abs_def fun_eq_iff)
next
  case (Some slot)
  have base: "ann_base a" using assms by (simp add: ann_wf_def ann_core_def)
  then have s: "slot < length (anNodes a)" "slot < length (anDeleted a)" "ndID (anNodes a ! slot) = nid"
    using Some by (auto simp: ann_base_def)
  have inj: "gm_get (anIdToSlot a) k = Some slot \<longleftrightarrow> k = nid" for k
    using base Some unfolding ann_base_def by metis
  show ?thesis
  proof (cases "anDeleted a ! slot")
    case True
    then show ?thesis using Some s assms by (auto simp: Ann_DeleteVector_def ann_abs_def fun_eq_iff)
  next
    case False
    let ?a' = "a\<lparr>anDeleted := (anDeleted a)[slot := True], anDeletedCount := anDeletedCount a + 1\<rparr>"
    have "length (filter (\<lambda>d. d) ((anDeleted a)[slot := True])) = length (filter (\<lambda>d. d) (anDeleted a)) + 1"
      using filter_update_less [of slot "(anDeleted a)[slot := True]" "\<lambda>d. d" False] False s(2) by simp (metis list_update_id)
    then have "ann_base ?a'" using base s by (auto simp: ann_base_def)
    then have "ann_wf ?a'" using assms by (auto simp: ann_wf_def ann_core_def ann_nbrs_def)
    moreover have "ann_abs ?a' k = ((ann_abs a)(nid := None)) k" for k
      using s(1,2) Some inj [of k]
      by (cases "k = nid"; cases "gm_get (anIdToSlot a) k") (auto simp: ann_abs_def nth_list_update)
    then have "ann_abs ?a' = (ann_abs a)(nid := None)" by (rule ext)
    moreover have "Ann_DeleteVector a nid = Some ?a'" using Some s False by (simp add: Ann_DeleteVector_def)
    ultimately show ?thesis by (intro exI [of _ ?a']) simp
  qed
qed

section \<open>Search on a well-formed index\<close>

definition ann_live :: "annIndex \<Rightarrow> distancePair list \<Rightarrow> distancePair list" where
  "ann_live a cands = filter (\<lambda>c. \<not> anDeleted a ! dpID c) cands"

definition result_of :: "annIndex \<Rightarrow> distancePair \<Rightarrow> annResult" where
  "result_of a d = \<lparr>arID = ndID (anNodes a ! dpID d), arDistance = dpDistance d\<rparr>"

lemma liveCandidates_eq:
  assumes "ann_wf a" and "\<forall>d \<in> set cands. dp_true a q d"
  shows "liveCandidates a cands = ann_live a cands"
proof -
  have len: "length (anDeleted a) = length (anNodes a)"
    and cnt: "anDeletedCount a = int (length (filter (\<lambda>d. d) (anDeleted a)))"
    using assms(1) by (simp_all add: ann_wf_def ann_core_def ann_base_def)
  have "anDeletedCount a = 0 \<Longrightarrow> \<forall>s < length (anNodes a). \<not> anDeleted a ! s"
    using cnt len by (simp add: filter_empty_conv all_set_conv_all_nth)
  with assms(2) len show ?thesis
    by (auto simp: liveCandidates_def ann_live_def dp_true_def intro!: filter_True [symmetric] filter_cong)
qed

lemma nearestResults_eq:
  assumes "0 < k" and "\<forall>d \<in> set c. dp_true a q d"
  shows "nearestResults a c k = Some (map (result_of a) (take (nat k) (selectNearest c (min (nat k) (length c)))))"
proof -
  let ?k = "min (nat k) (length c)"
  have k: "nat (clampK k c) = ?k" "clampK k c \<le> 0 \<longleftrightarrow> c = []" using assms(1) by (auto simp: clampK_def min_def)
  have m: "mset (selectNearest c ?k) = mset c" by (intro mset_selectNearest) simp
  then have set: "set (selectNearest c ?k) = set c" and len: "length (selectNearest c ?k) = length c"
    by (metis set_mset_mset) (metis m size_mset)
  have tk: "take (nat k) (selectNearest c ?k) = take ?k (selectNearest c ?k)" by (rule take_min_length [OF len])
  have "map_option (\<lambda>n. \<lparr>arID = ndID n, arDistance = dpDistance d\<rparr>) (idx (anNodes a) (dpID d)) = Some (result_of a d)"
    if "d \<in> set (take ?k (selectNearest c ?k))" for d
    using that assms(2) set by (auto simp: dp_true_def result_of_def dest!: in_set_takeD)
  then have "those (map (\<lambda>d. map_option (\<lambda>n. \<lparr>arID = ndID n, arDistance = dpDistance d\<rparr>) (idx (anNodes a) (dpID d)))
      (take ?k (selectNearest c ?k))) = Some (map (result_of a) (take ?k (selectNearest c ?k)))"
    by (rule those_map_Some)
  then show ?thesis unfolding nearestResults_def Let_def k tk by (simp add: selectNearest_def)
qed

lemma Ann_search_eq:
  assumes "ann_wf a" and "ws_ok (length (anNodes a)) ws" and "0 < k" and "q \<noteq> []" and "length q = anDim a" and "anNodes a \<noteq> []"
  shows "\<exists>cands ws'. SearchWithDistancesInto a ws q k =
      Some (Inr (map (result_of a) (take (nat k) (selectNearest (ann_live a cands) (min (nat k) (length (ann_live a cands)))))), ws') \<and>
    cands_ok a (anEfSearch a) (ToFloat32 q) cands \<and> ws_ok (length (anNodes a)) ws' \<and>
    (dists_num a (ToFloat32 q) \<longrightarrow> ann_found a (anEfSearch a) (ToFloat32 q) cands)"
proof -
  let ?r = "(ws_reset ws (length (anNodes a)))\<lparr>wsQuery32 := ToFloat32 q\<rparr>"
  have g: "ann_graph_ok a" using assms(1,6) ann_core_graph by (simp add: ann_wf_def)
  have dim: "length (ToFloat32 q) = anDim a" using assms(5) by (simp add: ToFloat32_def)
  have ef: "0 < anEfSearch a" using assms(1) by (simp add: ann_wf_def ann_core_def ann_base_def)
  then have eff: "effective_ef a (anEfSearch a) = anEfSearch a" by (simp add: effective_ef_def)
  obtain cands ws' where c: "searchCandidates32WithWorkspaceLocked a ?r (anEfSearch a) (ToFloat32 q) = Some (cands, ws')"
    "cands_ok a (anEfSearch a) (ToFloat32 q) cands" "ws_ok (length (anNodes a)) ws'"
    using searchCandidates_ok [OF g dim assms(2) ef refl] by blast
  have "ann_found a (anEfSearch a) (ToFloat32 q) cands" if "dists_num a (ToFloat32 q)"
    using searchCandidates_found [OF g dim assms(2) ef refl that, of "ToFloat32 q"] c(1) by auto
  moreover have tr: "\<forall>d \<in> set cands. dp_true a (ToFloat32 q) d" using c(2) by (simp add: cands_ok_def)
  then have "\<forall>d \<in> set (ann_live a cands). dp_true a (ToFloat32 q) d" by (simp add: ann_live_def)
  note nr = nearestResults_eq [OF assms(3) this]
  have "SearchWithDistancesInto a ws q k =
      Some (Inr (map (result_of a) (take (nat k) (selectNearest (ann_live a cands) (min (nat k) (length (ann_live a cands)))))), ws')"
    using assms(3,4,6) assms(5) [symmetric] c(1) nr liveCandidates_eq [OF assms(1) tr] eff
    by (simp add: SearchWithDistancesInto_def searchResults64Locked_def query32From64_def Let_def)
  ultimately show ?thesis using c(2,3) by blast
qed

text \<open>Facts about the \<open>k\<close> selected candidates, with or without NaN.\<close>

lemma selected_facts:
  assumes "0 < k" and "s = take (nat k) (selectNearest c (min (nat k) (length c)))"
  shows "\<exists>rest. mset c = mset s + mset rest \<and> length s = min (nat k) (length c) \<and>
    ((\<forall>d \<in> set c. dp_ok d) \<longrightarrow> sorted_wrt (\<lambda>x y. f64_le (dpDistance x) (dpDistance y)) s \<and>
       (\<forall>x \<in> set s. \<forall>y \<in> set rest. f64_le (dpDistance x) (dpDistance y)))"
proof -
  let ?k = "min (nat k) (length c)"
  note n = selectNearest_nearest [of ?k c]
  have "length (selectNearest c ?k) = length c" using mset_selectNearest [of ?k c] by (metis min.cobounded2 size_mset)
  then have "s = take ?k (selectNearest c ?k)" unfolding assms(2) by (rule take_min_length)
  with n show ?thesis by (intro exI [of _ "drop ?k (selectNearest c ?k)"]) auto
qed

lemma dists_num_ok: "dists_num a q \<Longrightarrow> dp_true a q d \<Longrightarrow> dp_ok d"
  using dp_true_unique [of a q d] by (auto simp: dists_num_def dp_true_def)

section \<open>Properties\<close>

text \<open>
  C12. The approximate index implements a map with soft deletion: under the invariant neither
  insertion nor deletion panics, both keep the invariant (slots and identifiers in bijection, no
  self-loops or duplicate neighbours, every degree at most \<open>m\<close>, entry point and deletion counter
  right). Insertion fails exactly for an empty vector or a dimension other than the index's, and then changes nothing;
  otherwise the live vectors are updated at the identifier. Deletion removes the identifier. Both hold
  whatever the random generator draws and whichever pooled workspace is used.
\<close>

theorem ann_refines_map:
  assumes "ann_wf a" and "ws_ok (length (anNodes a)) ws"
  shows "(\<exists>e a' ws'. Ann_AddVector intn a ws nid vec = Some (e, a', ws') \<and> ann_wf a' \<and> ws_ok (length (anNodes a')) ws' \<and>
      (if vec = [] \<or> anDim a \<noteq> 0 \<and> anDim a \<noteq> length vec
       then e = Some ErrInvalidVectorDim \<and> a' = a
       else e = None \<and> ann_abs a' = (ann_abs a)(nid \<mapsto> ToFloat32 vec))) \<and>
    (\<exists>a'. Ann_DeleteVector a nid = Some a' \<and> ann_wf a' \<and> ann_abs a' = (ann_abs a)(nid := None) \<and>
      ws_ok (length (anNodes a')) ws)"
proof
  show "\<exists>e a' ws'. Ann_AddVector intn a ws nid vec = Some (e, a', ws') \<and> ann_wf a' \<and> ws_ok (length (anNodes a')) ws' \<and>
      (if vec = [] \<or> anDim a \<noteq> 0 \<and> anDim a \<noteq> length vec
       then e = Some ErrInvalidVectorDim \<and> a' = a
       else e = None \<and> ann_abs a' = (ann_abs a)(nid \<mapsto> ToFloat32 vec))"
    using Ann_AddVector_facts [OF assms, of intn nid vec] by (elim exE) (auto split: if_splits)
  show "\<exists>a'. Ann_DeleteVector a nid = Some a' \<and> ann_wf a' \<and> ann_abs a' = (ann_abs a)(nid := None) \<and>
      ws_ok (length (anNodes a')) ws"
    using Ann_DeleteVector_facts [OF assms(1), of nid] assms(2) by auto
qed

definition sample_ann :: annIndex where
  "sample_ann =
     \<lparr>anNodes = [\<lparr>ndSlot = 0, ndID = 7, ndVector = [0], ndNeighbors = [1]\<rparr>,
                 \<lparr>ndSlot = 1, ndID = 9, ndVector = [0x3F800000], ndNeighbors = [0]\<rparr>],
      anIdToSlot = [(7, 0), (9, 1)], anDeleted = [False, False], anDeletedCount = 0, anEntrypoint = 0,
      anHasEntrypoint = True, anDim = 1, anM = 16, anEfConstruction = 64, anEfSearch = 64, anRnd = (42, 1)\<rparr>"

lemma sample_ann_wf: "ann_wf sample_ann"
  by (auto simp: sample_ann_def ann_wf_def ann_core_def ann_base_def nbrs_ok_def ann_nbrs_def gm_wf_def gm_get_def
      less_Suc_eq numeral_2_eq_2 split: if_splits)

theorem ann_refines_map_witness:
  "(\<exists>e a' ws'. Ann_AddVector (\<lambda>_. 3) sample_ann newWorkspace 11 [0] = Some (e, a', ws') \<and> ann_wf a' \<and> ann_abs a' 11 = Some (ToFloat32 [0])) \<and>
   (\<exists>a'. Ann_DeleteVector sample_ann 7 = Some a' \<and> ann_abs a' 7 = None)"
proof -
  have "anDim sample_ann = 1" by (simp add: sample_ann_def)
  then show ?thesis
    using ann_refines_map [OF sample_ann_wf ws_ok_new, of "\<lambda>_. 3" 11 "[0]"]
      ann_refines_map [OF sample_ann_wf ws_ok_new, of "\<lambda>_. 3" 7 "[0]"]
    by (auto split: if_splits)
qed

lemma Ann_search_facts:
  assumes "ann_wf a" and "ws_ok (length (anNodes a)) ws" and "anNodes a \<noteq> []"
  shows "\<exists>r ws'. SearchWithDistancesInto a ws q k = Some (r, ws') \<and> ws_ok (length (anNodes a)) ws' \<and>
    (if k \<le> 0 then r = Inl ErrAnnInvalidK
     else if length q \<noteq> anDim a then r = Inl ErrInvalidVectorDim
     else \<exists>res. r = Inr res \<and> int (length res) \<le> min k (anEfSearch a) \<and> distinct (map arID res) \<and>
       (\<forall>x \<in> set res. \<exists>v. ann_abs a (arID x) = Some v \<and> squaredDistance32 (ToFloat32 q) v = Some (arDistance x)) \<and>
       (dists_num a (ToFloat32 q) \<longrightarrow> sorted_wrt (\<lambda>x y. f64_le (arDistance x) (arDistance y)) res))"
proof (cases "k \<le> 0 \<or> length q \<noteq> anDim a")
  case True
  then show ?thesis using assms(2) by (auto simp: SearchWithDistancesInto_def)
next
  case False
  have base: "ann_base a" using assms(1) by (simp add: ann_wf_def ann_core_def)
  have k: "0 < k" "length q = anDim a" "q \<noteq> []" using False base assms(3) by (auto simp: ann_base_def)
  obtain cands ws' where s: "SearchWithDistancesInto a ws q k =
      Some (Inr (map (result_of a) (take (nat k) (selectNearest (ann_live a cands) (min (nat k) (length (ann_live a cands)))))), ws')"
    "cands_ok a (anEfSearch a) (ToFloat32 q) cands" "ws_ok (length (anNodes a)) ws'"
    using Ann_search_eq [OF assms(1,2) k(1,3,2) assms(3)] by blast
  define sel where "sel = take (nat k) (selectNearest (ann_live a cands) (min (nat k) (length (ann_live a cands))))"
  obtain rest where rest: "mset (ann_live a cands) = mset sel + mset rest" "length sel = min (nat k) (length (ann_live a cands))"
    "(\<forall>d \<in> set (ann_live a cands). dp_ok d) \<longrightarrow> sorted_wrt (\<lambda>x y. f64_le (dpDistance x) (dpDistance y)) sel"
    using selected_facts [OF k(1) sel_def] by blast
  have sub: "mset sel \<subseteq># mset (ann_live a cands)" using rest(1) by simp
  have live: "d \<in> set cands" "\<not> anDeleted a ! dpID d" "dp_true a (ToFloat32 q) d" if "d \<in> set sel" for d
    using that set_mset_mono [OF sub] s(2) by (auto simp: ann_live_def cands_ok_def)
  have "mset (map dpID sel) \<subseteq># mset (map dpID (ann_live a cands))" using sub by (simp add: image_mset_subseteq_mono)
  moreover have "distinct (map dpID (ann_live a cands))"
    using s(2) by (simp add: ann_live_def cands_ok_def distinct_map_filter)
  ultimately have "distinct (map dpID sel)" by (rule distinct_submset [rotated])
  moreover have "inj_on (\<lambda>s. ndID (anNodes a ! s)) (set (map dpID sel))"
    using ann_base_inj [OF base] live(3) by (auto simp: inj_on_def dp_true_def)
  ultimately have "distinct (map (\<lambda>s. ndID (anNodes a ! s)) (map dpID sel))" by (simp only: distinct_map)
  then have dist: "distinct (map arID (map (result_of a) sel))" by (simp add: result_of_def o_def)
  have "int (length sel) \<le> min k (anEfSearch a)"
  proof -
    have "length (ann_live a cands) \<le> length cands" by (simp add: ann_live_def)
    moreover have "int (length cands) \<le> anEfSearch a" using s(2) by (simp add: cands_ok_def)
    ultimately show ?thesis using rest(2) k(1) by linarith
  qed
  moreover have "\<exists>v. ann_abs a (arID x) = Some v \<and> squaredDistance32 (ToFloat32 q) v = Some (arDistance x)"
    if x: "x \<in> set (map (result_of a) sel)" for x
  proof -
    obtain d where "d \<in> set sel" "x = result_of a d" using x by auto
    then show ?thesis using live [of d] base by (auto simp: result_of_def ann_abs_def ann_base_def dp_true_def)
  qed
  moreover have "sorted_wrt (\<lambda>x y. f64_le (arDistance x) (arDistance y)) (map (result_of a) sel)" if num: "dists_num a (ToFloat32 q)"
  proof -
    have "\<forall>d \<in> set (ann_live a cands). dp_ok d"
      using num s(2) by (auto simp: ann_live_def cands_ok_def intro: dists_num_ok)
    with rest(3) show ?thesis by (simp add: sorted_wrt_map result_of_def)
  qed
  ultimately show ?thesis using s(1,3) dist k False unfolding sel_def [symmetric] by (intro exI conjI) auto
qed

text \<open>
  C13. Approximate search is sound: on a well-formed non-empty index and a query of its dimension it
  ends without a panic and returns at most \<open>min k efSearch\<close> results with distinct identifiers, each
  of a live vector and with that vector's squared distance to the query; if all distances are numbers,
  in ascending order. Other queries give the two validation errors.
\<close>

theorem ann_search_sound:
  assumes "ann_wf a" and "ws_ok (length (anNodes a)) ws" and "anNodes a \<noteq> []"
  shows "\<exists>r ws'. SearchWithDistancesInto a ws q k = Some (r, ws') \<and> ws_ok (length (anNodes a)) ws' \<and>
    (if k \<le> 0 then r = Inl ErrAnnInvalidK
     else if length q \<noteq> anDim a then r = Inl ErrInvalidVectorDim
     else \<exists>res. r = Inr res \<and> int (length res) \<le> min k (anEfSearch a) \<and> distinct (map arID res) \<and>
       (\<forall>x \<in> set res. \<exists>v. ann_abs a (arID x) = Some v \<and> squaredDistance32 (ToFloat32 q) v = Some (arDistance x)) \<and>
       (dists_num a (ToFloat32 q) \<longrightarrow> sorted_wrt (\<lambda>x y. f64_le (arDistance x) (arDistance y)) res))"
  by (rule Ann_search_facts [OF assms])

theorem ann_search_sound_witness:
  "\<exists>res ws'. SearchWithDistancesInto sample_ann newWorkspace [0] 5 = Some (Inr res, ws') \<and> length res \<le> 5 \<and> distinct (map arID res)"
proof -
  have "anNodes sample_ann \<noteq> []" "anDim sample_ann = 1" by (simp_all add: sample_ann_def)
  then show ?thesis
    using ann_search_sound [OF sample_ann_wf ws_ok_new, of "[0]" 5] by (auto split: if_splits)
qed

text \<open>
  C30. A beam as wide as the index makes the search exact on what is reachable: if
  \<^verbatim>\<open>efSearch\<close> is at least the number of nodes and all distances are numbers, the results are the
  top \<open>k\<close> of the live vectors whose slots can be reached from the entry point, in ascending order.
\<close>

theorem ann_search_exhaustive:
  assumes "ann_wf a" and "ws_ok (length (anNodes a)) ws" and "anNodes a \<noteq> []" and "0 < k" and "length q = anDim a"
    and "int (length (anNodes a)) \<le> anEfSearch a" and "dists_num a (ToFloat32 q)"
  shows "\<exists>sel rest ws'. SearchWithDistancesInto a ws q k = Some (Inr (map (result_of a) sel), ws') \<and>
    distinct (map dpID (sel @ rest)) \<and> (\<forall>d \<in> set (sel @ rest). dp_true a (ToFloat32 q) d) \<and>
    dpID ` set (sel @ rest) = {s. ann_reach a s \<and> \<not> anDeleted a ! s} \<and>
    length sel = min (nat k) (length (sel @ rest)) \<and>
    sorted_wrt (\<lambda>x y. f64_le (dpDistance x) (dpDistance y)) sel \<and>
    (\<forall>x \<in> set sel. \<forall>y \<in> set rest. f64_le (dpDistance x) (dpDistance y))"
proof -
  have "q \<noteq> []" using assms(1,3,5) by (auto simp: ann_wf_def ann_core_def ann_base_def)
  then obtain cands ws' where s: "SearchWithDistancesInto a ws q k =
      Some (Inr (map (result_of a) (take (nat k) (selectNearest (ann_live a cands) (min (nat k) (length (ann_live a cands)))))), ws')"
    "cands_ok a (anEfSearch a) (ToFloat32 q) cands" "ann_found a (anEfSearch a) (ToFloat32 q) cands"
    using Ann_search_eq [OF assms(1,2,4) _ assms(5,3)] assms(7) by blast
  define sel where "sel = take (nat k) (selectNearest (ann_live a cands) (min (nat k) (length (ann_live a cands))))"
  have ok: "\<forall>d \<in> set (ann_live a cands). dp_ok d"
    using assms(7) s(2) by (auto simp: ann_live_def cands_ok_def intro: dists_num_ok)
  obtain rest where rest: "mset (ann_live a cands) = mset (sel @ rest)" "length sel = min (nat k) (length (ann_live a cands))"
    "sorted_wrt (\<lambda>x y. f64_le (dpDistance x) (dpDistance y)) sel" "\<forall>x \<in> set sel. \<forall>y \<in> set rest. f64_le (dpDistance x) (dpDistance y)"
    using selected_facts [OF assms(4) sel_def] ok by auto
  have set: "set (sel @ rest) = set (ann_live a cands)" and len: "length (sel @ rest) = length (ann_live a cands)"
    using rest(1) by (metis set_mset_mset) (metis rest(1) size_mset)
  have "distinct (map dpID (ann_live a cands))"
    using s(2) by (simp add: ann_live_def cands_ok_def distinct_map_filter)
  then have "distinct (map dpID (sel @ rest))" using rest(1) by (metis mset_eq_imp_distinct_iff mset_map)
  moreover have "\<forall>d \<in> set (sel @ rest). dp_true a (ToFloat32 q) d"
    unfolding set using s(2) by (simp add: ann_live_def cands_ok_def)
  moreover have "dpID ` set (sel @ rest) = {s. ann_reach a s \<and> \<not> anDeleted a ! s}"
  proof -
    have "dpID ` set cands = {s. ann_reach a s}"
      using s(3) assms(1,3,6) ann_core_graph by (intro ann_found_all) (simp_all add: ann_wf_def)
    then show ?thesis unfolding set by (auto simp: ann_live_def)
  qed
  ultimately show ?thesis
    using s(1) rest(2-4) len unfolding sel_def [symmetric] by (intro exI [of _ sel] exI [of _ rest] exI [of _ ws']) simp
qed

lemma sample_ann_num: "dists_num sample_ann (ToFloat32 [0])"
proof -
  have one32: "finite32 0x3F800000" "finite32 0" by (simp_all add: finite32_def float_eval)
  have "dp_ok (dp_of sample_ann (ToFloat32 [0]) s)" if "s < 2" for s
  proof -
    have v: "\<forall>y \<in> set (ndVector (anNodes sample_ann ! s)). finite32 y" "length (ndVector (anNodes sample_ann ! s)) = 1"
      using that one32 by (cases s; force simp: sample_ann_def)+
    have q: "\<forall>x \<in> set (ToFloat32 [0]). finite32 x" by (simp add: ToFloat32_def finite32_def float_eval)
    show ?thesis
      using sameLen_num [OF q v(1)] v(2) sameLen_eq [of "ToFloat32 [0]" "ndVector (anNodes sample_ann ! s)"]
      by (auto simp: dp_ok_def dp_of_def squaredDistance32_eq ToFloat32_def)
  qed
  then show ?thesis by (simp add: dists_num_def sample_ann_def)
qed

theorem ann_search_exhaustive_witness:
  "\<exists>sel rest ws'. SearchWithDistancesInto sample_ann newWorkspace [0] 1 = Some (Inr (map (result_of sample_ann) sel), ws') \<and>
    dpID ` set (sel @ rest) = {s. ann_reach sample_ann s \<and> \<not> anDeleted sample_ann ! s} \<and> length sel = min 1 (length (sel @ rest))"
proof -
  have "anNodes sample_ann \<noteq> []" "length [0 :: float64] = anDim sample_ann"
    "int (length (anNodes sample_ann)) \<le> anEfSearch sample_ann" by (simp_all add: sample_ann_def)
  from ann_search_exhaustive [OF sample_ann_wf ws_ok_new this(1) _ this(2,3) sample_ann_num, of 1] show ?thesis
    unfolding nat_one_as_int [symmetric] by (simp del: set_append) blast
qed

text \<open>
  With any beam the candidates are locally optimal: they are the \<^verbatim>\<open>ef\<close> nearest of the slots the search
  visited, the entry point is visited, and every neighbour of a candidate is visited; so no
  neighbour of a candidate that was left out is nearer than a candidate.
\<close>

theorem ann_search_local_optimum:
  assumes "ann_wf a" and "ws_ok (length (anNodes a)) ws" and "anNodes a \<noteq> []" and "length q = anDim a" and "0 < ef"
    and "dists_num a q"
  shows "\<exists>cands ws'. searchCandidates32Locked a ws q ef = Some (cands, ws') \<and> ann_found a ef q cands \<and>
    (\<forall>c \<in> set cands. \<forall>t \<in> set (ann_nbrs a (dpID c)). t \<in> dpID ` set cands \<or>
       (\<forall>c' \<in> set cands. f64_le (dpDistance c') (dpDistance (dp_of a q t))))"
proof -
  let ?w = "ws_reset ws (length (anNodes a))"
  have g: "ann_graph_ok a" using assms(1,3) ann_core_graph by (simp add: ann_wf_def)
  obtain cands ws' where c: "searchCandidates32WithWorkspaceLocked a ?w ef q = Some (cands, ws')" "ann_found a ef q cands"
    using searchCandidates_found [OF g assms(4,2,5) _ assms(6), of ?w "wsQuery32 ?w"] by auto
  have "t \<in> dpID ` set cands \<or> (\<forall>c' \<in> set cands. f64_le (dpDistance c') (dpDistance (dp_of a q t)))"
    if "d \<in> set cands" "t \<in> set (ann_nbrs a (dpID d))" for d t
  proof -
    obtain vs rest where f: "mset (map (dp_of a q) vs) = mset cands + mset rest"
      "\<forall>c \<in> set cands. \<forall>r \<in> set rest. f64_le (dpDistance c) (dpDistance r)"
      "\<forall>c \<in> set cands. set (ndNeighbors (anNodes a ! dpID c)) \<subseteq> set vs"
      using c(2) by (auto simp: ann_found_def)
    then have "t \<in> set vs" using that by (auto simp: ann_nbrs_def)
    moreover have "dp_of a q ` set vs = set cands \<union> set rest" using f(1) by (metis list.set_map set_mset_mset set_mset_union)
    ultimately have "dp_of a q t \<in> set cands \<or> dp_of a q t \<in> set rest" by blast
    moreover have "dpID (dp_of a q t) = t" by (simp add: dp_of_def)
    ultimately show ?thesis using f(2) by (metis image_eqI)
  qed
  with c assms(5) show ?thesis by (simp add: searchCandidates32Locked_def effective_ef_def)
qed

theorem ann_search_local_optimum_witness:
  "\<exists>cands ws'. searchCandidates32Locked sample_ann newWorkspace (ToFloat32 [0]) 1 = Some (cands, ws') \<and>
    ann_found sample_ann 1 (ToFloat32 [0]) cands"
proof -
  have "anNodes sample_ann \<noteq> []" "length (ToFloat32 [0]) = anDim sample_ann" by (simp_all add: sample_ann_def ToFloat32_def)
  from ann_search_local_optimum [OF sample_ann_wf ws_ok_new this _ sample_ann_num, of 1] show ?thesis by auto
qed

text \<open>
  C31. Reusing a pooled workspace is invisible: for any workspace the index may have left in its pool, at any
  value of the 32-bit visit epoch, the wrap-around included, no slot counts as visited after a
  reset, and a search returns what it returns on a new workspace.
\<close>

theorem ann_workspace_reuse:
  assumes "ws_ok (length (anNodes a)) ws"
  shows "(\<forall>s < length (anNodes a). isVisited (ws_reset ws (length (anNodes a))) s = Some False) \<and>
    map_option fst (SearchWithDistancesInto a ws q k) = map_option fst (SearchWithDistancesInto a newWorkspace q k)"
  using ws_reset_facts(4) [OF assms] SearchWithDistancesInto_same [OF assms ws_ok_new] by blast

theorem ann_workspace_reuse_witness:
  "let ws = newWorkspace\<lparr>wsMarks := [0xFFFFFFFF, 1], wsLen := 2, wsVisitEpoch := 0xFFFFFFFF\<rparr>
   in isVisited (ws_reset ws 2) 1 = Some False \<and>
      map_option fst (SearchWithDistancesInto sample_ann ws [0] 1) = map_option fst (SearchWithDistancesInto sample_ann newWorkspace [0] 1)"
proof -
  have n: "length (anNodes sample_ann) = 2" by (simp add: sample_ann_def)
  have "ws_ok (length (anNodes sample_ann)) (newWorkspace\<lparr>wsMarks := [0xFFFFFFFF, 1], wsLen := 2, wsVisitEpoch := 0xFFFFFFFF\<rparr>)"
    unfolding n by (simp add: ws_ok_def)
  from ann_workspace_reuse [OF this] show ?thesis unfolding n Let_def by simp
qed

end
