(* ===== verification/OrderedIds.thy ===== *)
theory OrderedIds
  imports ArrayHeap "HOL-Library.FSet"
begin

text \<open>
  \<^verbatim>\<open>internal/core/ordered_id_index.go\<close> and the page selection of \<^verbatim>\<open>internal/core/list_vectors.go\<close>.
  The tree behind \<^verbatim>\<open>orderedIDIndex\<close> is \<^verbatim>\<open>btree.BTreeG\<close> of the package \<^verbatim>\<open>github.com/google/btree\<close>,
  a parameter of the model: a record of the functions the code calls, with their documented
  behaviour (an ordered set) as the hypothesis \<open>btree_ok\<close>. The second page selection scans
  identifiers in any order through a bounded \<^verbatim>\<open>container/heap\<close>. Both are shown to return the
  same page: the first identifiers, in order, after the cursor.
\<close>

section \<open>The ordered-set parameter\<close>

text \<open>
  \<open>bt_ascend\<close> and \<open>bt_ascend_ge\<close> list the items in the order in which \<^verbatim>\<open>Ascend\<close> and
  \<^verbatim>\<open>AscendGreaterOrEqual\<close> pass them to the callback.
\<close>

record 't btree =
  bt_new :: 't
  bt_replace_or_insert :: "'t \<Rightarrow> string \<Rightarrow> 't"
  bt_delete :: "'t \<Rightarrow> string \<Rightarrow> 't"
  bt_ascend :: "'t \<Rightarrow> string list"
  bt_ascend_ge :: "'t \<Rightarrow> string \<Rightarrow> string list"

definition btree_ok :: "'t btree \<Rightarrow> bool" where
  "btree_ok bt \<longleftrightarrow>
     bt_ascend bt (bt_new bt) = [] \<and>
     (\<forall>t. sorted_wrt (<) (bt_ascend bt t)) \<and>
     (\<forall>t x. set (bt_ascend bt (bt_replace_or_insert bt t x)) = insert x (set (bt_ascend bt t))) \<and>
     (\<forall>t x. set (bt_ascend bt (bt_delete bt t x)) = set (bt_ascend bt t) - {x}) \<and>
     (\<forall>t x. bt_ascend_ge bt t x = filter (\<lambda>y. x \<le> y) (bt_ascend bt t))"

section \<open>\<^verbatim>\<open>orderedIDIndex\<close>\<close>

text \<open>The field \<^verbatim>\<open>tree\<close> may be nil, which \<^verbatim>\<open>ensure\<close> repairs before each use.\<close>

record 't orderedIDIndex =
  oiTree :: "'t option"

definition newOrderedIDIndex :: "'t btree \<Rightarrow> 't orderedIDIndex" where
  "newOrderedIDIndex bt = \<lparr>oiTree = Some (bt_new bt)\<rparr>"

definition oi_ensure :: "'t btree \<Rightarrow> 't orderedIDIndex \<Rightarrow> 't" where
  "oi_ensure bt i = (case oiTree i of None \<Rightarrow> bt_new bt | Some t \<Rightarrow> t)"

definition oi_Upsert :: "'t btree \<Rightarrow> 't orderedIDIndex \<Rightarrow> string \<Rightarrow> 't orderedIDIndex" where
  "oi_Upsert bt i vid = i\<lparr>oiTree := Some (bt_replace_or_insert bt (oi_ensure bt i) vid)\<rparr>"

definition oi_Delete :: "'t btree \<Rightarrow> 't orderedIDIndex \<Rightarrow> string \<Rightarrow> 't orderedIDIndex" where
  "oi_Delete bt i vid = i\<lparr>oiTree := Some (bt_delete bt (oi_ensure bt i) vid)\<rparr>"

definition oi_Range :: "'t btree \<Rightarrow> 't orderedIDIndex \<Rightarrow> ('s \<Rightarrow> string \<Rightarrow> 's \<times> bool) \<Rightarrow> 's \<Rightarrow> 's" where
  "oi_Range bt i fn s = range_while fn s (bt_ascend bt (oi_ensure bt i))"

definition newOrderedIDIndexFromMap :: "'t btree \<Rightarrow> (string list \<Rightarrow> string list) \<Rightarrow>
    (string, 'v) gomap \<Rightarrow> 't orderedIDIndex" where
  "newOrderedIDIndexFromMap bt iter items =
     foldl (oi_Upsert bt) (newOrderedIDIndex bt) (iter (gm_keys items))"

definition page_visit :: "int \<Rightarrow> string list \<Rightarrow> string \<Rightarrow> string list \<times> bool" where
  "page_visit limit out vid = (let out' = out @ [vid] in (out', int (length out') < limit))"

definition PageAfter :: "'t btree \<Rightarrow> 't orderedIDIndex \<Rightarrow> string \<Rightarrow> int \<Rightarrow> string list" where
  "PageAfter bt i afterID limit =
     (if limit \<le> 0 then []
      else if afterID = '''' then
        range_while (page_visit limit) [] (bt_ascend bt (oi_ensure bt i))
      else
        range_while (\<lambda>out vid. if vid \<le> afterID then (out, True) else page_visit limit out vid) []
          (bt_ascend_ge bt (oi_ensure bt i) afterID))"

section \<open>Page selection by a scan\<close>

text \<open>
  \<^verbatim>\<open>stringMaxHeap\<close> with \<^verbatim>\<open>Less(i, j) = h[i] > h[j]\<close>, driven by \<^verbatim>\<open>heap.Push\<close> and \<^verbatim>\<open>heap.Fix\<close> at index
  0 (whose upward pass at the root does nothing).
\<close>

definition smh_Less :: "string \<Rightarrow> string \<Rightarrow> bool" where
  "smh_Less x y \<longleftrightarrow> y < x"

definition smh_heapPush :: "string list \<Rightarrow> string \<Rightarrow> string list" where
  "smh_heapPush h x = heap_push (\<lambda>c p. \<not> smh_Less c p) h x"

definition smh_replaceRoot :: "string list \<Rightarrow> string \<Rightarrow> string list" where
  "smh_replaceRoot h x = heap_replace_top smh_Less (\<lambda>p c. \<not> smh_Less c p) h x"

definition page_scan :: "string \<Rightarrow> int \<Rightarrow> string list \<Rightarrow> string \<Rightarrow> string list \<times> bool" where
  "page_scan afterID limit candidates vid =
     (if afterID \<noteq> '''' \<and> vid \<le> afterID then (candidates, True)
      else if int (length candidates) < limit then (smh_heapPush candidates vid, True)
      else if vid < candidates ! 0 then (smh_replaceRoot candidates vid, True)
      else (candidates, True))"

definition selectPageIDsFromRange :: "string \<Rightarrow> int \<Rightarrow> string list \<Rightarrow> string list" where
  "selectPageIDsFromRange afterID limit rangeIDs =
     (if limit \<le> 0 then [] else sort (range_while (page_scan afterID limit) [] rangeIDs))"

section \<open>The page both promise\<close>

definition page_spec :: "string \<Rightarrow> int \<Rightarrow> string list \<Rightarrow> string list" where
  "page_spec afterID limit ids =
     take (nat limit) (filter (\<lambda>vid. afterID = '''' \<or> afterID < vid) (sort ids))"

definition oi_ids :: "'t btree \<Rightarrow> 't orderedIDIndex \<Rightarrow> string list" where
  "oi_ids bt i = bt_ascend bt (oi_ensure bt i)"

lemma oi_ids_sorted: "btree_ok bt \<Longrightarrow> sorted_wrt (<) (oi_ids bt i)"
  by (simp add: btree_ok_def oi_ids_def)

lemma oi_ids_distinct: "btree_ok bt \<Longrightarrow> distinct (oi_ids bt i)"
  using oi_ids_sorted strict_sorted_iff by blast

lemma oi_ids_new [simp]: "btree_ok bt \<Longrightarrow> oi_ids bt (newOrderedIDIndex bt) = []"
  by (simp add: btree_ok_def oi_ids_def newOrderedIDIndex_def oi_ensure_def)

lemma oi_ids_Upsert [simp]:
  "btree_ok bt \<Longrightarrow> set (oi_ids bt (oi_Upsert bt i vid)) = insert vid (set (oi_ids bt i))"
  by (simp add: btree_ok_def oi_ids_def oi_Upsert_def oi_ensure_def)

lemma oi_ids_Delete [simp]:
  "btree_ok bt \<Longrightarrow> set (oi_ids bt (oi_Delete bt i vid)) = set (oi_ids bt i) - {vid}"
  by (simp add: btree_ok_def oi_ids_def oi_Delete_def oi_ensure_def)

lemma oi_ids_foldl_Upsert:
  "btree_ok bt \<Longrightarrow> set (oi_ids bt (foldl (oi_Upsert bt) i ks)) = set (oi_ids bt i) \<union> set ks"
  by (induction ks arbitrary: i) auto

lemma oi_ids_FromMap [simp]:
  "btree_ok bt \<Longrightarrow> iter_ok iter \<Longrightarrow>
     set (oi_ids bt (newOrderedIDIndexFromMap bt iter m)) = dom (gm_get m)"
  by (simp add: newOrderedIDIndexFromMap_def oi_ids_foldl_Upsert)

lemma range_page_visit:
  "int (length out) < limit \<Longrightarrow>
     range_while (page_visit limit) out xs = out @ take (nat limit - length out) xs"
proof (induction xs arbitrary: out)
  case (Cons x xs)
  have n: "nat limit - length out = Suc (nat limit - length (out @ [x]))"
    using Cons.prems by simp
  show ?case
  proof (cases "int (length (out @ [x])) < limit")
    case True
    with Cons.IH [OF True] show ?thesis unfolding n by (simp add: page_visit_def Let_def)
  next
    case False
    then have "nat limit - length (out @ [x]) = 0" using Cons.prems by simp
    with False show ?thesis unfolding n by (simp add: page_visit_def Let_def)
  qed
qed simp

lemma range_skip_filter:
  "range_while (\<lambda>s x. if P x then (s, True) else f s x) s xs = range_while f s (filter (\<lambda>x. \<not> P x) xs)"
  by (induction xs arbitrary: s) (auto split: prod.split)

lemma PageAfter_eq:
  assumes "btree_ok bt"
  shows "PageAfter bt i afterID limit = page_spec afterID limit (oi_ids bt i)"
proof -
  have srt: "sort (oi_ids bt i) = oi_ids bt i"
    using oi_ids_sorted [OF assms] by (simp add: sorted_sort_id strict_sorted_imp_sorted)
  have ge: "bt_ascend_ge bt (oi_ensure bt i) afterID = filter (\<lambda>y. afterID \<le> y) (oi_ids bt i)"
    using assms by (simp add: btree_ok_def oi_ids_def)
  have flt: "filter (\<lambda>x. afterID \<le> x \<and> afterID < x) xs = filter (\<lambda>x. afterID < x) xs"
    for xs :: "string list" by (rule filter_cong) auto
  show ?thesis
  proof (cases "limit \<le> 0 \<or> afterID = ''''")
    case True
    then show ?thesis
      by (auto simp: PageAfter_def page_spec_def srt range_page_visit simp flip: oi_ids_def)
  next
    case False
    then show ?thesis
      by (simp add: PageAfter_def page_spec_def srt ge range_skip_filter range_page_visit
          filter_filter flt not_le)
  qed
qed

section \<open>The scan is a bounded heap\<close>

definition smh_skip :: "string \<Rightarrow> string \<Rightarrow> bool" where
  "smh_skip x t \<longleftrightarrow> \<not> x < t"

interpretation smh: bounded_heap "\<lambda>_. True" "\<lambda>x y :: string. y \<le> x" "\<lambda>c p. \<not> smh_Less c p" smh_Less
  "\<lambda>p c. \<not> smh_Less c p" smh_skip
  by unfold_locales (auto simp: smh_Less_def smh_skip_def)

lemma page_scan_offer:
  assumes "0 < limit"
  shows "range_while (page_scan afterID limit) h xs =
    foldl (heap_offer smh_skip (\<lambda>c p. \<not> smh_Less c p) smh_Less (\<lambda>p c. \<not> smh_Less c p) (nat limit)) h
      (filter (\<lambda>vid. afterID = '''' \<or> afterID < vid) xs)"
  using assms
  by (induction xs arbitrary: h)
     (auto simp: page_scan_def heap_offer_def smh_skip_def smh_heapPush_def smh_replaceRoot_def
       nat_less_iff zless_nat_eq_int_zless)

lemma sort_selects:
  fixes xs :: "string list"
  assumes "smh.selects n xs h"
  shows "sort h = take n (sort xs)"
proof -
  obtain rest where m: "mset xs = mset h + mset rest" "\<forall>r \<in> set rest. \<forall>x \<in> set h. x \<le> r"
    and len: "length h = min n (length xs)"
    using assms by (auto simp: smh.selects_def)
  have "sort xs = sort h @ sort rest"
    using m by (intro properties_for_sort) (auto simp: sorted_append)
  moreover have "length xs = length h + length rest" using arg_cong [OF m(1), of size] by simp
  ultimately show ?thesis using len by (auto simp: min_def split: if_splits)
qed

lemma sort_filter: "sort (filter P xs) = filter P (sort (xs :: string list))"
  by (rule properties_for_sort) (simp_all add: sorted_wrt_filter)

lemma selectPageIDs_eq:
  "selectPageIDsFromRange afterID limit ids = page_spec afterID limit ids"
proof (cases "limit \<le> 0")
  case False
  let ?xs = "filter (\<lambda>vid. afterID = '''' \<or> afterID < vid) ids"
  have "smh.selects (nat limit) ?xs (range_while (page_scan afterID limit) [] ids)"
    using False smh.selects_foldl [of "nat limit" ?xs] by (simp add: page_scan_offer)
  then show ?thesis
    using False by (simp add: selectPageIDsFromRange_def page_spec_def sort_selects sort_filter)
qed (simp add: selectPageIDsFromRange_def page_spec_def)

lemma page_spec_perm: "mset xs = mset ys \<Longrightarrow> page_spec a l xs = page_spec a l ys"
  by (metis mset_sort page_spec_def properties_for_sort sorted_sort)

section \<open>Properties\<close>

lemma page_selections_agree_facts:
  assumes "btree_ok bt" and "mset ids = mset (oi_ids bt i)"
  shows "selectPageIDsFromRange afterID limit ids = PageAfter bt i afterID limit"
    and "PageAfter bt i afterID limit =
      take (nat limit) (filter (\<lambda>vid. afterID = '''' \<or> afterID < vid) (oi_ids bt i))"
proof -
  show "selectPageIDsFromRange afterID limit ids = PageAfter bt i afterID limit"
    using assms by (simp add: selectPageIDs_eq PageAfter_eq page_spec_perm [OF assms(2)])
  have "sort (oi_ids bt i) = oi_ids bt i"
    using oi_ids_sorted [OF assms(1)] by (simp add: sorted_sort_id strict_sorted_imp_sorted)
  then show "PageAfter bt i afterID limit =
      take (nat limit) (filter (\<lambda>vid. afterID = '''' \<or> afterID < vid) (oi_ids bt i))"
    using assms by (simp add: PageAfter_eq page_spec_def)
qed

text \<open>An ordered set that satisfies the hypothesis: finite sets of strings.\<close>

definition set_btree :: "string fset btree" where
  "set_btree = \<lparr>bt_new = {||}, bt_replace_or_insert = (\<lambda>t x. finsert x t), bt_delete = (\<lambda>t x. t |-| {|x|}),
     bt_ascend = sorted_list_of_fset, bt_ascend_ge = (\<lambda>t x. filter (\<lambda>y. x \<le> y) (sorted_list_of_fset t))\<rparr>"

lemma set_btree_ok [simp]: "btree_ok set_btree"
  by (simp add: btree_ok_def set_btree_def sorted_list_of_fset.rep_eq set_insort_key)

text \<open>
  C33. The two ways to select a page of identifiers, walking the ordered tree and scanning all
  identifiers through a bounded heap, return the same page: the first \<open>limit\<close> identifiers after
  the cursor, in ascending order, whatever the order of the scan.
\<close>

theorem page_selections_agree:
  assumes "btree_ok bt" and "mset ids = mset (oi_ids bt i)"
  shows "selectPageIDsFromRange afterID limit ids = PageAfter bt i afterID limit \<and>
    PageAfter bt i afterID limit =
      take (nat limit) (filter (\<lambda>vid. afterID = '''' \<or> afterID < vid) (oi_ids bt i))"
  using page_selections_agree_facts [OF assms] by blast

theorem page_selections_agree_witness:
  "\<exists>i. set (oi_ids set_btree i) = {''a'', ''b''} \<and>
     selectPageIDsFromRange ''a'' 5 [''b'', ''a''] = PageAfter set_btree i ''a'' 5"
proof -
  define i where "i = oi_Upsert set_btree (oi_Upsert set_btree (newOrderedIDIndex set_btree) ''b'') ''a''"
  have s: "set (oi_ids set_btree i) = {''a'', ''b''}" by (simp add: i_def)
  have "mset [''b'', ''a''] = mset (oi_ids set_btree i)"
    using set_eq_iff_mset_eq_distinct [OF _ oi_ids_distinct [OF set_btree_ok], of "[''b'', ''a'']" i] s
    by auto
  from page_selections_agree [OF set_btree_ok this] s show ?thesis by blast
qed

end
