(* ===== verification/VectorStore.thy ===== *)
theory VectorStore
  imports ExactIndex OrderedIds
begin

text \<open>
  \<^verbatim>\<open>internal/core/vector_store.go\<close>: the interface \<^verbatim>\<open>VectorStore\<close> and its in-memory implementation.
  The interface is the locale \<open>vector_store\<close>: the abstract store is a partial map from
  identifiers to single-precision vectors, and the laws say what every operation does to it.
  The memory store is shown to satisfy them here; \<^verbatim>\<open>FileStore\<close> and \<^verbatim>\<open>CachedStore\<close> do the same for
  the other two implementations.
\<close>

section \<open>Single-precision values that survive the float64 interface\<close>

text \<open>
  The stores hold \<^verbatim>\<open>float32\<close> values and hand out \<^verbatim>\<open>float64\<close> copies. A value is canonical when
  the way out and back in leaves it unchanged; everything \<^verbatim>\<open>ToFloat32\<close> produces is.
\<close>

definition canon32 :: "float32 \<Rightarrow> bool" where
  "canon32 x \<longleftrightarrow> f64_to_f32 (f32_to_f64 x) = x"

lemma canon32_nan: "canon32 (word_of_nat (nanb F32))"
proof -
  have "canon32 0x7FC00000" by (simp add: canon32_def float_eval)
  then show ?thesis by simp
qed

lemma canon32_f64_to_f32 [simp]: "canon32 (f64_to_f32 x)"
proof (cases "f64_isnan x")
  case True
  then have "f64_to_f32 x = word_of_nat (nanb F32)"
    by (simp add: f64_to_f32_def f64_isnan_def fl_conv_def del: F32_sel)
  then show ?thesis by (simp only: canon32_nan)
next
  case False
  then show ?thesis by (simp add: canon32_def f32_f64_roundtrip)
qed

lemma canon32_ToFloat32 [simp]: "list_all canon32 (ToFloat32 xs)"
  by (simp add: ToFloat32_def list_all_iff)

lemma ToFloat32_ToFloat64_canon [simp]: "list_all canon32 xs \<Longrightarrow> ToFloat32 (ToFloat64 xs) = xs"
  by (induction xs) (simp_all add: ToFloat32_def ToFloat64_def canon32_def)

section \<open>The interface\<close>

type_synonym vmap = "string \<rightharpoonup> float32 list"

definition vput :: "vmap \<Rightarrow> vector \<Rightarrow> vmap" where
  "vput m v = m(vID v \<mapsto> ToFloat32 (vValues v))"

definition vget :: "vmap \<Rightarrow> string \<Rightarrow> vector result" where
  "vget m vid = (case m vid of None \<Rightarrow> Inl ErrVectorNotFound
                 | Some vs \<Rightarrow> Inr \<lparr>vID = vid, vValues = ToFloat64 vs\<rparr>)"

text \<open>\<open>vs\<close> lists every entry of \<open>m\<close> once.\<close>

definition vlists :: "vmap \<Rightarrow> vector list \<Rightarrow> bool" where
  "vlists m vs \<longleftrightarrow> distinct (map vID vs) \<and> set (map vID vs) = dom m \<and>
     (\<forall>v \<in> set vs. Inr v = vget m (vID v))"

lemma vput_apply [simp]: "vput m v vid = (if vid = vID v then Some (ToFloat32 (vValues v)) else m vid)"
  by (simp add: vput_def)

lemma vget_Inr: "vget m k = Inr v \<longleftrightarrow> (\<exists>ws. m k = Some ws \<and> vID v = k \<and> vValues v = ToFloat64 ws)"
  by (cases v) (auto simp: vget_def split: option.splits)

lemma dom_foldl_vput: "dom (foldl vput m vs) = dom m \<union> vID ` set vs"
  by (induction vs arbitrary: m) (auto simp: vput_def)

lemma foldl_vput_other: "vid \<notin> vID ` set vs \<Longrightarrow> foldl vput m vs vid = m vid"
  by (induction vs arbitrary: m) auto

lemma foldl_vput_canon:
  "(\<And>k ws. m k = Some ws \<Longrightarrow> list_all canon32 ws) \<Longrightarrow> foldl vput m vs k = Some ws \<Longrightarrow> list_all canon32 ws"
proof (induction vs arbitrary: m)
  case (Cons v vs)
  have "vput m v k = Some ws \<Longrightarrow> list_all canon32 ws" for k ws
    using Cons.prems(1) by (auto split: if_splits)
  with Cons show ?case by (metis foldl_Cons)
qed simp

locale vector_store =
  fixes inv :: "'s \<Rightarrow> bool"
    and okv :: "vector \<Rightarrow> bool"
    and abs :: "'s \<Rightarrow> vmap"
    and upsert :: "'s \<Rightarrow> vector list \<Rightarrow> goerror option \<times> 's"
    and getv :: "'s \<Rightarrow> string \<Rightarrow> vector result \<times> 's"
    and del :: "'s \<Rightarrow> string \<Rightarrow> goerror option \<times> 's"
    and listv :: "'s \<Rightarrow> vector list"
    and page :: "'s \<Rightarrow> string \<Rightarrow> int \<Rightarrow> string list"
  assumes canon: "inv s \<Longrightarrow> abs s k = Some ws \<Longrightarrow> list_all canon32 ws"
    and fin: "inv s \<Longrightarrow> finite (dom (abs s))"
    and upsert: "inv s \<Longrightarrow> \<forall>v \<in> set vs. okv v \<Longrightarrow> upsert s vs = (e, s') \<Longrightarrow>
      inv s' \<and> e = None \<and> abs s' = foldl vput (abs s) vs"
    and getv: "inv s \<Longrightarrow> getv s k = (r, s') \<Longrightarrow> inv s' \<and> abs s' = abs s \<and> r = vget (abs s) k"
    and del: "inv s \<Longrightarrow> del s k = (e, s') \<Longrightarrow>
      inv s' \<and> abs s' = (abs s)(k := None) \<and> e = (if k \<in> dom (abs s) then None else Some ErrVectorNotFound)"
    and listv: "inv s \<Longrightarrow> vlists (abs s) (listv s)"
    and page: "inv s \<Longrightarrow> page s a l = page_spec a l (sorted_list_of_set (dom (abs s)))"
begin

text \<open>Read your writes, and deletes are final until the next write.\<close>

lemma get_after_upsert:
  assumes "inv s" and "okv v" and "upsert s [v] = (e, s')"
  shows "fst (getv s' (vID v)) = Inr \<lparr>vID = vID v, vValues = ToFloat64 (ToFloat32 (vValues v))\<rparr>"
    and "k \<noteq> vID v \<Longrightarrow> fst (getv s' k) = vget (abs s) k"
proof -
  have s': "inv s'" "abs s' = vput (abs s) v" using upsert [OF assms(1) _ assms(3)] assms(2) by simp_all
  show "fst (getv s' (vID v)) = Inr \<lparr>vID = vID v, vValues = ToFloat64 (ToFloat32 (vValues v))\<rparr>"
    using getv [OF s'(1), of "vID v"] s'(2) by (cases "getv s' (vID v)") (simp add: vget_def)
  show "k \<noteq> vID v \<Longrightarrow> fst (getv s' k) = vget (abs s) k"
    using getv [OF s'(1), of k] s'(2) by (cases "getv s' k") (simp add: vget_def)
qed

lemma get_after_delete:
  assumes "inv s" and "del s k = (e, s')"
  shows "fst (getv s' k) = Inl ErrVectorNotFound"
  using del [OF assms] getv [of s' k] by (cases "getv s' k") (simp add: vget_def)

text \<open>Upserting what was read changes nothing: the stored values are canonical.\<close>

lemma upsert_read_back:
  assumes "inv s" and "getv s k = (Inr v, s')" and "okv v" and "upsert s' [v] = (e, s'')"
  shows "abs s'' = abs s"
proof -
  have s': "inv s'" "abs s' = abs s" "Inr v = vget (abs s) k" using getv [OF assms(1,2)] by auto
  then obtain ws where ws: "abs s k = Some ws" "v = \<lparr>vID = k, vValues = ToFloat64 ws\<rparr>"
    by (auto simp: vget_def split: option.splits)
  then have "ToFloat32 (vValues v) = ws" using canon [OF assms(1)] by simp
  then show ?thesis using upsert [OF s'(1) _ assms(4)] assms(3) s'(2) ws by (auto simp: vput_def)
qed

end

section \<open>The memory store\<close>

record memoryVector =
  mvID :: string
  mvVals :: "float32 list"

record 't memoryVectorStore =
  msVectors :: "(string, memoryVector) gomap"
  msIds :: "'t orderedIDIndex option"

text \<open>
  The environment of a store: the ordered-set implementation and the order in which the run
  time iterates over maps.
\<close>

record 't storeEnv =
  envBt :: "'t btree"
  envIter :: "string list \<Rightarrow> string list"

definition env_ok :: "'t storeEnv \<Rightarrow> bool" where
  "env_ok env \<longleftrightarrow> btree_ok (envBt env) \<and> iter_ok (envIter env)"

definition newMemoryVectorStore :: "'t storeEnv \<Rightarrow> 't memoryVectorStore" where
  "newMemoryVectorStore env = \<lparr>msVectors = [], msIds = Some (newOrderedIDIndex (envBt env))\<rparr>"

definition Mem_orderedIDsLocked :: "'t storeEnv \<Rightarrow> 't memoryVectorStore \<Rightarrow> 't orderedIDIndex" where
  "Mem_orderedIDsLocked env s =
     (case msIds s of None \<Rightarrow> newOrderedIDIndexFromMap (envBt env) (envIter env) (msVectors s)
      | Some ids \<Rightarrow> ids)"

definition Mem_put :: "'t storeEnv \<Rightarrow> 't memoryVectorStore \<Rightarrow> vector \<Rightarrow> 't memoryVectorStore" where
  "Mem_put env s vec =
     (let s1 = s\<lparr>msVectors := gm_put (vID vec) \<lparr>mvID = vID vec, mvVals = ToFloat32 (vValues vec)\<rparr>
                  (msVectors s)\<rparr>
      in s1\<lparr>msIds := Some (oi_Upsert (envBt env) (Mem_orderedIDsLocked env s1) (vID vec))\<rparr>)"

definition Mem_UpsertVectors :: "'t storeEnv \<Rightarrow> 't memoryVectorStore \<Rightarrow> vector list \<Rightarrow>
    goerror option \<times> 't memoryVectorStore" where
  "Mem_UpsertVectors env s vectors = (None, foldl (Mem_put env) s vectors)"

definition Mem_UpsertVector :: "'t storeEnv \<Rightarrow> 't memoryVectorStore \<Rightarrow> vector \<Rightarrow>
    goerror option \<times> 't memoryVectorStore" where
  "Mem_UpsertVector env s vec = Mem_UpsertVectors env s [vec]"

definition Mem_GetVector :: "'t memoryVectorStore \<Rightarrow> string \<Rightarrow> vector result" where
  "Mem_GetVector s vid =
     (case gm_get (msVectors s) vid of None \<Rightarrow> Inl ErrVectorNotFound
      | Some vec \<Rightarrow> Inr \<lparr>vID = mvID vec, vValues = ToFloat64 (mvVals vec)\<rparr>)"

definition Mem_GetVectorReadOnly32 :: "'t memoryVectorStore \<Rightarrow> string \<Rightarrow> float32 list result" where
  "Mem_GetVectorReadOnly32 s vid =
     (case gm_get (msVectors s) vid of None \<Rightarrow> Inl ErrVectorNotFound
      | Some vec \<Rightarrow> Inr (mvVals vec))"

definition Mem_GetVectorReadOnly :: "'t memoryVectorStore \<Rightarrow> string \<Rightarrow> vector result" where
  "Mem_GetVectorReadOnly s vid =
     (case Mem_GetVectorReadOnly32 s vid of Inl err \<Rightarrow> Inl err
      | Inr values \<Rightarrow> Inr \<lparr>vID = vid, vValues = ToFloat64 values\<rparr>)"

definition Mem_DeleteVector :: "'t storeEnv \<Rightarrow> 't memoryVectorStore \<Rightarrow> string \<Rightarrow>
    goerror option \<times> 't memoryVectorStore" where
  "Mem_DeleteVector env s vid =
     (case gm_get (msVectors s) vid of None \<Rightarrow> (Some ErrVectorNotFound, s)
      | Some _ \<Rightarrow>
          (let s1 = s\<lparr>msVectors := gm_del vid (msVectors s)\<rparr>
           in (None, s1\<lparr>msIds := Some (oi_Delete (envBt env) (Mem_orderedIDsLocked env s1) vid)\<rparr>)))"

definition Mem_ListVectors :: "'t storeEnv \<Rightarrow> 't memoryVectorStore \<Rightarrow> vector list" where
  "Mem_ListVectors env s =
     map (\<lambda>(_, vec). \<lparr>vID = mvID vec, vValues = ToFloat64 (mvVals vec)\<rparr>)
       (gm_range (envIter env) (msVectors s))"

definition Mem_ensureOrderedIDs :: "'t storeEnv \<Rightarrow> 't memoryVectorStore \<Rightarrow> 't memoryVectorStore" where
  "Mem_ensureOrderedIDs env s =
     (if msIds s \<noteq> None then s else s\<lparr>msIds := Some (Mem_orderedIDsLocked env s)\<rparr>)"

definition Mem_RangeVectorIDs :: "'t storeEnv \<Rightarrow> 't memoryVectorStore \<Rightarrow>
    ('s \<Rightarrow> string \<Rightarrow> 's \<times> bool) \<Rightarrow> 's \<Rightarrow> 's" where
  "Mem_RangeVectorIDs env s fn st =
     oi_Range (envBt env) (Mem_orderedIDsLocked env (Mem_ensureOrderedIDs env s)) fn st"

definition Mem_PageVectorIDs :: "'t storeEnv \<Rightarrow> 't memoryVectorStore \<Rightarrow> string \<Rightarrow> int \<Rightarrow> string list" where
  "Mem_PageVectorIDs env s afterID limit =
     PageAfter (envBt env) (Mem_orderedIDsLocked env (Mem_ensureOrderedIDs env s)) afterID limit"

definition Mem_IsPersistent :: "'t memoryVectorStore \<Rightarrow> bool" where
  "Mem_IsPersistent s = False"

subsection \<open>The memory store implements the interface\<close>

definition mem_abs :: "'t memoryVectorStore \<Rightarrow> vmap" where
  "mem_abs s vid = map_option mvVals (gm_get (msVectors s) vid)"

definition mem_inv :: "'t storeEnv \<Rightarrow> 't memoryVectorStore \<Rightarrow> bool" where
  "mem_inv env s \<longleftrightarrow> env_ok env \<and> gm_wf (msVectors s) \<and>
     (\<forall>k v. gm_get (msVectors s) k = Some v \<longrightarrow> mvID v = k \<and> list_all canon32 (mvVals v)) \<and>
     (\<forall>ids. msIds s = Some ids \<longrightarrow> set (oi_ids (envBt env) ids) = dom (gm_get (msVectors s)))"

lemma dom_mem_abs [simp]: "dom (mem_abs s) = dom (gm_get (msVectors s))"
  by (auto simp: mem_abs_def dom_def)

lemma Mem_ordered_ids:
  assumes "mem_inv env s"
  shows "set (oi_ids (envBt env) (Mem_orderedIDsLocked env s)) = dom (gm_get (msVectors s))"
  using assms by (auto simp: mem_inv_def Mem_orderedIDsLocked_def env_ok_def split: option.split)

lemma Mem_ordered_ids_vectors:
  assumes "mem_inv env s" and "s1 = s\<lparr>msVectors := m\<rparr>"
  shows "set (oi_ids (envBt env) (Mem_orderedIDsLocked env s1)) =
    (if msIds s = None then dom (gm_get m) else dom (gm_get (msVectors s)))"
  using assms by (auto simp: mem_inv_def Mem_orderedIDsLocked_def env_ok_def split: option.split)

lemma mem_inv_put: "mem_inv env s \<Longrightarrow> mem_inv env (Mem_put env s v) \<and> mem_abs (Mem_put env s v) = vput (mem_abs s) v"
  using Mem_ordered_ids_vectors [OF _ refl, of env s
      "gm_put (vID v) \<lparr>mvID = vID v, mvVals = ToFloat32 (vValues v)\<rparr> (msVectors s)"]
  by (auto simp: mem_inv_def Mem_put_def Let_def env_ok_def mem_abs_def fun_eq_iff split: if_splits)

lemma mem_inv_puts:
  "mem_inv env s \<Longrightarrow> mem_inv env (foldl (Mem_put env) s vs) \<and>
     mem_abs (foldl (Mem_put env) s vs) = foldl vput (mem_abs s) vs"
  by (induction vs arbitrary: s) (simp_all add: mem_inv_put)

lemma mem_delete:
  assumes "mem_inv env s" and "Mem_DeleteVector env s k = (e, s')"
  shows "mem_inv env s' \<and> mem_abs s' = (mem_abs s)(k := None) \<and>
    e = (if k \<in> dom (mem_abs s) then None else Some ErrVectorNotFound)"
proof (cases "gm_get (msVectors s) k")
  case None
  then have "e = Some ErrVectorNotFound" "s' = s" "mem_abs s k = None"
    using assms(2) by (simp_all add: Mem_DeleteVector_def mem_abs_def)
  with None assms(1) show ?thesis by (auto simp: fun_eq_iff)
next
  case (Some v)
  define ids where "ids = oi_Delete (envBt env)
      (Mem_orderedIDsLocked env (s\<lparr>msVectors := gm_del k (msVectors s)\<rparr>)) k"
  have s': "e = None" "s' = s\<lparr>msVectors := gm_del k (msVectors s), msIds := Some ids\<rparr>"
    using assms(2) Some by (simp_all add: Mem_DeleteVector_def Let_def ids_def)
  have "btree_ok (envBt env)" using assms(1) by (simp add: mem_inv_def env_ok_def)
  then have "set (oi_ids (envBt env) ids) = dom (gm_get (msVectors s)) - {k}"
    using Mem_ordered_ids_vectors [OF assms(1) refl, of "gm_del k (msVectors s)"]
    by (simp add: ids_def split: if_splits)
  then have "mem_inv env s'" using assms(1) by (simp add: s' mem_inv_def)
  moreover have "mem_abs s' = (mem_abs s)(k := None)" by (simp add: s' mem_abs_def fun_eq_iff)
  ultimately show ?thesis using Some by (auto simp: s')
qed

lemma mem_list: "mem_inv env s \<Longrightarrow> vlists (mem_abs s) (Mem_ListVectors env s)"
proof -
  assume inv: "mem_inv env s"
  then have it: "iter_ok (envIter env)" by (simp add: mem_inv_def env_ok_def)
  have eq: "Mem_ListVectors env s = map (\<lambda>(k, vec). \<lparr>vID = k, vValues = ToFloat64 (mvVals vec)\<rparr>)
      (gm_range (envIter env) (msVectors s))"
    unfolding Mem_ListVectors_def
    using inv it by (intro map_cong) (auto simp: gm_range_mem mem_inv_def)
  have ids: "map vID (Mem_ListVectors env s) = envIter env (gm_keys (msVectors s))"
    unfolding eq by (simp add: o_def split_beta flip: gm_range_fst)
  show ?thesis
    unfolding vlists_def ids using inv it
    by (auto simp: eq gm_range_mem vget_def mem_abs_def mem_inv_def)
qed

lemma mem_page:
  assumes "mem_inv env s"
  shows "Mem_PageVectorIDs env s a l = page_spec a l (sorted_list_of_set (dom (mem_abs s)))"
proof -
  have bt: "btree_ok (envBt env)" using assms by (simp add: mem_inv_def env_ok_def)
  define ids where "ids = Mem_orderedIDsLocked env (Mem_ensureOrderedIDs env s)"
  have "set (oi_ids (envBt env) ids) = dom (mem_abs s)"
    using Mem_ordered_ids [OF assms]
    by (auto simp: ids_def Mem_ensureOrderedIDs_def Mem_orderedIDsLocked_def split: option.splits)
  then have "oi_ids (envBt env) ids = sorted_list_of_set (dom (mem_abs s))"
    using oi_ids_sorted [OF bt] by (metis List.finite_set sorted_list_of_set.idem_if_sorted_distinct
      strict_sorted_iff)
  then show ?thesis by (simp add: Mem_PageVectorIDs_def PageAfter_eq [OF bt] flip: ids_def)
qed

lemma mem_canon: "mem_inv env s \<Longrightarrow> mem_abs s k = Some ws \<Longrightarrow> list_all canon32 ws"
  by (auto simp: mem_inv_def mem_abs_def)

lemma mem_finite: "finite (dom (mem_abs s))"
  by (metis List.finite_set dom_mem_abs set_gm_keys)

lemma mem_get: "mem_inv env s \<Longrightarrow> Mem_GetVector s k = vget (mem_abs s) k"
  by (auto simp: mem_inv_def mem_abs_def Mem_GetVector_def vget_def split: option.splits)

interpretation mem: vector_store "mem_inv env" "\<lambda>_. True" mem_abs "Mem_UpsertVectors env"
  "\<lambda>s k. (Mem_GetVector s k, s)" "Mem_DeleteVector env" "Mem_ListVectors env" "Mem_PageVectorIDs env"
  for env :: "'t storeEnv"
proof (unfold_locales, goal_cases)
  case (3 s vs e s')
  then show ?case using mem_inv_puts [of env s vs] by (auto simp: Mem_UpsertVectors_def)
next
  case (5 s k e s')
  then show ?case by (rule mem_delete)
qed (auto simp: mem_canon mem_finite mem_get mem_list mem_page simp del: dom_mem_abs)

section \<open>Properties\<close>

definition set_env :: "string fset storeEnv" where
  "set_env = \<lparr>envBt = set_btree, envIter = rev\<rparr>"

lemma set_env_ok [simp]: "env_ok set_env"
  by (simp add: env_ok_def set_env_def)

lemma mem_inv_new [simp]: "env_ok env \<Longrightarrow> mem_inv env (newMemoryVectorStore env)"
  by (simp add: mem_inv_def newMemoryVectorStore_def env_ok_def dom_def)

lemma memory_store_reads_writes_facts:
  assumes "mem_inv env s" and "Mem_UpsertVectors env s [v] = (e, s')"
  shows "e = None" and "mem_inv env s'"
    and "Mem_GetVector s' (vID v) = Inr \<lparr>vID = vID v, vValues = ToFloat64 (ToFloat32 (vValues v))\<rparr>"
    and "k \<noteq> vID v \<Longrightarrow> Mem_GetVector s' k = Mem_GetVector s k"
    and "Mem_DeleteVector env s' (vID v) = (e2, s'') \<Longrightarrow>
      e2 = None \<and> mem_inv env s'' \<and> Mem_GetVector s'' (vID v) = Inl ErrVectorNotFound"
proof -
  note u = mem.upsert [OF assms(1) _ assms(2)]
  show e: "e = None" and inv: "mem_inv env s'" using u by simp_all
  show "Mem_GetVector s' (vID v) = Inr \<lparr>vID = vID v, vValues = ToFloat64 (ToFloat32 (vValues v))\<rparr>"
    using mem.get_after_upsert(1) [OF assms(1) _ assms(2)] by simp
  show "k \<noteq> vID v \<Longrightarrow> Mem_GetVector s' k = Mem_GetVector s k"
    using mem.get_after_upsert(2) [OF assms(1) _ assms(2)] mem_get [OF assms(1)] by simp
  assume d: "Mem_DeleteVector env s' (vID v) = (e2, s'')"
  have "vID v \<in> dom (mem_abs s')" using u by (simp add: vput_def)
  then show "e2 = None \<and> mem_inv env s'' \<and> Mem_GetVector s'' (vID v) = Inl ErrVectorNotFound"
    using mem.del [OF inv d] mem.get_after_delete [OF inv d] by simp
qed

text \<open>
  The memory store reads its own writes: from any state that satisfies the invariant, an
  upsert succeeds, keeps the invariant and makes the vector readable with its values rounded to
  single precision, other identifiers keep their values, and after a delete the identifier is
  not found.
\<close>

theorem memory_store_reads_writes:
  assumes "mem_inv env s" and "Mem_UpsertVectors env s [v] = (e, s')"
  shows "e = None \<and> mem_inv env s' \<and>
    Mem_GetVector s' (vID v) = Inr \<lparr>vID = vID v, vValues = ToFloat64 (ToFloat32 (vValues v))\<rparr> \<and>
    (\<forall>k. k \<noteq> vID v \<longrightarrow> Mem_GetVector s' k = Mem_GetVector s k) \<and>
    (\<forall>e2 s''. Mem_DeleteVector env s' (vID v) = (e2, s'') \<longrightarrow>
       e2 = None \<and> mem_inv env s'' \<and> Mem_GetVector s'' (vID v) = Inl ErrVectorNotFound)"
  using memory_store_reads_writes_facts [OF assms] by blast

theorem memory_store_reads_writes_witness:
  "\<exists>s'. Mem_UpsertVectors set_env (newMemoryVectorStore set_env) [\<lparr>vID = ''a'', vValues = [0]\<rparr>] = (None, s') \<and>
     Mem_GetVector s' ''a'' = Inr \<lparr>vID = ''a'', vValues = ToFloat64 (ToFloat32 [0])\<rparr>"
proof -
  obtain e s' where u: "Mem_UpsertVectors set_env (newMemoryVectorStore set_env) [\<lparr>vID = ''a'', vValues = [0]\<rparr>] = (e, s')"
    by force
  have i: "mem_inv set_env (newMemoryVectorStore set_env)" by simp
  from memory_store_reads_writes [OF i u] u show ?thesis by simp
qed

end
