(* ===== verification/FileRecord.thy ===== *)
theory FileRecord
  imports VectorStore
begin

text \<open>
  The record format of \<^verbatim>\<open>internal/core/file_vector_store.go\<close>: little-endian length-prefixed
  records appended to \<^verbatim>\<open>vectors.dat\<close>. The theory holds the encoder, the decoder with its bounds
  checks at their machine widths, the positioned read and the scan that rebuilds the offset
  table from the file, and shows that decoding inverts encoding and that the scan of a file made
  of encoded records finds exactly the live ones, where they are.
\<close>

section \<open>Bytes\<close>

type_synonym byte = "8 word"

definition string_bytes :: "string \<Rightarrow> byte list" where
  "string_bytes s = map of_char s"

definition bytes_string :: "byte list \<Rightarrow> string" where
  "bytes_string bs = map (\<lambda>b. char_of (unat b)) bs"

fun le_bytes :: "nat \<Rightarrow> nat \<Rightarrow> byte list" where
  "le_bytes 0 x = []"
| "le_bytes (Suc n) x = word_of_nat x # le_bytes n (x div 256)"

fun le_val :: "byte list \<Rightarrow> nat" where
  "le_val [] = 0"
| "le_val (b # bs) = unat b + 256 * le_val bs"

definition PutUint32 :: "32 word \<Rightarrow> byte list" where
  "PutUint32 x = le_bytes 4 (unat x)"

definition PutUint64 :: "64 word \<Rightarrow> byte list" where
  "PutUint64 x = le_bytes 8 (unat x)"

definition Uint32 :: "byte list \<Rightarrow> 32 word" where
  "Uint32 bs = word_of_nat (le_val (take 4 bs))"

definition Uint64 :: "byte list \<Rightarrow> 64 word" where
  "Uint64 bs = word_of_nat (le_val (take 8 bs))"

lemma length_le_bytes [simp]: "length (le_bytes n x) = n"
  by (induction n arbitrary: x) auto

lemma le_val_bytes: "le_val (le_bytes n x) = x mod 256 ^ n"
proof (induction n arbitrary: x)
  case (Suc n)
  have "unat (word_of_nat x :: byte) = x mod 256"
    by (simp add: unsigned_of_nat take_bit_eq_mod)
  then have "le_val (le_bytes (Suc n) x) = x mod 256 + 256 * ((x div 256) mod 256 ^ n)"
    by (simp add: Suc)
  also have "\<dots> = x mod 256 ^ Suc n" by (simp add: mod_mult2_eq)
  finally show ?case .
qed simp

lemma length_PutUint [simp]: "length (PutUint32 x) = 4" "length (PutUint64 y) = 8"
  by (simp_all add: PutUint32_def PutUint64_def)

lemma Uint32_Put [simp]: "Uint32 (PutUint32 x @ rest) = x"
proof -
  have "unat x < 2 ^ 32" using unsigned_less [of x, where 'a = nat] by simp
  then have "unat x mod 256 ^ 4 = unat x" by simp
  then show ?thesis by (simp add: Uint32_def PutUint32_def le_val_bytes)
qed

lemma Uint32_Put_only [simp]: "Uint32 (PutUint32 x) = x"
  using Uint32_Put [of x "[]"] by simp

lemma bytes_string_inv [simp]: "bytes_string (string_bytes s) = s"
proof -
  have "char_of (unat (of_char c :: byte)) = c" for c
  proof -
    have "unat (word_of_nat (of_char c) :: byte) = of_char c"
      using nat_of_char_less_256 [of c] by (simp add: unsigned_of_nat take_bit_nat_eq_self)
    then show ?thesis by (simp add: of_nat_of_char)
  qed
  then show ?thesis by (simp add: bytes_string_def string_bytes_def o_def)
qed

lemma length_string_bytes [simp]: "length (string_bytes s) = length s"
  by (simp add: string_bytes_def)

section \<open>Records\<close>

definition opPutFloat64 :: byte where "opPutFloat64 = 1"
definition opDelete :: byte where "opDelete = 2"
definition opPut :: byte where "opPut = 3"

record fileVectorRecord32 =
  fr32Op :: byte
  fr32ID :: string
  fr32Values :: "float32 list"

record fileVectorRecord =
  frOp :: byte
  frID :: string
  frValues :: "float64 list"

definition fileVectorRecordValueBytes :: "byte \<Rightarrow> nat result" where
  "fileVectorRecordValueBytes op =
     (if op = opPut then Inr 4
      else if op = opPutFloat64 \<or> op = opDelete then Inr 8
      else Inl ErrUnknownOp)"

definition encode_value :: "byte \<Rightarrow> float64 \<Rightarrow> byte list" where
  "encode_value op value =
     (if op = opPutFloat64 then PutUint64 value else PutUint32 (f64_to_f32 value))"

text \<open>
  The buffer has the computed length; what the loop does not overwrite stays zero (this happens
  only for a delete record with values, which the store never writes).
\<close>

definition encodeFileVectorRecord :: "byte \<Rightarrow> string \<Rightarrow> float64 list \<Rightarrow> byte list result" where
  "encodeFileVectorRecord op vid values =
     (let idBytes = string_bytes vid
      in case fileVectorRecordValueBytes op of Inl err \<Rightarrow> Inl err
         | Inr valueBytes \<Rightarrow>
             (let recordLength = 1 + 4 + length idBytes + 4 + length values * valueBytes;
                  written = PutUint32 (word_of_nat recordLength) @ [op]
                    @ PutUint32 (word_of_nat (length idBytes)) @ idBytes
                    @ PutUint32 (word_of_nat (length values))
                    @ concat (map (encode_value op) values)
              in Inr (written @ replicate (4 + recordLength - length written) 0)))"

fun decode_values :: "byte \<Rightarrow> nat \<Rightarrow> byte list \<Rightarrow> float32 list" where
  "decode_values op 0 bs = []"
| "decode_values op (Suc n) bs =
     (if op = opPutFloat64 then f64_to_f32 (Uint64 bs) # decode_values op n (drop 8 bs)
      else Uint32 bs # decode_values op n (drop 4 bs))"

definition decodeFileVectorPayload32 :: "byte list \<Rightarrow> fileVectorRecord32 result" where
  "decodeFileVectorPayload32 payload =
     (if length payload < 9 then Inl ErrUnexpectedEOF
      else
        let op = payload ! 0; rest1 = drop 1 payload; idLen = unat (Uint32 rest1); rest2 = drop 4 rest1
        in if length rest2 < idLen + 4 then Inl ErrUnexpectedEOF
           else
             let vid = bytes_string (take idLen rest2); rest3 = drop idLen rest2;
                 valuesLen = unat (Uint32 rest3); rest4 = drop 4 rest3
             in case fileVectorRecordValueBytes op of Inl err \<Rightarrow> Inl err
                | Inr valueBytes \<Rightarrow>
                    if length rest4 < valuesLen * valueBytes then Inl ErrUnexpectedEOF
                    else Inr \<lparr>fr32Op = op, fr32ID = vid, fr32Values = decode_values op valuesLen rest4\<rparr>)"

definition decodeFileVectorPayload :: "byte list \<Rightarrow> fileVectorRecord result" where
  "decodeFileVectorPayload payload =
     (case decodeFileVectorPayload32 payload of Inl err \<Rightarrow> Inl err
      | Inr record \<Rightarrow> Inr \<lparr>frOp = fr32Op record, frID = fr32ID record,
                        frValues = ToFloat64 (fr32Values record)\<rparr>)"

subsection \<open>Positioned reads\<close>

record fileVectorRecordMeta =
  recordOffset :: nat
  recordLength :: "32 word"
  metaDeleted :: bool

text \<open>
  \<^verbatim>\<open>ReadAt\<close> fills the buffer or fails with \<^verbatim>\<open>io.EOF\<close>. The outer \<open>None\<close> is a run-time panic: a
  buffer shorter than the length field, or slice bounds out of order after \<^verbatim>\<open>4+recordLength\<close>
  wrapped around.
\<close>

definition ReadAt :: "byte list \<Rightarrow> nat \<Rightarrow> nat \<Rightarrow> byte list result" where
  "ReadAt file off n = (if off + n \<le> length file then Inr (take n (drop off file)) else Inl ErrEOF)"

definition readRecordPayload :: "byte list \<Rightarrow> fileVectorRecordMeta \<Rightarrow> byte list result option" where
  "readRecordPayload file meta =
     (case ReadAt file (recordOffset meta) (unat (recordLength meta)) of
        Inl err \<Rightarrow> Some (Inl err)
      | Inr buf \<Rightarrow>
          if length buf < 4 then None
          else let rl = Uint32 buf; hi = 4 + rl
               in if word_of_nat (length buf) < hi then Some (Inl ErrUnexpectedEOF)
                  else if hi < 4 then None
                  else Some (Inr (take (unat hi - 4) (drop 4 buf))))"

definition readFileVectorRecord32At :: "byte list \<Rightarrow> fileVectorRecordMeta \<Rightarrow>
    fileVectorRecord32 result option" where
  "readFileVectorRecord32At file meta =
     map_option (\<lambda>r. case r of Inl err \<Rightarrow> Inl err | Inr p \<Rightarrow> decodeFileVectorPayload32 p)
       (readRecordPayload file meta)"

definition readFileVectorRecordAt :: "byte list \<Rightarrow> fileVectorRecordMeta \<Rightarrow>
    fileVectorRecord result option" where
  "readFileVectorRecordAt file meta =
     map_option (\<lambda>r. case r of Inl err \<Rightarrow> Inl err | Inr p \<Rightarrow> decodeFileVectorPayload p)
       (readRecordPayload file meta)"

section \<open>Decoding inverts encoding\<close>

text \<open>The record lengths the 32-bit length field can hold.\<close>

definition rec_fits :: "string \<Rightarrow> 'a list \<Rightarrow> bool" where
  "rec_fits vid values \<longleftrightarrow> 13 + length vid + 4 * length values < 2 ^ 32"

lemma unat_word32: "n < 2 ^ 32 \<Longrightarrow> unat (word_of_nat n :: 32 word) = n"
  by (simp add: unsigned_of_nat take_bit_nat_eq_self)

lemma decode_values_put:
  "decode_values opPut (length vs) (concat (map (encode_value opPut) vs) @ rest) = map f64_to_f32 vs"
  by (induction vs) (simp_all add: encode_value_def opPut_def opPutFloat64_def)

lemma length_encode_put [simp]: "length (concat (map (encode_value opPut) vs)) = 4 * length vs"
  by (induction vs) (simp_all add: encode_value_def opPut_def opPutFloat64_def)

text \<open>A put record, and a delete record, written out.\<close>

definition put_payload :: "string \<Rightarrow> float64 list \<Rightarrow> byte list" where
  "put_payload vid values = [opPut] @ PutUint32 (word_of_nat (length vid)) @ string_bytes vid
     @ PutUint32 (word_of_nat (length values)) @ concat (map (encode_value opPut) values)"

definition del_payload :: "string \<Rightarrow> byte list" where
  "del_payload vid = [opDelete] @ PutUint32 (word_of_nat (length vid)) @ string_bytes vid @ PutUint32 0"

definition framed :: "byte list \<Rightarrow> byte list" where
  "framed p = PutUint32 (word_of_nat (length p)) @ p"

lemma length_put_payload [simp]: "length (put_payload vid vs) = 9 + length vid + 4 * length vs"
  by (simp add: put_payload_def)

lemma length_del_payload [simp]: "length (del_payload vid) = 9 + length vid"
  by (simp add: del_payload_def)

lemma length_framed [simp]: "length (framed p) = 4 + length p"
  by (simp add: framed_def)

lemma encode_put: "encodeFileVectorRecord opPut vid vs = Inr (framed (put_payload vid vs))"
  by (simp add: encodeFileVectorRecord_def fileVectorRecordValueBytes_def Let_def framed_def
      put_payload_def mult.commute add_ac)

lemma encode_del: "encodeFileVectorRecord opDelete vid [] = Inr (framed (del_payload vid))"
  by (simp add: encodeFileVectorRecord_def fileVectorRecordValueBytes_def Let_def framed_def
      del_payload_def opPut_def opDelete_def opPutFloat64_def add_ac)

lemma decode_payload:
  assumes "length vid < 2 ^ 32" and "n < 2 ^ 32" and "fileVectorRecordValueBytes op = Inr vb"
    and "n * vb \<le> length body"
  shows "decodeFileVectorPayload32 ([op] @ PutUint32 (word_of_nat (length vid)) @ string_bytes vid
      @ PutUint32 (word_of_nat n) @ body) =
    Inr \<lparr>fr32Op = op, fr32ID = vid, fr32Values = decode_values op n body\<rparr>"
proof -
  have "PutUint32 (word_of_nat (length vid)) @ string_bytes vid @ PutUint32 (word_of_nat n) @ body
      = PutUint32 (word_of_nat (length vid)) @ (string_bytes vid @ PutUint32 (word_of_nat n) @ body)"
    by simp
  then show ?thesis
    using assms
    by (simp add: decodeFileVectorPayload32_def Let_def unat_word32)
qed

lemma decode_put:
  "rec_fits vid vs \<Longrightarrow> decodeFileVectorPayload32 (put_payload vid vs) =
     Inr \<lparr>fr32Op = opPut, fr32ID = vid, fr32Values = ToFloat32 vs\<rparr>"
  unfolding put_payload_def using decode_values_put [of vs "[]"]
  by (subst decode_payload [where vb = 4])
     (simp_all add: rec_fits_def fileVectorRecordValueBytes_def ToFloat32_def)

lemma decode_del:
  "length vid < 2 ^ 32 \<Longrightarrow> decodeFileVectorPayload32 (del_payload vid) =
     Inr \<lparr>fr32Op = opDelete, fr32ID = vid, fr32Values = []\<rparr>"
  unfolding del_payload_def using decode_payload [of vid 0 opDelete 8 "[]"]
  by (simp add: fileVectorRecordValueBytes_def opDelete_def opPut_def)

lemma word_add_small: "n + 4 < 2 ^ 32 \<Longrightarrow> (4 :: 32 word) + word_of_nat n = word_of_nat (4 + n)"
  by simp

lemma readRecordPayload_framed:
  assumes "length p + 4 < 2 ^ 32" and "recordOffset meta = length pre"
    and "recordLength meta = word_of_nat (length (framed p))"
  shows "readRecordPayload (pre @ framed p @ post) meta = Some (Inr p)"
proof -
  have n: "unat (recordLength meta) = 4 + length p"
    unfolding assms(3) using assms(1) by (subst unat_word32) simp_all
  have rd: "ReadAt (pre @ framed p @ post) (recordOffset meta) (unat (recordLength meta)) = Inr (framed p)"
    using assms(2) by (simp add: ReadAt_def n)
  have hi: "4 + Uint32 (framed p) = (word_of_nat (4 + length p) :: 32 word)"
    by (simp add: framed_def)
  have un: "unat (word_of_nat (4 + length p) :: 32 word) = 4 + length p"
    using assms(1) by (intro unat_word32) simp
  have nlt: "\<not> (word_of_nat (4 + length p) :: 32 word) < 4"
  proof -
    have "unat (4 :: 32 word) \<le> unat (word_of_nat (4 + length p) :: 32 word)" unfolding un by simp
    then show ?thesis by (simp only: word_le_nat_alt not_less)
  qed
  have "take (length p) (drop 4 (framed p)) = p" by (simp add: framed_def)
  then show ?thesis
    unfolding readRecordPayload_def rd
    by (simp add: hi un nlt Let_def del: of_nat_add)
qed

section \<open>Rebuilding the offset table\<close>

record fileVectorStoreIndexStats =
  totalRecords :: int
  staleRecords :: int

type_synonym offsets = "(string, fileVectorRecordMeta) gomap"

text \<open>
  One iteration reads the four length bytes, then the payload, with \<^verbatim>\<open>io.ReadFull\<close>: nothing left
  is \<^verbatim>\<open>io.EOF\<close> (the normal end when it happens at the length field), a partial read is
  \<^verbatim>\<open>io.ErrUnexpectedEOF\<close>. The table entry stores \<^verbatim>\<open>4 + recordLength\<close> in 32 bits.
\<close>

definition rebuild_step :: "fileVectorRecord \<Rightarrow> nat \<Rightarrow> 32 word \<Rightarrow> offsets \<times> fileVectorStoreIndexStats \<Rightarrow>
    offsets \<times> fileVectorStoreIndexStats" where
  "rebuild_step record off rl st =
     (case st of (offs, stats) \<Rightarrow>
       let stats1 = stats\<lparr>totalRecords := totalRecords stats + 1\<rparr>
       in if frOp record = opDelete then
            (gm_del (frID record) offs, stats1\<lparr>staleRecords := staleRecords stats1 + 1\<rparr>)
          else
            (gm_put (frID record) \<lparr>recordOffset = off, recordLength = 4 + rl, metaDeleted = False\<rparr> offs,
             if gm_get offs (frID record) \<noteq> None
             then stats1\<lparr>staleRecords := staleRecords stats1 + 1\<rparr> else stats1))"

function rebuild_loop :: "byte list \<Rightarrow> nat \<Rightarrow> offsets \<times> fileVectorStoreIndexStats \<Rightarrow>
    (offsets \<times> fileVectorStoreIndexStats) result" where
  "rebuild_loop bytes offset st =
     (if bytes = [] then Inr st
      else if length bytes < 4 then Inl ErrUnexpectedEOF
      else
        let rl = Uint32 bytes; rest = drop 4 bytes
        in if length rest < unat rl then Inl (if rest = [] then ErrEOF else ErrUnexpectedEOF)
           else case decodeFileVectorPayload (take (unat rl) rest) of Inl err \<Rightarrow> Inl err
                | Inr record \<Rightarrow>
                    rebuild_loop (drop (unat rl) rest) (offset + 4 + unat rl)
                      (rebuild_step record offset rl st))"
  by pat_completeness auto
termination
  by (relation "measure (\<lambda>(bytes, offset, st). length bytes)") auto

declare rebuild_loop.simps [simp del]

definition rebuildFileVectorStoreIndex :: "byte list \<Rightarrow> (offsets \<times> fileVectorStoreIndexStats) result" where
  "rebuildFileVectorStoreIndex file =
     rebuild_loop file 0 ([], \<lparr>totalRecords = 0, staleRecords = 0\<rparr>)"

subsection \<open>Logs\<close>

text \<open>What a well-formed file holds: a sequence of puts and deletes.\<close>

datatype fop = FPut string "float64 list" | FDel string

fun fop_bytes :: "fop \<Rightarrow> byte list" where
  "fop_bytes (FPut vid vs) = framed (put_payload vid vs)"
| "fop_bytes (FDel vid) = framed (del_payload vid)"

fun fop_fits :: "fop \<Rightarrow> bool" where
  "fop_fits (FPut vid vs) = rec_fits vid vs"
| "fop_fits (FDel vid) = rec_fits vid ([] :: float64 list)"

fun fop_apply :: "vmap \<Rightarrow> fop \<Rightarrow> vmap" where
  "fop_apply m (FPut vid vs) = m(vid \<mapsto> ToFloat32 vs)"
| "fop_apply m (FDel vid) = m(vid := None)"

definition log_bytes :: "fop list \<Rightarrow> byte list" where
  "log_bytes l = concat (map fop_bytes l)"

definition log_map :: "fop list \<Rightarrow> vmap" where
  "log_map l = foldl fop_apply Map.empty l"

lemma log_bytes_simps [simp]:
  "log_bytes [] = []" "log_bytes (x # l) = fop_bytes x @ log_bytes l"
  "log_bytes (l @ l') = log_bytes l @ log_bytes l'"
  by (simp_all add: log_bytes_def)

lemma log_map_Nil [simp]: "log_map [] = Map.empty"
  by (simp add: log_map_def)

lemma log_map_snoc [simp]: "log_map (l @ [x]) = fop_apply (log_map l) x"
  by (simp add: log_map_def)

lemma dom_log_map_put: "dom (log_map (l @ [FPut k vs])) = insert k (dom (log_map l))"
  unfolding log_map_snoc fop_apply.simps by simp

lemma log_map_canon: "log_map l k = Some ws \<Longrightarrow> list_all canon32 ws"
proof (induction l arbitrary: k ws rule: rev_induct)
  case (snoc x l)
  then show ?case by (cases x) (auto split: if_splits)
qed simp

lemma log_map_finite: "finite (dom (log_map l))"
proof (induction l rule: rev_induct)
  case (snoc x l)
  obtain vid where "dom (fop_apply (log_map l) x) \<subseteq> insert vid (dom (log_map l))"
    by (cases x) (auto split: if_splits)
  then show ?case using snoc by (simp add: finite_subset)
qed simp

text \<open>The table entry of \<open>vid\<close> points at the put record that determines its value.\<close>

definition located_at :: "fop list \<Rightarrow> string \<Rightarrow> fileVectorRecordMeta \<Rightarrow> bool" where
  "located_at l vid meta \<longleftrightarrow> (\<exists>pre vs post. l = pre @ FPut vid vs # post \<and>
     recordOffset meta = length (log_bytes pre) \<and>
     recordLength meta = word_of_nat (length (fop_bytes (FPut vid vs))) \<and>
     \<not> metaDeleted meta \<and> log_map l vid = Some (ToFloat32 vs))"

definition located :: "fop list \<Rightarrow> offsets \<Rightarrow> bool" where
  "located l offs \<longleftrightarrow> gm_wf offs \<and> list_all fop_fits l \<and>
     (\<forall>vid. gm_get offs vid = None \<longrightarrow> log_map l vid = None) \<and>
     (\<forall>vid meta. gm_get offs vid = Some meta \<longrightarrow> located_at l vid meta)"

lemma located_Nil [simp]: "located [] []"
  by (simp add: located_def)

lemma located_dom: "located l offs \<Longrightarrow> dom (gm_get offs) = dom (log_map l)"
  by (auto simp: located_def located_at_def dom_def) (metis option.exhaust)

lemma located_at_extend:
  "located_at l vid meta \<Longrightarrow> log_map (l @ [x]) vid = log_map l vid \<Longrightarrow> located_at (l @ [x]) vid meta"
  unfolding located_at_def by (metis append.assoc append_Cons)

lemma located_put:
  assumes "located l offs" and "rec_fits vid vs"
    and "meta = \<lparr>recordOffset = length (log_bytes l),
                  recordLength = word_of_nat (length (fop_bytes (FPut vid vs))), metaDeleted = False\<rparr>"
  shows "located (l @ [FPut vid vs]) (gm_put vid meta offs)"
proof -
  have "located_at (l @ [FPut vid vs]) vid meta"
    unfolding located_at_def assms(3) by (intro exI [of _ l] exI [of _ vs] exI [of _ "[]"]) simp
  moreover have "located_at l k m \<Longrightarrow> k \<noteq> vid \<Longrightarrow> located_at (l @ [FPut vid vs]) k m" for k m
    by (rule located_at_extend) simp_all
  ultimately show ?thesis using assms(1,2) by (simp add: located_def)
qed

lemma located_del:
  assumes "located l offs" and "rec_fits vid ([] :: float64 list)"
  shows "located (l @ [FDel vid]) (gm_del vid offs)"
proof -
  have "located_at l k m \<Longrightarrow> k \<noteq> vid \<Longrightarrow> located_at (l @ [FDel vid]) k m" for k m
    by (rule located_at_extend) simp_all
  then show ?thesis using assms by (simp add: located_def)
qed

lemma located_read32:
  assumes "located l offs" and "gm_get offs vid = Some meta"
  shows "\<exists>vs. log_map l vid = Some vs \<and>
    readFileVectorRecord32At (log_bytes l) meta = Some (Inr \<lparr>fr32Op = opPut, fr32ID = vid, fr32Values = vs\<rparr>)"
proof -
  obtain pre vs post where l: "l = pre @ FPut vid vs # post" and m: "log_map l vid = Some (ToFloat32 vs)"
    and meta: "recordOffset meta = length (log_bytes pre)"
      "recordLength meta = word_of_nat (length (framed (put_payload vid vs)))"
    using assms unfolding located_def located_at_def fop_bytes.simps by blast
  have fits: "rec_fits vid vs" using assms(1) by (simp add: located_def l)
  have "readRecordPayload (log_bytes pre @ framed (put_payload vid vs) @ log_bytes post) meta =
      Some (Inr (put_payload vid vs))"
    using fits meta by (intro readRecordPayload_framed) (simp_all add: rec_fits_def)
  then show ?thesis using m fits by (simp add: l readFileVectorRecord32At_def decode_put)
qed

lemma located_read:
  assumes "located l offs" and "gm_get offs vid = Some meta"
  shows "\<exists>vs. log_map l vid = Some vs \<and>
    readFileVectorRecordAt (log_bytes l) meta = Some (Inr \<lparr>frOp = opPut, frID = vid, frValues = ToFloat64 vs\<rparr>)"
proof -
  obtain vs where vs: "log_map l vid = Some vs"
    "readFileVectorRecord32At (log_bytes l) meta = Some (Inr \<lparr>fr32Op = opPut, fr32ID = vid, fr32Values = vs\<rparr>)"
    using located_read32 [OF assms] by blast
  then have "readFileVectorRecordAt (log_bytes l) meta = Some (Inr \<lparr>frOp = opPut, frID = vid, frValues = ToFloat64 vs\<rparr>)"
    by (auto simp: readFileVectorRecordAt_def readFileVectorRecord32At_def decodeFileVectorPayload_def
        split: sum.splits)
  with vs(1) show ?thesis by blast
qed

subsection \<open>The scan of a well-formed file\<close>

fun fop_record :: "fop \<Rightarrow> fileVectorRecord" where
  "fop_record (FPut vid vs) = \<lparr>frOp = opPut, frID = vid, frValues = ToFloat64 (ToFloat32 vs)\<rparr>"
| "fop_record (FDel vid) = \<lparr>frOp = opDelete, frID = vid, frValues = []\<rparr>"

lemma rebuild_loop_fop:
  assumes "fop_fits x"
  shows "rebuild_loop (fop_bytes x @ rest) off st =
    rebuild_loop rest (off + length (fop_bytes x))
      (rebuild_step (fop_record x) off (word_of_nat (length (fop_bytes x) - 4)) st)"
proof -
  obtain p where p: "fop_bytes x = framed p" "length p < 2 ^ 32"
    and dec: "decodeFileVectorPayload p = Inr (fop_record x)"
    using assms decode_put decode_del
    by (cases x) (auto simp: rec_fits_def decodeFileVectorPayload_def ToFloat64_def)
  have "Uint32 (framed p @ rest) = word_of_nat (length p)" "drop 4 (framed p @ rest) = p @ rest"
    by (simp_all add: framed_def)
  moreover have "framed p \<noteq> []" "\<not> length (framed p @ rest) < 4"
    using length_framed [of p] by (auto simp flip: length_greater_0_conv)
  ultimately show ?thesis
    unfolding p(1)
    by (subst rebuild_loop.simps) (simp add: unat_word32 [OF p(2)] dec Let_def add.assoc)
qed

lemma located_rebuild:
  assumes "list_all fop_fits rest" and "located pre (fst st)" and "off = length (log_bytes pre)"
  shows "\<exists>offs stats. rebuild_loop (log_bytes rest) off st = Inr (offs, stats) \<and> located (pre @ rest) offs"
  using assms
proof (induction rest arbitrary: pre st off)
  case Nil
  then show ?case by (cases st) (simp add: rebuild_loop.simps)
next
  case (Cons x rest)
  let ?st = "rebuild_step (fop_record x) off (word_of_nat (length (fop_bytes x) - 4)) st"
  have "located (pre @ [x]) (fst ?st)"
  proof (cases x)
    case (FPut vid vs)
    then show ?thesis
      using Cons.prems located_put [of pre "fst st" vid vs]
      by (cases st) (simp add: rebuild_step_def Let_def opPut_def opDelete_def add_ac)
  next
    case (FDel vid)
    then show ?thesis
      using Cons.prems located_del [of pre "fst st" vid]
      by (cases st) (simp add: rebuild_step_def Let_def)
  qed
  with Cons.IH [of "pre @ [x]" ?st] Cons.prems show ?case
    by (simp add: rebuild_loop_fop)
qed

lemma rebuild_log:
  assumes "list_all fop_fits l"
  shows "\<exists>offs stats. rebuildFileVectorStoreIndex (log_bytes l) = Inr (offs, stats) \<and> located l offs"
  using located_rebuild [OF assms, of "[]"] by (simp add: rebuildFileVectorStoreIndex_def)

section \<open>Properties\<close>

lemma record_roundtrip_facts:
  assumes "rec_fits vid values" and "encodeFileVectorRecord opPut vid values = Inr record"
    and "meta = \<lparr>recordOffset = length pre, recordLength = word_of_nat (length record), metaDeleted = False\<rparr>"
  shows "readFileVectorRecord32At (pre @ record @ post) meta =
      Some (Inr \<lparr>fr32Op = opPut, fr32ID = vid, fr32Values = ToFloat32 values\<rparr>)"
    and "readFileVectorRecordAt (pre @ record @ post) meta =
      Some (Inr \<lparr>frOp = opPut, frID = vid, frValues = ToFloat64 (ToFloat32 values)\<rparr>)"
proof -
  have r: "record = framed (put_payload vid values)" using assms(2) by (simp add: encode_put)
  have p: "readRecordPayload (pre @ record @ post) meta = Some (Inr (put_payload vid values))"
    unfolding r using assms(1) by (intro readRecordPayload_framed) (simp_all add: assms(3) r rec_fits_def)
  show "readFileVectorRecord32At (pre @ record @ post) meta =
      Some (Inr \<lparr>fr32Op = opPut, fr32ID = vid, fr32Values = ToFloat32 values\<rparr>)"
    using assms(1) by (simp add: readFileVectorRecord32At_def p decode_put)
  show "readFileVectorRecordAt (pre @ record @ post) meta =
      Some (Inr \<lparr>frOp = opPut, frID = vid, frValues = ToFloat64 (ToFloat32 values)\<rparr>)"
    using assms(1) by (simp add: readFileVectorRecordAt_def p decodeFileVectorPayload_def decode_put)
qed

text \<open>
  Decoding inverts encoding: a put record written by the store decodes to its identifier and
  to the values rounded to single precision, and a positioned read finds it anywhere in a file,
  as long as the record length fits the 32-bit length field.
\<close>

theorem record_roundtrip:
  assumes "rec_fits vid values" and "encodeFileVectorRecord opPut vid values = Inr record"
    and "meta = \<lparr>recordOffset = length pre, recordLength = word_of_nat (length record), metaDeleted = False\<rparr>"
  shows "readFileVectorRecord32At (pre @ record @ post) meta =
      Some (Inr \<lparr>fr32Op = opPut, fr32ID = vid, fr32Values = ToFloat32 values\<rparr>) \<and>
    readFileVectorRecordAt (pre @ record @ post) meta =
      Some (Inr \<lparr>frOp = opPut, frID = vid, frValues = ToFloat64 (ToFloat32 values)\<rparr>)"
  using record_roundtrip_facts [OF assms] by blast

theorem record_roundtrip_witness:
  "\<exists>record. encodeFileVectorRecord opPut ''ab'' [0, 1] = Inr record \<and> length record = 23 \<and>
     readFileVectorRecord32At ([7, 7] @ record @ [9])
       \<lparr>recordOffset = length [7 :: byte, 7], recordLength = word_of_nat (length record), metaDeleted = False\<rparr> =
     Some (Inr \<lparr>fr32Op = opPut, fr32ID = ''ab'', fr32Values = ToFloat32 [0, 1]\<rparr>)"
proof -
  have fits: "rec_fits ''ab'' [0 :: float64, 1]" by (simp add: rec_fits_def)
  have enc: "encodeFileVectorRecord opPut ''ab'' [0, 1] = Inr (framed (put_payload ''ab'' [0, 1]))"
    by (rule encode_put)
  show ?thesis using record_roundtrip [OF fits enc refl, of "[7, 7]" "[9]"] enc by simp
qed

text \<open>
  Rebuilding the offset table from a file that holds a log of puts and deletes succeeds, and
  the table finds, for every identifier, the value the log determines: an identifier is in the
  table exactly if its last record is a put, and the positioned read at its entry returns the
  values of that put.
\<close>

theorem rebuild_replays_log:
  assumes "list_all fop_fits l"
  shows "\<exists>offs stats. rebuildFileVectorStoreIndex (log_bytes l) = Inr (offs, stats) \<and>
    (\<forall>vid. case gm_get offs vid of
        None \<Rightarrow> log_map l vid = None
      | Some meta \<Rightarrow> \<exists>vs. log_map l vid = Some vs \<and> readFileVectorRecord32At (log_bytes l) meta =
          Some (Inr \<lparr>fr32Op = opPut, fr32ID = vid, fr32Values = vs\<rparr>))"
proof -
  obtain offs stats where r: "rebuildFileVectorStoreIndex (log_bytes l) = Inr (offs, stats)" "located l offs"
    using rebuild_log [OF assms] by blast
  have "case gm_get offs vid of None \<Rightarrow> log_map l vid = None
      | Some meta \<Rightarrow> \<exists>vs. log_map l vid = Some vs \<and> readFileVectorRecord32At (log_bytes l) meta =
          Some (Inr \<lparr>fr32Op = opPut, fr32ID = vid, fr32Values = vs\<rparr>)" for vid
    using r(2) located_read32 [OF r(2)] by (cases "gm_get offs vid") (simp_all add: located_def)
  with r(1) show ?thesis by blast
qed

theorem rebuild_replays_log_witness:
  "\<exists>offs stats. rebuildFileVectorStoreIndex (log_bytes [FPut ''a'' [0], FPut ''b'' [1], FDel ''a'']) = Inr (offs, stats) \<and>
     gm_get offs ''a'' = None"
proof -
  have fits: "list_all fop_fits [FPut ''a'' [0], FPut ''b'' [1], FDel ''a'']" by (simp add: rec_fits_def)
  have "log_map [FPut ''a'' [0], FPut ''b'' [1], FDel ''a''] ''a'' = None" by (simp add: log_map_def)
  with rebuild_replays_log [OF fits] show ?thesis by (fastforce split: option.splits)
qed

end
