(* ===== verification/FileStore.thy ===== *)
theory FileStore
  imports FileRecord
begin

text \<open>
  The file-backed store of \<^verbatim>\<open>internal/core/file_vector_store.go\<close>: the offset table, the append-only
  data file, the bounded cache of hot vectors, compaction, and opening a store from its file.
  The data file is its byte content; every call to the operating system may fail, by an argument
  that says which kinds of calls do, and a failing write may leave a prefix behind. The lemmas
  show that with no fault the store implements the interface \<open>vector_store\<close>, that compaction
  and reopening preserve its contents, and what a fault can do.
\<close>

section \<open>State\<close>

text \<open>
  The handle \<^verbatim>\<open>s.file\<close>: nil, open, or a file object that has already been closed (which a
  compaction that fails between closing and reopening leaves behind).
\<close>

datatype fhandle = FNil | FOpen | FClosed

record 't fileVectorStore =
  fsDisk :: "byte list"
  fsHandle :: fhandle
  fsOffsets :: offsets
  fsIds :: "'t orderedIDIndex option"
  fsWrites :: int
  fsStale :: int
  fsCompacts :: int
  fsPending :: int
  fsSyncEvery :: int
  fsHot :: "(string \<times> float32 list) list"
  fsHotMax :: int

record diskStoreStats =
  dsFileBytes :: int
  dsRecords :: int
  dsStaleRecords :: int
  dsCompactions :: int

section \<open>The hot cache\<close>

text \<open>
  \<^verbatim>\<open>hotCache\<close> maps an identifier to its element of the list \<^verbatim>\<open>hotOrder\<close>; both together are the
  list of entries, most recently used first.
\<close>

definition getHotVector :: "'t fileVectorStore \<Rightarrow> string \<Rightarrow> float32 list option \<times> 't fileVectorStore" where
  "getHotVector s vid =
     (case map_of (fsHot s) vid of None \<Rightarrow> (None, s)
      | Some values \<Rightarrow> (Some values, s\<lparr>fsHot := (vid, values) # AList.delete vid (fsHot s)\<rparr>))"

definition ensureHotCache :: "'t fileVectorStore \<Rightarrow> 't fileVectorStore" where
  "ensureHotCache s = (if fsHotMax s = 0 then s\<lparr>fsHotMax := 1024\<rparr> else s)"

text \<open>The eviction loop drops the oldest entries until the bound holds.\<close>

definition putHotVector :: "'t fileVectorStore \<Rightarrow> string \<Rightarrow> float32 list \<Rightarrow> 't fileVectorStore" where
  "putHotVector s0 vid values =
     (let s = ensureHotCache s0
      in if fsHotMax s \<le> 0 then s
         else if map_of (fsHot s) vid \<noteq> None then
           s\<lparr>fsHot := (vid, values) # AList.delete vid (fsHot s)\<rparr>
         else s\<lparr>fsHot := take (nat (fsHotMax s)) ((vid, values) # fsHot s)\<rparr>)"

definition deleteHotVector :: "'t fileVectorStore \<Rightarrow> string \<Rightarrow> 't fileVectorStore" where
  "deleteHotVector s vid = s\<lparr>fsHot := AList.delete vid (fsHot s)\<rparr>"

definition clearHotVectors :: "'t fileVectorStore \<Rightarrow> 't fileVectorStore" where
  "clearHotVectors s = s\<lparr>fsHot := []\<rparr>"

section \<open>Ordered identifiers, syncing, reading\<close>

definition newOrderedIDIndexFromFileOffsets :: "'t storeEnv \<Rightarrow> offsets \<Rightarrow> 't orderedIDIndex" where
  "newOrderedIDIndexFromFileOffsets env offs =
     foldl (\<lambda>idx (vid, meta). if metaDeleted meta then idx else oi_Upsert (envBt env) idx vid)
       (newOrderedIDIndex (envBt env)) (gm_range (envIter env) offs)"

definition File_orderedIDsLocked :: "'t storeEnv \<Rightarrow> 't fileVectorStore \<Rightarrow> 't orderedIDIndex" where
  "File_orderedIDsLocked env s =
     (case fsIds s of None \<Rightarrow> newOrderedIDIndexFromFileOffsets env (fsOffsets s) | Some ids \<Rightarrow> ids)"

definition syncPendingLocked :: "iofault \<Rightarrow> bool \<Rightarrow> 't fileVectorStore \<Rightarrow>
    goerror option \<times> 't fileVectorStore" where
  "syncPendingLocked flt force s =
     (if fsHandle s = FNil \<or> fsPending s = 0 then (None, s)
      else if \<not> force \<and> fsPending s < fsSyncEvery s then (None, s)
      else if fsHandle s = FClosed then (Some ErrClosed, s)
      else case ioErr flt IoSync of Some e \<Rightarrow> (Some e, s)
           | None \<Rightarrow> (None, s\<lparr>fsPending := 0\<rparr>))"

text \<open>A positioned read through the handle; the outer \<open>None\<close> is a panic.\<close>

definition fs_read :: "iofault \<Rightarrow> 't fileVectorStore \<Rightarrow> fileVectorRecordMeta \<Rightarrow>
    fileVectorRecord result option" where
  "fs_read flt s meta =
     (if fsHandle s \<noteq> FOpen then Some (Inl ErrClosed)
      else case ioErr flt IoReadAt of Some e \<Rightarrow> Some (Inl e)
           | None \<Rightarrow> readFileVectorRecordAt (fsDisk s) meta)"

definition fs_read32 :: "iofault \<Rightarrow> 't fileVectorStore \<Rightarrow> fileVectorRecordMeta \<Rightarrow>
    fileVectorRecord32 result option" where
  "fs_read32 flt s meta =
     (if fsHandle s \<noteq> FOpen then Some (Inl ErrClosed)
      else case ioErr flt IoReadAt of Some e \<Rightarrow> Some (Inl e)
           | None \<Rightarrow> readFileVectorRecord32At (fsDisk s) meta)"

section \<open>Compaction\<close>

text \<open>
  The live vectors: an entry whose read fails, or that is a delete record, is skipped; a panic
  in a read ends the operation.
\<close>

fun live_scan :: "iofault \<Rightarrow> 't fileVectorStore \<Rightarrow> (string \<times> fileVectorRecordMeta) list \<Rightarrow>
    vector list option" where
  "live_scan flt s [] = Some []"
| "live_scan flt s ((vid, meta) # rest) =
     (case fs_read flt s meta of None \<Rightarrow> None
      | Some (Inl _) \<Rightarrow> live_scan flt s rest
      | Some (Inr record) \<Rightarrow>
          if frOp record = opDelete then live_scan flt s rest
          else map_option ((#) \<lparr>vID = vid, vValues = frValues record\<rparr>) (live_scan flt s rest))"

fun compact_write :: "'t storeEnv \<Rightarrow> vector list \<Rightarrow> byte list \<Rightarrow> offsets \<Rightarrow> 't orderedIDIndex \<Rightarrow>
    (byte list \<times> offsets \<times> 't orderedIDIndex) result" where
  "compact_write env [] out offs ids = Inr (out, offs, ids)"
| "compact_write env (vec # rest) out offs ids =
     (case encodeFileVectorRecord opPut (vID vec) (vValues vec) of Inl err \<Rightarrow> Inl err
      | Inr record \<Rightarrow>
          compact_write env rest (out @ record)
            (gm_put (vID vec) \<lparr>recordOffset = length out, recordLength = word_of_nat (length record),
               metaDeleted = False\<rparr> offs)
            (oi_Upsert (envBt env) ids (vID vec)))"

text \<open>
  The new file is written beside the old one and renamed over it. Before the old handle is
  closed a failure leaves the store as it was; after that it leaves a closed handle.
\<close>

definition compactLocked :: "'t storeEnv \<Rightarrow> iofault \<Rightarrow> 't fileVectorStore \<Rightarrow>
    goerror option \<times> 't fileVectorStore" where
  "compactLocked env flt s0 =
     (if fsHandle s0 = FNil then (None, s0)
      else case syncPendingLocked flt True s0 of
        (Some e, s) \<Rightarrow> (Some e, s)
      | (None, s) \<Rightarrow>
          (case live_scan flt s (gm_range (envIter env) (fsOffsets s)) of
             None \<Rightarrow> (Some ErrPanic, s)
           | Some live \<Rightarrow>
               (case ioErr flt IoOpenTmp of Some e \<Rightarrow> (Some e, s) | None \<Rightarrow>
                (case compact_write env live [] [] (newOrderedIDIndex (envBt env)) of
                   Inl e \<Rightarrow> (Some e, s)
                 | Inr (out, newOffsets, newIDs) \<Rightarrow>
                   (case (if live = [] then None else ioErr flt IoWriteTmp) of Some e \<Rightarrow> (Some e, s) | None \<Rightarrow>
                   (case ioErr flt IoSyncTmp of Some e \<Rightarrow> (Some e, s) | None \<Rightarrow>
                   (case ioErr flt IoCloseTmp of Some e \<Rightarrow> (Some e, s) | None \<Rightarrow>
                   (if fsHandle s = FClosed then (Some ErrClosed, s)
                    else case ioErr flt IoClose of Some e \<Rightarrow> (Some e, s\<lparr>fsHandle := FClosed\<rparr>) | None \<Rightarrow>
                   (case ioErr flt IoRename of Some e \<Rightarrow> (Some e, s\<lparr>fsHandle := FClosed\<rparr>) | None \<Rightarrow>
                   (case ioErr flt IoReopen of Some e \<Rightarrow> (Some e, s\<lparr>fsHandle := FClosed, fsDisk := out\<rparr>) | None \<Rightarrow>
                   (case ioErr flt IoSeek of Some e \<Rightarrow> (Some e, s\<lparr>fsHandle := FClosed, fsDisk := out\<rparr>) | None \<Rightarrow>
                    (None, clearHotVectors (s\<lparr>fsHandle := FOpen, fsDisk := out, fsOffsets := newOffsets,
                       fsIds := Some newIDs, fsWrites := int (length newOffsets), fsStale := 0,
                       fsPending := 0, fsCompacts := fsCompacts s + 1\<rparr>)))))))))))))"

definition maybeCompactLocked :: "'t storeEnv \<Rightarrow> iofault \<Rightarrow> 't fileVectorStore \<Rightarrow>
    goerror option \<times> 't fileVectorStore" where
  "maybeCompactLocked env flt s =
     (if fsStale s < 1 then (None, s)
      else if fsStale s * 2 < fsWrites s then (None, s)
      else compactLocked env flt s)"

section \<open>Opening and closing\<close>

definition openLocked :: "'t storeEnv \<Rightarrow> iofault \<Rightarrow> 't fileVectorStore \<Rightarrow>
    goerror option \<times> 't fileVectorStore" where
  "openLocked env flt s =
     (case ioErr flt IoMkdir of Some e \<Rightarrow> (Some e, s) | None \<Rightarrow>
     (case ioErr flt IoOpen of Some e \<Rightarrow> (Some e, s) | None \<Rightarrow>
     (case ioErr flt IoSeek of Some e \<Rightarrow> (Some e, s) | None \<Rightarrow>
     (case ioErr flt IoRead of Some e \<Rightarrow> (Some e, s) | None \<Rightarrow>
     (case rebuildFileVectorStoreIndex (fsDisk s) of Inl e \<Rightarrow> (Some e, s)
      | Inr (offs, stats) \<Rightarrow>
          maybeCompactLocked env flt (clearHotVectors
            (s\<lparr>fsHandle := FOpen, fsOffsets := offs,
               fsIds := Some (newOrderedIDIndexFromFileOffsets env offs),
               fsWrites := totalRecords stats, fsStale := staleRecords stats\<rparr>)))))))"

definition ensureOpenLocked :: "'t storeEnv \<Rightarrow> iofault \<Rightarrow> 't fileVectorStore \<Rightarrow>
    goerror option \<times> 't fileVectorStore" where
  "ensureOpenLocked env flt s = (if fsHandle s \<noteq> FNil then (None, s) else openLocked env flt s)"

definition fs_initial :: "'t storeEnv \<Rightarrow> int \<Rightarrow> byte list \<Rightarrow> 't fileVectorStore" where
  "fs_initial env syncEvery disk =
     \<lparr>fsDisk = disk, fsHandle = FNil, fsOffsets = [], fsIds = Some (newOrderedIDIndex (envBt env)),
      fsWrites = 0, fsStale = 0, fsCompacts = 0, fsPending = 0,
      fsSyncEvery = (if syncEvery \<le> 0 then 1 else syncEvery), fsHot = [], fsHotMax = 1024\<rparr>"

text \<open>The constructor panics when the store cannot be opened.\<close>

definition newFileVectorStoreWithOptions :: "'t storeEnv \<Rightarrow> iofault \<Rightarrow> int \<Rightarrow> byte list \<Rightarrow>
    't fileVectorStore option" where
  "newFileVectorStoreWithOptions env flt syncEvery disk =
     (case openLocked env flt (fs_initial env syncEvery disk) of
        (Some _, _) \<Rightarrow> None
      | (None, s) \<Rightarrow> Some s)"

definition File_Close :: "iofault \<Rightarrow> 't fileVectorStore \<Rightarrow> goerror option \<times> 't fileVectorStore" where
  "File_Close flt s0 =
     (if fsHandle s0 = FNil then (None, s0)
      else case syncPendingLocked flt True s0 of
        (Some e, s) \<Rightarrow> (Some e, s)
      | (None, s) \<Rightarrow> (if fsHandle s = FClosed then Some ErrClosed else ioErr flt IoClose,
                       clearHotVectors (s\<lparr>fsHandle := FNil\<rparr>)))"

section \<open>Operations\<close>

fun encode_all :: "vector list \<Rightarrow> (vector \<times> byte list) list result" where
  "encode_all [] = Inr []"
| "encode_all (vec # rest) =
     (case encodeFileVectorRecord opPut (vID vec) (vValues vec) of Inl err \<Rightarrow> Inl err
      | Inr record \<Rightarrow> (case encode_all rest of Inl err \<Rightarrow> Inl err | Inr rs \<Rightarrow> Inr ((vec, record) # rs)))"

fun with_offsets :: "nat \<Rightarrow> (vector \<times> byte list) list \<Rightarrow> (vector \<times> byte list \<times> nat) list" where
  "with_offsets off [] = []"
| "with_offsets off ((vec, record) # rest) = (vec, record, off) # with_offsets (off + length record) rest"

definition upsert_pending :: "'t storeEnv \<Rightarrow> 't fileVectorStore \<Rightarrow> vector \<times> byte list \<times> nat \<Rightarrow>
    't fileVectorStore" where
  "upsert_pending env s pending =
     (case pending of (vec, record, off) \<Rightarrow>
       let s1 = (if gm_get (fsOffsets s) (vID vec) \<noteq> None then s\<lparr>fsStale := fsStale s + 1\<rparr>
                 else s\<lparr>fsIds := Some (oi_Upsert (envBt env) (File_orderedIDsLocked env s) (vID vec))\<rparr>);
           s2 = s1\<lparr>fsOffsets := gm_put (vID vec) \<lparr>recordOffset = off,
                     recordLength = word_of_nat (length record), metaDeleted = False\<rparr> (fsOffsets s1),
                   fsWrites := fsWrites s1 + 1\<rparr>
       in putHotVector s2 (vID vec) (ToFloat32 (vValues vec)))"

text \<open>A write that fails may have appended a prefix of the buffer.\<close>

definition fs_append :: "iofault \<Rightarrow> 't fileVectorStore \<Rightarrow> byte list \<Rightarrow> goerror option \<times> 't fileVectorStore" where
  "fs_append flt s buf =
     (if fsHandle s = FClosed then (Some ErrClosed, s)
      else case ioErr flt IoSeek of Some e \<Rightarrow> (Some e, s) | None \<Rightarrow>
      (case ioErr flt IoWrite of
         Some e \<Rightarrow> (Some e, s\<lparr>fsDisk := fsDisk s @ take (ioPartial flt) buf\<rparr>)
       | None \<Rightarrow> (None, s\<lparr>fsDisk := fsDisk s @ buf\<rparr>)))"

definition File_UpsertVectors :: "'t storeEnv \<Rightarrow> iofault \<Rightarrow> 't fileVectorStore \<Rightarrow> vector list \<Rightarrow>
    goerror option \<times> 't fileVectorStore" where
  "File_UpsertVectors env flt s0 vectors =
     (if vectors = [] then (None, s0)
      else case ensureOpenLocked env flt s0 of (Some e, s) \<Rightarrow> (Some e, s) | (None, s) \<Rightarrow>
      (case encode_all vectors of Inl err \<Rightarrow> (Some err, s)
       | Inr records \<Rightarrow>
           (case fs_append flt s (concat (map snd records)) of (Some e, s1) \<Rightarrow> (Some e, s1)
            | (None, s1) \<Rightarrow>
               (let s2 = foldl (upsert_pending env) s1 (with_offsets (length (fsDisk s)) records);
                    s3 = s2\<lparr>fsPending := fsPending s2 + int (length records)\<rparr>
                in case syncPendingLocked flt False s3 of (Some e, s4) \<Rightarrow> (Some e, s4)
                   | (None, s4) \<Rightarrow> maybeCompactLocked env flt s4))))"

definition File_UpsertVector :: "'t storeEnv \<Rightarrow> iofault \<Rightarrow> 't fileVectorStore \<Rightarrow> vector \<Rightarrow>
    goerror option \<times> 't fileVectorStore" where
  "File_UpsertVector env flt s vec = File_UpsertVectors env flt s [vec]"

definition readVectorRecord :: "iofault \<Rightarrow> 't fileVectorStore \<Rightarrow> string \<Rightarrow> fileVectorRecord result" where
  "readVectorRecord flt s vid =
     (case gm_get (fsOffsets s) vid of None \<Rightarrow> Inl ErrVectorNotFound
      | Some meta \<Rightarrow>
          if metaDeleted meta then Inl ErrVectorNotFound
          else if fsHandle s = FNil then Inl ErrClosed
          else (case fs_read flt s meta of None \<Rightarrow> Inl ErrPanic
                | Some (Inl err) \<Rightarrow>
                    Inl (if err = ErrEOF \<or> err = ErrUnexpectedEOF then ErrVectorNotFound else err)
                | Some (Inr record) \<Rightarrow>
                    if frOp record = opDelete then Inl ErrVectorNotFound else Inr record))"

definition readVectorRecord32 :: "iofault \<Rightarrow> 't fileVectorStore \<Rightarrow> string \<Rightarrow>
    fileVectorRecord32 result \<times> 't fileVectorStore" where
  "readVectorRecord32 flt s vid =
     (case gm_get (fsOffsets s) vid of None \<Rightarrow> (Inl ErrVectorNotFound, s)
      | Some meta \<Rightarrow>
          if metaDeleted meta then (Inl ErrVectorNotFound, s)
          else if fsHandle s = FNil then (Inl ErrClosed, s)
          else case getHotVector s vid of
            (Some values, s1) \<Rightarrow> (Inr \<lparr>fr32Op = opPut, fr32ID = vid, fr32Values = values\<rparr>, s1)
          | (None, s1) \<Rightarrow>
              (case fs_read32 flt s1 meta of None \<Rightarrow> (Inl ErrPanic, s1)
               | Some (Inl err) \<Rightarrow>
                   (Inl (if err = ErrEOF \<or> err = ErrUnexpectedEOF then ErrVectorNotFound else err), s1)
               | Some (Inr record) \<Rightarrow>
                   if fr32Op record = opDelete then (Inl ErrVectorNotFound, s1)
                   else (Inr record, putHotVector s1 (fr32ID record) (fr32Values record))))"

definition File_GetVectorReadOnly :: "iofault \<Rightarrow> 't fileVectorStore \<Rightarrow> string \<Rightarrow> vector result" where
  "File_GetVectorReadOnly flt s vid =
     (case readVectorRecord flt s vid of Inl err \<Rightarrow> Inl err
      | Inr record \<Rightarrow> Inr \<lparr>vID = frID record, vValues = frValues record\<rparr>)"

definition File_GetVector :: "iofault \<Rightarrow> 't fileVectorStore \<Rightarrow> string \<Rightarrow> vector result" where
  "File_GetVector flt s vid =
     (case File_GetVectorReadOnly flt s vid of Inl err \<Rightarrow> Inl err
      | Inr vec \<Rightarrow> Inr \<lparr>vID = vID vec, vValues = vValues vec\<rparr>)"

definition File_GetVectorReadOnly32 :: "iofault \<Rightarrow> 't fileVectorStore \<Rightarrow> string \<Rightarrow>
    float32 list result \<times> 't fileVectorStore" where
  "File_GetVectorReadOnly32 flt s vid =
     (case readVectorRecord32 flt s vid of (Inl err, s') \<Rightarrow> (Inl err, s')
      | (Inr record, s') \<Rightarrow> (Inr (fr32Values record), s'))"

definition File_DeleteVector :: "'t storeEnv \<Rightarrow> iofault \<Rightarrow> 't fileVectorStore \<Rightarrow> string \<Rightarrow>
    goerror option \<times> 't fileVectorStore" where
  "File_DeleteVector env flt s0 vid =
     (case gm_get (fsOffsets s0) vid of None \<Rightarrow> (Some ErrVectorNotFound, s0)
      | Some meta \<Rightarrow>
          if metaDeleted meta then (Some ErrVectorNotFound, s0)
          else case ensureOpenLocked env flt s0 of (Some e, s) \<Rightarrow> (Some e, s) | (None, s) \<Rightarrow>
          (case encodeFileVectorRecord opDelete vid [] of Inl err \<Rightarrow> (Some err, s)
           | Inr record \<Rightarrow>
             (case fs_append flt s record of (Some e, s1) \<Rightarrow> (Some e, s1)
              | (None, s1) \<Rightarrow>
                 (let s2 = s1\<lparr>fsOffsets := gm_del vid (fsOffsets s1)\<rparr>;
                      s3 = s2\<lparr>fsIds := Some (oi_Delete (envBt env) (File_orderedIDsLocked env s2) vid)\<rparr>;
                      s4 = deleteHotVector s3 vid;
                      s5 = s4\<lparr>fsWrites := fsWrites s4 + 1, fsStale := fsStale s4 + 1,
                              fsPending := fsPending s4 + 1\<rparr>
                  in case syncPendingLocked flt False s5 of (Some e, s6) \<Rightarrow> (Some e, s6)
                     | (None, s6) \<Rightarrow> maybeCompactLocked env flt s6))))"

definition File_ListVectors :: "'t storeEnv \<Rightarrow> iofault \<Rightarrow> 't fileVectorStore \<Rightarrow> vector list option" where
  "File_ListVectors env flt s =
     (if fsHandle s = FNil then Some []
      else live_scan flt s (filter (\<lambda>(_, meta). \<not> metaDeleted meta) (gm_range (envIter env) (fsOffsets s))))"

definition File_ensureOrderedIDs :: "'t storeEnv \<Rightarrow> 't fileVectorStore \<Rightarrow> 't fileVectorStore" where
  "File_ensureOrderedIDs env s =
     (if fsIds s \<noteq> None then s else s\<lparr>fsIds := Some (File_orderedIDsLocked env s)\<rparr>)"

definition File_RangeVectorIDs :: "'t storeEnv \<Rightarrow> 't fileVectorStore \<Rightarrow>
    ('s \<Rightarrow> string \<Rightarrow> 's \<times> bool) \<Rightarrow> 's \<Rightarrow> 's" where
  "File_RangeVectorIDs env s fn st =
     (let s1 = File_ensureOrderedIDs env s
      in if fsHandle s1 = FNil then st
         else oi_Range (envBt env) (File_orderedIDsLocked env s1) fn st)"

definition File_PageVectorIDs :: "'t storeEnv \<Rightarrow> 't fileVectorStore \<Rightarrow> string \<Rightarrow> int \<Rightarrow> string list" where
  "File_PageVectorIDs env s afterID limit =
     (let s1 = File_ensureOrderedIDs env s
      in if fsHandle s1 = FNil then []
         else PageAfter (envBt env) (File_orderedIDsLocked env s1) afterID limit)"

definition File_IsPersistent :: "'t fileVectorStore \<Rightarrow> bool" where
  "File_IsPersistent s = True"

definition maxInt64 :: "int \<Rightarrow> int \<Rightarrow> int" where
  "maxInt64 a b = (if b < a then a else b)"

definition File_DiskStats :: "iofault \<Rightarrow> 't fileVectorStore \<Rightarrow> diskStoreStats" where
  "File_DiskStats flt s =
     \<lparr>dsFileBytes = (if ioErr flt IoStat = None then int (length (fsDisk s)) else 0),
      dsRecords = int (length (fsOffsets s)), dsStaleRecords = maxInt64 (fsStale s) 0,
      dsCompactions = maxInt64 (fsCompacts s) 0\<rparr>"

section \<open>The invariant\<close>

text \<open>
  \<open>l\<close> is the log the file holds. The tables in memory agree with it; the hot cache holds only
  current values.
\<close>

definition fs_tab :: "'t storeEnv \<Rightarrow> 't fileVectorStore \<Rightarrow> fop list \<Rightarrow> bool" where
  "fs_tab env s l \<longleftrightarrow> env_ok env \<and> located l (fsOffsets s) \<and>
     (\<forall>ids. fsIds s = Some ids \<longrightarrow> set (oi_ids (envBt env) ids) = dom (log_map l)) \<and>
     distinct (map fst (fsHot s)) \<and> 0 \<le> fsHotMax s"

definition fs_mem :: "'t storeEnv \<Rightarrow> 't fileVectorStore \<Rightarrow> fop list \<Rightarrow> bool" where
  "fs_mem env s l \<longleftrightarrow> fs_tab env s l \<and> (\<forall>k v. map_of (fsHot s) k = Some v \<longrightarrow> log_map l k = Some v)"

definition fs_ok :: "'t storeEnv \<Rightarrow> 't fileVectorStore \<Rightarrow> fop list \<Rightarrow> bool" where
  "fs_ok env s l \<longleftrightarrow> fsHandle s = FOpen \<and> fsDisk s = log_bytes l \<and> fs_mem env s l"

definition fs_inv :: "'t storeEnv \<Rightarrow> 't fileVectorStore \<Rightarrow> bool" where
  "fs_inv env s \<longleftrightarrow> (\<exists>l. fs_ok env s l)"

text \<open>The contents: what a positioned read through the offset table finds.\<close>

definition fs_abs :: "'t fileVectorStore \<Rightarrow> vmap" where
  "fs_abs s vid =
     (case gm_get (fsOffsets s) vid of None \<Rightarrow> None
      | Some meta \<Rightarrow> (case readFileVectorRecord32At (fsDisk s) meta of
          Some (Inr record) \<Rightarrow> Some (fr32Values record) | _ \<Rightarrow> None))"

lemma ioErr_no_fault [simp]: "ioErr no_fault x = None"
  by (simp add: no_fault_def)

lemma fs_abs_eq: "fs_ok env s l \<Longrightarrow> fs_abs s = log_map l"
proof (rule ext)
  fix vid assume "fs_ok env s l"
  then have l: "located l (fsOffsets s)" "fsDisk s = log_bytes l" by (simp_all add: fs_ok_def fs_mem_def fs_tab_def)
  show "fs_abs s vid = log_map l vid"
  proof (cases "gm_get (fsOffsets s) vid")
    case None
    with l(1) show ?thesis by (simp add: fs_abs_def located_def)
  next
    case (Some meta)
    with located_read32 [OF l(1) Some] l(2) show ?thesis by (auto simp: fs_abs_def)
  qed
qed

lemma fs_tab_fields [simp]:
  "fs_tab env (s\<lparr>fsDisk := d\<rparr>) l = fs_tab env s l"
  "fs_tab env (s\<lparr>fsHandle := h\<rparr>) l = fs_tab env s l"
  "fs_tab env (s\<lparr>fsWrites := w\<rparr>) l = fs_tab env s l"
  "fs_tab env (s\<lparr>fsStale := w\<rparr>) l = fs_tab env s l"
  "fs_tab env (s\<lparr>fsPending := w\<rparr>) l = fs_tab env s l"
  "fs_tab env (s\<lparr>fsCompacts := w\<rparr>) l = fs_tab env s l"
  by (simp_all add: fs_tab_def)

lemma fs_mem_fields [simp]:
  "fs_mem env (s\<lparr>fsDisk := d\<rparr>) l = fs_mem env s l"
  "fs_mem env (s\<lparr>fsHandle := h\<rparr>) l = fs_mem env s l"
  "fs_mem env (s\<lparr>fsWrites := w\<rparr>) l = fs_mem env s l"
  "fs_mem env (s\<lparr>fsStale := w\<rparr>) l = fs_mem env s l"
  "fs_mem env (s\<lparr>fsPending := w\<rparr>) l = fs_mem env s l"
  "fs_mem env (s\<lparr>fsCompacts := w\<rparr>) l = fs_mem env s l"
  by (simp_all add: fs_mem_def)

lemma fs_tab_ids:
  assumes "fs_tab env s l"
  shows "set (oi_ids (envBt env) (File_orderedIDsLocked env s)) = dom (log_map l)"
proof (cases "fsIds s")
  case None
  have env: "btree_ok (envBt env)" "iter_ok (envIter env)" and loc: "located l (fsOffsets s)"
    using assms by (simp_all add: fs_tab_def env_ok_def)
  have nd: "\<not> metaDeleted meta" if "(k, meta) \<in> set (gm_range (envIter env) (fsOffsets s))" for k meta
    using that env loc by (auto simp: gm_range_mem located_def located_at_def)
  have fold: "set (oi_ids (envBt env) (foldl (\<lambda>idx (vid, meta). if metaDeleted meta then idx
      else oi_Upsert (envBt env) idx vid) i xs)) = set (oi_ids (envBt env) i) \<union> fst ` set xs"
    if "\<forall>(k, meta) \<in> set xs. \<not> metaDeleted meta" for i and xs :: "(string \<times> fileVectorRecordMeta) list"
    using that env(1) by (induction xs arbitrary: i) auto
  have "\<forall>(k, meta) \<in> set (gm_range (envIter env) (fsOffsets s)). \<not> metaDeleted meta" using nd by auto
  then have "set (oi_ids (envBt env) (File_orderedIDsLocked env s)) =
      fst ` set (gm_range (envIter env) (fsOffsets s))"
    using None env(1) by (simp add: fold File_orderedIDsLocked_def newOrderedIDIndexFromFileOffsets_def)
  also have "\<dots> = dom (gm_get (fsOffsets s))"
    using env(2) by (metis gm_range_fst iter_set set_gm_keys set_map)
  finally show ?thesis using located_dom [OF loc] by simp
next
  case (Some ids)
  with assms show ?thesis by (simp add: fs_tab_def File_orderedIDsLocked_def)
qed

lemma distinct_fst_delete: "distinct (map fst xs) \<Longrightarrow> distinct (map fst (AList.delete k xs))"
  by (rule distinct_delete)

lemma map_of_take_distinct:
  assumes "map_of (take n xs) k = Some v" and "distinct (map fst xs)"
  shows "map_of xs k = Some v"
  using assms by (metis in_set_takeD map_of_SomeD map_of_is_SomeI)

text \<open>After a put the entry of \<open>vid\<close> is current, whatever it was before.\<close>

lemma fs_mem_putHot:
  assumes "fs_tab env s l" and "log_map l vid = Some ws"
    and "\<And>k v. k \<noteq> vid \<Longrightarrow> map_of (fsHot s) k = Some v \<Longrightarrow> log_map l k = Some v"
  shows "fs_mem env (putHotVector s vid ws) l"
proof -
  define s1 where "s1 = ensureHotCache s"
  have s1: "fs_tab env s1 l" "0 < fsHotMax s1" "fsHot s1 = fsHot s"
    using assms(1) by (auto simp: s1_def ensureHotCache_def fs_tab_def)
  have nd: "distinct (map fst (fsHot s1))" using s1 by (simp add: fs_tab_def)
  have upd: "fs_mem env (s1\<lparr>fsHot := h\<rparr>) l"
    if "distinct (map fst h)" "\<And>k v. map_of h k = Some v \<Longrightarrow> log_map l k = Some v" for h
    using s1(1) that by (simp add: fs_mem_def fs_tab_def)
  have "fs_mem env (s1\<lparr>fsHot := (vid, ws) # AList.delete vid (fsHot s1)\<rparr>) l"
    using nd assms(2,3) s1(3) delete_notin_dom [of vid "fsHot s1"]
    by (intro upd) (auto simp: distinct_delete delete_conv' simp del: map_of_eq_Some_iff split: if_splits)
  moreover have "fs_mem env (s1\<lparr>fsHot := take n ((vid, ws) # fsHot s1)\<rparr>) l"
    if new: "map_of (fsHot s1) vid = None" for n
  proof (rule upd)
    have d: "distinct (map fst ((vid, ws) # fsHot s1))" using nd new by (simp add: map_of_eq_None_iff)
    then show "distinct (map fst (take n ((vid, ws) # fsHot s1)))" by (metis distinct_take take_map)
    fix k v assume "map_of (take n ((vid, ws) # fsHot s1)) k = Some v"
    then have "map_of ((vid, ws) # fsHot s1) k = Some v" using d by (rule map_of_take_distinct)
    then show "log_map l k = Some v" using assms(2,3) s1(3) by (auto split: if_splits)
  qed
  ultimately show ?thesis using s1(2) by (simp add: putHotVector_def Let_def flip: s1_def)
qed

lemma putHot_fields [simp]:
  "fsDisk (putHotVector s k v) = fsDisk s" "fsHandle (putHotVector s k v) = fsHandle s"
  by (simp_all add: putHotVector_def ensureHotCache_def Let_def)

lemma sync_no_fault:
  assumes "fs_ok env s l" and "syncPendingLocked no_fault force s = (e, s')"
  shows "e = None" and "fs_ok env s' l"
  using assms by (auto simp: syncPendingLocked_def fs_ok_def split: if_splits)

section \<open>Compaction keeps the contents\<close>

lemma vlists_rebuild:
  assumes "vlists m vs" and "\<And>k ws. m k = Some ws \<Longrightarrow> list_all canon32 ws"
  shows "foldl vput Map.empty vs = m"
proof (rule ext)
  fix k
  have gen: "distinct (map vID vs) \<Longrightarrow> foldl vput m0 vs k =
      (case find (\<lambda>v. vID v = k) vs of None \<Rightarrow> m0 k | Some v \<Rightarrow> Some (ToFloat32 (vValues v)))" for m0 vs
  proof (induction vs arbitrary: m0)
    case (Cons v vs)
    show ?case
    proof (cases "k = vID v")
      case True
      then have "foldl vput (vput m0 v) vs k = vput m0 v k"
        using Cons.prems by (intro foldl_vput_other) simp
      then show ?thesis unfolding foldl_Cons using True by (simp only: vput_apply) simp
    next
      case False
      with Cons show ?thesis by simp
    qed
  qed simp
  show "foldl vput Map.empty vs k = m k"
  proof (cases "find (\<lambda>v. vID v = k) vs")
    case None
    then have "k \<notin> vID ` set vs" by (auto simp: find_None_iff)
    then have "k \<notin> dom m" using assms(1) by (simp add: vlists_def)
    then have "m k = None" by (simp add: domIff)
    then show ?thesis using None assms(1) gen [of vs Map.empty] by (simp add: vlists_def)
  next
    case (Some v)
    then have "v \<in> set vs" "vID v = k" by (auto simp: find_Some_iff)
    then have "vget m k = Inr v" using assms(1) by (auto simp: vlists_def)
    then obtain ws where "m k = Some ws" "vValues v = ToFloat64 ws" by (auto simp: vget_Inr)
    then show ?thesis using Some assms gen [of vs Map.empty] by (simp add: vlists_def)
  qed
qed

lemma log_map_puts: "log_map (l @ map (\<lambda>v. FPut (vID v) (vValues v)) vs) = foldl vput (log_map l) vs"
proof (induction vs rule: rev_induct)
  case (snoc v vs)
  have "log_map ((l @ map (\<lambda>v. FPut (vID v) (vValues v)) vs) @ [FPut (vID v) (vValues v)]) =
      vput (foldl vput (log_map l) vs) v"
    unfolding log_map_snoc snoc fop_apply.simps vput_def ..
  then show ?case by (simp only: map_append list.map append_assoc foldl_append foldl.simps)
qed simp

lemma log_map_fits: "list_all fop_fits l \<Longrightarrow> log_map l k = Some ws \<Longrightarrow> rec_fits k ws"
proof (induction l arbitrary: k ws rule: rev_induct)
  case (snoc x l)
  then show ?case by (cases x) (auto simp: rec_fits_def ToFloat32_def split: if_splits)
qed simp

lemma live_scan_ok:
  assumes ok: "fs_ok env s l"
    and xs: "\<And>k meta. (k, meta) \<in> set xs \<Longrightarrow> gm_get (fsOffsets s) k = Some meta"
  shows "live_scan no_fault s xs =
    Some (map (\<lambda>(k, _). \<lparr>vID = k, vValues = ToFloat64 (the (log_map l k))\<rparr>) xs)"
  using xs
proof (induction xs)
  case (Cons x xs)
  obtain k meta where x: "x = (k, meta)" by force
  have l: "located l (fsOffsets s)" "fsDisk s = log_bytes l" "fsHandle s = FOpen"
    using ok by (simp_all add: fs_ok_def fs_mem_def fs_tab_def)
  have "gm_get (fsOffsets s) k = Some meta" using Cons.prems x by simp
  from located_read [OF l(1) this] obtain vs where "log_map l k = Some vs"
    "fs_read no_fault s meta = Some (Inr \<lparr>frOp = opPut, frID = k, frValues = ToFloat64 vs\<rparr>)"
    using l by (auto simp: fs_read_def)
  moreover have "opPut \<noteq> opDelete" by (simp add: opPut_def opDelete_def)
  ultimately show ?case using Cons by (simp add: x)
qed simp

lemma live_vlists:
  assumes "fs_ok env s l" and "iter_ok iter"
  shows "vlists (log_map l) (map (\<lambda>(k, _). \<lparr>vID = k, vValues = ToFloat64 (the (log_map l k))\<rparr>)
    (gm_range iter (fsOffsets s)))" (is "vlists _ ?vs")
proof -
  have loc: "located l (fsOffsets s)" using assms(1) by (simp add: fs_ok_def fs_mem_def fs_tab_def)
  have ids: "map vID ?vs = iter (gm_keys (fsOffsets s))"
    by (simp add: o_def split_beta flip: gm_range_fst)
  have "distinct (map vID ?vs)" "set (map vID ?vs) = dom (log_map l)"
    unfolding ids using assms(2) loc located_dom [OF loc] by (simp_all add: located_def)
  moreover have "Inr v = vget (log_map l) (vID v)" if mem: "v \<in> set ?vs" for v
  proof -
    obtain k meta where v: "(k, meta) \<in> set (gm_range iter (fsOffsets s))"
      "v = \<lparr>vID = k, vValues = ToFloat64 (the (log_map l k))\<rparr>" using mem by auto
    then have "k \<in> dom (gm_get (fsOffsets s))" using assms(2) by (auto simp: gm_range_mem)
    then show ?thesis using located_dom [OF loc] v(2) by (auto simp: vget_def)
  qed
  ultimately show ?thesis by (simp add: vlists_def)
qed

lemma compact_write_ok:
  assumes "located l offs" and "set (oi_ids (envBt env) ids) = dom (log_map l)" and "btree_ok (envBt env)"
    and "\<forall>v \<in> set vs. rec_fits (vID v) (vValues v)"
  shows "\<exists>offs' ids'. compact_write env vs (log_bytes l) offs ids =
      Inr (log_bytes (l @ map (\<lambda>v. FPut (vID v) (vValues v)) vs), offs', ids') \<and>
    located (l @ map (\<lambda>v. FPut (vID v) (vValues v)) vs) offs' \<and>
    set (oi_ids (envBt env) ids') = dom (log_map (l @ map (\<lambda>v. FPut (vID v) (vValues v)) vs))"
  using assms
proof (induction vs arbitrary: l offs ids)
  case (Cons v vs)
  let ?x = "FPut (vID v) (vValues v)"
  let ?meta = "\<lparr>recordOffset = length (log_bytes l),
    recordLength = word_of_nat (length (fop_bytes ?x)), metaDeleted = False\<rparr>"
  have "located (l @ [?x]) (gm_put (vID v) ?meta offs)"
    using Cons.prems by (intro located_put) simp_all
  moreover have "set (oi_ids (envBt env) (oi_Upsert (envBt env) ids (vID v))) = dom (log_map (l @ [?x]))"
    using Cons.prems by (simp only: dom_log_map_put oi_ids_Upsert)
  ultimately show ?case
    using Cons.IH [of "l @ [?x]" "gm_put (vID v) ?meta offs" "oi_Upsert (envBt env) ids (vID v)"] Cons.prems
    by (simp add: encode_put del: log_map_snoc)
qed simp

lemma compact_ok:
  assumes "fs_ok env s l"
  shows "\<exists>s' l'. compactLocked env no_fault s = (None, s') \<and> fs_ok env s' l' \<and> log_map l' = log_map l"
proof -
  have env: "btree_ok (envBt env)" "iter_ok (envIter env)"
    using assms by (simp_all add: fs_ok_def fs_mem_def fs_tab_def env_ok_def)
  obtain e s1 where sy: "syncPendingLocked no_fault True s = (e, s1)" by force
  note s1 = sync_no_fault [OF assms sy]
  define live where "live = map (\<lambda>(k, _ :: fileVectorRecordMeta). \<lparr>vID = k, vValues = ToFloat64 (the (log_map l k))\<rparr>)
    (gm_range (envIter env) (fsOffsets s1))"
  have scan: "live_scan no_fault s1 (gm_range (envIter env) (fsOffsets s1)) = Some live"
    unfolding live_def using env by (intro live_scan_ok [OF s1(2)]) (simp add: gm_range_mem)
  have vl: "vlists (log_map l) live" unfolding live_def by (rule live_vlists [OF s1(2) env(2)])
  have fits: "\<forall>v \<in> set live. rec_fits (vID v) (vValues v)"
  proof
    fix v assume "v \<in> set live"
    then have "vget (log_map l) (vID v) = Inr v" using vl by (simp add: vlists_def)
    then obtain ws where "log_map l (vID v) = Some ws" "vValues v = ToFloat64 ws" by (auto simp: vget_Inr)
    moreover have "list_all fop_fits l" using assms by (simp add: fs_ok_def fs_mem_def fs_tab_def located_def)
    ultimately show "rec_fits (vID v) (vValues v)"
      using log_map_fits by (fastforce simp: rec_fits_def ToFloat64_def)
  qed
  let ?l = "map (\<lambda>v. FPut (vID v) (vValues v)) live"
  obtain offs ids where w: "compact_write env live [] [] (newOrderedIDIndex (envBt env)) = Inr (log_bytes ?l, offs, ids)"
    "located ?l offs" "set (oi_ids (envBt env) ids) = dom (log_map ?l)"
    using compact_write_ok [of "[]" "[]" env "newOrderedIDIndex (envBt env)" live] env fits by auto
  have m: "log_map ?l = log_map l"
    using log_map_puts [of "[]" live] vlists_rebuild [OF vl log_map_canon] by simp
  define s' where "s' = clearHotVectors (s1\<lparr>fsHandle := FOpen, fsDisk := log_bytes ?l, fsOffsets := offs,
      fsIds := Some ids, fsWrites := int (length offs), fsStale := 0, fsPending := 0,
      fsCompacts := fsCompacts s1 + 1\<rparr>)"
  have "compactLocked env no_fault s = (None, s')"
    using assms s1 scan w(1)
    by (simp add: compactLocked_def sy fs_ok_def s'_def)
  moreover have "fs_ok env s' ?l"
    using s1(2) w by (simp add: fs_ok_def fs_mem_def fs_tab_def s'_def clearHotVectors_def)
  ultimately show ?thesis using m by blast
qed

lemma maybeCompact_ok:
  assumes "fs_ok env s l"
  shows "\<exists>s' l'. maybeCompactLocked env no_fault s = (None, s') \<and> fs_ok env s' l' \<and> log_map l' = log_map l"
  using assms compact_ok [OF assms] by (auto simp: maybeCompactLocked_def)

section \<open>The operations on a store without faults\<close>

lemma located_live: "located l offs \<Longrightarrow> gm_get offs k = Some meta \<Longrightarrow> \<not> metaDeleted meta"
  unfolding located_def located_at_def by blast

lemma encode_all_eq: "encode_all vs = Inr (map (\<lambda>v. (v, fop_bytes (FPut (vID v) (vValues v)))) vs)"
  by (induction vs) (simp_all add: encode_put)

abbreviation put_of :: "vector \<Rightarrow> fop" where
  "put_of v \<equiv> FPut (vID v) (vValues v)"

lemma upsert_pending_ok:
  assumes "fs_mem env s l" and "rec_fits (vID v) (vValues v)"
    and "s' = upsert_pending env s (v, fop_bytes (put_of v), length (log_bytes l))"
  shows "fs_mem env s' (l @ [put_of v]) \<and> fsDisk s' = fsDisk s \<and> fsHandle s' = fsHandle s"
proof -
  let ?meta = "\<lparr>recordOffset = length (log_bytes l),
    recordLength = word_of_nat (length (fop_bytes (put_of v))), metaDeleted = False\<rparr>"
  let ?l = "l @ [put_of v]"
  have tab: "fs_tab env s l" and loc: "located l (fsOffsets s)" and env: "env_ok env" "btree_ok (envBt env)"
    using assms(1) by (simp_all add: fs_mem_def fs_tab_def env_ok_def)
  define s1 where "s1 = (if gm_get (fsOffsets s) (vID v) \<noteq> None then s\<lparr>fsStale := fsStale s + 1\<rparr>
    else s\<lparr>fsIds := Some (oi_Upsert (envBt env) (File_orderedIDsLocked env s) (vID v))\<rparr>)"
  define s2 where "s2 = s1\<lparr>fsOffsets := gm_put (vID v) ?meta (fsOffsets s1), fsWrites := fsWrites s1 + 1\<rparr>"
  have s': "s' = putHotVector s2 (vID v) (ToFloat32 (vValues v))"
    by (simp add: assms(3) upsert_pending_def s2_def s1_def Let_def)
  have same: "fsOffsets s1 = fsOffsets s" "fsHot s2 = fsHot s" "fsIds s2 = fsIds s1" "fsHotMax s2 = fsHotMax s"
    "fsDisk s2 = fsDisk s" "fsHandle s2 = fsHandle s"
    by (simp_all add: s1_def s2_def)
  have lm: "log_map ?l = (log_map l)(vID v \<mapsto> ToFloat32 (vValues v))"
    unfolding log_map_snoc fop_apply.simps ..
  have ids: "set (oi_ids (envBt env) ids) = insert (vID v) (dom (log_map l))" if "fsIds s1 = Some ids" for ids
    using that tab env fs_tab_ids [OF tab] located_dom [OF loc]
    by (auto simp: s1_def fs_tab_def split: if_splits)
  have "located ?l (gm_put (vID v) ?meta (fsOffsets s))" using loc assms(2) by (rule located_put) simp
  then have "fs_tab env s2 ?l"
    using tab ids env by (simp add: fs_tab_def same dom_log_map_put del: log_map_snoc) (simp add: s2_def same)
  then have "fs_mem env s' ?l"
    unfolding s' by (rule fs_mem_putHot) (use assms(1) in \<open>simp_all add: lm same fs_mem_def del: log_map_snoc\<close>)
  then show ?thesis by (simp add: s' same)
qed

lemma upsert_fold_ok:
  assumes "fs_mem env s l" and "\<forall>v \<in> set vs. rec_fits (vID v) (vValues v)"
    and "s' = foldl (upsert_pending env) s
      (with_offsets (length (log_bytes l)) (map (\<lambda>v. (v, fop_bytes (put_of v))) vs))"
  shows "fs_mem env s' (l @ map put_of vs) \<and> fsDisk s' = fsDisk s \<and> fsHandle s' = fsHandle s"
  using assms
proof (induction vs arbitrary: s l)
  case (Cons v vs)
  let ?s = "upsert_pending env s (v, fop_bytes (put_of v), length (log_bytes l))"
  have step: "fs_mem env ?s (l @ [put_of v]) \<and> fsDisk ?s = fsDisk s \<and> fsHandle ?s = fsHandle s"
    using Cons.prems by (intro upsert_pending_ok [OF _ _ refl]) simp_all
  have "s' = foldl (upsert_pending env) ?s
      (with_offsets (length (log_bytes (l @ [put_of v]))) (map (\<lambda>v. (v, fop_bytes (put_of v))) vs))"
    using Cons.prems(3) by simp
  then show ?case using Cons.IH [of ?s "l @ [put_of v]"] step Cons.prems(2) by simp
qed simp

lemma File_Upsert_ok:
  assumes "fs_ok env s l" and "\<forall>v \<in> set vs. rec_fits (vID v) (vValues v)"
    and "File_UpsertVectors env no_fault s vs = (e, s')"
  shows "e = None \<and> (\<exists>l'. fs_ok env s' l' \<and> log_map l' = foldl vput (log_map l) vs)"
proof (cases "vs = []")
  case True
  with assms show ?thesis by (auto simp: File_UpsertVectors_def)
next
  case False
  define recs where "recs = map (\<lambda>v. (v, fop_bytes (put_of v))) vs"
  have enc: "encode_all vs = Inr recs" by (simp add: encode_all_eq recs_def)
  have opn: "fsHandle s = FOpen" "fsDisk s = log_bytes l" and mem: "fs_mem env s l"
    using assms(1) by (simp_all add: fs_ok_def)
  define s1 where "s1 = s\<lparr>fsDisk := fsDisk s @ concat (map snd recs)\<rparr>"
  define s2 where "s2 = foldl (upsert_pending env) s1 (with_offsets (length (log_bytes l)) recs)"
  define s3 where "s3 = s2\<lparr>fsPending := fsPending s2 + int (length recs)\<rparr>"
  have s2: "fs_mem env s2 (l @ map put_of vs)" "fsDisk s2 = fsDisk s1" "fsHandle s2 = fsHandle s1"
    using upsert_fold_ok [OF _ assms(2) s2_def [unfolded recs_def]] mem by (simp_all add: s1_def)
  have "log_bytes (map put_of vs) = concat (map snd recs)" by (simp add: log_bytes_def o_def recs_def)
  then have s3: "fs_ok env s3 (l @ map put_of vs)"
    using s2 opn by (simp add: fs_ok_def s3_def s1_def)
  obtain e4 s4 where sy: "syncPendingLocked no_fault False s3 = (e4, s4)" by force
  note s4 = sync_no_fault [OF s3 sy]
  have app: "fs_append no_fault s (concat (map snd recs)) = (None, s1)"
    using opn(1) by (simp add: fs_append_def s1_def)
  have eq: "File_UpsertVectors env no_fault s vs = maybeCompactLocked env no_fault s4"
    using False opn sy s4(1)
    by (simp add: File_UpsertVectors_def ensureOpenLocked_def enc app Let_def flip: s2_def)
       (simp flip: s3_def)
  show ?thesis
    using maybeCompact_ok [OF s4(2)] assms(3) unfolding eq log_map_puts by auto
qed

lemma File_Get_ok:
  assumes "fs_ok env s l"
  shows "File_GetVector no_fault s k = vget (log_map l) k"
proof -
  have l: "located l (fsOffsets s)" "fsDisk s = log_bytes l" "fsHandle s = FOpen"
    using assms by (simp_all add: fs_ok_def fs_mem_def fs_tab_def)
  show ?thesis
  proof (cases "gm_get (fsOffsets s) k")
    case None
    then show ?thesis
      using l(1) by (simp add: File_GetVector_def File_GetVectorReadOnly_def readVectorRecord_def
          located_def vget_def)
  next
    case (Some meta)
    then have "\<not> metaDeleted meta" using l(1) by (auto simp: located_def located_at_def)
    with Some located_read [OF l(1) Some] l show ?thesis
      by (auto simp: File_GetVector_def File_GetVectorReadOnly_def readVectorRecord_def fs_read_def
          vget_def opPut_def opDelete_def)
  qed
qed

lemma File_Get32_ok:
  assumes "fs_ok env s l" and "File_GetVectorReadOnly32 no_fault s k = (r, s')"
  shows "fs_ok env s' l \<and> r = (case log_map l k of None \<Rightarrow> Inl ErrVectorNotFound | Some vs \<Rightarrow> Inr vs)"
proof -
  have l: "located l (fsOffsets s)" "fsDisk s = log_bytes l" "fsHandle s = FOpen" and mem: "fs_mem env s l"
    using assms by (simp_all add: fs_ok_def fs_mem_def fs_tab_def)
  show ?thesis
  proof (cases "gm_get (fsOffsets s) k")
    case None
    then show ?thesis
      using l(1) assms by (auto simp: File_GetVectorReadOnly32_def readVectorRecord32_def located_def)
  next
    case (Some meta)
    then have nd: "\<not> metaDeleted meta" using l(1) by (auto simp: located_def located_at_def)
    obtain vs where vs: "log_map l k = Some vs" "readFileVectorRecord32At (log_bytes l) meta =
        Some (Inr \<lparr>fr32Op = opPut, fr32ID = k, fr32Values = vs\<rparr>)"
      using located_read32 [OF l(1) Some] by blast
    show ?thesis
    proof (cases "map_of (fsHot s) k")
      case None
      have "fs_mem env (putHotVector s k vs) l"
        using mem vs(1) by (intro fs_mem_putHot) (simp_all add: fs_mem_def)
      then show ?thesis
        using Some nd None l vs assms(2)
        by (auto simp: File_GetVectorReadOnly32_def readVectorRecord32_def getHotVector_def fs_read32_def
            opPut_def opDelete_def fs_ok_def)
    next
      case hot: (Some ws)
      then have "ws = vs" using mem vs(1) by (simp add: fs_mem_def)
      moreover have "fs_mem env (s\<lparr>fsHot := (k, ws) # AList.delete k (fsHot s)\<rparr>) l"
        using mem hot delete_notin_dom [of k "fsHot s"]
        by (auto simp: fs_mem_def fs_tab_def distinct_delete delete_conv' simp del: map_of_eq_Some_iff
            split: if_splits)
      ultimately show ?thesis
        using Some nd hot l vs assms(2)
        by (auto simp: File_GetVectorReadOnly32_def readVectorRecord32_def getHotVector_def fs_ok_def)
    qed
  qed
qed

text \<open>The ordered identifiers at the moment the offset is gone but the identifier is not.\<close>

lemma ids_without:
  assumes "fs_tab env s l" and "located (l @ [FDel k]) (gm_del k (fsOffsets s))"
  shows "set (oi_ids (envBt env) (File_orderedIDsLocked env (s\<lparr>fsDisk := d, fsOffsets := gm_del k (fsOffsets s)\<rparr>))) - {k} = dom (log_map l) - {k}"
proof (cases "fsIds s")
  case None
  then have "fs_tab env (s\<lparr>fsDisk := d, fsOffsets := gm_del k (fsOffsets s)\<rparr>) (l @ [FDel k])" using assms by (simp add: fs_tab_def)
  from fs_tab_ids [OF this] show ?thesis unfolding log_map_snoc fop_apply.simps by auto
next
  case (Some i)
  then show ?thesis using assms(1) by (simp add: fs_tab_def File_orderedIDsLocked_def)
qed

lemma File_Delete_missing:
  assumes "fs_ok env s l" and "gm_get (fsOffsets s) k = None"
  shows "File_DeleteVector env no_fault s k = (Some ErrVectorNotFound, s)" and "k \<notin> dom (log_map l)"
proof -
  show "File_DeleteVector env no_fault s k = (Some ErrVectorNotFound, s)" using assms(2) by (simp add: File_DeleteVector_def)
  have "located l (fsOffsets s)" using assms(1) by (simp add: fs_ok_def fs_mem_def fs_tab_def)
  then show "k \<notin> dom (log_map l)" using assms(2) by (simp add: located_def domIff)
qed

lemma File_Delete_ok:
  assumes "fs_ok env s l" and "File_DeleteVector env no_fault s k = (e, s')"
  shows "(\<exists>l'. fs_ok env s' l' \<and> log_map l' = (log_map l)(k := None)) \<and>
    e = (if k \<in> dom (log_map l) then None else Some ErrVectorNotFound)"
proof (cases "gm_get (fsOffsets s) k")
  case None
  note m = File_Delete_missing [OF assms(1) None]
  then have "(log_map l)(k := None) = log_map l" by (simp add: fun_upd_idem domIff)
  then show ?thesis using assms m by auto
next
  case (Some meta)
  have opn: "fsHandle s = FOpen" "fsDisk s = log_bytes l" and mem: "fs_mem env s l" and tab: "fs_tab env s l"
    and loc: "located l (fsOffsets s)" and bt: "btree_ok (envBt env)"
    using assms(1) by (simp_all add: fs_ok_def fs_mem_def fs_tab_def env_ok_def)
  have nd: "\<not> metaDeleted meta" using loc Some by (auto simp: located_def located_at_def)
  have kin: "k \<in> dom (log_map l)" using Some located_dom [OF loc] by auto
  have fits: "rec_fits k ([] :: float64 list)"
    using kin log_map_fits [of l k] loc by (auto simp: located_def rec_fits_def)
  define s1 where "s1 = s\<lparr>fsDisk := fsDisk s @ framed (del_payload k)\<rparr>"
  define s2 where "s2 = s1\<lparr>fsOffsets := gm_del k (fsOffsets s1)\<rparr>"
  define s3 where "s3 = s2\<lparr>fsIds := Some (oi_Delete (envBt env) (File_orderedIDsLocked env s2) k)\<rparr>"
  define s4 where "s4 = deleteHotVector s3 k"
  define s5 where "s5 = s4\<lparr>fsWrites := fsWrites s4 + 1, fsStale := fsStale s4 + 1,
    fsPending := fsPending s4 + 1\<rparr>"
  let ?l = "l @ [FDel k]"
  have lm: "log_map ?l = (log_map l)(k := None)" unfolding log_map_snoc fop_apply.simps ..
  have locd: "located ?l (fsOffsets s2)"
    using located_del [OF loc fits] by (simp add: s2_def s1_def)
  have ids2: "set (oi_ids (envBt env) (File_orderedIDsLocked env s2)) - {k} = dom (log_map l) - {k}"
    using ids_without [OF tab located_del [OF loc fits]] by (simp add: s2_def s1_def)
  have flds: "fsIds s5 = Some (oi_Delete (envBt env) (File_orderedIDsLocked env s2) k)"
    "fsOffsets s5 = fsOffsets s2" "fsHot s5 = AList.delete k (fsHot s)" "fsHotMax s5 = fsHotMax s"
    "fsDisk s5 = fsDisk s @ framed (del_payload k)" "fsHandle s5 = fsHandle s"
    by (simp_all add: s5_def s4_def s3_def s2_def s1_def deleteHotVector_def)
  have "fs_tab env s5 ?l"
    using tab locd bt ids2 unfolding fs_tab_def lm flds by (simp add: distinct_delete)
  then have s5: "fs_ok env s5 ?l"
    using mem opn unfolding fs_ok_def fs_mem_def lm flds
    by (auto simp: delete_conv' simp del: map_of_eq_Some_iff split: if_splits)
  obtain e6 s6 where sy: "syncPendingLocked no_fault False s5 = (e6, s6)" by force
  note s6 = sync_no_fault [OF s5 sy]
  have app: "fs_append no_fault s (framed (del_payload k)) = (None, s1)"
    using opn(1) by (simp add: fs_append_def s1_def)
  have eq: "File_DeleteVector env no_fault s k = maybeCompactLocked env no_fault s6"
    using Some nd opn sy s6(1)
    by (simp add: File_DeleteVector_def ensureOpenLocked_def encode_del app Let_def
        flip: s2_def) (simp flip: s3_def s4_def s5_def)
  show ?thesis using maybeCompact_ok [OF s6(2)] assms(2) kin unfolding eq lm by auto
qed

lemma File_List_ok:
  assumes "fs_ok env s l"
  shows "\<exists>vs. File_ListVectors env no_fault s = Some vs \<and> vlists (log_map l) vs"
proof -
  have it: "iter_ok (envIter env)" and loc: "located l (fsOffsets s)" and opn: "fsHandle s = FOpen"
    using assms by (simp_all add: fs_ok_def fs_mem_def fs_tab_def env_ok_def)
  have nd: "filter (\<lambda>(_, meta). \<not> metaDeleted meta) (gm_range (envIter env) (fsOffsets s)) =
      gm_range (envIter env) (fsOffsets s)"
    using it loc by (auto simp: filter_id_conv gm_range_mem located_live)
  have "live_scan no_fault s (gm_range (envIter env) (fsOffsets s)) =
      Some (map (\<lambda>(k, _). \<lparr>vID = k, vValues = ToFloat64 (the (log_map l k))\<rparr>) (gm_range (envIter env) (fsOffsets s)))"
    using it by (intro live_scan_ok [OF assms]) (simp add: gm_range_mem)
  then show ?thesis
    using live_vlists [OF assms it] opn by (simp add: File_ListVectors_def nd)
qed

lemma File_Page_ok:
  assumes "fs_ok env s l"
  shows "File_PageVectorIDs env s a n = page_spec a n (sorted_list_of_set (dom (log_map l)))"
proof -
  have tab: "fs_tab env s l" and bt: "btree_ok (envBt env)" and opn: "fsHandle s = FOpen"
    using assms by (simp_all add: fs_ok_def fs_mem_def fs_tab_def env_ok_def)
  define ids where "ids = File_orderedIDsLocked env (File_ensureOrderedIDs env s)"
  have "set (oi_ids (envBt env) ids) = dom (log_map l)"
    using fs_tab_ids [OF tab]
    by (auto simp: ids_def File_ensureOrderedIDs_def File_orderedIDsLocked_def split: option.splits)
  then have "oi_ids (envBt env) ids = sorted_list_of_set (dom (log_map l))"
    using oi_ids_sorted [OF bt] by (metis sorted_list_of_set.idem_if_sorted_distinct strict_sorted_iff)
  moreover have "fsHandle (File_ensureOrderedIDs env s) = FOpen"
    using opn by (simp add: File_ensureOrderedIDs_def)
  ultimately show ?thesis by (simp add: File_PageVectorIDs_def PageAfter_eq [OF bt] flip: ids_def)
qed

interpretation file_store: vector_store "fs_inv env" "\<lambda>v. rec_fits (vID v) (vValues v)" fs_abs
  "File_UpsertVectors env no_fault" "\<lambda>s k. (File_GetVector no_fault s k, s)"
  "File_DeleteVector env no_fault" "\<lambda>s. case File_ListVectors env no_fault s of Some vs \<Rightarrow> vs | None \<Rightarrow> []"
  "File_PageVectorIDs env"
  for env :: "'t storeEnv"
proof (unfold_locales, goal_cases)
  case (1 s k ws)
  then show ?case using log_map_canon fs_abs_eq by (metis fs_inv_def)
next
  case (2 s)
  then show ?case using log_map_finite fs_abs_eq by (metis fs_inv_def)
next
  case (3 s vs e s')
  then obtain l where l: "fs_ok env s l" by (auto simp: fs_inv_def)
  show ?case using File_Upsert_ok [OF l 3(2,3)] fs_abs_eq l by (metis fs_inv_def)
next
  case (4 s k r s')
  then obtain l where l: "fs_ok env s l" by (auto simp: fs_inv_def)
  with 4 File_Get_ok [OF l] fs_abs_eq [OF l] show ?case by auto
next
  case (5 s k e s')
  then obtain l where l: "fs_ok env s l" by (auto simp: fs_inv_def)
  show ?case using File_Delete_ok [OF l 5(2)] fs_abs_eq l by (metis fs_inv_def)
next
  case (6 s)
  then show ?case using File_List_ok fs_abs_eq by (fastforce simp: fs_inv_def)
next
  case (7 s a n)
  then show ?case using File_Page_ok fs_abs_eq by (metis fs_inv_def)
qed

section \<open>Opening\<close>

lemma open_log:
  assumes "env_ok env" and "list_all fop_fits l"
  shows "\<exists>s. newFileVectorStoreWithOptions env no_fault n (log_bytes l) = Some s \<and> fs_inv env s \<and> fs_abs s = log_map l"
proof -
  obtain offs stats where rb: "rebuildFileVectorStoreIndex (log_bytes l) = Inr (offs, stats)" "located l offs"
    using rebuild_log [OF assms(2)] by blast
  define s1 where "s1 = clearHotVectors ((fs_initial env n (log_bytes l))\<lparr>fsHandle := FOpen, fsOffsets := offs,
    fsIds := Some (newOrderedIDIndexFromFileOffsets env offs), fsWrites := totalRecords stats,
    fsStale := staleRecords stats\<rparr>)"
  have "fs_tab env (s1\<lparr>fsIds := None\<rparr>) l"
    using assms rb by (simp add: fs_tab_def s1_def clearHotVectors_def fs_initial_def)
  from fs_tab_ids [OF this] have "set (oi_ids (envBt env) (newOrderedIDIndexFromFileOffsets env offs)) = dom (log_map l)"
    by (simp add: File_orderedIDsLocked_def s1_def clearHotVectors_def)
  then have "fs_ok env s1 l"
    using assms rb by (simp add: fs_ok_def fs_mem_def fs_tab_def s1_def clearHotVectors_def fs_initial_def)
  from maybeCompact_ok [OF this] obtain s' l' where s': "maybeCompactLocked env no_fault s1 = (None, s')"
    "fs_ok env s' l'" "log_map l' = log_map l" by blast
  have "newFileVectorStoreWithOptions env no_fault n (log_bytes l) = Some s'"
    using rb(1) s'(1)
    by (simp add: newFileVectorStoreWithOptions_def openLocked_def fs_initial_def s1_def)
  with s' fs_abs_eq show ?thesis by (fastforce simp: fs_inv_def)
qed

text \<open>Whatever a fault-free store holds, a new process that opens its file finds.\<close>

lemma reopen_same:
  assumes "fs_inv env s" and "env_ok env'"
  shows "\<exists>s'. newFileVectorStoreWithOptions env' no_fault n (fsDisk s) = Some s' \<and>
    fs_inv env' s' \<and> fs_abs s' = fs_abs s"
proof -
  obtain l where l: "fs_ok env s l" using assms(1) by (auto simp: fs_inv_def)
  then have "fsDisk s = log_bytes l" "list_all fop_fits l"
    by (simp_all add: fs_ok_def fs_mem_def fs_tab_def located_def)
  with open_log [OF assms(2), of l n] fs_abs_eq [OF l] show ?thesis by auto
qed

section \<open>What faults do\<close>

lemma rebuild_loop_log:
  "list_all fop_fits l \<Longrightarrow> \<exists>st'. rebuild_loop (log_bytes l @ tail) off st = rebuild_loop tail (off + length (log_bytes l)) st'"
proof (induction l arbitrary: off st)
  case (Cons x l)
  have "rebuild_loop (log_bytes (x # l) @ tail) off st = rebuild_loop (log_bytes l @ tail) (off + length (fop_bytes x))
      (rebuild_step (fop_record x) off (word_of_nat (length (fop_bytes x) - 4)) st)"
    using Cons.prems by (simp add: rebuild_loop_fop)
  moreover obtain st' where "rebuild_loop (log_bytes l @ tail) (off + length (fop_bytes x))
      (rebuild_step (fop_record x) off (word_of_nat (length (fop_bytes x) - 4)) st) =
      rebuild_loop tail (off + length (fop_bytes x) + length (log_bytes l)) st'"
    using Cons.IH Cons.prems by (metis list.pred_inject(2))
  ultimately show ?case by (metis add.assoc length_append log_bytes_simps(2))
qed auto

lemma rebuild_torn:
  assumes "length p < 2 ^ 32" and "0 < n" and "n < length (framed p)"
  shows "\<exists>e. rebuild_loop (take n (framed p)) off st = Inl e"
proof (cases "n < 4")
  case True
  then have "take n (framed p) \<noteq> []" "length (take n (framed p)) < 4"
    using assms length_framed [of p] by (auto simp flip: length_greater_0_conv)
  then show ?thesis by (subst rebuild_loop.simps) (simp only: if_False if_True, blast)
next
  case False
  then have t: "take n (framed p) = PutUint32 (word_of_nat (length p)) @ take (n - 4) p"
    by (simp add: framed_def)
  have "PutUint32 (word_of_nat (length p)) \<noteq> []" by (simp flip: length_greater_0_conv)
  moreover have "n - 4 < length p" using assms(3) False by simp
  ultimately show ?thesis
    unfolding t using assms(1)
    by (subst rebuild_loop.simps) (simp add: Let_def unat_word32)
qed

text \<open>A crash in the middle of an append: the constructor panics on the torn file.\<close>

lemma torn_open:
  assumes "list_all fop_fits l" and "fop_fits x" and "0 < n" and "n < length (fop_bytes x)"
  shows "newFileVectorStoreWithOptions env flt k (log_bytes l @ take n (fop_bytes x)) = None"
proof -
  obtain p where p: "fop_bytes x = framed p" "length p < 2 ^ 32"
    using assms(2) by (cases x) (auto simp: rec_fits_def)
  obtain st where "rebuildFileVectorStoreIndex (log_bytes l @ take n (fop_bytes x)) =
      rebuild_loop (take n (framed p)) (length (log_bytes l)) st"
    using rebuild_loop_log [OF assms(1), of "take n (framed p)" 0]
    unfolding rebuildFileVectorStoreIndex_def p(1) by (metis add_0)
  then obtain e where "rebuildFileVectorStoreIndex (log_bytes l @ take n (fop_bytes x)) = Inl e"
    using rebuild_torn [OF p(2) assms(3)] assms(4) unfolding p(1) by metis
  then show ?thesis
    by (simp add: newFileVectorStoreWithOptions_def openLocked_def fs_initial_def split: option.split)
qed

text \<open>Compaction takes an entry it cannot read for a dead one.\<close>

lemma live_scan_unreadable:
  "ioErr flt IoReadAt = Some e \<Longrightarrow> live_scan flt s xs = Some []"
  by (induction xs) (auto simp: fs_read_def)

lemma compact_unreadable:
  assumes "fs_ok env s l" and "ioErr flt IoReadAt = Some e" and "\<And>x. x \<noteq> IoReadAt \<Longrightarrow> ioErr flt x = None"
  shows "\<exists>s'. compactLocked env flt s = (None, s') \<and> fs_inv env s' \<and> fs_abs s' = Map.empty"
proof -
  have opn: "fsHandle s = FOpen" and tab: "fs_tab env s l"
    using assms(1) by (simp_all add: fs_ok_def fs_mem_def)
  obtain s1 where sy: "syncPendingLocked flt True s = (None, s1)" "fsHandle s1 = FOpen"
    "fsHotMax s1 = fsHotMax s"
    using assms(3) [of IoSync] opn
    by (cases "fsPending s = 0") (simp_all add: syncPendingLocked_def)
  define s' where "s' = clearHotVectors (s1\<lparr>fsHandle := FOpen, fsDisk := [], fsOffsets := [],
      fsIds := Some (newOrderedIDIndex (envBt env)), fsWrites := 0, fsStale := 0, fsPending := 0,
      fsCompacts := fsCompacts s1 + 1\<rparr>)"
  have "compactLocked env flt s = (None, s')"
    using opn sy assms(3) by (simp add: compactLocked_def s'_def live_scan_unreadable [OF assms(2)])
  moreover have "fs_ok env s' []"
    using tab sy(3) by (simp add: fs_ok_def fs_mem_def fs_tab_def s'_def clearHotVectors_def env_ok_def)
  ultimately show ?thesis using fs_abs_eq by (fastforce simp: fs_inv_def)
qed

section \<open>Properties\<close>

lemma file_store_refines_map_facts:
  assumes "fs_inv env s"
  shows "\<forall>v \<in> set vs. rec_fits (vID v) (vValues v) \<Longrightarrow> File_UpsertVectors env no_fault s vs = (e, s') \<Longrightarrow>
      e = None \<and> fs_inv env s' \<and> fs_abs s' = foldl vput (fs_abs s) vs"
    and "File_DeleteVector env no_fault s k = (e, s') \<Longrightarrow>
      e = (if k \<in> dom (fs_abs s) then None else Some ErrVectorNotFound) \<and> fs_inv env s' \<and>
      fs_abs s' = (fs_abs s)(k := None)"
    and "File_GetVector no_fault s k = vget (fs_abs s) k"
    and "\<exists>vs. File_ListVectors env no_fault s = Some vs \<and> vlists (fs_abs s) vs"
    and "File_PageVectorIDs env s a n = page_spec a n (sorted_list_of_set (dom (fs_abs s)))"
proof -
  show "\<forall>v \<in> set vs. rec_fits (vID v) (vValues v) \<Longrightarrow> File_UpsertVectors env no_fault s vs = (e, s') \<Longrightarrow>
      e = None \<and> fs_inv env s' \<and> fs_abs s' = foldl vput (fs_abs s) vs"
    using file_store.upsert [OF assms, of vs e s'] by blast
  show "File_DeleteVector env no_fault s k = (e, s') \<Longrightarrow>
      e = (if k \<in> dom (fs_abs s) then None else Some ErrVectorNotFound) \<and> fs_inv env s' \<and>
      fs_abs s' = (fs_abs s)(k := None)"
    using file_store.del [OF assms, of k e s'] by blast
  show "File_GetVector no_fault s k = vget (fs_abs s) k" using file_store.getv [OF assms refl, of k] by simp
  show "\<exists>vs. File_ListVectors env no_fault s = Some vs \<and> vlists (fs_abs s) vs"
    using assms File_List_ok fs_abs_eq unfolding fs_inv_def by metis
  show "File_PageVectorIDs env s a n = page_spec a n (sorted_list_of_set (dom (fs_abs s)))"
    using assms by (rule file_store.page)
qed

lemma fs_inv_empty: "env_ok env \<Longrightarrow> \<exists>s. newFileVectorStoreWithOptions env no_fault n [] = Some s \<and>
    fs_inv env s \<and> fs_abs s = Map.empty"
  using open_log [of env "[]" n] by simp

text \<open>
  C8. The file store implements the store interface: from any state that satisfies the
  invariant, without faults, a batch upsert and a delete succeed, keep the invariant, and have on
  the contents exactly the effect of the abstract map operations, also when they trigger a
  compaction; reads return the contents; the listing lists each entry once.
\<close>

theorem file_store_refines_map:
  assumes "fs_inv env s"
  shows "(\<forall>vs e s'. (\<forall>v \<in> set vs. rec_fits (vID v) (vValues v)) \<and> File_UpsertVectors env no_fault s vs = (e, s') \<longrightarrow>
      e = None \<and> fs_inv env s' \<and> fs_abs s' = foldl vput (fs_abs s) vs) \<and>
    (\<forall>k e s'. File_DeleteVector env no_fault s k = (e, s') \<longrightarrow>
      e = (if k \<in> dom (fs_abs s) then None else Some ErrVectorNotFound) \<and> fs_inv env s' \<and>
      fs_abs s' = (fs_abs s)(k := None)) \<and>
    (\<forall>k. File_GetVector no_fault s k = vget (fs_abs s) k) \<and>
    (\<exists>vs. File_ListVectors env no_fault s = Some vs \<and> vlists (fs_abs s) vs) \<and>
    (\<forall>a n. File_PageVectorIDs env s a n = page_spec a n (sorted_list_of_set (dom (fs_abs s))))"
  using file_store_refines_map_facts [OF assms] by blast

theorem file_store_refines_map_witness:
  "\<exists>s s'. newFileVectorStoreWithOptions set_env no_fault 1 [] = Some s \<and>
     File_UpsertVectors set_env no_fault s [\<lparr>vID = ''a'', vValues = [0]\<rparr>] = (None, s') \<and>
     fs_inv set_env s' \<and> fs_abs s' = [''a'' \<mapsto> ToFloat32 [0]]"
proof -
  obtain s where s: "newFileVectorStoreWithOptions set_env no_fault 1 [] = Some s" "fs_inv set_env s"
    "fs_abs s = Map.empty"
    using fs_inv_empty [OF set_env_ok] by blast
  obtain e s' where u: "File_UpsertVectors set_env no_fault s [\<lparr>vID = ''a'', vValues = [0]\<rparr>] = (e, s')" by force
  have fits: "\<forall>v \<in> set [\<lparr>vID = ''a'', vValues = [0 :: float64]\<rparr>]. rec_fits (vID v) (vValues v)"
    by (simp add: rec_fits_def)
  have "e = None \<and> fs_inv set_env s' \<and> fs_abs s' = foldl vput (fs_abs s) [\<lparr>vID = ''a'', vValues = [0]\<rparr>]"
    using file_store_refines_map [OF s(2)] fits u by blast
  with u s show ?thesis by (auto simp: vput_def)
qed

text \<open>
  Durability of the file store: opening the data file of a store in a new process (with any
  ordered-set implementation and any map iteration order) gives a store with the same contents.
\<close>

theorem file_store_reopen:
  assumes "fs_inv env s" and "env_ok env'"
  shows "\<exists>s'. newFileVectorStoreWithOptions env' no_fault n (fsDisk s) = Some s' \<and>
    fs_inv env' s' \<and> fs_abs s' = fs_abs s"
  using assms by (rule reopen_same)

theorem file_store_reopen_witness:
  "\<exists>s s'. newFileVectorStoreWithOptions set_env no_fault 1 [] = Some s \<and>
     newFileVectorStoreWithOptions set_env no_fault 5 (fsDisk s) = Some s' \<and> fs_abs s' = fs_abs s"
  using fs_inv_empty [OF set_env_ok, of 1] file_store_reopen [OF _ set_env_ok, of set_env _ 5] by metis

text \<open>
  C37. A torn tail is fatal: if a crash left a proper prefix of a record after a well-formed log,
  the constructor panics, so the process does not start and the intact records before it are
  not served.
\<close>

theorem torn_tail_panics:
  assumes "list_all fop_fits l" and "fop_fits x" and "0 < n" and "n < length (fop_bytes x)"
  shows "newFileVectorStoreWithOptions env flt k (log_bytes l @ take n (fop_bytes x)) = None"
  using assms by (rule torn_open)

theorem torn_tail_panics_witness:
  "newFileVectorStoreWithOptions set_env no_fault 1
     (log_bytes [FPut ''a'' [0]] @ take 5 (fop_bytes (FDel ''a''))) = None"
  by (rule torn_tail_panics) (simp_all add: rec_fits_def)

text \<open>
  C38. Compaction under read errors loses data: when the positioned reads of a compaction fail
  (and nothing else does), compaction reports success and leaves an empty store.
\<close>

theorem compaction_drops_unreadable:
  assumes "fs_inv env s" and "ioErr flt IoReadAt = Some e" and "\<And>x. x \<noteq> IoReadAt \<Longrightarrow> ioErr flt x = None"
  shows "\<exists>s'. compactLocked env flt s = (None, s') \<and> fs_inv env s' \<and> fs_abs s' = Map.empty"
  using assms compact_unreadable unfolding fs_inv_def by metis

theorem compaction_drops_unreadable_witness:
  "\<exists>s s' s''. fs_abs s' \<noteq> Map.empty \<and> fs_inv set_env s' \<and> File_UpsertVectors set_env no_fault s
       [\<lparr>vID = ''a'', vValues = [0]\<rparr>] = (None, s') \<and>
     compactLocked set_env \<lparr>ioErr = (\<lambda>x. if x = IoReadAt then Some (ErrIO ''EIO'') else None), ioPartial = 0\<rparr> s' =
       (None, s'') \<and> fs_abs s'' = Map.empty"
proof -
  obtain s where s: "fs_inv set_env s" using fs_inv_empty [OF set_env_ok] by blast
  obtain e s' where u: "File_UpsertVectors set_env no_fault s [\<lparr>vID = ''a'', vValues = [0]\<rparr>] = (e, s')" by force
  have s': "e = None" "fs_inv set_env s'" "fs_abs s' ''a'' \<noteq> None"
    using file_store.upsert [OF s _ u] by (simp_all add: rec_fits_def vput_def)
  let ?flt = "\<lparr>ioErr = (\<lambda>x. if x = IoReadAt then Some (ErrIO ''EIO'') else None), ioPartial = 0\<rparr>"
  obtain s'' where "compactLocked set_env ?flt s' = (None, s'')" "fs_abs s'' = Map.empty"
    using compaction_drops_unreadable [OF s'(2), of ?flt "ErrIO ''EIO''"] by auto
  with u s' show ?thesis by (metis (no_types, lifting))
qed

end
