(* ===== verification/CachedStore.thy ===== *)
theory CachedStore
  imports FileStore
begin

text \<open>
  \<^verbatim>\<open>internal/core/cached_vector_store.go\<close>: the read-through cache in front of a store, with a
  bound on entries and bytes, expiry, and least-recently-used eviction. The definitions take the
  operations of the backend as arguments, as the Go type takes an interface value. Inside the
  locale \<open>cached_store\<close>, which extends the interface of the backend, the cache is shown coherent
  with it, so that the cached store implements the same interface; the locale is interpreted for
  the memory and for the file backend. The last part models the two critical sections of a
  concurrent \<^verbatim>\<open>GetVector\<close> and \<^verbatim>\<open>DeleteVector\<close> as a step relation.
\<close>

section \<open>State\<close>

record cacheEntry =
  ceID :: string
  ceValues :: "float32 list"
  ceExpiresAt :: "int option"
  ceSizeBytes :: int

text \<open>
  \<^verbatim>\<open>entries\<close> indexes the elements of the list \<^verbatim>\<open>order\<close>; both together are the list of entries, most
  recently used first. The zero time of \<^verbatim>\<open>expiresAt\<close> is \<open>None\<close>.
\<close>

record cacheState =
  caMaxBytes :: int
  caMaxItems :: int
  caTtl :: int
  caEntries :: "cacheEntry list"
  caCurrentBytes :: int
  caHits :: "64 word"
  caMisses :: "64 word"
  caEvictions :: "64 word"

record 'b cachedVectorStore =
  csBackend :: 'b
  csCache :: cacheState

record cacheStats =
  cstHits :: "64 word"
  cstMisses :: "64 word"
  cstEvictions :: "64 word"
  cstItems :: int
  cstBytes :: int

record cacheOptions =
  coEnabled :: bool
  coMaxBytes :: int
  coMaxItems :: int
  coTTL :: int

definition estimateVectorSizeBytes32 :: "string \<Rightarrow> float32 list \<Rightarrow> int" where
  "estimateVectorSizeBytes32 vid values = int (length vid) + int (length values) * 4"

text \<open>\<^verbatim>\<open>Left\<close> is the bare backend, \<^verbatim>\<open>Right\<close> the cached store.\<close>

definition newCachedVectorStore :: "'b \<Rightarrow> cacheOptions \<Rightarrow> 'b + 'b cachedVectorStore" where
  "newCachedVectorStore backend opts =
     (if \<not> coEnabled opts then Inl backend
      else Inr \<lparr>csBackend = backend, csCache =
        \<lparr>caMaxBytes = (if coMaxBytes opts \<le> 0 then 8388608 else coMaxBytes opts),
         caMaxItems = (if coMaxItems opts \<le> 0 then 1024 else coMaxItems opts),
         caTtl = coTTL opts, caEntries = [], caCurrentBytes = 0, caHits = 0, caMisses = 0, caEvictions = 0\<rparr>\<rparr>)"

section \<open>The cache\<close>

definition ca_find :: "cacheState \<Rightarrow> string \<Rightarrow> cacheEntry option" where
  "ca_find c vid = find (\<lambda>e. ceID e = vid) (caEntries c)"

definition ca_drop :: "string \<Rightarrow> cacheEntry list \<Rightarrow> cacheEntry list" where
  "ca_drop vid es = filter (\<lambda>e. ceID e \<noteq> vid) es"

definition removeElementLocked :: "cacheState \<Rightarrow> cacheEntry option \<Rightarrow> cacheState" where
  "removeElementLocked c elem =
     (case elem of None \<Rightarrow> c
      | Some entry \<Rightarrow> c\<lparr>caCurrentBytes := caCurrentBytes c - ceSizeBytes entry,
                       caEntries := ca_drop (ceID entry) (caEntries c)\<rparr>)"

definition removeLocked :: "cacheState \<Rightarrow> string \<Rightarrow> cacheState" where
  "removeLocked c vid = removeElementLocked c (ca_find c vid)"

definition nextExpiry :: "int \<Rightarrow> cacheState \<Rightarrow> int option" where
  "nextExpiry now c = (if caTtl c \<le> 0 then None else Some (now + caTtl c))"

definition isExpired :: "int \<Rightarrow> cacheEntry \<Rightarrow> bool" where
  "isExpired now entry = (case ceExpiresAt entry of None \<Rightarrow> False | Some t \<Rightarrow> t < now)"

text \<open>
  The eviction loop. With an empty list \<^verbatim>\<open>removeElementLocked(nil)\<close> changes nothing, so the loop
  would not end if the bounds were still exceeded: \<open>None\<close>.
\<close>

partial_function (option) evictLocked :: "cacheState \<Rightarrow> cacheState option" where
  "evictLocked c =
     (if int (length (caEntries c)) > caMaxItems c \<or> caCurrentBytes c > caMaxBytes c then
        evictLocked (removeElementLocked (c\<lparr>caEvictions := caEvictions c + 1\<rparr>)
          (if caEntries c = [] then None else Some (last (caEntries c))))
      else Some c)"

definition putLocked32 :: "int \<Rightarrow> cacheState \<Rightarrow> string \<Rightarrow> float32 list \<Rightarrow> cacheState option" where
  "putLocked32 now c vid values =
     (let sizeBytes = estimateVectorSizeBytes32 vid values;
          entry = \<lparr>ceID = vid, ceValues = values, ceExpiresAt = nextExpiry now c, ceSizeBytes = sizeBytes\<rparr>
      in case ca_find c vid of
           Some old \<Rightarrow>
             evictLocked (c\<lparr>caCurrentBytes := caCurrentBytes c - ceSizeBytes old + sizeBytes,
               caEntries := entry # ca_drop vid (caEntries c)\<rparr>)
         | None \<Rightarrow>
             evictLocked (c\<lparr>caCurrentBytes := caCurrentBytes c + sizeBytes,
               caEntries := entry # caEntries c\<rparr>))"

definition putLocked :: "int \<Rightarrow> cacheState \<Rightarrow> vector \<Rightarrow> cacheState option" where
  "putLocked now c vec = putLocked32 now c (vID vec) (ToFloat32 (vValues vec))"

definition getCachedReadOnly32 :: "int \<Rightarrow> cacheState \<Rightarrow> string \<Rightarrow> float32 list option \<times> cacheState" where
  "getCachedReadOnly32 now c vid =
     (case ca_find c vid of None \<Rightarrow> (None, c)
      | Some entry \<Rightarrow>
          if isExpired now entry then
            (None, removeElementLocked (c\<lparr>caMisses := caMisses c + 1\<rparr>) (Some entry))
          else (Some (ceValues entry),
                c\<lparr>caHits := caHits c + 1, caEntries := entry # ca_drop vid (caEntries c)\<rparr>))"

definition getCached :: "int \<Rightarrow> cacheState \<Rightarrow> string \<Rightarrow> vector option \<times> cacheState" where
  "getCached now c vid =
     (case ca_find c vid of None \<Rightarrow> (None, c)
      | Some entry \<Rightarrow>
          if isExpired now entry then
            (None, removeElementLocked (c\<lparr>caMisses := caMisses c + 1\<rparr>) (Some entry))
          else (Some \<lparr>vID = ceID entry, vValues = ToFloat64 (ceValues entry)\<rparr>,
                c\<lparr>caHits := caHits c + 1, caEntries := entry # ca_drop vid (caEntries c)\<rparr>))"

definition getCachedReadOnly :: "int \<Rightarrow> cacheState \<Rightarrow> string \<Rightarrow> vector option \<times> cacheState" where
  "getCachedReadOnly now c vid =
     (case ca_find c vid of None \<Rightarrow> (None, c)
      | Some entry \<Rightarrow>
          if isExpired now entry then
            (None, removeElementLocked (c\<lparr>caMisses := caMisses c + 1\<rparr>) (Some entry))
          else (Some \<lparr>vID = ceID entry, vValues = ToFloat64 (ceValues entry)\<rparr>,
                c\<lparr>caHits := caHits c + 1, caEntries := entry # ca_drop vid (caEntries c)\<rparr>))"

definition Cached_Stats :: "'b cachedVectorStore \<Rightarrow> cacheStats" where
  "Cached_Stats s =
     \<lparr>cstHits = caHits (csCache s), cstMisses = caMisses (csCache s), cstEvictions = caEvictions (csCache s),
      cstItems = int (length (caEntries (csCache s))), cstBytes = maxInt64 (caCurrentBytes (csCache s)) 0\<rparr>"

section \<open>Operations of the cached store\<close>

text \<open>\<open>upsert\<close>, \<open>getv\<close>, \<open>get32\<close>, \<open>del\<close> are the operations of the backend; \<open>None\<close> is a call that does not return.\<close>

fun put_all :: "int \<Rightarrow> cacheState \<Rightarrow> vector list \<Rightarrow> cacheState option" where
  "put_all now c [] = Some c"
| "put_all now c (vec # rest) = (case putLocked now c vec of None \<Rightarrow> None | Some c' \<Rightarrow> put_all now c' rest)"

definition Cached_UpsertVectors :: "('b \<Rightarrow> vector list \<Rightarrow> goerror option \<times> 'b) \<Rightarrow> int \<Rightarrow>
    'b cachedVectorStore \<Rightarrow> vector list \<Rightarrow> (goerror option \<times> 'b cachedVectorStore) option" where
  "Cached_UpsertVectors upsert now s vectors =
     (if vectors = [] then Some (None, s)
      else case upsert (csBackend s) vectors of
        (Some e, b) \<Rightarrow> Some (Some e, s\<lparr>csBackend := b\<rparr>)
      | (None, b) \<Rightarrow>
          map_option (\<lambda>c. (None, s\<lparr>csBackend := b, csCache := c\<rparr>)) (put_all now (csCache s) vectors))"

definition Cached_UpsertVector :: "('b \<Rightarrow> vector list \<Rightarrow> goerror option \<times> 'b) \<Rightarrow> int \<Rightarrow>
    'b cachedVectorStore \<Rightarrow> vector \<Rightarrow> (goerror option \<times> 'b cachedVectorStore) option" where
  "Cached_UpsertVector upsert now s vec = Cached_UpsertVectors upsert now s [vec]"

definition Cached_GetVector :: "('b \<Rightarrow> string \<Rightarrow> vector result \<times> 'b) \<Rightarrow> int \<Rightarrow>
    'b cachedVectorStore \<Rightarrow> string \<Rightarrow> (vector result \<times> 'b cachedVectorStore) option" where
  "Cached_GetVector getv now s vid =
     (case getCached now (csCache s) vid of
        (Some vec, c) \<Rightarrow> Some (Inr vec, s\<lparr>csCache := c\<rparr>)
      | (None, c) \<Rightarrow>
          (let c1 = c\<lparr>caMisses := caMisses c + 1\<rparr>
           in case getv (csBackend s) vid of
                (Inl err, b) \<Rightarrow> Some (Inl err, s\<lparr>csBackend := b, csCache := c1\<rparr>)
              | (Inr vec, b) \<Rightarrow>
                  map_option (\<lambda>c2. (Inr \<lparr>vID = vID vec, vValues = vValues vec\<rparr>, s\<lparr>csBackend := b, csCache := c2\<rparr>))
                    (putLocked now c1 vec)))"

definition Cached_GetVectorReadOnly :: "('b \<Rightarrow> string \<Rightarrow> vector result \<times> 'b) \<Rightarrow> int \<Rightarrow>
    'b cachedVectorStore \<Rightarrow> string \<Rightarrow> (vector result \<times> 'b cachedVectorStore) option" where
  "Cached_GetVectorReadOnly getv now s vid =
     (case getCachedReadOnly now (csCache s) vid of
        (Some vec, c) \<Rightarrow> Some (Inr vec, s\<lparr>csCache := c\<rparr>)
      | (None, c) \<Rightarrow>
          (let c1 = c\<lparr>caMisses := caMisses c + 1\<rparr>
           in case getv (csBackend s) vid of
                (Inl err, b) \<Rightarrow> Some (Inl err, s\<lparr>csBackend := b, csCache := c1\<rparr>)
              | (Inr vec, b) \<Rightarrow>
                  map_option (\<lambda>c2. (Inr \<lparr>vID = vID vec, vValues = vValues vec\<rparr>, s\<lparr>csBackend := b, csCache := c2\<rparr>))
                    (putLocked now c1 vec)))"

definition Cached_GetVectorReadOnly32 :: "('b \<Rightarrow> string \<Rightarrow> float32 list result \<times> 'b) \<Rightarrow> int \<Rightarrow>
    'b cachedVectorStore \<Rightarrow> string \<Rightarrow> (float32 list result \<times> 'b cachedVectorStore) option" where
  "Cached_GetVectorReadOnly32 get32 now s vid =
     (case getCachedReadOnly32 now (csCache s) vid of
        (Some values, c) \<Rightarrow> Some (Inr values, s\<lparr>csCache := c\<rparr>)
      | (None, c) \<Rightarrow>
          (let c1 = c\<lparr>caMisses := caMisses c + 1\<rparr>
           in case get32 (csBackend s) vid of
                (Inl err, b) \<Rightarrow> Some (Inl err, s\<lparr>csBackend := b, csCache := c1\<rparr>)
              | (Inr values, b) \<Rightarrow>
                  map_option (\<lambda>c2. (Inr values, s\<lparr>csBackend := b, csCache := c2\<rparr>)) (putLocked32 now c1 vid values)))"

definition Cached_DeleteVector :: "('b \<Rightarrow> string \<Rightarrow> goerror option \<times> 'b) \<Rightarrow>
    'b cachedVectorStore \<Rightarrow> string \<Rightarrow> goerror option \<times> 'b cachedVectorStore" where
  "Cached_DeleteVector del s vid =
     (case del (csBackend s) vid of
        (Some e, b) \<Rightarrow> (Some e, s\<lparr>csBackend := b\<rparr>)
      | (None, b) \<Rightarrow> (None, s\<lparr>csBackend := b, csCache := removeLocked (csCache s) vid\<rparr>))"

definition Cached_ListVectors :: "('b \<Rightarrow> vector list) \<Rightarrow> 'b cachedVectorStore \<Rightarrow> vector list" where
  "Cached_ListVectors listv s = listv (csBackend s)"

definition Cached_PageVectorIDs :: "('b \<Rightarrow> string \<Rightarrow> int \<Rightarrow> string list) \<Rightarrow> 'b cachedVectorStore \<Rightarrow>
    string \<Rightarrow> int \<Rightarrow> string list" where
  "Cached_PageVectorIDs page s afterID limit = page (csBackend s) afterID limit"

definition Cached_IsPersistent :: "('b \<Rightarrow> bool) \<Rightarrow> 'b cachedVectorStore \<Rightarrow> bool" where
  "Cached_IsPersistent isPersistent s = isPersistent (csBackend s)"

text \<open>Optional capabilities of the backend are \<open>None\<close> where the type assertion of the code fails.\<close>

definition Cached_RangeVectorIDs :: "('b \<Rightarrow> ('s \<Rightarrow> string \<Rightarrow> 's \<times> bool) \<Rightarrow> 's \<Rightarrow> 's) option \<Rightarrow> ('b \<Rightarrow> vector list) \<Rightarrow>
    'b cachedVectorStore \<Rightarrow> ('s \<Rightarrow> string \<Rightarrow> 's \<times> bool) \<Rightarrow> 's \<Rightarrow> 's" where
  "Cached_RangeVectorIDs ranger listv s fn st =
     (case ranger of
        Some rng \<Rightarrow> rng (csBackend s) fn st
      | None \<Rightarrow> range_while (\<lambda>st vec. fn st (vID vec)) st (listv (csBackend s)))"

definition Cached_Close :: "('b \<Rightarrow> goerror option \<times> 'b) option \<Rightarrow> 'b cachedVectorStore \<Rightarrow>
    goerror option \<times> 'b cachedVectorStore" where
  "Cached_Close closer s =
     (case closer of None \<Rightarrow> (None, s)
      | Some cl \<Rightarrow> (case cl (csBackend s) of (e, b) \<Rightarrow> (e, s\<lparr>csBackend := b\<rparr>)))"

definition Cached_DiskStats :: "('b \<Rightarrow> diskStoreStats) option \<Rightarrow> 'b cachedVectorStore \<Rightarrow> diskStoreStats" where
  "Cached_DiskStats reader s =
     (case reader of
        None \<Rightarrow> \<lparr>dsFileBytes = 0, dsRecords = 0, dsStaleRecords = 0, dsCompactions = 0\<rparr>
      | Some rd \<Rightarrow> rd (csBackend s))"

section \<open>The cache in isolation\<close>

definition ca_wf :: "cacheState \<Rightarrow> bool" where
  "ca_wf c \<longleftrightarrow> distinct (map ceID (caEntries c)) \<and>
     caCurrentBytes c = (\<Sum>e \<leftarrow> caEntries c. ceSizeBytes e) \<and>
     list_all (\<lambda>e. ceSizeBytes e = estimateVectorSizeBytes32 (ceID e) (ceValues e)) (caEntries c) \<and>
     0 < caMaxBytes c \<and> 0 < caMaxItems c"

definition ca_bounded :: "cacheState \<Rightarrow> bool" where
  "ca_bounded c \<longleftrightarrow> int (length (caEntries c)) \<le> caMaxItems c \<and> caCurrentBytes c \<le> caMaxBytes c"

text \<open>Every entry agrees with the store \<open>m\<close> behind the cache.\<close>

definition ca_coherent :: "vmap \<Rightarrow> cacheState \<Rightarrow> bool" where
  "ca_coherent m c \<longleftrightarrow> (\<forall>e \<in> set (caEntries c). m (ceID e) = Some (ceValues e))"

lemma ca_find_Some: "ca_find c vid = Some e \<Longrightarrow> e \<in> set (caEntries c) \<and> ceID e = vid"
  by (auto simp: ca_find_def find_Some_iff)

lemma ca_find_None: "ca_find c vid = None \<longleftrightarrow> vid \<notin> ceID ` set (caEntries c)"
  by (auto simp: ca_find_def find_None_iff)

lemma sum_drop:
  "distinct (map ceID es) \<Longrightarrow> e \<in> set es \<Longrightarrow>
     (\<Sum>x \<leftarrow> ca_drop (ceID e) es. ceSizeBytes x) = (\<Sum>x \<leftarrow> es. ceSizeBytes x) - ceSizeBytes e"
proof (induction es)
  case (Cons a es)
  show ?case
  proof (cases "e = a")
    case True
    with Cons.prems have "\<forall>x \<in> set es. ceID x \<noteq> ceID e" by (metis distinct.simps(2) image_eqI list.simps(9) set_map)
    then have "ca_drop (ceID e) es = es" by (simp add: ca_drop_def)
    with True show ?thesis by (simp add: ca_drop_def)
  next
    case False
    with Cons have "e \<in> set es" "ceID a \<noteq> ceID e" by auto
    with Cons show ?thesis by (simp add: ca_drop_def)
  qed
qed simp

lemma distinct_drop [simp]: "distinct (map ceID es) \<Longrightarrow> distinct (map ceID (ca_drop k es))"
  by (simp add: ca_drop_def distinct_map_filter)

lemma set_drop [simp]: "set (ca_drop k es) = {e \<in> set es. ceID e \<noteq> k}"
  by (auto simp: ca_drop_def)

lemma length_drop_less: "e \<in> set es \<Longrightarrow> length (ca_drop (ceID e) es) < length es"
  by (auto simp: ca_drop_def intro: length_filter_less)

lemma ca_wf_remove:
  assumes "ca_wf c" and "e \<in> set (caEntries c)"
  shows "ca_wf (removeElementLocked c (Some e))"
  using assms by (auto simp: ca_wf_def removeElementLocked_def sum_drop list_all_iff)

lemma ca_coherent_remove: "ca_coherent m c \<Longrightarrow> ca_coherent m (removeElementLocked c e)"
  by (auto simp: ca_coherent_def removeElementLocked_def split: option.splits)

lemma ca_fields [simp]:
  "ca_wf (c\<lparr>caMisses := x\<rparr>) = ca_wf c" "ca_wf (c\<lparr>caHits := x\<rparr>) = ca_wf c" "ca_wf (c\<lparr>caEvictions := x\<rparr>) = ca_wf c"
  "ca_coherent m (c\<lparr>caMisses := x\<rparr>) = ca_coherent m c" "ca_coherent m (c\<lparr>caEvictions := x\<rparr>) = ca_coherent m c"
  "ca_bounded (c\<lparr>caMisses := x\<rparr>) = ca_bounded c" "ca_find (c\<lparr>caMisses := x\<rparr>) = ca_find c"
  by (simp_all add: ca_wf_def ca_coherent_def ca_bounded_def ca_find_def fun_eq_iff)

text \<open>The eviction loop ends, and leaves a suffix-free prefix of the entries within the bounds.\<close>

lemma evict_ok:
  "ca_wf c \<Longrightarrow> \<exists>c'. evictLocked c = Some c' \<and> ca_wf c' \<and> ca_bounded c' \<and> set (caEntries c') \<subseteq> set (caEntries c) \<and>
     caMaxItems c' = caMaxItems c \<and> caMaxBytes c' = caMaxBytes c"
proof (induction "length (caEntries c)" arbitrary: c rule: less_induct)
  case less
  show ?case
  proof (cases "int (length (caEntries c)) > caMaxItems c \<or> caCurrentBytes c > caMaxBytes c")
    case False
    then show ?thesis using less.prems by (subst evictLocked.simps) (auto simp: ca_bounded_def)
  next
    case True
    then have ne: "caEntries c \<noteq> []" using less.prems by (auto simp: ca_wf_def)
    define c1 where "c1 = removeElementLocked (c\<lparr>caEvictions := caEvictions c + 1\<rparr>) (Some (last (caEntries c)))"
    have "ca_wf c1" unfolding c1_def using less.prems ne by (intro ca_wf_remove) simp_all
    moreover have "length (caEntries c1) < length (caEntries c)" "set (caEntries c1) \<subseteq> set (caEntries c)"
      "caMaxItems c1 = caMaxItems c" "caMaxBytes c1 = caMaxBytes c"
      using ne by (auto simp: c1_def removeElementLocked_def length_drop_less)
    moreover have "evictLocked c = evictLocked c1"
      using True ne by (subst evictLocked.simps) (simp add: c1_def)
    ultimately show ?thesis using less.hyps [of c1] by auto
  qed
qed

lemma put_ok:
  assumes "ca_wf c" and "ca_coherent m c"
  shows "\<exists>c'. putLocked32 now c vid values = Some c' \<and> ca_wf c' \<and> ca_bounded c' \<and>
    ca_coherent (m(vid \<mapsto> values)) c'"
proof -
  define entry where "entry = \<lparr>ceID = vid, ceValues = values, ceExpiresAt = nextExpiry now c,
    ceSizeBytes = estimateVectorSizeBytes32 vid values\<rparr>"
  define c1 where "c1 = (case ca_find c vid of
      Some old \<Rightarrow> c\<lparr>caCurrentBytes := caCurrentBytes c - ceSizeBytes old + ceSizeBytes entry,
               caEntries := entry # ca_drop vid (caEntries c)\<rparr>
    | None \<Rightarrow> c\<lparr>caCurrentBytes := caCurrentBytes c + ceSizeBytes entry, caEntries := entry # caEntries c\<rparr>)"
  have put: "putLocked32 now c vid values = evictLocked c1"
    by (simp add: putLocked32_def c1_def entry_def Let_def split: option.split)
  have wf: "ca_wf c1"
  proof (cases "ca_find c vid")
    case None
    then have "vid \<notin> ceID ` set (caEntries c)" by (simp add: ca_find_None)
    with None assms(1) show ?thesis by (auto simp: c1_def ca_wf_def entry_def)
  next
    case (Some old)
    then show ?thesis
      using assms(1) ca_find_Some [OF Some] sum_drop [of "caEntries c" old]
      by (auto simp: c1_def ca_wf_def entry_def list_all_iff)
  qed
  have coh: "ca_coherent (m(vid \<mapsto> values)) c1"
  proof (cases "ca_find c vid")
    case None
    then have "vid \<notin> ceID ` set (caEntries c)" by (simp add: ca_find_None)
    with None assms(2) show ?thesis by (auto simp: c1_def ca_coherent_def entry_def)
  next
    case (Some old)
    with assms(2) show ?thesis by (auto simp: c1_def ca_coherent_def entry_def)
  qed
  obtain c' where "evictLocked c1 = Some c'" "ca_wf c'" "ca_bounded c'" "set (caEntries c') \<subseteq> set (caEntries c1)"
    using evict_ok [OF wf] by blast
  moreover from this coh have "ca_coherent (m(vid \<mapsto> values)) c'" unfolding ca_coherent_def by blast
  ultimately show ?thesis using put by simp
qed

lemma put_all_ok:
  assumes "ca_wf c" and "ca_bounded c" and "ca_coherent m c"
  shows "\<exists>c'. put_all now c vs = Some c' \<and> ca_wf c' \<and> ca_bounded c' \<and> ca_coherent (foldl vput m vs) c'"
  using assms
proof (induction vs arbitrary: c m)
  case (Cons v vs)
  obtain c1 where c1: "putLocked now c v = Some c1" "ca_wf c1" "ca_bounded c1" "ca_coherent (vput m v) c1"
    using put_ok [OF Cons.prems(1,3), of now "vID v" "ToFloat32 (vValues v)"]
    by (auto simp: putLocked_def vput_def)
  then show ?case using Cons.IH [OF c1(2,3,4)] by simp
qed auto

lemma getCached_ok:
  assumes "ca_wf c" and "ca_bounded c" and "ca_coherent m c" and "getCached now c vid = (r, c')"
  shows "ca_wf c' \<and> ca_bounded c' \<and> ca_coherent m c' \<and> (\<forall>v. r = Some v \<longrightarrow> vget m vid = Inr v)"
proof (cases "ca_find c vid")
  case None
  then show ?thesis using assms by (auto simp: getCached_def)
next
  case (Some e)
  note e = ca_find_Some [OF Some]
  have len: "length (ca_drop vid (caEntries c)) < length (caEntries c)" using e length_drop_less by blast
  have sz: "0 \<le> ceSizeBytes e" using assms(1) e by (auto simp: ca_wf_def list_all_iff estimateVectorSizeBytes32_def)
  show ?thesis
  proof (cases "isExpired now e")
    case True
    then have c': "r = None" "c' = removeElementLocked (c\<lparr>caMisses := caMisses c + 1\<rparr>) (Some e)"
      using Some assms(4) by (simp_all add: getCached_def)
    have "ca_wf c'" unfolding c' using assms(1) e by (intro ca_wf_remove) simp_all
    moreover have "ca_coherent m c'" unfolding c' using assms(3) by (intro ca_coherent_remove) simp
    moreover have "ca_bounded c'"
      using assms(2) e len sz by (auto simp: c' ca_bounded_def removeElementLocked_def)
    ultimately show ?thesis using c' by simp
  next
    case False
    then have r: "r = Some \<lparr>vID = ceID e, vValues = ToFloat64 (ceValues e)\<rparr>"
      and c': "c' = c\<lparr>caHits := caHits c + 1, caEntries := e # ca_drop vid (caEntries c)\<rparr>"
      using Some assms(4) by (simp_all add: getCached_def)
    have "ca_wf c'"
      using assms(1) e sum_drop [of "caEntries c" e] by (auto simp: c' ca_wf_def list_all_iff)
    moreover have "ca_bounded c'" using assms(2) len by (simp add: c' ca_bounded_def)
    moreover have "ca_coherent m c'" using assms(3) e by (auto simp: c' ca_coherent_def)
    moreover have "vget m vid = Inr \<lparr>vID = ceID e, vValues = ToFloat64 (ceValues e)\<rparr>"
      using assms(3) e by (auto simp: ca_coherent_def vget_def)
    ultimately show ?thesis using r by simp
  qed
qed

section \<open>The cached store implements the interface of its backend\<close>

locale cached_store = vector_store
begin

definition cs_inv :: "'a cachedVectorStore \<Rightarrow> bool" where
  "cs_inv s \<longleftrightarrow> inv (csBackend s) \<and> ca_wf (csCache s) \<and> ca_bounded (csCache s) \<and>
     ca_coherent (abs (csBackend s)) (csCache s)"

definition cs_abs :: "'a cachedVectorStore \<Rightarrow> vmap" where
  "cs_abs s = abs (csBackend s)"

lemma cs_upsert:
  assumes "cs_inv s" and "\<forall>v \<in> set vs. okv v"
  shows "\<exists>s'. Cached_UpsertVectors upsert now s vs = Some (None, s') \<and> cs_inv s' \<and>
    cs_abs s' = foldl vput (cs_abs s) vs"
proof (cases "vs = []")
  case True
  with assms(1) show ?thesis by (simp add: Cached_UpsertVectors_def)
next
  case False
  obtain e b where u: "upsert (csBackend s) vs = (e, b)" by force
  have b: "e = None" "inv b" "abs b = foldl vput (abs (csBackend s)) vs"
    using upsert [OF _ assms(2) u] assms(1) by (simp_all add: cs_inv_def)
  obtain c where c: "put_all now (csCache s) vs = Some c" "ca_wf c" "ca_bounded c"
    "ca_coherent (foldl vput (abs (csBackend s)) vs) c"
    using put_all_ok [of "csCache s" "abs (csBackend s)" now vs] assms(1) by (auto simp: cs_inv_def)
  show ?thesis using False u b c by (simp add: Cached_UpsertVectors_def cs_inv_def cs_abs_def)
qed

lemma cs_get:
  assumes "cs_inv s"
  shows "\<exists>s'. Cached_GetVector getv now s k = Some (vget (cs_abs s) k, s') \<and> cs_inv s' \<and> cs_abs s' = cs_abs s"
proof -
  obtain r c where g: "getCached now (csCache s) k = (r, c)" by force
  have c: "ca_wf c" "ca_bounded c" "ca_coherent (abs (csBackend s)) c"
    "\<And>v. r = Some v \<Longrightarrow> vget (abs (csBackend s)) k = Inr v"
    using getCached_ok [OF _ _ _ g] assms by (auto simp: cs_inv_def)
  show ?thesis
  proof (cases r)
    case (Some v)
    then show ?thesis using c g assms by (simp add: Cached_GetVector_def cs_inv_def cs_abs_def)
  next
    case None
    obtain res b where gv: "getv (csBackend s) k = (res, b)" by force
    have b: "inv b" "abs b = abs (csBackend s)" "res = vget (abs (csBackend s)) k"
      using getv [OF _ gv] assms by (simp_all add: cs_inv_def)
    show ?thesis
    proof (cases res)
      case (Inl err)
      then show ?thesis using None c g gv b by (simp add: Cached_GetVector_def cs_inv_def cs_abs_def)
    next
      case (Inr vec)
      then obtain ws where ws: "abs (csBackend s) k = Some ws" "vID vec = k" "vValues vec = ToFloat64 ws"
        using b(3) vget_Inr by metis
      have "ToFloat32 (vValues vec) = ws" using ws canon [OF b(1)] b(2) by simp
      moreover have "(abs (csBackend s))(k \<mapsto> ws) = abs (csBackend s)" using ws(1) by (simp add: fun_upd_idem)
      ultimately obtain c2 where "putLocked now (c\<lparr>caMisses := caMisses c + 1\<rparr>) vec = Some c2" "ca_wf c2"
        "ca_bounded c2" "ca_coherent (abs (csBackend s)) c2"
        using put_ok [of "c\<lparr>caMisses := caMisses c + 1\<rparr>" "abs (csBackend s)" now k ws] c ws(2)
        by (auto simp: putLocked_def)
      moreover have "\<lparr>vID = vID vec, vValues = vValues vec\<rparr> = vec" by simp
      moreover have "getv (csBackend s) k = (Inr vec, b)" "vget (abs (csBackend s)) k = Inr vec"
        using gv b(3) Inr by simp_all
      ultimately show ?thesis
        using None g b(1,2) by (simp add: Cached_GetVector_def cs_inv_def cs_abs_def Let_def)
    qed
  qed
qed

lemma cs_del:
  assumes "cs_inv s" and "Cached_DeleteVector del s k = (e, s')"
  shows "cs_inv s' \<and> cs_abs s' = (cs_abs s)(k := None) \<and>
    e = (if k \<in> dom (cs_abs s) then None else Some ErrVectorNotFound)"
proof -
  obtain e1 b where d: "del (csBackend s) k = (e1, b)" by force
  have b: "inv b" "abs b = (abs (csBackend s))(k := None)"
    "e1 = (if k \<in> dom (abs (csBackend s)) then None else Some ErrVectorNotFound)"
    using del [OF _ d] assms(1) by (simp_all add: cs_inv_def)
  have wf: "ca_wf (csCache s)" "ca_bounded (csCache s)" "ca_coherent (abs (csBackend s)) (csCache s)"
    using assms(1) by (simp_all add: cs_inv_def)
  show ?thesis
  proof (cases "k \<in> dom (abs (csBackend s))")
    case False
    then have "(abs (csBackend s))(k := None) = abs (csBackend s)" by (simp add: fun_upd_idem domIff)
    with False b d wf assms show ?thesis by (auto simp: Cached_DeleteVector_def cs_inv_def cs_abs_def)
  next
    case True
    define c where "c = removeLocked (csCache s) k"
    have "ca_wf c \<and> ca_bounded c \<and> ca_coherent ((abs (csBackend s))(k := None)) c"
    proof (cases "ca_find (csCache s) k")
      case None
      then have "k \<notin> ceID ` set (caEntries (csCache s))" by (simp add: ca_find_None)
      with None wf show ?thesis
        by (auto simp: c_def removeLocked_def removeElementLocked_def ca_coherent_def)
    next
      case (Some x)
      note x = ca_find_Some [OF Some]
      have sz: "0 \<le> ceSizeBytes x"
        using wf(1) x by (auto simp: ca_wf_def list_all_iff estimateVectorSizeBytes32_def)
      have "length (ca_drop k (caEntries (csCache s))) < length (caEntries (csCache s))"
        using x length_drop_less by blast
      then show ?thesis
        using wf x sz ca_wf_remove [OF wf(1), of x]
        by (auto simp: c_def removeLocked_def Some ca_bounded_def ca_coherent_def removeElementLocked_def)
    qed
    with True b d assms show ?thesis
      by (auto simp: Cached_DeleteVector_def cs_inv_def cs_abs_def simp flip: c_def)
  qed
qed

text \<open>Turning the cache on does not change the interface.\<close>

lemma cs_new:
  assumes "inv b" and "newCachedVectorStore b opts = Inr s"
  shows "cs_inv s \<and> cs_abs s = abs b"
  using assms
  by (auto simp: newCachedVectorStore_def cs_inv_def cs_abs_def ca_wf_def ca_bounded_def ca_coherent_def
      split: if_splits)

end

sublocale cached_store \<subseteq> cs: vector_store cs_inv okv cs_abs
  "\<lambda>s vs. the (Cached_UpsertVectors upsert now s vs)" "\<lambda>s k. the (Cached_GetVector getv now s k)"
  "Cached_DeleteVector del" "Cached_ListVectors listv" "Cached_PageVectorIDs page" for now
proof (unfold_locales, goal_cases)
  case (1 s k ws)
  then show ?case using canon [of "csBackend s" k ws] by (simp add: cs_inv_def cs_abs_def)
next
  case (2 s)
  then show ?case using fin [of "csBackend s"] by (simp add: cs_inv_def cs_abs_def)
next
  case (3 s vs e s')
  then show ?case using cs_upsert [OF 3(1,2), of now] by auto
next
  case (4 s k r s')
  then show ?case using cs_get [OF 4(1), of now k] by auto
next
  case (5 s k e s')
  then show ?case by (rule cs_del)
next
  case (6 s)
  then show ?case using listv [of "csBackend s"] by (simp add: cs_inv_def cs_abs_def Cached_ListVectors_def)
next
  case (7 s a l)
  then show ?case using page [of "csBackend s"] by (simp add: cs_inv_def cs_abs_def Cached_PageVectorIDs_def)
qed

interpretation cached_mem: cached_store "mem_inv env" "\<lambda>_. True" mem_abs "Mem_UpsertVectors env"
  "\<lambda>s k. (Mem_GetVector s k, s)" "Mem_DeleteVector env" "Mem_ListVectors env" "Mem_PageVectorIDs env"
  for env :: "'t storeEnv"
  by (simp add: cached_store_def mem.vector_store_axioms)

interpretation cached_file: cached_store "fs_inv env" "\<lambda>v. rec_fits (vID v) (vValues v)" fs_abs
  "File_UpsertVectors env no_fault" "\<lambda>s k. (File_GetVector no_fault s k, s)"
  "File_DeleteVector env no_fault" "\<lambda>s. case File_ListVectors env no_fault s of Some vs \<Rightarrow> vs | None \<Rightarrow> []"
  "File_PageVectorIDs env"
  for env :: "'t storeEnv"
  by (simp add: cached_store_def file_store.vector_store_axioms)

section \<open>Concurrent reads and deletes\<close>

text \<open>
  \<^verbatim>\<open>GetVector\<close> takes the cache lock, releases it, reads the backend, and takes the lock again to
  insert what it read; \<^verbatim>\<open>DeleteVector\<close> deletes in the backend and then takes the lock to remove the
  entry. A reader and a deleter of one identifier, each step atomic:
\<close>

datatype reader_pc = RStart | RMissed | RGot vector | RDone "vector result"
datatype deleter_pc = DStart | DBackend | DDone

record 'b race =
  rcStore :: "'b cachedVectorStore"
  rcReader :: reader_pc
  rcDeleter :: deleter_pc

inductive race_step :: "('b \<Rightarrow> string \<Rightarrow> vector result \<times> 'b) \<Rightarrow> ('b \<Rightarrow> string \<Rightarrow> goerror option \<times> 'b) \<Rightarrow>
    int \<Rightarrow> string \<Rightarrow> 'b race \<Rightarrow> 'b race \<Rightarrow> bool"
  for getv del now vid where
  read_hit: "rcReader r = RStart \<Longrightarrow> getCached now (csCache (rcStore r)) vid = (Some vec, c) \<Longrightarrow>
    race_step getv del now vid r (r\<lparr>rcStore := (rcStore r)\<lparr>csCache := c\<rparr>, rcReader := RDone (Inr vec)\<rparr>)"
| read_miss: "rcReader r = RStart \<Longrightarrow> getCached now (csCache (rcStore r)) vid = (None, c) \<Longrightarrow>
    race_step getv del now vid r
      (r\<lparr>rcStore := (rcStore r)\<lparr>csCache := c\<lparr>caMisses := caMisses c + 1\<rparr>\<rparr>, rcReader := RMissed\<rparr>)"
| read_backend: "rcReader r = RMissed \<Longrightarrow> getv (csBackend (rcStore r)) vid = (Inr vec, b) \<Longrightarrow>
    race_step getv del now vid r (r\<lparr>rcStore := (rcStore r)\<lparr>csBackend := b\<rparr>, rcReader := RGot vec\<rparr>)"
| read_error: "rcReader r = RMissed \<Longrightarrow> getv (csBackend (rcStore r)) vid = (Inl err, b) \<Longrightarrow>
    race_step getv del now vid r (r\<lparr>rcStore := (rcStore r)\<lparr>csBackend := b\<rparr>, rcReader := RDone (Inl err)\<rparr>)"
| read_put: "rcReader r = RGot vec \<Longrightarrow> putLocked now (csCache (rcStore r)) vec = Some c \<Longrightarrow>
    race_step getv del now vid r (r\<lparr>rcStore := (rcStore r)\<lparr>csCache := c\<rparr>, rcReader := RDone (Inr vec)\<rparr>)"
| del_backend: "rcDeleter r = DStart \<Longrightarrow> del (csBackend (rcStore r)) vid = (None, b) \<Longrightarrow>
    race_step getv del now vid r (r\<lparr>rcStore := (rcStore r)\<lparr>csBackend := b\<rparr>, rcDeleter := DBackend\<rparr>)"
| del_error: "rcDeleter r = DStart \<Longrightarrow> del (csBackend (rcStore r)) vid = (Some e, b) \<Longrightarrow>
    race_step getv del now vid r (r\<lparr>rcStore := (rcStore r)\<lparr>csBackend := b\<rparr>, rcDeleter := DDone\<rparr>)"
| del_cache: "rcDeleter r = DBackend \<Longrightarrow>
    race_step getv del now vid r
      (r\<lparr>rcStore := (rcStore r)\<lparr>csCache := removeLocked (csCache (rcStore r)) vid\<rparr>, rcDeleter := DDone\<rparr>)"

inductive_simps race_step_done: "race_step getv del now vid \<lparr>rcStore = s, rcReader = RDone x, rcDeleter = DDone\<rparr> r"

text \<open>Both threads end: once both are done no step is left.\<close>

lemma race_final: "\<not> race_step getv del now vid \<lparr>rcStore = s, rcReader = RDone x, rcDeleter = DDone\<rparr> r"
  by (simp add: race_step_done)

section \<open>Properties\<close>


lemma cached_file_inv_ex:
  "\<exists>s. cached_file.cs_inv set_env s \<and> fs_abs (csBackend s) = Map.empty \<and> caEntries (csCache s) = []"
proof -
  obtain b where b: "fs_inv set_env b" "fs_abs b = Map.empty" using fs_inv_empty [OF set_env_ok] by blast
  obtain s where "newCachedVectorStore b \<lparr>coEnabled = True, coMaxBytes = 0, coMaxItems = 1, coTTL = 0\<rparr> = Inr s"
    "caEntries (csCache s) = []"
    by (simp add: newCachedVectorStore_def)
  then show ?thesis using cached_file.cs_new [OF b(1)] b(2) unfolding cached_file.cs_abs_def by metis
qed


text \<open>
  C39. A read that races a delete can leave a stale entry: from a store that holds a vector and an
  empty cache, some interleaving of one \<^verbatim>\<open>GetVector\<close> and one \<^verbatim>\<open>DeleteVector\<close> of that identifier ends with
  the identifier deleted in the backend while every later \<^verbatim>\<open>GetVector\<close> that does not find the
  entry expired still returns the vector.
\<close>

theorem cache_race_resurrects:
  assumes "mem_inv env b" and "mem_abs b vid = Some ws"
    and "ca_wf c" and "caEntries c = []" and "caTtl c \<le> 0"
    and "estimateVectorSizeBytes32 vid ws \<le> caMaxBytes c"
  shows "\<exists>s. rtranclp (race_step (\<lambda>b k. (Mem_GetVector b k, b)) (Mem_DeleteVector env) now vid)
      \<lparr>rcStore = \<lparr>csBackend = b, csCache = c\<rparr>, rcReader = RStart, rcDeleter = DStart\<rparr>
      \<lparr>rcStore = s, rcReader = RDone (Inr \<lparr>vID = vid, vValues = ToFloat64 ws\<rparr>), rcDeleter = DDone\<rparr> \<and>
    Mem_GetVector (csBackend s) vid = Inl ErrVectorNotFound \<and>
    (\<exists>s'. Cached_GetVector (\<lambda>b k. (Mem_GetVector b k, b)) now' s vid =
      Some (Inr \<lparr>vID = vid, vValues = ToFloat64 ws\<rparr>, s'))"
proof -
  let ?vec = "\<lparr>vID = vid, vValues = ToFloat64 ws\<rparr>"
  let ?step = "race_step (\<lambda>b k. (Mem_GetVector b k, b)) (Mem_DeleteVector env) now vid"
  have canon: "ToFloat32 (ToFloat64 ws) = ws" using mem.canon [OF assms(1,2)] by simp
  obtain b' where d: "Mem_DeleteVector env b vid = (None, b')" and inv': "mem_inv env b'" and gone: "mem_abs b' vid = None"
    using mem.del [OF assms(1)] assms(2) by (metis domI fun_upd_same prod.exhaust)
  define c1 where "c1 = c\<lparr>caMisses := caMisses c + 1\<rparr>"
  define e where "e = \<lparr>ceID = vid, ceValues = ws, ceExpiresAt = None, ceSizeBytes = estimateVectorSizeBytes32 vid ws\<rparr>"
  define c2 where "c2 = c1\<lparr>caCurrentBytes := caCurrentBytes c1 + ceSizeBytes e, caEntries := [e]\<rparr>"
  have find0: "ca_find c1 vid = None" "ca_find c vid = None" using assms(4) by (simp_all add: c1_def ca_find_def)
  have "0 < caMaxItems c" "caCurrentBytes c = 0" using assms(3,4) by (simp_all add: ca_wf_def)
  then have "evictLocked c2 = Some c2"
    using assms(6) by (subst evictLocked.simps) (simp add: c2_def c1_def e_def)
  then have put: "putLocked now c1 ?vec = Some c2"
    using find0 assms(4,5)
    by (simp add: putLocked_def putLocked32_def canon Let_def nextExpiry_def c2_def c1_def e_def)
  have rem: "removeLocked c1 vid = c1" using find0 by (simp add: removeLocked_def removeElementLocked_def)
  have get: "Mem_GetVector b vid = Inr ?vec" using mem_get [OF assms(1)] assms(2) by (simp add: vget_def)
  let ?r = "\<lambda>b c pr pd. \<lparr>rcStore = \<lparr>csBackend = b, csCache = c\<rparr>, rcReader = pr, rcDeleter = pd\<rparr>"
  have s1: "?step (?r b c RStart DStart) (?r b c1 RMissed DStart)"
    using read_miss [of "?r b c RStart DStart" now vid c] find0(2) by (simp add: getCached_def c1_def)
  have s2: "?step (?r b c1 RMissed DStart) (?r b c1 (RGot ?vec) DStart)"
    using read_backend [of "?r b c1 RMissed DStart" "\<lambda>b k. (Mem_GetVector b k, b)" vid ?vec b] get by simp
  have s3: "?step (?r b c1 (RGot ?vec) DStart) (?r b' c1 (RGot ?vec) DBackend)"
    using del_backend [of "?r b c1 (RGot ?vec) DStart" "Mem_DeleteVector env" vid b'] d by simp
  have s4: "?step (?r b' c1 (RGot ?vec) DBackend) (?r b' c1 (RGot ?vec) DDone)"
    using del_cache [where vid = vid and r = "?r b' c1 (RGot ?vec) DBackend"] rem by simp
  have s5: "?step (?r b' c1 (RGot ?vec) DDone) (?r b' c2 (RDone (Inr ?vec)) DDone)"
    using read_put [of "?r b' c1 (RGot ?vec) DDone" ?vec now c2] put by simp
  have run: "?step\<^sup>*\<^sup>* (?r b c RStart DStart) (?r b' c2 (RDone (Inr ?vec)) DDone)"
    using s1 s2 s3 s4 s5 by (meson rtranclp.rtrancl_into_rtrancl rtranclp.rtrancl_refl)
  have "Cached_GetVector (\<lambda>b k. (Mem_GetVector b k, b)) now' \<lparr>csBackend = b', csCache = c2\<rparr> vid =
      Some (Inr ?vec, \<lparr>csBackend = b', csCache = c2\<lparr>caHits := caHits c2 + 1, caEntries := [e]\<rparr>\<rparr>)"
    by (simp add: Cached_GetVector_def getCached_def ca_find_def c2_def e_def isExpired_def ca_drop_def)
  moreover have "Mem_GetVector b' vid = Inl ErrVectorNotFound"
    using mem_get [OF inv'] gone by (simp add: vget_def)
  ultimately show ?thesis using run by (intro exI [of _ "\<lparr>csBackend = b', csCache = c2\<rparr>"]) auto
qed

theorem cache_race_resurrects_witness:
  "\<exists>b c s. mem_abs b ''a'' = Some [0] \<and>
     rtranclp (race_step (\<lambda>b k. (Mem_GetVector b k, b)) (Mem_DeleteVector set_env) 0 ''a'')
      \<lparr>rcStore = \<lparr>csBackend = b, csCache = c\<rparr>, rcReader = RStart, rcDeleter = DStart\<rparr>
      \<lparr>rcStore = s, rcReader = RDone (Inr \<lparr>vID = ''a'', vValues = ToFloat64 [0]\<rparr>), rcDeleter = DDone\<rparr> \<and>
     Mem_GetVector (csBackend s) ''a'' = Inl ErrVectorNotFound"
proof -
  obtain e b where u: "Mem_UpsertVectors set_env (newMemoryVectorStore set_env) [\<lparr>vID = ''a'', vValues = [0]\<rparr>] = (e, b)"
    by force
  have z: "ToFloat32 [0] = [0]" by (simp add: ToFloat32_def float_eval)
  have b: "mem_inv set_env b" "mem_abs b ''a'' = Some [0]"
    using mem.upsert [OF mem_inv_new [OF set_env_ok] _ u] z by (simp_all add: vput_def)
  define c where "c = \<lparr>caMaxBytes = 100, caMaxItems = 10, caTtl = 0, caEntries = [], caCurrentBytes = 0,
    caHits = 0, caMisses = 0, caEvictions = 0\<rparr>"
  have c: "ca_wf c" "caEntries c = []" "caTtl c \<le> 0" "estimateVectorSizeBytes32 ''a'' [0] \<le> caMaxBytes c"
    by (simp_all add: c_def ca_wf_def estimateVectorSizeBytes32_def)
  from cache_race_resurrects [OF b c, of 0 0] b(2) show ?thesis by blast
qed

end
