(* ===== verification/GoStrings.thy ===== *)
theory GoStrings
  imports Prelude
begin

text \<open>
  Strings of Go as byte sequences, and the functions of package \<^verbatim>\<open>strings\<close> the program uses to normalise
  user input: \<^verbatim>\<open>TrimSpace\<close> and \<^verbatim>\<open>ToLower\<close>. White space is Unicode's, in UTF-8. \<open>ToLower\<close> is exact up to the
  identity of non-ASCII characters: the program only compares its results with ASCII words, so what matters
  is which characters become ASCII letters, and these are the upper-case ASCII letters, the Kelvin sign
  and the dotted capital I.
\<close>

section \<open>TrimSpace\<close>

definition space_encodings :: "string list" where
  "space_encodings =
     [[CHR 0x09], [CHR 0x0A], [CHR 0x0B], [CHR 0x0C], [CHR 0x0D], [CHR 0x20],
      [CHR 0xC2, CHR 0x85], [CHR 0xC2, CHR 0xA0], [CHR 0xE1, CHR 0x9A, CHR 0x80],
      [CHR 0xE2, CHR 0x80, CHR 0x80], [CHR 0xE2, CHR 0x80, CHR 0x81], [CHR 0xE2, CHR 0x80, CHR 0x82],
      [CHR 0xE2, CHR 0x80, CHR 0x83], [CHR 0xE2, CHR 0x80, CHR 0x84], [CHR 0xE2, CHR 0x80, CHR 0x85],
      [CHR 0xE2, CHR 0x80, CHR 0x86], [CHR 0xE2, CHR 0x80, CHR 0x87], [CHR 0xE2, CHR 0x80, CHR 0x88],
      [CHR 0xE2, CHR 0x80, CHR 0x89], [CHR 0xE2, CHR 0x80, CHR 0x8A], [CHR 0xE2, CHR 0x80, CHR 0xA8],
      [CHR 0xE2, CHR 0x80, CHR 0xA9], [CHR 0xE2, CHR 0x80, CHR 0xAF], [CHR 0xE2, CHR 0x81, CHR 0x9F],
      [CHR 0xE3, CHR 0x80, CHR 0x80]]"

text \<open>Drop a leading element of \<open>encs\<close> as long as there is one.\<close>

definition strip_one :: "string list \<Rightarrow> string \<Rightarrow> string option" where
  "strip_one encs s = map_option (\<lambda>e. drop (length e) s) (List.find (\<lambda>e. e \<noteq> [] \<and> take (length e) s = e) encs)"

lemma strip_one_shorter: "strip_one encs s = Some r \<Longrightarrow> length r < length s"
proof -
  assume "strip_one encs s = Some r"
  then obtain e where "e \<noteq> []" "take (length e) s = e" "r = drop (length e) s"
    by (auto simp: strip_one_def find_Some_iff)
  then show ?thesis by (cases e; cases s) auto
qed

function strip_all :: "string list \<Rightarrow> string \<Rightarrow> string" where
  "strip_all encs s = (case strip_one encs s of None \<Rightarrow> s | Some r \<Rightarrow> strip_all encs r)"
  by pat_completeness auto
termination
  by (relation "measure (\<lambda>(_, s). length s)") (auto dest: strip_one_shorter)

declare strip_all.simps [simp del]

definition TrimSpace :: "string \<Rightarrow> string" where
  "TrimSpace s =
     (let l = strip_all space_encodings s
      in rev (strip_all (map rev space_encodings) (rev l)))"

text \<open>A string neither end of which is white space is left alone.\<close>

lemma strip_all_none: "strip_one encs s = None \<Longrightarrow> strip_all encs s = s"
  by (simp add: strip_all.simps)

lemma strip_one_strip_all: "strip_one encs (strip_all encs s) = None"
proof (induction encs s rule: strip_all.induct)
  case (1 encs s)
  then show ?case by (cases "strip_one encs s") (simp_all add: strip_all.simps [of encs s])
qed

lemma strip_all_suffix: "\<exists>p. s = p @ strip_all encs s \<and> set p \<subseteq> \<Union> (set ` set encs)"
proof (induction encs s rule: strip_all.induct)
  case (1 encs s)
  show ?case
  proof (cases "strip_one encs s")
    case (Some r)
    then obtain e where e: "e \<in> set encs" "s = e @ r"
      by (auto simp: strip_one_def find_Some_iff) (metis append_take_drop_id nth_mem)
    obtain p where p: "r = p @ strip_all encs r" "set p \<subseteq> \<Union> (set ` set encs)" using 1 Some by blast
    have "strip_all encs s = strip_all encs r" using Some by (simp add: strip_all.simps [of encs s])
    then have "s = (e @ p) @ strip_all encs s" using e p by (metis append_assoc)
    moreover have "set (e @ p) \<subseteq> \<Union> (set ` set encs)" using e(1) p(2) by auto
    ultimately show ?thesis by blast
  qed (simp add: strip_all_none)
qed

definition untrimmed :: "string \<Rightarrow> bool" where
  "untrimmed s \<longleftrightarrow> strip_one space_encodings s = None \<and> strip_one (map rev space_encodings) (rev s) = None"

lemma TrimSpace_untrimmed: "untrimmed s \<Longrightarrow> TrimSpace s = s"
  by (simp add: TrimSpace_def untrimmed_def strip_all_none)

text \<open>A prefix check only reads the beginning: a shorter string has no more leading white space.\<close>

lemma strip_one_prefix:
  assumes "strip_one encs (s @ t) = None"
  shows "strip_one encs s = None"
proof -
  have "\<not> (\<exists>e \<in> set encs. e \<noteq> [] \<and> take (length e) (s @ t) = e)"
    using assms by (auto simp: strip_one_def find_None_iff)
  moreover have "take (length e) s = e \<Longrightarrow> take (length e) (s @ t) = e" for e
    by (cases "length e \<le> length s") auto
  ultimately show ?thesis by (auto simp: strip_one_def find_None_iff)
qed

lemma TrimSpace_result: "untrimmed (TrimSpace s)"
proof -
  let ?l = "strip_all space_encodings s"
  let ?t = "strip_all (map rev space_encodings) (rev ?l)"
  obtain p where "rev ?l = p @ ?t" using strip_all_suffix by blast
  then have "?l = rev ?t @ rev p" by (metis rev_append rev_rev_ident)
  then have "strip_one space_encodings (rev ?t) = None"
    using strip_one_prefix strip_one_strip_all by metis
  then show ?thesis by (simp add: untrimmed_def TrimSpace_def Let_def strip_one_strip_all)
qed

lemma TrimSpace_idem [simp]: "TrimSpace (TrimSpace s) = TrimSpace s"
  by (rule TrimSpace_untrimmed [OF TrimSpace_result])

text \<open>The result is an infix; if nothing is stripped in front, a prefix that lacks only white-space bytes.\<close>

lemma TrimSpace_prefix:
  assumes "strip_one space_encodings s = None"
  shows "\<exists>p. s = TrimSpace s @ p \<and> set p \<subseteq> \<Union> (set ` set space_encodings)"
proof -
  obtain p where p: "rev s = p @ strip_all (map rev space_encodings) (rev s)"
    "set p \<subseteq> \<Union> (set ` set (map rev space_encodings))"
    using strip_all_suffix by blast
  then have "s = TrimSpace s @ rev p"
    using assms by (simp add: TrimSpace_def strip_all_none) (metis rev_append rev_rev_ident)
  moreover have "set (rev p) \<subseteq> \<Union> (set ` set space_encodings)" using p(2) by auto
  ultimately show ?thesis by blast
qed

lemma TrimSpace_Nil [simp]: "TrimSpace [] = []"
  by (simp add: TrimSpace_def strip_all_none strip_one_def find_None_iff)

section \<open>ToLower\<close>

definition lower_char :: "char \<Rightarrow> char" where
  "lower_char c = (if CHR ''A'' \<le> c \<and> c \<le> CHR ''Z'' then char_of (of_char c + 32 :: nat) else c)"

function ToLower :: "string \<Rightarrow> string" where
  "ToLower [] = []"
| "ToLower (c # r) =
     (if c = CHR 0xC4 \<and> take 1 r = [CHR 0xB0] then CHR ''i'' # ToLower (drop 1 r)
      else if c = CHR 0xE2 \<and> take 2 r = [CHR 0x84, CHR 0xAA] then CHR ''k'' # ToLower (drop 2 r)
      else lower_char c # ToLower r)"
  by pat_completeness auto
termination
  by (relation "measure length") auto

section \<open>Valid UTF-8\<close>

definition in_range :: "nat \<Rightarrow> nat \<Rightarrow> char \<Rightarrow> bool" where
  "in_range lo hi c \<longleftrightarrow> lo \<le> of_char c \<and> of_char c \<le> hi"

text \<open>\<^verbatim>\<open>utf8.ValidString\<close>: no overlong forms, no surrogates, nothing above U+10FFFF.\<close>

fun utf8_valid :: "string \<Rightarrow> bool" where
  "utf8_valid [] = True"
| "utf8_valid [a] = in_range 0 0x7F a"
| "utf8_valid [a, b] =
     (if in_range 0 0x7F a then utf8_valid [b] else in_range 0xC2 0xDF a \<and> in_range 0x80 0xBF b)"
| "utf8_valid [a, b, c] =
     (if in_range 0 0x7F a then utf8_valid [b, c]
      else if in_range 0xC2 0xDF a then in_range 0x80 0xBF b \<and> utf8_valid [c]
      else (in_range 0xE1 0xEF a \<or> a = CHR 0xE0) \<and> in_range (if a = CHR 0xE0 then 0xA0 else 0x80) (if a = CHR 0xED then 0x9F else 0xBF) b
        \<and> in_range 0x80 0xBF c)"
| "utf8_valid (a # b # c # d # r) =
     (if in_range 0 0x7F a then utf8_valid (b # c # d # r)
      else if in_range 0xC2 0xDF a then in_range 0x80 0xBF b \<and> utf8_valid (c # d # r)
      else if in_range 0xE0 0xEF a then
        in_range (if a = CHR 0xE0 then 0xA0 else 0x80) (if a = CHR 0xED then 0x9F else 0xBF) b \<and> in_range 0x80 0xBF c \<and> utf8_valid (d # r)
      else in_range 0xF0 0xF4 a \<and> in_range (if a = CHR 0xF0 then 0x90 else 0x80) (if a = CHR 0xF4 then 0x8F else 0xBF) b
        \<and> in_range 0x80 0xBF c \<and> in_range 0x80 0xBF d \<and> utf8_valid r)"

section \<open>Decimal numbers\<close>

text \<open>\<^verbatim>\<open>fmt.Sprintf\<close> with \<^verbatim>\<open>%d\<close> on a number that is not negative.\<close>

fun decimal :: "nat \<Rightarrow> string" where
  "decimal n = (if n < 10 then [char_of (48 + n)] else decimal (n div 10) @ [char_of (48 + n mod 10)])"

declare decimal.simps [simp del]

text \<open>The value of a string of digits, the inverse.\<close>

fun digits_value :: "nat \<Rightarrow> string \<Rightarrow> nat option" where
  "digits_value acc [] = Some acc"
| "digits_value acc (ch # rest) =
     (if 48 \<le> (of_char ch :: nat) \<and> (of_char ch :: nat) \<le> 57 then digits_value (10 * acc + (of_char ch - 48)) rest else None)"

lemma digits_value_append:
  "digits_value acc (xs @ ys) = (case digits_value acc xs of None \<Rightarrow> None | Some v \<Rightarrow> digits_value v ys)"
  by (induction acc xs rule: digits_value.induct) simp_all

lemma digits_value_decimal: "digits_value 0 (decimal n) = Some n"
proof (induction n rule: decimal.induct)
  case (1 n)
  show ?case
  proof (cases "n < 10")
    case True
    then show ?thesis by (simp add: decimal.simps [of n])
  next
    case False
    have "n mod 10 < 10" by simp
    then show ?thesis using 1 [OF False] False by (simp add: decimal.simps [of n] digits_value_append)
  qed
qed

lemma decimal_inj: "decimal m = decimal n \<longleftrightarrow> m = n"
  by (metis digits_value_decimal option.inject)

end
