(* ===== verification/Stores.thy ===== *)
theory Stores
  imports CachedStore GoStrings
begin

text \<open>
  The vector store a service is built with. \<^verbatim>\<open>newDefaultVectorStoreWithOptions\<close> of \<^verbatim>\<open>internal/core/service.go\<close> chooses the
  memory or the file store, \<^verbatim>\<open>newCachedVectorStore\<close> may put a cache in front of it, and the service calls the result through
  interface values: the method table \<open>vectorStoreOps\<close>. The locale \<open>service_store\<close> says what the service relies on; it is
  interpreted on the table of every store that can be configured. \<^verbatim>\<open>storage_security.go\<close> is here as well.
\<close>

section \<open>Storage security options\<close>

record storageSecurityOptions =
  soStrict :: bool
  soDirMode :: "32 word"
  soFileMode :: "32 word"

definition DefaultStorageSecurityOptions :: storageSecurityOptions where
  "DefaultStorageSecurityOptions = \<lparr>soStrict = False, soDirMode = 493, soFileMode = 420\<rparr>"

definition StrictStorageSecurityOptions :: storageSecurityOptions where
  "StrictStorageSecurityOptions = \<lparr>soStrict = True, soDirMode = 448, soFileMode = 384\<rparr>"

text \<open>\<^verbatim>\<open>strconv.ParseUint(raw, 8, 32)\<close>: octal digits only, and the value must fit 32 bits.\<close>

fun octal_value :: "nat \<Rightarrow> string \<Rightarrow> nat option" where
  "octal_value acc [] = Some acc"
| "octal_value acc (ch # rest) =
     (if CHR ''0'' \<le> ch \<and> ch \<le> CHR ''7'' then octal_value (8 * acc + (of_char ch - 48)) rest else None)"

definition ParseUint8 :: "string \<Rightarrow> nat option" where
  "ParseUint8 raw =
     (if raw = [] then None
      else case octal_value 0 raw of None \<Rightarrow> None | Some v \<Rightarrow> if v < 2 ^ 32 then Some v else None)"

definition ParseFileMode :: "string \<Rightarrow> 32 word \<Rightarrow> 32 word" where
  "ParseFileMode raw0 fallback =
     (let raw = TrimSpace raw0
      in if raw = [] then fallback
         else case ParseUint8 raw of None \<Rightarrow> fallback | Some v \<Rightarrow> word_of_nat v)"

definition normalizeStorageSecurityOptions :: "storageSecurityOptions \<Rightarrow> storageSecurityOptions" where
  "normalizeStorageSecurityOptions opts0 =
     (let opts = (if soDirMode opts0 = 0 then opts0\<lparr>soDirMode := 493\<rparr> else opts0)
      in if soFileMode opts = 0 then opts\<lparr>soFileMode := 420\<rparr> else opts)"

definition storageSecurityOptionsFromStrings :: "bool \<Rightarrow> string \<Rightarrow> string \<Rightarrow> storageSecurityOptions" where
  "storageSecurityOptionsFromStrings strict dirMode fileMode =
     (let opts = (if strict then StrictStorageSecurityOptions else DefaultStorageSecurityOptions)
      in normalizeStorageSecurityOptions
           \<lparr>soStrict = strict, soDirMode = ParseFileMode dirMode (soDirMode opts),
            soFileMode = ParseFileMode fileMode (soFileMode opts)\<rparr>)"

section \<open>The method table\<close>

text \<open>An optional method is \<open>None\<close> where a type assertion of the service fails.\<close>

record 'v vectorStoreOps =
  stUpsertVector :: "'v \<Rightarrow> vector \<Rightarrow> goerror option \<times> 'v"
  stUpsertVectors :: "('v \<Rightarrow> vector list \<Rightarrow> goerror option \<times> 'v) option"
  stGetVector :: "'v \<Rightarrow> string \<Rightarrow> vector result \<times> 'v"
  stDeleteVector :: "'v \<Rightarrow> string \<Rightarrow> goerror option \<times> 'v"
  stListVectors :: "'v \<Rightarrow> vector list"
  stPageVectorIDs :: "('v \<Rightarrow> string \<Rightarrow> int \<Rightarrow> string list) option"
  stRangeVectorIDs :: "('v \<Rightarrow> string list) option"
  stIsPersistent :: "('v \<Rightarrow> bool) option"
  stCacheStats :: "('v \<Rightarrow> cacheStats) option"
  stDiskStats :: "('v \<Rightarrow> diskStoreStats) option"
  stClose :: "('v \<Rightarrow> goerror option \<times> 'v) option"

section \<open>The configured store\<close>

datatype 't backendStore = BMem "'t memoryVectorStore" | BFile "'t fileVectorStore"

definition newDefaultVectorStoreWithOptions :: "'t storeEnv \<Rightarrow> iofault \<Rightarrow> string \<Rightarrow> int \<Rightarrow> byte list \<Rightarrow> 't backendStore option" where
  "newDefaultVectorStoreWithOptions env flt mode syncEvery disk =
     (let m = ToLower (TrimSpace mode)
      in if m = ''disk'' \<or> m = ''file''
         then map_option BFile (newFileVectorStoreWithOptions env flt (if syncEvery \<le> 0 then 1 else syncEvery) disk)
         else Some (BMem (newMemoryVectorStore env)))"

definition be_upsert :: "'t storeEnv \<Rightarrow> iofault \<Rightarrow> 't backendStore \<Rightarrow> vector list \<Rightarrow> goerror option \<times> 't backendStore" where
  "be_upsert env flt b vs =
     (case b of BMem s \<Rightarrow> map_prod id BMem (Mem_UpsertVectors env s vs)
      | BFile s \<Rightarrow> map_prod id BFile (File_UpsertVectors env flt s vs))"

definition be_get :: "iofault \<Rightarrow> 't backendStore \<Rightarrow> string \<Rightarrow> vector result \<times> 't backendStore" where
  "be_get flt b vid =
     ((case b of BMem s \<Rightarrow> Mem_GetVector s vid | BFile s \<Rightarrow> File_GetVector flt s vid), b)"

definition be_delete :: "'t storeEnv \<Rightarrow> iofault \<Rightarrow> 't backendStore \<Rightarrow> string \<Rightarrow> goerror option \<times> 't backendStore" where
  "be_delete env flt b vid =
     (case b of BMem s \<Rightarrow> map_prod id BMem (Mem_DeleteVector env s vid)
      | BFile s \<Rightarrow> map_prod id BFile (File_DeleteVector env flt s vid))"

text \<open>The store never holds a record that makes \<^verbatim>\<open>ListVectors\<close> of the file store panic; the table gives the empty list there.\<close>

definition be_list :: "'t storeEnv \<Rightarrow> iofault \<Rightarrow> 't backendStore \<Rightarrow> vector list" where
  "be_list env flt b =
     (case b of BMem s \<Rightarrow> Mem_ListVectors env s
      | BFile s \<Rightarrow> (case File_ListVectors env flt s of Some vs \<Rightarrow> vs | None \<Rightarrow> []))"

definition be_page :: "'t storeEnv \<Rightarrow> 't backendStore \<Rightarrow> string \<Rightarrow> int \<Rightarrow> string list" where
  "be_page env b afterID limit =
     (case b of BMem s \<Rightarrow> Mem_PageVectorIDs env s afterID limit | BFile s \<Rightarrow> File_PageVectorIDs env s afterID limit)"

definition be_range :: "'t storeEnv \<Rightarrow> 't backendStore \<Rightarrow> string list" where
  "be_range env b =
     (case b of BMem s \<Rightarrow> Mem_RangeVectorIDs env s (\<lambda>ids vid. (ids @ [vid], True)) []
      | BFile s \<Rightarrow> File_RangeVectorIDs env s (\<lambda>ids vid. (ids @ [vid], True)) [])"

definition be_persistent :: "'t backendStore \<Rightarrow> bool" where
  "be_persistent b = (case b of BMem s \<Rightarrow> Mem_IsPersistent s | BFile s \<Rightarrow> File_IsPersistent s)"

definition be_disk_stats :: "iofault \<Rightarrow> 't backendStore \<Rightarrow> diskStoreStats" where
  "be_disk_stats flt b =
     (case b of BMem _ \<Rightarrow> \<lparr>dsFileBytes = 0, dsRecords = 0, dsStaleRecords = 0, dsCompactions = 0\<rparr>
      | BFile s \<Rightarrow> File_DiskStats flt s)"

definition be_close :: "iofault \<Rightarrow> 't backendStore \<Rightarrow> goerror option \<times> 't backendStore" where
  "be_close flt b = (case b of BMem s \<Rightarrow> (None, b) | BFile s \<Rightarrow> map_prod id BFile (File_Close flt s))"

text \<open>
  The store the service calls: the backend itself, or the cache in front of it. An upsert or read of the cached store returns
  (\<open>Cached_UpsertVectors\<close> is not \<open>None\<close>) whenever the cache is well formed.
\<close>

type_synonym 't anyStore = "'t backendStore + 't backendStore cachedVectorStore"

definition any_upsert :: "'t storeEnv \<Rightarrow> iofault \<Rightarrow> int \<Rightarrow> 't anyStore \<Rightarrow> vector list \<Rightarrow> goerror option \<times> 't anyStore" where
  "any_upsert env flt now v vs =
     (case v of Inl b \<Rightarrow> map_prod id Inl (be_upsert env flt b vs)
      | Inr c \<Rightarrow> map_prod id Inr (the (Cached_UpsertVectors (be_upsert env flt) now c vs)))"

definition any_get :: "iofault \<Rightarrow> int \<Rightarrow> 't anyStore \<Rightarrow> string \<Rightarrow> vector result \<times> 't anyStore" where
  "any_get flt now v vid =
     (case v of Inl b \<Rightarrow> map_prod id Inl (be_get flt b vid)
      | Inr c \<Rightarrow> map_prod id Inr (the (Cached_GetVector (be_get flt) now c vid)))"

definition any_delete :: "'t storeEnv \<Rightarrow> iofault \<Rightarrow> 't anyStore \<Rightarrow> string \<Rightarrow> goerror option \<times> 't anyStore" where
  "any_delete env flt v vid =
     (case v of Inl b \<Rightarrow> map_prod id Inl (be_delete env flt b vid)
      | Inr c \<Rightarrow> map_prod id Inr (Cached_DeleteVector (be_delete env flt) c vid))"

definition any_list :: "'t storeEnv \<Rightarrow> iofault \<Rightarrow> 't anyStore \<Rightarrow> vector list" where
  "any_list env flt v =
     (case v of Inl b \<Rightarrow> be_list env flt b | Inr c \<Rightarrow> Cached_ListVectors (be_list env flt) c)"

definition any_page :: "'t storeEnv \<Rightarrow> 't anyStore \<Rightarrow> string \<Rightarrow> int \<Rightarrow> string list" where
  "any_page env v afterID limit =
     (case v of Inl b \<Rightarrow> be_page env b afterID limit | Inr c \<Rightarrow> Cached_PageVectorIDs (be_page env) c afterID limit)"

definition any_ops :: "'t storeEnv \<Rightarrow> iofault \<Rightarrow> int \<Rightarrow> 't anyStore vectorStoreOps" where
  "any_ops env flt now =
     \<lparr>stUpsertVector = (\<lambda>v vec. any_upsert env flt now v [vec]),
      stUpsertVectors = Some (any_upsert env flt now),
      stGetVector = any_get flt now, stDeleteVector = any_delete env flt, stListVectors = any_list env flt,
      stPageVectorIDs = Some (any_page env),
      stRangeVectorIDs = Some (\<lambda>v. case v of Inl b \<Rightarrow> be_range env b | Inr c \<Rightarrow> be_range env (csBackend c)),
      stIsPersistent = Some (\<lambda>v. case v of Inl b \<Rightarrow> be_persistent b | Inr c \<Rightarrow> Cached_IsPersistent be_persistent c),
      stCacheStats = Some (\<lambda>v. case v of Inl _ \<Rightarrow> \<lparr>cstHits = 0, cstMisses = 0, cstEvictions = 0, cstItems = 0, cstBytes = 0\<rparr>
        | Inr c \<Rightarrow> Cached_Stats c),
      stDiskStats = Some (\<lambda>v. case v of Inl b \<Rightarrow> be_disk_stats flt b | Inr c \<Rightarrow> Cached_DiskStats (Some (be_disk_stats flt)) c),
      stClose = Some (\<lambda>v. case v of Inl b \<Rightarrow> map_prod id Inl (be_close flt b)
        | Inr c \<Rightarrow> map_prod id Inr (Cached_Close (Some (be_close flt)) c))\<rparr>"

section \<open>What the service relies on\<close>

locale service_store =
  fixes st :: "'v vectorStoreOps"
    and inv :: "'v \<Rightarrow> bool"
    and okv :: "vector \<Rightarrow> bool"
    and abs :: "'v \<Rightarrow> vmap"
    and upsert :: "'v \<Rightarrow> vector list \<Rightarrow> goerror option \<times> 'v"
    and page :: "'v \<Rightarrow> string \<Rightarrow> int \<Rightarrow> string list"
    and persistent :: "'v \<Rightarrow> bool"
  assumes store: "vector_store inv okv abs upsert (stGetVector st) (stDeleteVector st) (stListVectors st) page"
    and upserts: "stUpsertVectors st = Some upsert"
    and upsert_one: "stUpsertVector st v vec = upsert v [vec]"
    and pages: "stPageVectorIDs st = Some page"
    and persistents: "stIsPersistent st = Some persistent"
    and stored_ok: "inv v \<Longrightarrow> abs v k = Some ws \<Longrightarrow> okv \<lparr>vID = k, vValues = ToFloat64 ws\<rparr>"
    and persist_upsert: "inv v \<Longrightarrow> persistent (snd (upsert v vs)) = persistent v"
    and persist_get: "inv v \<Longrightarrow> persistent (snd (stGetVector st v k)) = persistent v"
    and persist_delete: "inv v \<Longrightarrow> persistent (snd (stDeleteVector st v k)) = persistent v"

sublocale service_store \<subseteq> vs: vector_store inv okv abs upsert "stGetVector st" "stDeleteVector st" "stListVectors st" page
  by (rule store)

definition be_inv :: "'t storeEnv \<Rightarrow> 't backendStore \<Rightarrow> bool" where
  "be_inv env b = (case b of BMem s \<Rightarrow> mem_inv env s | BFile s \<Rightarrow> fs_inv env s)"

definition be_abs :: "'t backendStore \<Rightarrow> vmap" where
  "be_abs b = (case b of BMem s \<Rightarrow> mem_abs s | BFile s \<Rightarrow> fs_abs s)"

abbreviation fits :: "vector \<Rightarrow> bool" where
  "fits v \<equiv> rec_fits (vID v) (vValues v)"

lemmas be_defs = be_inv_def be_abs_def be_upsert_def be_get_def be_delete_def be_list_def be_page_def

interpretation be: vector_store "be_inv env" fits be_abs "be_upsert env no_fault" "be_get no_fault"
  "be_delete env no_fault" "be_list env no_fault" "be_page env"
  for env :: "'t storeEnv"
proof (unfold_locales, goal_cases)
  case (1 s k ws)
  then show ?case using mem.canon [of env] file_store.canon [of env] by (auto simp: be_defs split: backendStore.splits)
next
  case (2 s)
  then show ?case using mem.fin [of env] file_store.fin [of env] by (auto simp: be_defs split: backendStore.splits)
next
  case (3 s vs e s')
  then show ?case
  proof (cases s)
    case (BMem m)
    then show ?thesis using 3 mem.upsert [of env m vs] by (cases "Mem_UpsertVectors env m vs") (auto simp: be_defs)
  next
    case (BFile f)
    then show ?thesis
      using 3 file_store.upsert [of env f vs] by (cases "File_UpsertVectors env no_fault f vs") (auto simp: be_defs)
  qed
next
  case (4 s k r s')
  then show ?case
    using mem.getv [of env] file_store.getv [of env] by (cases s) (auto simp: be_defs)
next
  case (5 s k e s')
  then show ?case
  proof (cases s)
    case (BMem m)
    obtain x m' where d: "Mem_DeleteVector env m k = (x, m')" by force
    have "mem_inv env m" "e = x" "s' = BMem m'" using 5 BMem d by (auto simp: be_defs)
    then show ?thesis using mem.del [OF _ d] BMem by (simp add: be_defs)
  next
    case (BFile f)
    obtain x f' where d: "File_DeleteVector env no_fault f k = (x, f')" by force
    have "fs_inv env f" "e = x" "s' = BFile f'" using 5 BFile d by (auto simp: be_defs)
    then show ?thesis using file_store.del [OF _ d] BFile by (simp add: be_defs)
  qed
next
  case (6 s)
  then show ?case using mem.listv [of env] file_store.listv [of env] by (cases s) (auto simp: be_defs)
next
  case (7 s a l)
  then show ?case using mem.page [of env] file_store.page [of env] by (cases s) (auto simp: be_defs)
qed

interpretation cached_be: cached_store "be_inv env" fits be_abs "be_upsert env no_fault" "be_get no_fault"
  "be_delete env no_fault" "be_list env no_fault" "be_page env"
  for env :: "'t storeEnv"
  by (simp add: cached_store_def be.vector_store_axioms)

definition any_base :: "'t storeEnv \<Rightarrow> 't anyStore \<Rightarrow> bool" where
  "any_base env v = (case v of Inl b \<Rightarrow> be_inv env b | Inr c \<Rightarrow> cached_be.cs_inv env c)"

definition any_abs :: "'t anyStore \<Rightarrow> vmap" where
  "any_abs v = (case v of Inl b \<Rightarrow> be_abs b | Inr c \<Rightarrow> be_abs (csBackend c))"

definition any_persistent :: "'t anyStore \<Rightarrow> bool" where
  "any_persistent v = (case v of Inl b \<Rightarrow> be_persistent b | Inr c \<Rightarrow> be_persistent (csBackend c))"

lemmas any_defs = any_base_def any_abs_def any_upsert_def any_get_def any_delete_def any_list_def any_page_def

interpretation any_bs: vector_store "any_base env" fits any_abs "any_upsert env no_fault now" "any_get no_fault now"
  "any_delete env no_fault" "any_list env no_fault" "any_page env"
  for env :: "'t storeEnv" and now
proof (unfold_locales, goal_cases)
  case (1 s k ws)
  then show ?case using be.canon [of env] cached_be.cs.canon [of env] by (cases s) (auto simp: any_defs cached_be.cs_abs_def)
next
  case (2 s)
  then show ?case using be.fin [of env] cached_be.cs.fin [of env] by (cases s) (auto simp: any_defs cached_be.cs_abs_def)
next
  case (3 s vs e s')
  then show ?case
  proof (cases s)
    case (Inl b)
    then show ?thesis using 3 be.upsert [of env b vs] by (cases "be_upsert env no_fault b vs") (auto simp: any_defs)
  next
    case (Inr c)
    then show ?thesis
      using 3 cached_be.cs.upsert [of env c vs now]
      by (cases "the (Cached_UpsertVectors (be_upsert env no_fault) now c vs)") (auto simp: any_defs cached_be.cs_abs_def)
  qed
next
  case (4 s k r s')
  then show ?case
  proof (cases s)
    case (Inl b)
    then show ?thesis using 4 be.getv [of env b k] by (cases "be_get no_fault b k") (auto simp: any_defs)
  next
    case (Inr c)
    then show ?thesis
      using 4 cached_be.cs.getv [of env c now k]
      by (cases "the (Cached_GetVector (be_get no_fault) now c k)") (auto simp: any_defs cached_be.cs_abs_def)
  qed
next
  case (5 s k e s')
  then show ?case
  proof (cases s)
    case (Inl b)
    obtain x b' where d: "be_delete env no_fault b k = (x, b')" by force
    have "be_inv env b" "e = x" "s' = Inl b'" using 5 Inl d by (auto simp: any_defs)
    then show ?thesis using be.del [OF _ d] Inl by (simp add: any_defs)
  next
    case (Inr c)
    obtain x c' where d: "Cached_DeleteVector (be_delete env no_fault) c k = (x, c')" by force
    have "cached_be.cs_inv env c" "e = x" "s' = Inr c'" using 5 Inr d by (auto simp: any_defs)
    then show ?thesis using cached_be.cs.del [OF _ d] Inr by (simp add: any_defs cached_be.cs_abs_def)
  qed
next
  case (6 s)
  then show ?case using be.listv [of env] cached_be.cs.listv [of env] by (cases s) (auto simp: any_defs cached_be.cs_abs_def)
next
  case (7 s a l)
  then show ?case using be.page [of env] cached_be.cs.page [of env] by (cases s) (auto simp: any_defs cached_be.cs_abs_def)
qed


text \<open>Every stored vector fits a record of the file store, also in a memory store.\<close>

definition fits_map :: "vmap \<Rightarrow> bool" where
  "fits_map m \<longleftrightarrow> (\<forall>k ws. m k = Some ws \<longrightarrow> rec_fits k ws)"

definition any_inv :: "'t storeEnv \<Rightarrow> 't anyStore \<Rightarrow> bool" where
  "any_inv env v \<longleftrightarrow> any_base env v \<and> fits_map (any_abs v)"

lemma fits_map_put: "fits_map m \<Longrightarrow> fits v \<Longrightarrow> fits_map (vput m v)"
  by (auto simp: fits_map_def rec_fits_def ToFloat32_def)

lemma fits_map_foldl: "fits_map m \<Longrightarrow> \<forall>v \<in> set vs. fits v \<Longrightarrow> fits_map (foldl vput m vs)"
  by (induction vs arbitrary: m) (simp_all add: fits_map_put)

interpretation any_st: vector_store "any_inv env" fits any_abs "any_upsert env no_fault now" "any_get no_fault now"
  "any_delete env no_fault" "any_list env no_fault" "any_page env"
  for env :: "'t storeEnv" and now
proof (unfold_locales, goal_cases)
  case (1 s k ws)
  then show ?case using any_bs.canon [of env s] by (simp add: any_inv_def)
next
  case (2 s)
  then show ?case using any_bs.fin [of env s] by (simp add: any_inv_def)
next
  case (3 s vs e s')
  then show ?case using any_bs.upsert [OF _ 3(2,3)] fits_map_foldl [of "any_abs s" vs] by (simp add: any_inv_def)
next
  case (4 s k r s')
  then show ?case using any_bs.getv [OF _ 4(2), of env] by (simp add: any_inv_def)
next
  case (5 s k e s')
  then show ?case using any_bs.del [OF _ 5(2)] by (simp add: any_inv_def fits_map_def)
next
  case (6 s)
  then show ?case using any_bs.listv [of env s] by (simp add: any_inv_def)
next
  case (7 s a l)
  then show ?case using any_bs.page [of env s] by (simp add: any_inv_def)
qed

text \<open>No operation turns a memory store into a file store.\<close>

lemma be_persistent_ops [simp]:
  "be_persistent (snd (be_upsert env flt b vs)) = be_persistent b" "be_persistent (snd (be_get flt b k)) = be_persistent b"
  "be_persistent (snd (be_delete env flt b k)) = be_persistent b"
  by (cases b; simp add: be_upsert_def be_get_def be_delete_def be_persistent_def Mem_IsPersistent_def File_IsPersistent_def
      split: prod.split)+

lemma cached_persistent:
  assumes "cached_be.cs_inv env c"
  shows "be_persistent (csBackend (snd (the (Cached_UpsertVectors (be_upsert env no_fault) now c vs)))) = be_persistent (csBackend c)"
    and "be_persistent (csBackend (snd (the (Cached_GetVector (be_get no_fault) now c k)))) = be_persistent (csBackend c)"
    and "be_persistent (csBackend (snd (Cached_DeleteVector (be_delete env no_fault) c k))) = be_persistent (csBackend c)"
proof -
  have ca: "ca_wf (csCache c)" "ca_bounded (csCache c)" "ca_coherent (be_abs (csBackend c)) (csCache c)"
    using assms by (simp_all add: cached_be.cs_inv_def)
  obtain e b c1 where u: "be_upsert env no_fault (csBackend c) vs = (e, b)" "put_all now (csCache c) vs = Some c1"
    using put_all_ok [OF ca, of now vs] by (metis surj_pair)
  then show "be_persistent (csBackend (snd (the (Cached_UpsertVectors (be_upsert env no_fault) now c vs)))) = be_persistent (csBackend c)"
    using be_persistent_ops(1) [of env no_fault "csBackend c" vs] by (simp add: Cached_UpsertVectors_def split: option.split)
  obtain r c2 where g: "getCached now (csCache c) k = (r, c2)" by force
  have c2: "ca_wf (c2\<lparr>caMisses := m\<rparr>)" "ca_coherent (be_abs (csBackend c)) (c2\<lparr>caMisses := m\<rparr>)" for m
    using getCached_ok [OF ca g] by simp_all
  have put: "csBackend (snd (the (map_option (\<lambda>c2. (x, c\<lparr>csCache := c2\<rparr>)) (putLocked now (c2\<lparr>caMisses := m\<rparr>) v)))) = csBackend c" for m v x
    using put_ok [OF c2(1) [of m] c2(2) [of m], of now "vID v" "ToFloat32 (vValues v)"] by (auto simp: putLocked_def)
  have "snd (be_get no_fault (csBackend c) k) = csBackend c" by (simp add: be_get_def)
  then show "be_persistent (csBackend (snd (the (Cached_GetVector (be_get no_fault) now c k)))) = be_persistent (csBackend c)"
    using g by (auto simp: Cached_GetVector_def Let_def put split: option.split prod.split sum.split)
  obtain e b where "be_delete env no_fault (csBackend c) k = (e, b)" by force
  then show "be_persistent (csBackend (snd (Cached_DeleteVector (be_delete env no_fault) c k))) = be_persistent (csBackend c)"
    using be_persistent_ops(3) [of env no_fault "csBackend c" k] by (simp add: Cached_DeleteVector_def split: option.split)
qed

lemma any_persist:
  assumes "any_inv env v"
  shows "any_persistent (snd (any_upsert env no_fault now v vs)) = any_persistent v"
    and "any_persistent (snd (any_get no_fault now v k)) = any_persistent v"
    and "any_persistent (snd (any_delete env no_fault v k)) = any_persistent v"
proof -
  have c: "be_persistent (csBackend (snd (the (Cached_UpsertVectors (be_upsert env no_fault) now c vs)))) = be_persistent (csBackend c)"
    "be_persistent (csBackend (snd (the (Cached_GetVector (be_get no_fault) now c k)))) = be_persistent (csBackend c)"
    "be_persistent (csBackend (snd (Cached_DeleteVector (be_delete env no_fault) c k))) = be_persistent (csBackend c)"
    if "v = Inr c" for c
    using assms that cached_persistent [of env c] by (simp_all add: any_inv_def any_base_def)
  show "any_persistent (snd (any_upsert env no_fault now v vs)) = any_persistent v"
    "any_persistent (snd (any_get no_fault now v k)) = any_persistent v"
    "any_persistent (snd (any_delete env no_fault v k)) = any_persistent v"
    by (cases v; simp add: any_upsert_def any_get_def any_delete_def any_persistent_def c)+
qed

interpretation any_svc: service_store "any_ops env no_fault now" "any_inv env" fits any_abs "any_upsert env no_fault now" "any_page env"
  any_persistent
  for env :: "'t storeEnv" and now
proof (rule service_store.intro, goal_cases)
  case 1
  show ?case using any_st.vector_store_axioms by (simp add: any_ops_def)
next
  case 5
  show ?case by (auto simp: any_ops_def any_persistent_def Cached_IsPersistent_def fun_eq_iff split: sum.split)
next
  case (6 v k ws)
  then show ?case by (simp add: any_inv_def fits_map_def rec_fits_def ToFloat64_def)
qed (simp_all add: any_ops_def any_persist)

end
