(* ===== verification/Persistence.thy ===== *)
theory Persistence
  imports GoStrings VectorStore
begin

text \<open>
  \<^verbatim>\<open>internal/core/persistence.go\<close>: the snapshot file and the write-ahead log. The backend is modelled with the
  contents of its three files (snapshot, temporary snapshot, log), a count of the log bytes known to be on
  stable storage, and its counter of unsynced operations. The buffered writer and the line scanner with its 64 KiB
  token limit are modelled as the standard library has them; package \<^verbatim>\<open>encoding/json\<close> is an
  argument \<open>jsonCodec\<close> with the laws \<open>json_ok\<close> the code relies on. The lemmas show that replay applies the logged
  operations in order, what a crash can lose, and that a snapshot is replaced atomically.
\<close>

section \<open>The JSON codec\<close>

record walOp =
  wOp :: string
  wID :: string
  wValues :: "float64 list"

record jsonCodec =
  jMarshalOp :: "walOp \<Rightarrow> string option"
  jUnmarshalOp :: "string \<Rightarrow> walOp option"
  jMarshalMap :: "(string, float64 list) gomap \<Rightarrow> string option"
  jUnmarshalMap :: "string \<Rightarrow> (string, float64 list) gomap option"

definition finite64 :: "float64 \<Rightarrow> bool" where
  "finite64 x \<longleftrightarrow> \<not> fl_isnan F64 (unat x) \<and> \<not> fl_isinf F64 (unat x)"

text \<open>
  What the code relies on: numbers other than NaN and infinities are encoded and decoded exactly, strings that are
  valid UTF-8 are decoded exactly; an object is written on one line between braces; a cut
  object is not valid JSON, and neither is a cut object with another one appended.
\<close>

definition json_ok :: "jsonCodec \<Rightarrow> bool" where
  "json_ok c \<longleftrightarrow>
     (\<forall>op. list_all finite64 (wValues op) \<longleftrightarrow> jMarshalOp c op \<noteq> None) \<and>
     (\<forall>op bs. jMarshalOp c op = Some bs \<longrightarrow>
        (\<exists>m. bs = CHR ''{'' # m @ ''}'') \<and> CHR 0x0A \<notin> set bs \<and>
        (utf8_valid (wOp op) \<and> utf8_valid (wID op) \<longrightarrow> jUnmarshalOp c bs = Some op) \<and>
        (\<forall>k. 0 < k \<and> k < length bs \<longrightarrow> jUnmarshalOp c (take k bs) = None \<and>
           (\<forall>op' bs'. jMarshalOp c op' = Some bs' \<longrightarrow> jUnmarshalOp c (take k bs @ bs') = None))) \<and>
     (\<forall>m. list_all (\<lambda>(_, vs). list_all finite64 vs) m \<longleftrightarrow> jMarshalMap c m \<noteq> None) \<and>
     (\<forall>m bs. gm_wf m \<longrightarrow> jMarshalMap c m = Some bs \<longrightarrow> list_all (\<lambda>(k, _). utf8_valid k) m \<longrightarrow>
        (\<exists>m'. jUnmarshalMap c bs = Some m' \<and> gm_wf m' \<and> gm_get m' = gm_get m))"

section \<open>State\<close>

record snapshotWALBackend =
  swSyncEvery :: int
  swPendingOps :: int
  swSnapshot :: "string option"
  swTmp :: "string option"
  swWAL :: "string option"
  swDurable :: nat

definition normalizeSyncEvery :: "int \<Rightarrow> int" where
  "normalizeSyncEvery syncEvery = (if syncEvery \<le> 0 then 1 else syncEvery)"

text \<open>A new backend on the files a previous process left behind.\<close>

definition newSnapshotWALBackendWithOptions :: "int \<Rightarrow> snapshotWALBackend \<Rightarrow> snapshotWALBackend" where
  "newSnapshotWALBackendWithOptions syncEvery files =
     files\<lparr>swSyncEvery := normalizeSyncEvery syncEvery, swPendingOps := 0\<rparr>"

definition no_files :: snapshotWALBackend where
  "no_files = \<lparr>swSyncEvery = 1, swPendingOps = 0, swSnapshot = None, swTmp = None, swWAL = None, swDurable = 0\<rparr>"

section \<open>Snapshots\<close>

definition snapshot_payload :: "vector list \<Rightarrow> (string, float64 list) gomap" where
  "snapshot_payload vectors = foldl (\<lambda>m v. gm_put (vID v) (vValues v) m) [] vectors"

definition SaveSnapshot :: "jsonCodec \<Rightarrow> iofault \<Rightarrow> snapshotWALBackend \<Rightarrow> vector list \<Rightarrow> goerror option \<times> snapshotWALBackend" where
  "SaveSnapshot c flt b vectors =
     (case ioErr flt IoMkdir of Some e \<Rightarrow> (Some e, b) | None \<Rightarrow>
     (case jMarshalMap c (snapshot_payload vectors) of None \<Rightarrow> (Some ErrJSON, b) | Some data \<Rightarrow>
     (case ioErr flt IoWriteTmp of Some e \<Rightarrow> (Some e, b\<lparr>swTmp := Some (take (ioPartial flt) data)\<rparr>) | None \<Rightarrow>
     (case ioErr flt IoRename of Some e \<Rightarrow> (Some e, b\<lparr>swTmp := Some data\<rparr>) | None \<Rightarrow>
        (None, b\<lparr>swTmp := None, swSnapshot := Some data\<rparr>)))))"

definition LoadSnapshot :: "jsonCodec \<Rightarrow> iofault \<Rightarrow> snapshotWALBackend \<Rightarrow> (string, float64 list) gomap result" where
  "LoadSnapshot c flt b =
     (case swSnapshot b of None \<Rightarrow> Inr []
      | Some data \<Rightarrow>
          (case ioErr flt IoRead of Some e \<Rightarrow> Inl e | None \<Rightarrow>
          (case jUnmarshalMap c data of None \<Rightarrow> Inl ErrJSON | Some payload \<Rightarrow> Inr payload)))"

section \<open>The buffered writer\<close>

definition bufsize :: nat where "bufsize = 4096"

text \<open>
  \<^verbatim>\<open>bufio.Writer\<close>: the bytes written to the file so far and the buffered ones. A write that does not fit
  fills and flushes the buffer, or goes straight to the file when the buffer is empty.
\<close>

function bw_write :: "iofault \<Rightarrow> string \<times> string \<Rightarrow> string \<Rightarrow> goerror option \<times> (string \<times> string)" where
  "bw_write flt (w, buf) p =
     (if length p \<le> bufsize - length buf then (None, (w, buf @ p))
      else let chunk = (if buf = [] then p else buf @ take (bufsize - length buf) p);
               rest = (if buf = [] then [] else drop (bufsize - length buf) p)
           in case ioErr flt IoWrite of
                Some e \<Rightarrow> (Some e, (w @ take (ioPartial flt) chunk, []))
              | None \<Rightarrow> bw_write flt (w @ chunk, []) rest)"
  by pat_completeness auto
termination
  by (relation "measure (\<lambda>(flt, (w, buf), p). 2 * length p + (if buf = [] then 0 else 1))") auto

declare bw_write.simps [simp del]

definition bw_flush :: "iofault \<Rightarrow> string \<times> string \<Rightarrow> goerror option \<times> (string \<times> string)" where
  "bw_flush flt wb =
     (case wb of (w, buf) \<Rightarrow>
        if buf = [] then (None, (w, buf))
        else case ioErr flt IoWrite of
            Some e \<Rightarrow> (Some e, (w @ take (ioPartial flt) buf, []))
          | None \<Rightarrow> (None, (w @ buf, [])))"

section \<open>The write-ahead log\<close>

fun write_ops :: "jsonCodec \<Rightarrow> iofault \<Rightarrow> walOp list \<Rightarrow> string \<times> string \<Rightarrow> goerror option \<times> (string \<times> string)" where
  "write_ops c flt [] wb = (None, wb)"
| "write_ops c flt (op # ops) wb =
     (case jMarshalOp c op of None \<Rightarrow> (Some ErrJSON, wb)
      | Some data \<Rightarrow>
          (case bw_write flt wb (data @ [CHR 0x0A]) of
             (Some e, wb') \<Rightarrow> (Some e, wb')
           | (None, wb') \<Rightarrow> write_ops c flt ops wb'))"

definition wal_text :: "snapshotWALBackend \<Rightarrow> string" where
  "wal_text b = (case swWAL b of None \<Rightarrow> [] | Some t \<Rightarrow> t)"

definition AppendWALBatch :: "jsonCodec \<Rightarrow> iofault \<Rightarrow> snapshotWALBackend \<Rightarrow> walOp list \<Rightarrow> goerror option \<times> snapshotWALBackend" where
  "AppendWALBatch c flt b ops =
     (if ops = [] then (None, b)
      else case ioErr flt IoMkdir of Some e \<Rightarrow> (Some e, b) | None \<Rightarrow>
     (case ioErr flt IoOpen of Some e \<Rightarrow> (Some e, b) | None \<Rightarrow>
     (case write_ops c flt ops ([], []) of
        (Some e, (w, buf)) \<Rightarrow> (Some e, b\<lparr>swWAL := Some (wal_text b @ w)\<rparr>)
      | (None, wb) \<Rightarrow>
     (case bw_flush flt wb of
        (Some e, (w, buf)) \<Rightarrow> (Some e, b\<lparr>swWAL := Some (wal_text b @ w)\<rparr>)
      | (None, (w, buf)) \<Rightarrow>
          (let text = wal_text b @ w;
               b1 = b\<lparr>swWAL := Some text, swPendingOps := swPendingOps b + int (length ops)\<rparr>
           in if swPendingOps b1 < swSyncEvery b1 then (None, b1)
              else case ioErr flt IoSync of Some e \<Rightarrow> (Some e, b1)
                | None \<Rightarrow> (None, b1\<lparr>swPendingOps := 0, swDurable := length text\<rparr>))))))"

definition AppendWAL :: "jsonCodec \<Rightarrow> iofault \<Rightarrow> snapshotWALBackend \<Rightarrow> walOp \<Rightarrow> goerror option \<times> snapshotWALBackend" where
  "AppendWAL c flt b op = AppendWALBatch c flt b [op]"

text \<open>
  \<^verbatim>\<open>bufio.Scanner\<close> with \<^verbatim>\<open>ScanLines\<close>: split at line feeds, drop one trailing carriage return; a line of 65536
  bytes or more does not fit the buffer.
\<close>

definition maxScanTokenSize :: nat where "maxScanTokenSize = 65536"

lemma drop1_dropWhile_less: "t \<noteq> [] \<Longrightarrow> length (drop 1 (dropWhile P t)) < length t"
  using length_dropWhile_le [of P t] by (cases t) (auto simp: less_Suc_eq_le intro: order_trans)

function scan_lines :: "string \<Rightarrow> string list" where
  "scan_lines t =
     (if t = [] then []
      else takeWhile (\<lambda>x. x \<noteq> CHR 0x0A) t # scan_lines (drop 1 (dropWhile (\<lambda>x. x \<noteq> CHR 0x0A) t)))"
  by pat_completeness auto
termination
  by (relation "measure length") (use drop1_dropWhile_less in auto)

declare scan_lines.simps [simp del]

definition dropCR :: "string \<Rightarrow> string" where
  "dropCR l = (if l \<noteq> [] \<and> last l = CHR 0x0D then butlast l else l)"

fun replay_lines :: "jsonCodec \<Rightarrow> ('s \<Rightarrow> walOp \<Rightarrow> goerror option \<times> 's) \<Rightarrow> 's \<Rightarrow> string list \<Rightarrow> goerror option \<times> 's" where
  "replay_lines c apply s [] = (None, s)"
| "replay_lines c apply s (l # ls) =
     (if maxScanTokenSize \<le> length l then (Some ErrTooLong, s)
      else let line = TrimSpace (dropCR l)
           in if line = [] then replay_lines c apply s ls
              else case jUnmarshalOp c line of None \<Rightarrow> (Some ErrJSON, s)
                | Some op \<Rightarrow>
                    (case apply s op of (e, s') \<Rightarrow>
                       if e \<noteq> None \<and> e \<noteq> Some ErrSkipWALOp then (e, s') else replay_lines c apply s' ls))"

definition ReplayWAL :: "jsonCodec \<Rightarrow> iofault \<Rightarrow> snapshotWALBackend \<Rightarrow> ('s \<Rightarrow> walOp \<Rightarrow> goerror option \<times> 's) \<Rightarrow> 's \<Rightarrow>
    goerror option \<times> 's" where
  "ReplayWAL c flt b apply s =
     (case swWAL b of None \<Rightarrow> (None, s)
      | Some t \<Rightarrow> (case ioErr flt IoOpen of Some e \<Rightarrow> (Some e, s) | None \<Rightarrow> replay_lines c apply s (scan_lines t)))"

definition TruncateWAL :: "iofault \<Rightarrow> snapshotWALBackend \<Rightarrow> goerror option \<times> snapshotWALBackend" where
  "TruncateWAL flt b =
     (case ioErr flt IoMkdir of Some e \<Rightarrow> (Some e, b) | None \<Rightarrow>
     (case ioErr flt IoOpen of Some e \<Rightarrow> (Some e, b) | None \<Rightarrow>
     (case ioErr flt IoClose of Some e \<Rightarrow> (Some e, b\<lparr>swWAL := Some [], swDurable := 0\<rparr>) | None \<Rightarrow>
        (None, b\<lparr>swWAL := Some [], swDurable := 0, swPendingOps := 0\<rparr>))))"

definition Backend_Sync :: "iofault \<Rightarrow> snapshotWALBackend \<Rightarrow> goerror option \<times> snapshotWALBackend" where
  "Backend_Sync flt b =
     (if swPendingOps b = 0 then (None, b)
      else case ioErr flt IoOpen of Some e \<Rightarrow> (Some e, b) | None \<Rightarrow>
     (case ioErr flt IoSeek of Some e \<Rightarrow> (Some e, b\<lparr>swWAL := Some (wal_text b)\<rparr>) | None \<Rightarrow>
     (case ioErr flt IoSync of Some e \<Rightarrow> (Some e, b\<lparr>swWAL := Some (wal_text b)\<rparr>) | None \<Rightarrow>
        (None, b\<lparr>swWAL := Some (wal_text b), swPendingOps := 0, swDurable := length (wal_text b)\<rparr>))))"

text \<open>
  A crash keeps the bytes that were synced and any part of the rest; the counter is lost with the process.
\<close>

definition crash_wal :: "nat \<Rightarrow> snapshotWALBackend \<Rightarrow> snapshotWALBackend" where
  "crash_wal k b =
     (let t = take (max k (swDurable b)) (wal_text b)
      in b\<lparr>swWAL := Some t, swDurable := length t, swPendingOps := 0\<rparr>)"

section \<open>What is in the log\<close>

definition wal_enc :: "jsonCodec \<Rightarrow> walOp \<Rightarrow> string" where
  "wal_enc c op = the (jMarshalOp c op)"

definition wal_image :: "jsonCodec \<Rightarrow> walOp list \<Rightarrow> string" where
  "wal_image c ops = concat (map (\<lambda>op. wal_enc c op @ [CHR 0x0A]) ops)"

text \<open>Operations that the codec writes and reads back, on lines the scanner accepts.\<close>

definition loggable :: "walOp \<Rightarrow> bool" where
  "loggable op \<longleftrightarrow> list_all finite64 (wValues op) \<and> utf8_valid (wOp op) \<and> utf8_valid (wID op)"

definition short_line :: "jsonCodec \<Rightarrow> walOp \<Rightarrow> bool" where
  "short_line c op \<longleftrightarrow> length (wal_enc c op) < maxScanTokenSize"

fun apply_ops :: "('s \<Rightarrow> walOp \<Rightarrow> goerror option \<times> 's) \<Rightarrow> 's \<Rightarrow> walOp list \<Rightarrow> goerror option \<times> 's" where
  "apply_ops apply s [] = (None, s)"
| "apply_ops apply s (op # ops) =
     (case apply s op of (e, s') \<Rightarrow> if e \<noteq> None \<and> e \<noteq> Some ErrSkipWALOp then (e, s') else apply_ops apply s' ops)"

lemma wal_image_simps [simp]:
  "wal_image c [] = []" "wal_image c (op # ops) = wal_enc c op @ CHR 0x0A # wal_image c ops"
  "wal_image c (ops @ ops') = wal_image c ops @ wal_image c ops'"
  by (simp_all add: wal_image_def)

lemma json_op:
  assumes "json_ok c" and "list_all finite64 (wValues op)"
  shows "jMarshalOp c op = Some (wal_enc c op)" and "\<exists>m. wal_enc c op = CHR ''{'' # m @ ''}''"
    and "CHR 0x0A \<notin> set (wal_enc c op)"
    and "utf8_valid (wOp op) \<Longrightarrow> utf8_valid (wID op) \<Longrightarrow> jUnmarshalOp c (wal_enc c op) = Some op"
    and "0 < k \<Longrightarrow> k < length (wal_enc c op) \<Longrightarrow> jUnmarshalOp c (take k (wal_enc c op)) = None"
    and "0 < k \<Longrightarrow> k < length (wal_enc c op) \<Longrightarrow> list_all finite64 (wValues op') \<Longrightarrow>
      jUnmarshalOp c (take k (wal_enc c op) @ wal_enc c op') = None"
proof -
  have fin: "list_all finite64 (wValues o1) \<Longrightarrow> jMarshalOp c o1 = Some (wal_enc c o1)" for o1
    using assms(1) by (auto simp: json_ok_def wal_enc_def)
  then show m: "jMarshalOp c op = Some (wal_enc c op)" using assms(2) .
  have laws: "(\<exists>m. wal_enc c op = CHR ''{'' # m @ ''}'') \<and> CHR 0x0A \<notin> set (wal_enc c op) \<and>
      (utf8_valid (wOp op) \<and> utf8_valid (wID op) \<longrightarrow> jUnmarshalOp c (wal_enc c op) = Some op) \<and>
      (\<forall>k. 0 < k \<and> k < length (wal_enc c op) \<longrightarrow> jUnmarshalOp c (take k (wal_enc c op)) = None \<and>
         (\<forall>op' bs'. jMarshalOp c op' = Some bs' \<longrightarrow> jUnmarshalOp c (take k (wal_enc c op) @ bs') = None))"
    using assms(1) m unfolding json_ok_def by blast
  then show "\<exists>m. wal_enc c op = CHR ''{'' # m @ ''}''" "CHR 0x0A \<notin> set (wal_enc c op)"
    "utf8_valid (wOp op) \<Longrightarrow> utf8_valid (wID op) \<Longrightarrow> jUnmarshalOp c (wal_enc c op) = Some op"
    "0 < k \<Longrightarrow> k < length (wal_enc c op) \<Longrightarrow> jUnmarshalOp c (take k (wal_enc c op)) = None"
    "0 < k \<Longrightarrow> k < length (wal_enc c op) \<Longrightarrow> list_all finite64 (wValues op') \<Longrightarrow>
      jUnmarshalOp c (take k (wal_enc c op) @ wal_enc c op') = None"
    using fin by blast+
qed

section \<open>Writing\<close>

lemma bw_write_ok:
  "ioErr flt IoWrite = None \<Longrightarrow> \<exists>w' buf'. bw_write flt (w, buf) p = (None, (w', buf')) \<and> w' @ buf' = w @ buf @ p"
proof (induction flt "(w, buf)" p arbitrary: w buf rule: bw_write.induct)
  case (1 flt w buf p)
  show ?case
  proof (cases "length p \<le> bufsize - length buf")
    case True
    then show ?thesis by (simp add: bw_write.simps)
  next
    case False
    let ?chunk = "if buf = [] then p else buf @ take (bufsize - length buf) p"
    let ?rest = "if buf = [] then [] else drop (bufsize - length buf) p"
    obtain w' buf' where "bw_write flt (w @ ?chunk, []) ?rest = (None, (w', buf'))" "w' @ buf' = (w @ ?chunk) @ [] @ ?rest"
      using 1 False by blast
    then show ?thesis using False 1(2) by (simp add: bw_write.simps [of flt w buf p] Let_def)
  qed
qed

lemma write_ops_ok:
  assumes "ioErr flt IoWrite = None" and "json_ok c" and "\<forall>op \<in> set ops. list_all finite64 (wValues op)"
  shows "\<exists>w' buf'. write_ops c flt ops (w, buf) = (None, (w', buf')) \<and> w' @ buf' = w @ buf @ wal_image c ops"
  using assms(3)
proof (induction ops arbitrary: w buf)
  case (Cons op ops)
  obtain w1 b1 where w1: "bw_write flt (w, buf) (wal_enc c op @ [CHR 0x0A]) = (None, (w1, b1))"
    "w1 @ b1 = w @ buf @ wal_enc c op @ [CHR 0x0A]"
    using bw_write_ok [OF assms(1)] by blast
  obtain w2 b2 where w2: "write_ops c flt ops (w1, b1) = (None, (w2, b2))" "w2 @ b2 = w1 @ b1 @ wal_image c ops"
    using Cons by fastforce
  have "w2 @ b2 = w @ buf @ wal_image c (op # ops)"
    using w1(2) w2(2) by (metis append.assoc append_Cons append_Nil wal_image_simps(2))
  then show ?case using w1(1) w2(1) json_op(1) [OF assms(2), of op] Cons.prems by simp
qed simp

lemma AppendWALBatch_ok:
  assumes "json_ok c" and "\<forall>op \<in> set ops. list_all finite64 (wValues op)" and "ops \<noteq> []"
  shows "AppendWALBatch c no_fault b ops =
    (let text = wal_text b @ wal_image c ops; p = swPendingOps b + int (length ops)
     in (None, if p < swSyncEvery b then b\<lparr>swWAL := Some text, swPendingOps := p\<rparr>
               else b\<lparr>swWAL := Some text, swPendingOps := 0, swDurable := length text\<rparr>))"
proof -
  have nf: "ioErr no_fault x = None" for x by (simp add: no_fault_def)
  obtain w buf where w: "write_ops c no_fault ops ([], []) = (None, (w, buf))" "w @ buf = wal_image c ops"
    using write_ops_ok [OF nf assms(1,2), of "[]" "[]"] by auto
  have "bw_flush no_fault (w, buf) = (None, (wal_image c ops, []))" using w(2) by (auto simp: bw_flush_def nf)
  then show ?thesis
    using assms(3) w(1) by (simp add: AppendWALBatch_def nf Let_def)
qed

section \<open>Reading\<close>

lemma scan_lines_line:
  assumes "CHR 0x0A \<notin> set l"
  shows "scan_lines (l @ CHR 0x0A # t) = l # scan_lines t"
proof -
  have "takeWhile (\<lambda>x. x \<noteq> CHR 0x0A) (l @ CHR 0x0A # t) = l" "dropWhile (\<lambda>x. x \<noteq> CHR 0x0A) (l @ CHR 0x0A # t) = CHR 0x0A # t"
    using assms by (auto simp: takeWhile_append dropWhile_append)
  then show ?thesis by (subst scan_lines.simps) simp
qed

lemma scan_lines_last: "CHR 0x0A \<notin> set l \<Longrightarrow> l \<noteq> [] \<Longrightarrow> scan_lines l = [l]"
proof -
  assume l: "CHR 0x0A \<notin> set l" "l \<noteq> []"
  then have tw: "takeWhile (\<lambda>x. x \<noteq> CHR 0x0A) l = l" "dropWhile (\<lambda>x. x \<noteq> CHR 0x0A) l = []"
    by (auto simp: takeWhile_eq_all_conv dropWhile_eq_Nil_conv)
  have "scan_lines l = takeWhile (\<lambda>x. x \<noteq> CHR 0x0A) l # scan_lines (drop 1 (dropWhile (\<lambda>x. x \<noteq> CHR 0x0A) l))"
    using l(2) by (subst scan_lines.simps) simp
  then show ?thesis unfolding tw by (simp add: scan_lines.simps [of "[]"])
qed

lemma scan_lines_image:
  assumes "json_ok c" and "\<forall>op \<in> set ops. list_all finite64 (wValues op)"
  shows "scan_lines (wal_image c ops @ t) = map (wal_enc c) ops @ scan_lines t"
  using assms(2) by (induction ops) (simp_all add: scan_lines_line json_op(3) [OF assms(1)])

lemma brace_untrimmed: "untrimmed (CHR ''{'' # m @ ''}'')" "strip_one space_encodings (CHR ''{'' # m) = None"
  by (simp_all add: untrimmed_def strip_one_def find_None_iff space_encodings_def)

lemma TrimSpace_enc:
  assumes "json_ok c" and "list_all finite64 (wValues op)"
  shows "TrimSpace (dropCR (wal_enc c op)) = wal_enc c op" and "wal_enc c op \<noteq> []"
proof -
  obtain m where m: "wal_enc c op = CHR ''{'' # m @ ''}''" using json_op(2) [OF assms] by blast
  then have "dropCR (wal_enc c op) = wal_enc c op" by (simp add: dropCR_def)
  then show "TrimSpace (dropCR (wal_enc c op)) = wal_enc c op"
    using m brace_untrimmed(1) by (simp add: TrimSpace_untrimmed)
  show "wal_enc c op \<noteq> []" using m by simp
qed

lemma replay_lines_image:
  assumes "json_ok c" and "\<forall>op \<in> set ops. loggable op \<and> short_line c op"
  shows "replay_lines c apply s (map (wal_enc c) ops @ ls) =
    (case apply_ops apply s ops of (e, s') \<Rightarrow> if e = None then replay_lines c apply s' ls else (e, s'))"
  using assms(2)
proof (induction ops arbitrary: s)
  case (Cons op ops)
  have op: "list_all finite64 (wValues op)" "utf8_valid (wOp op)" "utf8_valid (wID op)" "\<not> maxScanTokenSize \<le> length (wal_enc c op)"
    using Cons.prems by (simp_all add: loggable_def short_line_def)
  obtain e s' where app: "apply s op = (e, s')" by force
  show ?case
    using Cons op app TrimSpace_enc [OF assms(1) op(1)] json_op(4) [OF assms(1) op(1-3)]
    by (auto simp: Let_def)
qed simp

text \<open>A cut line at the end of the log stops the replay with an error.\<close>

lemma replay_torn:
  assumes "json_ok c" and "list_all finite64 (wValues op)" and "0 < k" and "k < length (wal_enc c op)"
    and "x = take k (wal_enc c op)"
  shows "\<exists>e. replay_lines c apply s (x # ls) = (Some e, s)"
proof -
  obtain m where m: "wal_enc c op = CHR ''{'' # m @ ''}''" using json_op(2) [OF assms(1,2)] by blast
  obtain m' where x: "x = CHR ''{'' # m'" using assms(3,5) m by (cases k) auto
  have pre: "\<exists>j. 0 < j \<and> j < length (wal_enc c op) \<and> TrimSpace y = take j (wal_enc c op)"
    if y: "y = CHR ''{'' # n" and p: "y = take i (wal_enc c op)" and i: "i \<le> k" for y n i
  proof -
    have "strip_one space_encodings y = None" unfolding y by (rule brace_untrimmed(2))
    from TrimSpace_prefix [OF this] obtain p where p': "y = TrimSpace y @ p" "set p \<subseteq> \<Union> (set ` set space_encodings)"
      by (elim exE conjE)
    have "CHR ''{'' \<notin> \<Union> (set ` set space_encodings)" by (simp add: space_encodings_def)
    moreover have "CHR ''{'' \<in> set p" if "TrimSpace y = []" using p'(1) y that by (metis append_Nil list.set_intros(1))
    ultimately have ne: "TrimSpace y \<noteq> []" using p'(2) by blast
    have "TrimSpace y = take (length (TrimSpace y)) y" using p'(1) by (metis append_eq_conv_conj)
    moreover have "take n y = take (min n i) (wal_enc c op)" for n unfolding p by simp
    ultimately have "TrimSpace y = take (min (length (TrimSpace y)) i) (wal_enc c op)" by metis
    moreover have "0 < i" using y p by (cases i) auto
    ultimately show ?thesis using ne i assms(4) by (intro exI [of _ "min (length (TrimSpace y)) i"]) auto
  qed
  have "\<exists>j. 0 < j \<and> j < length (wal_enc c op) \<and> TrimSpace (dropCR x) = take j (wal_enc c op)"
  proof (cases "last x = CHR 0x0D")
    case False
    then show ?thesis using pre [OF x assms(5)] by (simp add: dropCR_def)
  next
    case True
    then have "m' \<noteq> []" using x by auto
    then have "butlast x = CHR ''{'' # butlast m'" using x by simp
    moreover have "butlast x = take (k - 1) (wal_enc c op)" using assms(4,5) by (simp add: butlast_take)
    ultimately show ?thesis using pre [of "butlast x" "butlast m'" "k - 1"] True x by (simp add: dropCR_def)
  qed
  then obtain j where j: "0 < j" "j < length (wal_enc c op)" "TrimSpace (dropCR x) = take j (wal_enc c op)" by blast
  then have "TrimSpace (dropCR x) \<noteq> []" by auto
  then show ?thesis using j json_op(5) [OF assms(1,2)] by (simp add: Let_def)
qed

section \<open>Crashes\<close>

text \<open>The log holds \<open>ops\<close>; all but the last \<^verbatim>\<open>pendingOps\<close> of them have been synced.\<close>

definition wal_inv :: "jsonCodec \<Rightarrow> walOp list \<Rightarrow> snapshotWALBackend \<Rightarrow> bool" where
  "wal_inv c ops b \<longleftrightarrow> wal_text b = wal_image c ops \<and> 0 < swSyncEvery b \<and> 0 \<le> swPendingOps b \<and> swPendingOps b < swSyncEvery b \<and>
     (\<exists>n \<le> length ops. swDurable b = length (wal_image c (take n ops)) \<and> int (length ops - n) = swPendingOps b)"

lemma wal_inv_no_files: "wal_inv c [] (newSnapshotWALBackendWithOptions syncEvery no_files)"
  by (simp add: wal_inv_def newSnapshotWALBackendWithOptions_def no_files_def wal_text_def normalizeSyncEvery_def)

lemma wal_inv_append:
  assumes "wal_inv c ops b" and "json_ok c" and "\<forall>op \<in> set new. list_all finite64 (wValues op)"
  shows "\<exists>b'. AppendWALBatch c no_fault b new = (None, b') \<and> wal_inv c (ops @ new) b' \<and> swSnapshot b' = swSnapshot b"
proof (cases "new = []")
  case True
  then show ?thesis using assms(1) by (simp add: AppendWALBatch_def)
next
  case False
  obtain n where n: "n \<le> length ops" "swDurable b = length (wal_image c (take n ops))" "int (length ops - n) = swPendingOps b"
    using assms(1) by (auto simp: wal_inv_def)
  let ?p = "swPendingOps b + int (length new)" and ?t = "wal_text b @ wal_image c new"
  let ?b = "if ?p < swSyncEvery b then b\<lparr>swWAL := Some ?t, swPendingOps := ?p\<rparr>
            else b\<lparr>swWAL := Some ?t, swPendingOps := 0, swDurable := length ?t\<rparr>"
  have "wal_inv c (ops @ new) ?b"
  proof (cases "?p < swSyncEvery b")
    case True
    have "\<exists>m \<le> length (ops @ new). swDurable b = length (wal_image c (take m (ops @ new))) \<and> int (length (ops @ new) - m) = ?p"
      using n by (intro exI [of _ n]) auto
    with True assms(1) show ?thesis by (simp add: wal_inv_def wal_text_def)
  next
    case False
    with assms(1) show ?thesis by (auto simp: wal_inv_def wal_text_def)
  qed
  moreover have "AppendWALBatch c no_fault b new = (None, ?b)"
    using AppendWALBatch_ok [OF assms(2,3) False, of b] by (simp add: Let_def)
  moreover have "swSnapshot ?b = swSnapshot b" by simp
  ultimately show ?thesis by blast
qed

text \<open>Where a cut of the log falls: after \<open>j\<close> whole operations and a piece of the next line.\<close>

lemma wal_image_cut:
  assumes "k \<le> length (wal_image c ops)"
  shows "\<exists>j i. j \<le> length ops \<and> take k (wal_image c ops) = wal_image c (take j ops) @ take i (wal_enc c (ops ! j)) \<and>
    (i = 0 \<or> j < length ops \<and> i \<le> length (wal_enc c (ops ! j)))"
  using assms
proof (induction ops arbitrary: k)
  case Nil
  then show ?case by (intro exI [of _ 0]) simp
next
  case (Cons op ops)
  show ?case
  proof (cases "k \<le> length (wal_enc c op)")
    case True
    then show ?thesis by (intro exI [of _ 0] exI [of _ k]) simp
  next
    case False
    let ?k = "k - length (wal_enc c op) - 1"
    have "?k \<le> length (wal_image c ops)" using Cons.prems False by simp
    from Cons.IH [OF this] obtain j i where "j \<le> length ops"
      "take ?k (wal_image c ops) = wal_image c (take j ops) @ take i (wal_enc c (ops ! j))"
      "i = 0 \<or> j < length ops \<and> i \<le> length (wal_enc c (ops ! j))" by blast
    moreover have "take k (wal_image c (op # ops)) = wal_enc c op @ CHR 0x0A # take ?k (wal_image c ops)"
      using False by (simp add: take_Cons')
    ultimately show ?thesis by (intro exI [of _ "Suc j"] exI [of _ i]) simp
  qed
qed

text \<open>Replaying a cut log applies a prefix of the operations.\<close>

lemma replay_cut:
  assumes "json_ok c" and "\<forall>op \<in> set ops. loggable op \<and> short_line c op" and "k \<le> length (wal_image c ops)"
  shows "\<exists>j \<le> length ops. k \<le> length (wal_image c (take j ops)) + length (wal_enc c (ops ! j)) * of_bool (j < length ops) \<and>
    snd (replay_lines c apply s (scan_lines (take k (wal_image c ops)))) = snd (apply_ops apply s (take j ops))"
proof -
  have fin: "\<forall>op \<in> set ops. list_all finite64 (wValues op)" using assms(2) by (simp add: loggable_def)
  obtain j i where ji: "j \<le> length ops" "take k (wal_image c ops) = wal_image c (take j ops) @ take i (wal_enc c (ops ! j))"
    "i = 0 \<or> j < length ops \<and> i \<le> length (wal_enc c (ops ! j))"
    using wal_image_cut [OF assms(3)] by blast
  have fj: "\<forall>op \<in> set (take j ops). list_all finite64 (wValues op)" and lj: "\<forall>op \<in> set (take j ops). loggable op \<and> short_line c op"
    using fin assms(2) by (auto dest: in_set_takeD)
  have len: "k = length (wal_image c (take j ops)) + min i (length (wal_enc c (ops ! j)))"
    using arg_cong [OF ji(2), of length] assms(3) by (simp add: min_def split: if_splits)
  note scan = scan_lines_image [OF assms(1) fj, of "take i (wal_enc c (ops ! j))"]
  note rep = replay_lines_image [OF assms(1) lj, of "apply" s]
  consider "i = 0" | "j < length ops" "0 < i" "i < length (wal_enc c (ops ! j))" | "j < length ops" "i = length (wal_enc c (ops ! j))"
    using ji(3) by fastforce
  then show ?thesis
  proof cases
    case 1
    then show ?thesis
      using ji(1,2) scan rep [of "[]"] len
      by (intro exI [of _ j]) (auto simp: scan_lines.simps [of "[]"] split: prod.split)
  next
    case 2
    let ?op = "ops ! j"
    have op: "list_all finite64 (wValues ?op)" using fin 2 by simp
    have nl: "CHR 0x0A \<notin> set (take i (wal_enc c ?op))" using json_op(3) [OF assms(1) op] by (meson in_set_takeD)
    have ne: "take i (wal_enc c ?op) \<noteq> []" using 2 by auto
    have "snd (replay_lines c apply s' [take i (wal_enc c ?op)]) = s'" for s'
      using replay_torn [OF assms(1) op 2(2,3) refl, of "apply" s' "[]"] by auto
    then show ?thesis
      using ji(1,2) scan rep [of "[take i (wal_enc c ?op)]"] len 2 scan_lines_last [OF nl ne]
      by (intro exI [of _ j]) (auto split: prod.split)
  next
    case 3
    let ?op = "ops ! j"
    have op: "list_all finite64 (wValues ?op)" "loggable ?op \<and> short_line c ?op" using fin assms(2) 3 by simp_all
    have nl: "CHR 0x0A \<notin> set (wal_enc c ?op)" "wal_enc c ?op \<noteq> []"
      using json_op(3) [OF assms(1) op(1)] TrimSpace_enc(2) [OF assms(1) op(1)] by simp_all
    have tk: "take (Suc j) ops = take j ops @ [?op]" using 3 by (simp add: take_Suc_conv_app_nth)
    have lt: "\<forall>op \<in> set (take (Suc j) ops). loggable op \<and> short_line c op" using assms(2) by (auto dest: in_set_takeD)
    have "scan_lines (take k (wal_image c ops)) = map (wal_enc c) (take (Suc j) ops)"
      using ji(2) scan 3 scan_lines_last [OF nl] tk by simp
    then show ?thesis
      using replay_lines_image [OF assms(1) lt, of "apply" s "[]"] 3 len ji(1) tk
      by (intro exI [of _ "Suc j"]) (auto split: prod.split)
  qed
qed

section \<open>A codec that satisfies the laws\<close>

text \<open>
  A text format with braces, in which every byte is two letters and every number sixteen: an instance of the laws.
\<close>

fun hex :: "nat \<Rightarrow> nat \<Rightarrow> string" where
  "hex 0 x = []"
| "hex (Suc n) x = char_of (97 + x mod 16) # hex n (x div 16)"

fun unhex :: "string \<Rightarrow> nat" where
  "unhex [] = 0"
| "unhex (c # cs) = (of_char c - 97) + 16 * unhex cs"

fun chunks :: "nat \<Rightarrow> nat \<Rightarrow> string \<Rightarrow> string list" where
  "chunks n 0 s = []"
| "chunks n (Suc fuel) s = (if s = [] then [] else take n s # chunks n fuel (drop n s))"

definition hex_chars :: "char set" where
  "hex_chars = {c. 97 \<le> (of_char c :: nat) \<and> (of_char c :: nat) < 113}"

definition hex_string :: "string \<Rightarrow> string" where
  "hex_string s = concat (map (\<lambda>c. hex 2 (of_char c)) s)"

definition hex_floats :: "float64 list \<Rightarrow> string" where
  "hex_floats vs = concat (map (\<lambda>x. hex 16 (unat x)) vs)"

definition unhex_string :: "string \<Rightarrow> string" where
  "unhex_string t = map (\<lambda>p. char_of (unhex p)) (chunks 2 (length t) t)"

definition unhex_floats :: "string \<Rightarrow> float64 list" where
  "unhex_floats t = map (\<lambda>p. word_of_nat (unhex p)) (chunks 16 (length t) t)"

lemma hex_facts [simp]: "length (hex n x) = n" "set (hex n x) \<subseteq> hex_chars" "unhex (hex n x) = x mod 16 ^ n"
proof (induction n arbitrary: x)
  case (Suc n)
  { case 1 show ?case using Suc by simp }
  { case 2 show ?case using Suc by (auto simp: hex_chars_def of_char_of) }
  { case 3
    have "x mod (16 * 16 ^ n) = 16 * (x div 16 mod 16 ^ n) + x mod 16" by (rule mod_mult2_eq)
    then show ?case using Suc by (simp add: of_char_of) }
qed simp_all

lemma chunks_concat:
  assumes "0 < n" and "\<forall>p \<in> set ps. length p = n"
  shows "length (concat ps) \<le> fuel \<Longrightarrow> chunks n fuel (concat ps) = ps"
  using assms(2)
proof (induction ps arbitrary: fuel)
  case Nil
  then show ?case by (cases fuel) simp_all
next
  case (Cons p ps)
  then obtain f where "fuel = Suc f" using assms(1) by (cases fuel) auto
  moreover have "p \<noteq> []" using Cons.prems(2) assms(1) by auto
  ultimately show ?case using Cons assms(1) by simp
qed

lemma unhex_hex_string [simp]: "unhex_string (hex_string s) = s"
proof -
  have "chunks 2 (length (hex_string s)) (hex_string s) = map (\<lambda>c. hex 2 (of_char c)) s"
    unfolding hex_string_def by (rule chunks_concat) auto
  moreover have "char_of (of_char c mod 256 :: nat) = c" for c :: char
    using nat_of_char_less_256 [of c] by simp
  ultimately show ?thesis by (simp add: unhex_string_def o_def)
qed

lemma unhex_hex_floats [simp]: "unhex_floats (hex_floats vs) = vs"
proof -
  have "chunks 16 (length (hex_floats vs)) (hex_floats vs) = map (\<lambda>x. hex 16 (unat x)) vs"
    unfolding hex_floats_def by (rule chunks_concat) auto
  moreover have "word_of_nat (unat x mod 16 ^ 16) = x" for x :: float64
    using unsigned_less [of x, where 'a = nat] by simp
  ultimately show ?thesis by (simp add: unhex_floats_def o_def)
qed

lemma hex_string_chars: "set (hex_string s) \<subseteq> hex_chars" "set (hex_floats vs) \<subseteq> hex_chars"
  unfolding hex_string_def hex_floats_def using hex_facts(2) by (auto dest: subsetD [OF hex_facts(2)])

definition split_at :: "char \<Rightarrow> string \<Rightarrow> string \<times> string" where
  "split_at d s = (takeWhile (\<lambda>x. x \<noteq> d) s, drop 1 (dropWhile (\<lambda>x. x \<noteq> d) s))"

lemma split_at_eq [simp]: "d \<notin> set s \<Longrightarrow> split_at d (s @ d # t) = (s, t)"
  by (auto simp: split_at_def takeWhile_append dropWhile_append)

definition hex_op :: "walOp \<Rightarrow> string" where
  "hex_op op = hex_string (wOp op) @ CHR ''x'' # hex_string (wID op) @ CHR ''x'' # hex_floats (wValues op)"

definition unhex_op :: "string \<Rightarrow> walOp" where
  "unhex_op s = (case split_at CHR ''x'' s of (o1, r) \<Rightarrow> case split_at CHR ''x'' r of (i1, v1) \<Rightarrow>
     \<lparr>wOp = unhex_string o1, wID = unhex_string i1, wValues = unhex_floats v1\<rparr>)"

definition hex_entry :: "string \<times> float64 list \<Rightarrow> string" where
  "hex_entry e = hex_string (fst e) @ CHR ''x'' # hex_floats (snd e) @ ''y''"

fun unhex_entries :: "nat \<Rightarrow> string \<Rightarrow> (string \<times> float64 list) list" where
  "unhex_entries 0 s = []"
| "unhex_entries (Suc fuel) s =
     (if s = [] then []
      else case split_at CHR ''y'' s of (e, r) \<Rightarrow> case split_at CHR ''x'' e of (k, v) \<Rightarrow>
        (unhex_string k, unhex_floats v) # unhex_entries fuel r)"

definition braced :: "string \<Rightarrow> bool" where
  "braced s \<longleftrightarrow> 2 \<le> length s \<and> hd s = CHR ''{'' \<and> last s = CHR ''}'' \<and> CHR ''{'' \<notin> set (tl s) \<and> CHR ''}'' \<notin> set (butlast s)"

definition hex_codec :: jsonCodec where
  "hex_codec =
     \<lparr>jMarshalOp = (\<lambda>op. if list_all finite64 (wValues op) then Some (CHR ''{'' # hex_op op @ ''}'') else None),
      jUnmarshalOp = (\<lambda>s. if braced s then Some (unhex_op (butlast (tl s))) else None),
      jMarshalMap = (\<lambda>m. if list_all (\<lambda>(_, vs). list_all finite64 vs) m then Some (CHR ''{'' # concat (map hex_entry m) @ ''}'') else None),
      jUnmarshalMap = (\<lambda>s. if braced s then Some (unhex_entries (length s) (butlast (tl s))) else None)\<rparr>"

lemma not_hex: "CHR ''{'' \<notin> hex_chars" "CHR ''}'' \<notin> hex_chars" "CHR ''x'' \<notin> hex_chars" "CHR ''y'' \<notin> hex_chars" "CHR 0x0A \<notin> hex_chars"
  by (simp_all add: hex_chars_def)

lemma not_in_hex [simp]:
  "d \<notin> hex_chars \<Longrightarrow> d \<notin> set (hex_string s)" "d \<notin> hex_chars \<Longrightarrow> d \<notin> set (hex_floats vs)"
  using hex_string_chars by blast+

lemma unhex_hex_op: "unhex_op (hex_op op) = op"
  by (simp add: unhex_op_def hex_op_def not_hex)

lemma hex_op_chars: "CHR ''{'' \<notin> set (hex_op op)" "CHR ''}'' \<notin> set (hex_op op)" "CHR 0x0A \<notin> set (hex_op op)"
  by (simp_all add: hex_op_def not_hex)

lemma unhex_entries_eq: "length (concat (map hex_entry m)) \<le> fuel \<Longrightarrow> unhex_entries fuel (concat (map hex_entry m)) = m"
proof (induction m arbitrary: fuel)
  case Nil
  then show ?case by (cases fuel) simp_all
next
  case (Cons e m)
  then obtain f where f: "fuel = Suc f" by (cases fuel) (auto simp: hex_entry_def)
  have "split_at CHR ''y'' (hex_entry e @ t) = (hex_string (fst e) @ CHR ''x'' # hex_floats (snd e), t)" for t
    using split_at_eq [of "CHR ''y''" "hex_string (fst e) @ CHR ''x'' # hex_floats (snd e)" t]
    by (simp add: hex_entry_def not_hex)
  moreover have "unhex_entries f (concat (map hex_entry m)) = m"
    using Cons.prems f by (intro Cons.IH) (simp add: hex_entry_def)
  moreover have "hex_entry e \<noteq> []" by (simp add: hex_entry_def)
  ultimately show ?case using f by (simp add: not_hex)
qed

lemma hex_entries_chars: "CHR ''{'' \<notin> set (concat (map hex_entry m))" "CHR ''}'' \<notin> set (concat (map hex_entry m))"
  by (simp_all add: hex_entry_def not_hex)

lemma braced_enc: "CHR ''{'' \<notin> set m \<Longrightarrow> CHR ''}'' \<notin> set m \<Longrightarrow> braced (CHR ''{'' # m @ ''}'')"
  by (simp add: braced_def)

lemma braced_cut:
  assumes "CHR ''}'' \<notin> set m" and "0 < k" and "k < length (CHR ''{'' # m @ ''}'')"
  shows "\<not> braced (take k (CHR ''{'' # m @ ''}''))" and "\<not> braced (take k (CHR ''{'' # m @ ''}'') @ CHR ''{'' # m' @ ''}'')"
proof -
  obtain j where j: "k = Suc j" "j \<le> length m" using assms(2,3) by (cases k) auto
  have t: "take k (CHR ''{'' # m @ ''}'') = CHR ''{'' # take j m" using j by simp
  have "last (CHR ''{'' # take j m) \<noteq> CHR ''}''"
    using assms(1) last_in_set [of "CHR ''{'' # take j m"] by (auto dest: in_set_takeD)
  then show "\<not> braced (take k (CHR ''{'' # m @ ''}''))" unfolding t braced_def by blast
  show "\<not> braced (take k (CHR ''{'' # m @ ''}'') @ CHR ''{'' # m' @ ''}'')" unfolding t braced_def by simp
qed

lemma hex_codec_ok: "json_ok hex_codec"
  unfolding json_ok_def
proof (intro conjI allI impI)
  fix op bs assume m: "jMarshalOp hex_codec op = Some bs"
  then have bs: "bs = CHR ''{'' # hex_op op @ ''}''" by (simp add: hex_codec_def split: if_splits)
  then show "\<exists>m. bs = CHR ''{'' # m @ ''}''" "CHR 0x0A \<notin> set bs" by (simp_all add: hex_op_chars)
  show "jUnmarshalOp hex_codec bs = Some op"
    using bs hex_op_chars(1,2) [of op] by (simp add: hex_codec_def braced_enc unhex_hex_op butlast_append)
  fix k assume k: "0 < k \<and> k < length bs"
  then show "jUnmarshalOp hex_codec (take k bs) = None"
    using braced_cut(1) [OF hex_op_chars(2), of k op] bs by (simp add: hex_codec_def)
  fix op' bs' assume m': "jMarshalOp hex_codec op' = Some bs'"
  then have "bs' = CHR ''{'' # hex_op op' @ ''}''" by (simp add: hex_codec_def split: if_splits)
  then show "jUnmarshalOp hex_codec (take k bs @ bs') = None"
    using braced_cut(2) [OF hex_op_chars(2), of k op] bs k by (simp add: hex_codec_def)
next
  fix m :: "(string, float64 list) gomap" and bs
  assume wf: "gm_wf m" and "jMarshalMap hex_codec m = Some bs"
  then have bs: "bs = CHR ''{'' # concat (map hex_entry m) @ ''}''" by (simp add: hex_codec_def split: if_splits)
  have "jUnmarshalMap hex_codec bs = Some m"
    using bs hex_entries_chars [of m] unhex_entries_eq [of m "length bs"]
    by (simp add: hex_codec_def braced_enc butlast_append)
  then show "\<exists>m'. jUnmarshalMap hex_codec bs = Some m' \<and> gm_wf m' \<and> gm_get m' = gm_get m" using wf by blast
qed (simp_all add: hex_codec_def)

section \<open>Properties\<close>


definition sample_op :: "string \<Rightarrow> walOp" where
  "sample_op vid = \<lparr>wOp = ''upsert'', wID = vid, wValues = [0]\<rparr>"

lemma sample_op_ok: "loggable (sample_op ''a'') \<and> short_line hex_codec (sample_op ''a'')"
proof -
  have fin: "finite64 0" by (simp add: finite64_def float_eval)
  then have "wal_enc hex_codec (sample_op ''a'') = CHR ''{'' # hex_op (sample_op ''a'') @ ''}''"
    by (simp add: wal_enc_def hex_codec_def sample_op_def)
  then have "length (wal_enc hex_codec (sample_op ''a'')) = 34"
    by (simp add: hex_op_def hex_string_def hex_floats_def sample_op_def)
  with fin show ?thesis
    by (simp add: loggable_def short_line_def sample_op_def maxScanTokenSize_def in_range_def)
qed




text \<open>
  C40. Operations acknowledged after a torn line are lost: if a crash has left a piece of a line at the end of the log, appends
  succeed as before, but the next replay stops at that line, so that none of the new operations is applied.
  (\<^verbatim>\<open>NewServiceWithDeps\<close> ignores the error of the first replay and goes on appending to the same file.)
\<close>

theorem wal_torn_line_loses:
  assumes "json_ok c" and "\<forall>op \<in> set (ops @ new). loggable op \<and> short_line c op" and "list_all finite64 (wValues torn)"
    and "0 < k" and "k < length (wal_enc c torn)" and "new \<noteq> []"
    and "wal_text b = wal_image c ops @ take k (wal_enc c torn)"
  shows "\<exists>b'. AppendWALBatch c no_fault b new = (None, b') \<and> fst (ReplayWAL c no_fault b' apply s) \<noteq> None \<and>
    snd (ReplayWAL c no_fault b' apply s) = snd (apply_ops apply s ops)"
proof -
  let ?cut = "take k (wal_enc c torn)"
  have fin: "\<forall>op \<in> set new. list_all finite64 (wValues op)" "\<forall>op \<in> set ops. list_all finite64 (wValues op)"
    and lo: "\<forall>op \<in> set ops. loggable op \<and> short_line c op"
    using assms(2) by (simp_all add: loggable_def)
  obtain b' where b': "AppendWALBatch c no_fault b new = (None, b')" "swWAL b' = Some (wal_text b @ wal_image c new)"
    using AppendWALBatch_ok [OF assms(1) fin(1) assms(6), of b] by (auto simp: Let_def)
  obtain op rest where new: "new = op # rest" using assms(6) by (cases new) auto
  have op: "list_all finite64 (wValues op)" using fin new by simp
  let ?l = "?cut @ wal_enc c op"
  have nl: "CHR 0x0A \<notin> set ?l"
    using json_op(3) [OF assms(1) assms(3)] json_op(3) [OF assms(1) op] by (auto dest: in_set_takeD)
  have scan: "scan_lines (wal_text b @ wal_image c new) = map (wal_enc c) ops @ ?l # scan_lines (wal_image c rest)"
    using scan_lines_line [OF nl, of "wal_image c rest"] scan_lines_image [OF assms(1) fin(2)] assms(7) new by simp
  obtain m1 m2 where m: "wal_enc c torn = CHR ''{'' # m1 @ ''}''" "wal_enc c op = CHR ''{'' # m2 @ ''}''"
    using json_op(2) [OF assms(1,3)] json_op(2) [OF assms(1) op] by blast
  obtain n where "?cut = CHR ''{'' # n" using m(1) assms(4) by (cases k) auto
  then have l: "?l = CHR ''{'' # (n @ CHR ''{'' # m2) @ ''}''" using m(2) by simp
  then have "dropCR ?l = ?l" by (simp add: dropCR_def)
  moreover have "TrimSpace ?l = ?l" unfolding l by (rule TrimSpace_untrimmed [OF brace_untrimmed(1)])
  moreover have "jUnmarshalOp c ?l = None" using json_op(6) [OF assms(1,3) assms(4,5) op] .
  ultimately have stop: "\<exists>e. replay_lines c apply s' (?l # ls) = (Some e, s')" for s' ls
    using l by (auto simp: Let_def)
  obtain e s' where ap: "apply_ops apply s ops = (e, s')" by force
  have "ReplayWAL c no_fault b' apply s = replay_lines c apply s (map (wal_enc c) ops @ ?l # scan_lines (wal_image c rest))"
    using b'(2) scan by (simp add: ReplayWAL_def no_fault_def)
  then have "fst (ReplayWAL c no_fault b' apply s) \<noteq> None \<and> snd (ReplayWAL c no_fault b' apply s) = s'"
    using replay_lines_image [OF assms(1) lo, of "apply" s] ap stop [of s' "scan_lines (wal_image c rest)"] by auto
  with b'(1) ap show ?thesis by auto
qed

theorem wal_torn_line_loses_witness:
  "\<exists>b'. AppendWALBatch hex_codec no_fault (no_files\<lparr>swWAL := Some (take 5 (wal_enc hex_codec (sample_op ''a'')))\<rparr>) [sample_op ''a''] = (None, b') \<and>
     snd (ReplayWAL hex_codec no_fault b' (\<lambda>s op. (None, s @ [wID op])) []) = []"
proof -
  have fin: "list_all finite64 (wValues (sample_op ''a''))" using sample_op_ok by (simp add: loggable_def)
  have "wal_enc hex_codec (sample_op ''a'') = CHR ''{'' # hex_op (sample_op ''a'') @ ''}''"
    using fin by (simp add: wal_enc_def hex_codec_def)
  then have "5 < length (wal_enc hex_codec (sample_op ''a''))"
    by (simp add: hex_op_def hex_string_def hex_floats_def sample_op_def)
  moreover have "\<forall>op \<in> set ([] @ [sample_op ''a'']). loggable op \<and> short_line hex_codec op" using sample_op_ok by simp
  ultimately show ?thesis
    using wal_torn_line_loses [OF hex_codec_ok _ fin, of "[]" "[sample_op ''a'']" 5
        "no_files\<lparr>swWAL := Some (take 5 (wal_enc hex_codec (sample_op ''a'')))\<rparr>" "\<lambda>s op. (None, s @ [wID op])" "[]"]
    by (auto simp: wal_text_def)
qed

text \<open>
  A long line hides the rest of the log: an operation whose encoding has 65536 bytes or more is appended like any other, but
  the replay stops there with \<^verbatim>\<open>bufio.ErrTooLong\<close>; it and everything logged after it is not applied.
\<close>

theorem wal_long_line_stops:
  assumes "json_ok c" and "\<forall>op \<in> set ops. loggable op \<and> short_line c op" and "list_all finite64 (wValues big)"
    and "\<not> short_line c big" and "\<forall>op \<in> set later. list_all finite64 (wValues op)" and "wal_inv c ops b"
    and "fst (apply_ops apply s ops) = None"
  shows "\<exists>b'. AppendWALBatch c no_fault b (big # later) = (None, b') \<and>
    ReplayWAL c no_fault b' apply s = (Some ErrTooLong, snd (apply_ops apply s ops))"
proof -
  have fin: "\<forall>op \<in> set (big # later). list_all finite64 (wValues op)" "\<forall>op \<in> set ops. list_all finite64 (wValues op)"
    using assms(2,3,5) by (simp_all add: loggable_def)
  obtain b' where b': "AppendWALBatch c no_fault b (big # later) = (None, b')" "swWAL b' = Some (wal_text b @ wal_image c (big # later))"
    using AppendWALBatch_ok [OF assms(1) fin(1), of b] by (auto simp: Let_def)
  have "wal_text b = wal_image c ops" using assms(6) by (simp add: wal_inv_def)
  moreover have "scan_lines (wal_image c (big # later)) = map (wal_enc c) (big # later)"
    using scan_lines_image [OF assms(1) fin(1), of "[]"] by (simp add: scan_lines.simps [of "[]"])
  ultimately have "ReplayWAL c no_fault b' apply s = replay_lines c apply s (map (wal_enc c) ops @ map (wal_enc c) (big # later))"
    using b'(2) scan_lines_image [OF assms(1) fin(2)] by (simp add: ReplayWAL_def no_fault_def)
  also have "\<dots> = (Some ErrTooLong, snd (apply_ops apply s ops))"
    using replay_lines_image [OF assms(1,2), of "apply" s] assms(4,7) by (auto simp: short_line_def split: prod.split)
  finally show ?thesis using b'(1) by blast
qed

definition big_op :: walOp where
  "big_op = \<lparr>wOp = ''upsert'', wID = ''b'', wValues = replicate 4096 0\<rparr>"

theorem wal_long_line_stops_witness:
  "\<exists>b'. AppendWALBatch hex_codec no_fault (newSnapshotWALBackendWithOptions 1 no_files) [big_op, sample_op ''a''] = (None, b') \<and>
     ReplayWAL hex_codec no_fault b' (\<lambda>s op. (None, s @ [wID op])) [] = (Some ErrTooLong, [])"
proof -
  have fin: "list_all finite64 (wValues (sample_op ''a''))" using sample_op_ok by (simp add: loggable_def)
  have big: "list_all finite64 (wValues big_op)" by (simp add: big_op_def list_all_iff finite64_def float_eval)
  have "length (hex_floats (replicate n x)) = 16 * n" for n x
    by (induction n) (simp_all add: hex_floats_def)
  moreover have "wal_enc hex_codec big_op = CHR ''{'' # hex_op big_op @ ''}''"
    using big by (simp add: wal_enc_def hex_codec_def)
  ultimately have "\<not> short_line hex_codec big_op"
    by (simp add: short_line_def maxScanTokenSize_def hex_op_def big_op_def)
  from wal_long_line_stops [OF hex_codec_ok _ big this, of "[]" "[sample_op ''a'']" _ "\<lambda>s op. (None, s @ [wID op])" "[]"]
    wal_inv_no_files [of hex_codec 1] fin
  show ?thesis by auto
qed

lemma SaveSnapshot_facts:
  assumes "json_ok c" and "SaveSnapshot c flt b vs = (e, b')"
  shows "swWAL b' = swWAL b \<and> (case e of Some _ \<Rightarrow> swSnapshot b' = swSnapshot b
    | None \<Rightarrow> (\<forall>v \<in> set vs. utf8_valid (vID v)) \<longrightarrow>
        (\<exists>m. LoadSnapshot c no_fault b' = Inr m \<and> gm_wf m \<and> gm_get m = gm_get (snapshot_payload vs)))"
proof -
  have inv: "gm_wf (snapshot_payload xs) \<and> set (gm_keys (snapshot_payload xs)) \<subseteq> vID ` set xs" for xs
    unfolding snapshot_payload_def by (induction xs rule: rev_induct) auto
  then have keys: "\<forall>v \<in> set vs. utf8_valid (vID v) \<Longrightarrow> list_all (\<lambda>(k, _). utf8_valid k) (snapshot_payload vs)"
    by (fastforce simp: list_all_iff gm_keys_def)
  have law: "\<exists>m'. jUnmarshalMap c data = Some m' \<and> gm_wf m' \<and> gm_get m' = gm_get (snapshot_payload vs)"
    if "jMarshalMap c (snapshot_payload vs) = Some data" "\<forall>v \<in> set vs. utf8_valid (vID v)" for data
    using assms(1) inv [of vs] keys that unfolding json_ok_def by blast
  show ?thesis
    using assms(2) law unfolding SaveSnapshot_def
    by (fastforce simp: LoadSnapshot_def no_fault_def split: option.splits)
qed

text \<open>
  C27. Snapshots are replaced atomically: whichever call fails while a snapshot is saved, the old snapshot stays as it was;
  and when saving succeeds, loading returns a map with the saved vectors.
\<close>

theorem snapshot_atomic:
  assumes "json_ok c" and "SaveSnapshot c flt b vs = (e, b')"
  shows "swWAL b' = swWAL b \<and> (case e of Some _ \<Rightarrow> swSnapshot b' = swSnapshot b
    | None \<Rightarrow> (\<forall>v \<in> set vs. utf8_valid (vID v)) \<longrightarrow>
        (\<exists>m. LoadSnapshot c no_fault b' = Inr m \<and> gm_wf m \<and> gm_get m = gm_get (snapshot_payload vs)))"
  using assms by (rule SaveSnapshot_facts)

theorem snapshot_atomic_witness:
  "\<exists>e b'. SaveSnapshot hex_codec no_fault no_files [\<lparr>vID = ''a'', vValues = [0]\<rparr>] = (e, b') \<and> swWAL b' = None \<and>
     (case e of Some _ \<Rightarrow> swSnapshot b' = None
      | None \<Rightarrow> (\<exists>m. LoadSnapshot hex_codec no_fault b' = Inr m \<and> gm_get m ''a'' = Some [0]))"
proof -
  obtain e b' where s: "SaveSnapshot hex_codec no_fault no_files [\<lparr>vID = ''a'', vValues = [0]\<rparr>] = (e, b')" by force
  have "gm_get (snapshot_payload [\<lparr>vID = ''a'', vValues = [0]\<rparr>]) ''a'' = Some [0]" "utf8_valid ''a''"
    by (simp_all add: snapshot_payload_def in_range_def)
  with snapshot_atomic [OF hex_codec_ok s] s show ?thesis by (auto simp: no_files_def split: option.splits)
qed

end
