(* ===== verification/Service.thy ===== *)
theory Service
  imports ExactSearch AnnIndex Stores Persistence
begin

text \<open>
  \<^verbatim>\<open>internal/core/service.go\<close> and \<^verbatim>\<open>list_vectors.go\<close>: the service that keeps the exact index, the vector store, the
  approximate index, the identifier resolver and the persistence backend in step. An operation takes the
  environment \<open>serviceEnv\<close> (the method table of the vector store, the JSON codec, the operating-system faults and
  the choices the run time makes) and the state, and returns \<open>None\<close> for a run-time panic or its
  result with the new state. \<^verbatim>\<open>persistMu\<close> serialises the writing operations, so each is one atomic step.
  This theory holds the definitions; the theories \<^verbatim>\<open>ServiceWrites\<close>, \<^verbatim>\<open>Durability\<close> and \<^verbatim>\<open>ServiceReads\<close> hold what is proved.
\<close>

section \<open>State\<close>

record 'v serviceEnv =
  seStore :: "'v vectorStoreOps"
  seCodec :: jsonCodec
  seFault :: iofault
  seIter :: "string list \<Rightarrow> string list"
  seIters :: "nat \<Rightarrow> string list \<Rightarrow> string list"
  seIntn :: "int \<times> nat \<Rightarrow> int"
  seSort :: "searchResult list \<Rightarrow> searchResult list"
  seProcs :: nat
  seOrder :: "nat \<Rightarrow> nat list"

record serviceStats =
  searchRequestsTotal :: "64 word"
  exactSearchesTotal :: "64 word"
  annSearchesTotal :: "64 word"
  annSearchHitsTotal :: "64 word"
  annSearchFallbacks :: "64 word"
  annSearchErrorsTotal :: "64 word"
  annCandidatesReturned :: "64 word"
  annEvalSamplesTotal :: "64 word"
  annEvalTop1Matches :: "64 word"
  annEvalOverlapResults :: "64 word"
  annEvalComparedResults :: "64 word"

record 'v service =
  svIndex :: index
  svAnn :: annIndex
  svMaxVectorDim :: int
  svMaxK :: int
  svSnapshotEvery :: int
  svSearchMode :: string
  svAnnProfile :: string
  svAnnOptions :: annOptions
  svAnnEvalSampleRate :: int
  svPersistOps :: int
  svStore :: 'v
  svResolver :: memoryIDResolver
  svPersistence :: snapshotWALBackend
  svStats :: serviceStats

record batchSearchQuery =
  bqID :: string
  bqValues :: "float64 list"
  bqK :: int

section \<open>Options\<close>

definition normalizeSearchMode :: "string \<Rightarrow> string" where
  "normalizeSearchMode mode = (let mode = ToLower (TrimSpace mode) in if mode \<noteq> ''ann'' then ''exact'' else mode)"

definition normalizeANNProfile :: "string \<Rightarrow> string" where
  "normalizeANNProfile profile =
     (let p = ToLower (TrimSpace profile)
      in if p = ''fast'' then ''fast'' else if p = ''quality'' then ''quality''
         else if p = ''custom'' then ''custom'' else ''balanced'')"

definition clampPercent :: "int \<Rightarrow> int" where
  "clampPercent v = (if v < 0 then 0 else if v > 100 then 100 else v)"

definition minInt :: "int \<Rightarrow> int \<Rightarrow> int" where
  "minInt a b = (if a < b then a else b)"

section \<open>Persistence as the service uses it\<close>

definition usesPersistentVectorStore :: "'v serviceEnv \<Rightarrow> 'v service \<Rightarrow> bool" where
  "usesPersistentVectorStore env s =
     (case stIsPersistent (seStore env) of None \<Rightarrow> False | Some p \<Rightarrow> p (svStore s))"

definition saveSnapshot :: "'v serviceEnv \<Rightarrow> 'v service \<Rightarrow> goerror option \<times> 'v service" where
  "saveSnapshot env s =
     (if usesPersistentVectorStore env s then (None, s)
      else case SaveSnapshot (seCodec env) (seFault env) (svPersistence s) (stListVectors (seStore env) (svStore s)) of
        (e, b) \<Rightarrow> (e, s\<lparr>svPersistence := b\<rparr>))"

definition appendWALBatch :: "'v serviceEnv \<Rightarrow> 'v service \<Rightarrow> walOp list \<Rightarrow> goerror option \<times> 'v service" where
  "appendWALBatch env s ops =
     (if ops = [] then (None, s)
      else if usesPersistentVectorStore env s then (None, s)
      else case AppendWALBatch (seCodec env) (seFault env) (svPersistence s) ops of
        (e, b) \<Rightarrow> (e, s\<lparr>svPersistence := b\<rparr>))"

definition appendWAL :: "'v serviceEnv \<Rightarrow> 'v service \<Rightarrow> walOp \<Rightarrow> goerror option \<times> 'v service" where
  "appendWAL env s op = appendWALBatch env s [op]"

definition truncateWAL :: "'v serviceEnv \<Rightarrow> 'v service \<Rightarrow> goerror option \<times> 'v service" where
  "truncateWAL env s =
     (if usesPersistentVectorStore env s then (None, s)
      else case TruncateWAL (seFault env) (svPersistence s) of (e, b) \<Rightarrow> (e, s\<lparr>svPersistence := b\<rparr>))"

definition syncPersistence :: "'v serviceEnv \<Rightarrow> 'v service \<Rightarrow> goerror option \<times> 'v service" where
  "syncPersistence env s =
     (case Backend_Sync (seFault env) (svPersistence s) of (e, b) \<Rightarrow> (e, s\<lparr>svPersistence := b\<rparr>))"

definition maybeSnapshot :: "'v serviceEnv \<Rightarrow> 'v service \<Rightarrow> goerror option \<times> 'v service" where
  "maybeSnapshot env s0 =
     (if usesPersistentVectorStore env s0 then (None, s0\<lparr>svPersistOps := 0\<rparr>)
      else let s = s0\<lparr>svPersistOps := svPersistOps s0 + 1\<rparr>
           in if svPersistOps s < svSnapshotEvery s then (None, s)
              else case syncPersistence env s of
                  (Some e, s1) \<Rightarrow> (Some e, s1)
                | (None, s1) \<Rightarrow>
                    (case saveSnapshot env s1 of
                       (Some e, s2) \<Rightarrow> (Some e, s2)
                     | (None, s2) \<Rightarrow>
                         (case truncateWAL env s2 of
                            (Some e, s3) \<Rightarrow> (Some e, s3)
                          | (None, s3) \<Rightarrow> (None, s3\<lparr>svPersistOps := 0\<rparr>))))"

section \<open>The approximate index as the service uses it\<close>

text \<open>
  The pool of the index may always hand out a new workspace, and by \<^verbatim>\<open>ann_workspace_reuse\<close> a reused one gives the same results.
\<close>

definition addANNVector :: "'v serviceEnv \<Rightarrow> 'v service \<Rightarrow> int \<Rightarrow> float64 list \<Rightarrow> (goerror option \<times> 'v service) option" where
  "addANNVector env s internalID vals =
     map_option (\<lambda>(e, a, _). (e, s\<lparr>svAnn := a\<rparr>)) (Ann_AddVector (seIntn env) (svAnn s) newWorkspace internalID vals)"

definition deleteANNVector :: "'v service \<Rightarrow> int \<Rightarrow> 'v service option" where
  "deleteANNVector s internalID = map_option (\<lambda>a. s\<lparr>svAnn := a\<rparr>) (Ann_DeleteVector (svAnn s) internalID)"

fun rebuild_ann :: "(int \<times> nat \<Rightarrow> int) \<Rightarrow> memoryIDResolver \<Rightarrow> annIndex \<Rightarrow> vector list \<Rightarrow> (memoryIDResolver \<times> annIndex) option" where
  "rebuild_ann intn r a [] = Some (r, a)"
| "rebuild_ann intn r a (vec # vecs) =
     (case Assign r (vID vec) of (internalID, r') \<Rightarrow>
        (case Ann_AddVector intn a newWorkspace internalID (vValues vec) of
           None \<Rightarrow> None
         | Some (_, a', _) \<Rightarrow> rebuild_ann intn r' a' vecs))"

definition rebuildANNLocked :: "'v serviceEnv \<Rightarrow> 'v service \<Rightarrow> 'v service option" where
  "rebuildANNLocked env s =
     map_option (\<lambda>(r, a). s\<lparr>svResolver := r, svAnn := a\<rparr>)
       (rebuild_ann (seIntn env) (svResolver s) (NewAnnIndexWithOptions (svAnnOptions s))
          (Index_ListVectors (seIter env) (svIndex s)))"

definition annDeleteRebuildMinDeleted :: int where "annDeleteRebuildMinDeleted = 1024"

text \<open>The ratio test \<^verbatim>\<open>float64(Deleted)/float64(Nodes) < 0.25\<close> is exact for the counts a process can hold.\<close>

definition maybeCompactANNAfterDeleteLocked :: "'v serviceEnv \<Rightarrow> 'v service \<Rightarrow> 'v service option" where
  "maybeCompactANNAfterDeleteLocked env s =
     (let stats = Ann_Stats (svAnn s)
      in if asDeleted stats < annDeleteRebuildMinDeleted then Some s
         else if asNodes stats = 0 \<or> 4 * asDeleted stats < int (asNodes stats) then Some s
         else rebuildANNLocked env s)"

section \<open>Writes\<close>

text \<open>Undoing a batch: store and index entries go, errors are ignored, and the approximate index is rebuilt.\<close>

fun remove_ids :: "'v serviceEnv \<Rightarrow> 'v service \<Rightarrow> string list \<Rightarrow> 'v service" where
  "remove_ids env s [] = s"
| "remove_ids env s (vid # ids) =
     remove_ids env
       (s\<lparr>svStore := snd (stDeleteVector (seStore env) (svStore s) vid), svIndex := snd (Index_DeleteVector (svIndex s) vid)\<rparr>) ids"

definition rollbackAddedVectors :: "'v serviceEnv \<Rightarrow> 'v service \<Rightarrow> string list \<Rightarrow> 'v service option" where
  "rollbackAddedVectors env s ids = rebuildANNLocked env (remove_ids env s ids)"

definition fail_with :: "'v serviceEnv \<Rightarrow> 'v service \<Rightarrow> string list \<Rightarrow> goerror \<Rightarrow> (goerror option \<times> 'v service) option" where
  "fail_with env s addedIDs e = map_option (\<lambda>s'. (Some e, s')) (rollbackAddedVectors env s addedIDs)"

text \<open>The checks of one vector, in the order of the code; \<open>None\<close> if it may be added to the index.\<close>

definition check_vector :: "'v service \<Rightarrow> vector \<Rightarrow> goerror option" where
  "check_vector s vec =
     (if TrimSpace (vID vec) = [] then Some ErrInvalidID
      else if length (vValues vec) = 0 then Some ErrInvalidValues
      else if svMaxVectorDim s < int (length (vValues vec)) then Some (ErrVectorDimTooHigh (svMaxVectorDim s))
      else None)"

text \<open>The first loop: an error, or none, with the identifiers added so far.\<close>

fun index_vectors :: "'v service \<Rightarrow> string list \<Rightarrow> vector list \<Rightarrow> goerror option \<times> string list \<times> 'v service" where
  "index_vectors s added [] = (None, added, s)"
| "index_vectors s added (vec # vecs) =
     (case check_vector s vec of Some e \<Rightarrow> (Some e, added, s)
      | None \<Rightarrow>
          (case Index_AddVector (svIndex s) vec of
             (Some e, i) \<Rightarrow> (Some e, added, s\<lparr>svIndex := i\<rparr>)
           | (None, i) \<Rightarrow> index_vectors (s\<lparr>svIndex := i\<rparr>) (added @ [vID vec]) vecs))"

fun upsert_each :: "'v vectorStoreOps \<Rightarrow> 'v \<Rightarrow> vector list \<Rightarrow> goerror option \<times> 'v" where
  "upsert_each st v [] = (None, v)"
| "upsert_each st v (vec # vecs) =
     (case stUpsertVector st v vec of (Some e, v') \<Rightarrow> (Some e, v') | (None, v') \<Rightarrow> upsert_each st v' vecs)"

definition upsertVectors :: "'v serviceEnv \<Rightarrow> 'v service \<Rightarrow> vector list \<Rightarrow> goerror option \<times> 'v service" where
  "upsertVectors env s vectors =
     (if vectors = [] then (None, s)
      else case (case stUpsertVectors (seStore env) of
                   Some up \<Rightarrow> up (svStore s) vectors
                 | None \<Rightarrow> upsert_each (seStore env) (svStore s) vectors) of
        (e, v) \<Rightarrow> (e, s\<lparr>svStore := v\<rparr>))"

text \<open>The loop over the approximate index; on an error the failing vector is removed before the batch is undone.\<close>

fun ann_vectors :: "'v serviceEnv \<Rightarrow> 'v service \<Rightarrow> vector list \<Rightarrow> (goerror option \<times> 'v service) option" where
  "ann_vectors env s [] = Some (None, s)"
| "ann_vectors env s (vec # vecs) =
     (case Assign (svResolver s) (vID vec) of (internalID, r) \<Rightarrow>
        (case addANNVector env (s\<lparr>svResolver := r\<rparr>) internalID (vValues vec) of
           None \<Rightarrow> None
         | Some (Some e, s1) \<Rightarrow> Some (Some e, remove_ids env s1 [vID vec])
         | Some (None, s1) \<Rightarrow> ann_vectors env s1 vecs))"

definition upsert_op :: "vector \<Rightarrow> walOp" where
  "upsert_op vec = \<lparr>wOp = ''upsert'', wID = vID vec, wValues = vValues vec\<rparr>"

definition delete_op :: "string \<Rightarrow> walOp" where
  "delete_op vid = \<lparr>wOp = ''delete'', wID = vid, wValues = []\<rparr>"

definition AddVectors :: "'v serviceEnv \<Rightarrow> 'v service \<Rightarrow> vector list \<Rightarrow> (goerror option \<times> 'v service) option" where
  "AddVectors env s vectors =
     (if vectors = [] then Some (Some ErrInvalidValues, s)
      else case index_vectors s [] vectors of
        (Some e, added, s1) \<Rightarrow> fail_with env s1 added e
      | (None, added, s1) \<Rightarrow>
          (case upsertVectors env s1 vectors of
             (Some e, s2) \<Rightarrow> fail_with env s2 added e
           | (None, s2) \<Rightarrow>
               (case ann_vectors env s2 vectors of
                  None \<Rightarrow> None
                | Some (Some e, s3) \<Rightarrow> fail_with env s3 added e
                | Some (None, s3) \<Rightarrow>
                    (case appendWALBatch env s3 (map upsert_op vectors) of
                       (Some e, s4) \<Rightarrow> fail_with env s4 added e
                     | (None, s4) \<Rightarrow> Some (maybeSnapshot env s4)))))"

definition AddVector :: "'v serviceEnv \<Rightarrow> 'v service \<Rightarrow> string \<Rightarrow> float64 list \<Rightarrow> (goerror option \<times> 'v service) option" where
  "AddVector env s vid vals = AddVectors env s [\<lparr>vID = vid, vValues = vals\<rparr>]"

definition DeleteVector :: "'v serviceEnv \<Rightarrow> 'v service \<Rightarrow> string \<Rightarrow> (goerror option \<times> 'v service) option" where
  "DeleteVector env s vid =
     (if TrimSpace vid = [] then Some (Some ErrInvalidID, s)
      else case stGetVector (seStore env) (svStore s) vid of
        (Inl e, v) \<Rightarrow> Some (Some e, s\<lparr>svStore := v\<rparr>)
      | (Inr vec, v) \<Rightarrow>
          (let s1 = s\<lparr>svStore := v\<rparr>
           in case Index_DeleteVector (svIndex s1) vid of
                (Some e, i) \<Rightarrow> Some (Some e, s1\<lparr>svIndex := i\<rparr>)
              | (None, i) \<Rightarrow>
                  (let s2 = s1\<lparr>svIndex := i\<rparr>
                   in case stDeleteVector (seStore env) (svStore s2) vid of
                        (Some e, v2) \<Rightarrow> Some (Some e, s2\<lparr>svStore := v2, svIndex := snd (Index_AddVector (svIndex s2) vec)\<rparr>)
                      | (None, v2) \<Rightarrow>
                          (case Assign (svResolver s2) vid of (internalID, r) \<Rightarrow>
                             (case deleteANNVector (s2\<lparr>svStore := v2, svResolver := r\<rparr>) internalID of
                                None \<Rightarrow> None
                              | Some s3 \<Rightarrow>
                                  (let s4 = s3\<lparr>svResolver := Remove (svResolver s3) vid\<rparr>
                                   in case appendWAL env s4 (delete_op vid) of
                                        (Some e, s5) \<Rightarrow>
                                          (let s6 = s5\<lparr>svStore := snd (stUpsertVector (seStore env) (svStore s5) vec),
                                                      svIndex := snd (Index_AddVector (svIndex s5) vec),
                                                      svResolver := snd (Assign (svResolver s5) vid)\<rparr>
                                           in map_option (\<lambda>s7. (Some e, s7)) (rebuildANNLocked env s6))
                                      | (None, s5) \<Rightarrow>
                                          map_option (maybeSnapshot env) (maybeCompactANNAfterDeleteLocked env s5)))))))"

section \<open>Reads\<close>

definition Service_GetVector :: "'v serviceEnv \<Rightarrow> 'v service \<Rightarrow> string \<Rightarrow> vector result \<times> 'v service" where
  "Service_GetVector env s vid =
     (if TrimSpace vid = [] then (Inl ErrInvalidID, s)
      else case stGetVector (seStore env) (svStore s) vid of (r, v) \<Rightarrow> (r, s\<lparr>svStore := v\<rparr>))"

text \<open>Identifiers are distinct, so the unstable sort by identifier has one possible result.\<close>

definition Service_ListVectors :: "'v serviceEnv \<Rightarrow> 'v service \<Rightarrow> vector list" where
  "Service_ListVectors env s = sort_key vID (stListVectors (seStore env) (svStore s))"

definition validateSearchRequest :: "'v service \<Rightarrow> float64 list \<Rightarrow> int \<Rightarrow> goerror option" where
  "validateSearchRequest s vals k =
     (if length vals = 0 then Some ErrInvalidValues
      else if k \<le> 0 then Some ErrInvalidK
      else if svMaxK s < k then Some (ErrKTooHigh (svMaxK s))
      else if svMaxVectorDim s < int (length vals) then Some (ErrVectorDimTooHigh (svMaxVectorDim s))
      else None)"

definition inc_stat :: "((64 word \<Rightarrow> 64 word) \<Rightarrow> serviceStats \<Rightarrow> serviceStats) \<Rightarrow> 64 word \<Rightarrow> 'v service \<Rightarrow> 'v service" where
  "inc_stat upd n s = s\<lparr>svStats := upd (\<lambda>x. x + n) (svStats s)\<rparr>"

fun resolve_results :: "memoryIDResolver \<Rightarrow> annResult list \<Rightarrow> searchResult list" where
  "resolve_results r [] = []"
| "resolve_results r (cand # cands) =
     (case Lookup r (arID cand) of
        None \<Rightarrow> resolve_results r cands
      | Some vid \<Rightarrow>
          if \<not> f64_eq (arDistance cand) (arDistance cand) then resolve_results r cands
          else \<lparr>srID = vid, srDistance = arDistance cand\<rparr> # resolve_results r cands)"

text \<open>\<open>None\<close> inside is \<^verbatim>\<open>ok = false\<close>.\<close>

definition searchANN :: "'v service \<Rightarrow> float64 list \<Rightarrow> int \<Rightarrow> (searchResult list option \<times> 'v service) option" where
  "searchANN s0 vals k =
     (let s = inc_stat annSearchesTotal_update 1 s0
      in case SearchWithDistancesInto (svAnn s) newWorkspace vals k of
           None \<Rightarrow> None
         | Some (Inl e, _) \<Rightarrow> Some (None, inc_stat annSearchErrorsTotal_update 1 s)
         | Some (Inr candidates, _) \<Rightarrow>
             (let s1 = inc_stat annCandidatesReturned_update (word_of_nat (length candidates)) s;
                  results = resolve_results (svResolver s1) candidates
              in if results = [] then Some (None, s1)
                 else Some (Some (map (\<lambda>r. r\<lparr>srDistance := sqrtDistance (srDistance r)\<rparr>) results),
                            inc_stat annSearchHitsTotal_update 1 s1)))"

definition shouldEvaluateANN :: "'v service \<Rightarrow> bool" where
  "shouldEvaluateANN s =
     (if svAnnEvalSampleRate s \<le> 0 then False
      else int (unat (annSearchesTotal (svStats s)) mod 100) < svAnnEvalSampleRate s)"

definition service_searchExact :: "'v serviceEnv \<Rightarrow> 'v service \<Rightarrow> float64 list \<Rightarrow> int \<Rightarrow> searchResult list option" where
  "service_searchExact env s vals k = searchExact (seIter env) (seSort env) (svIndex s) vals k"

definition maybeEvaluateANN :: "'v serviceEnv \<Rightarrow> 'v service \<Rightarrow> float64 list \<Rightarrow> int \<Rightarrow> searchResult list \<Rightarrow> 'v service option" where
  "maybeEvaluateANN env s vals k annResults =
     (if \<not> shouldEvaluateANN s then Some s
      else case service_searchExact env s vals k of
          None \<Rightarrow> None
        | Some exactResults \<Rightarrow>
            (let s1 = inc_stat annEvalSamplesTotal_update 1 s;
                 s2 = (if annResults \<noteq> [] \<and> exactResults \<noteq> [] \<and> srID (hd annResults) = srID (hd exactResults)
                       then inc_stat annEvalTop1Matches_update 1 s1 else s1);
                 exactIDs = map srID exactResults;
                 overlap = length (filter (\<lambda>r. srID r \<in> set exactIDs) annResults);
                 compared = minInt (int (length annResults)) (int (length exactResults))
             in Some (inc_stat annEvalComparedResults_update (word_of_int compared)
                       (inc_stat annEvalOverlapResults_update (word_of_nat overlap) s2))))"

definition Search :: "'v serviceEnv \<Rightarrow> 'v service \<Rightarrow> float64 list \<Rightarrow> int \<Rightarrow> (searchResult list result \<times> 'v service) option" where
  "Search env s0 vals k =
     (case validateSearchRequest s0 vals k of Some e \<Rightarrow> Some (Inl e, s0)
      | None \<Rightarrow>
          (let s = inc_stat searchRequestsTotal_update 1 s0;
               exact = (\<lambda>s. map_option (\<lambda>r. (Inr r, inc_stat exactSearchesTotal_update 1 s)) (service_searchExact env s vals k))
           in if svSearchMode s = ''ann''
              then case searchANN s vals k of
                  None \<Rightarrow> None
                | Some (Some results, s1) \<Rightarrow> map_option (\<lambda>s2. (Inr results, s2)) (maybeEvaluateANN env s1 vals k results)
                | Some (None, s1) \<Rightarrow> exact (inc_stat annSearchFallbacks_update 1 s1)
              else exact s))"

section \<open>Batch search\<close>

fun prepare_queries :: "'v service \<Rightarrow> nat \<Rightarrow> batchSearchQuery list \<Rightarrow> preparedBatchQuery list result" where
  "prepare_queries s i [] = Inr []"
| "prepare_queries s i (query # queries) =
     (case validateSearchRequest s (bqValues query) (bqK query) of Some e \<Rightarrow> Inl e
      | None \<Rightarrow>
          (let queryID = (if TrimSpace (bqID query) = [] then ''query-'' @ decimal i else TrimSpace (bqID query));
               query32 = (if svSearchMode s \<noteq> ''ann'' then ToFloat32 (bqValues query) else [])
           in case prepare_queries s (i + 1) queries of Inl e \<Rightarrow> Inl e
              | Inr prepared \<Rightarrow>
                  Inr (\<lparr>pqID = queryID, pqVals = bqValues query, pqVals32 = query32, pqAcc = newTopKAccumulator (bqK query)\<rparr> # prepared)))"

text \<open>
  \<^verbatim>\<open>searchBatchANN\<close> with one worker stops at the first error. With more, the jobs finish in the order \<open>seOrder\<close> gives; the
  goroutines share only the counters, so each \<^verbatim>\<open>Search\<close> is one step.
\<close>

fun ann_serial :: "'v serviceEnv \<Rightarrow> 'v service \<Rightarrow> preparedBatchQuery list \<Rightarrow> (batchSearchResult list result \<times> 'v service) option" where
  "ann_serial env s [] = Some (Inr [], s)"
| "ann_serial env s (q # qs) =
     (case Search env s (pqVals q) (accLimit (pqAcc q)) of
        None \<Rightarrow> None
      | Some (Inl e, s') \<Rightarrow> Some (Inl e, s')
      | Some (Inr hits, s') \<Rightarrow>
          (case ann_serial env s' qs of
             None \<Rightarrow> None
           | Some (Inl e, s'') \<Rightarrow> Some (Inl e, s'')
           | Some (Inr rs, s'') \<Rightarrow> Some (Inr (\<lparr>bsID = pqID q, bsResults = hits\<rparr> # rs), s'')))"

fun ann_jobs :: "'v serviceEnv \<Rightarrow> 'v service \<Rightarrow> preparedBatchQuery list \<Rightarrow> nat list \<Rightarrow> batchSearchResult list \<Rightarrow> goerror option \<Rightarrow>
    (goerror option \<times> batchSearchResult list \<times> 'v service) option" where
  "ann_jobs env s prepared [] results firstErr = Some (firstErr, results, s)"
| "ann_jobs env s prepared (i # jobs) results firstErr =
     (case idx prepared i of None \<Rightarrow> None
      | Some q \<Rightarrow>
          (case Search env s (pqVals q) (accLimit (pqAcc q)) of
             None \<Rightarrow> None
           | Some (Inl e, s') \<Rightarrow> ann_jobs env s' prepared jobs results (if firstErr = None then Some e else firstErr)
           | Some (Inr hits, s') \<Rightarrow>
               ann_jobs env s' prepared jobs (results[i := \<lparr>bsID = pqID q, bsResults = hits\<rparr>]) firstErr))"

definition searchBatchANN :: "'v serviceEnv \<Rightarrow> 'v service \<Rightarrow> preparedBatchQuery list \<Rightarrow> (batchSearchResult list result \<times> 'v service) option" where
  "searchBatchANN env s prepared =
     (let workers = min (length prepared) (seProcs env)
      in if workers \<le> 1 then ann_serial env s prepared
         else map_option (\<lambda>(firstErr, results, s'). (case firstErr of Some e \<Rightarrow> Inl e | None \<Rightarrow> Inr results, s'))
                (ann_jobs env s prepared (seOrder env (length prepared))
                   (replicate (length prepared) \<lparr>bsID = [], bsResults = []\<rparr>) None))"

definition SearchBatch :: "'v serviceEnv \<Rightarrow> 'v service \<Rightarrow> batchSearchQuery list \<Rightarrow> (batchSearchResult list result \<times> 'v service) option" where
  "SearchBatch env s queries =
     (if queries = [] then Some (Inl ErrInvalidValues, s)
      else case prepare_queries s 0 queries of Inl e \<Rightarrow> Some (Inl e, s)
      | Inr prepared \<Rightarrow>
          if svSearchMode s = ''ann'' then searchBatchANN env s prepared
          else map_option (\<lambda>rs. (Inr rs, s))
                 (if 8 \<le> length prepared \<and> 1 < seProcs env
                  then searchBatchExactParallel (seProcs env) (seIters env) (seSort env) (svIndex s) prepared
                  else searchBatchExactSerial (seIters env 0) (seSort env) (svIndex s) prepared))"

section \<open>Pages\<close>

record listVectorsOptions =
  loAfterID :: string
  loLimit :: int
  loIDsOnly :: bool

record listVectorsPage =
  lpVectors :: "vector list"
  lpNextCursor :: string

definition rangeVectorIDs :: "'v serviceEnv \<Rightarrow> 'v service \<Rightarrow> string list" where
  "rangeVectorIDs env s =
     (case stRangeVectorIDs (seStore env) of
        Some ranger \<Rightarrow> ranger (svStore s)
      | None \<Rightarrow> map vID (stListVectors (seStore env) (svStore s)))"

definition selectVectorPageIDs :: "'v serviceEnv \<Rightarrow> 'v service \<Rightarrow> string \<Rightarrow> int \<Rightarrow> string list" where
  "selectVectorPageIDs env s afterID limit =
     (if limit \<le> 0 then []
      else case stPageVectorIDs (seStore env) of
          Some pager \<Rightarrow> pager (svStore s) afterID limit
        | None \<Rightarrow> selectPageIDsFromRange afterID limit (rangeVectorIDs env s))"

fun page_vectors :: "'v vectorStoreOps \<Rightarrow> 'v \<Rightarrow> string list \<Rightarrow> vector list \<times> 'v" where
  "page_vectors st v [] = ([], v)"
| "page_vectors st v (vid # ids) =
     (case stGetVector st v vid of
        (Inl _, v') \<Rightarrow> page_vectors st v' ids
      | (Inr vec, v') \<Rightarrow> (case page_vectors st v' ids of (vecs, v'') \<Rightarrow> (vec # vecs, v'')))"

definition ListVectorsPage :: "'v serviceEnv \<Rightarrow> 'v service \<Rightarrow> listVectorsOptions \<Rightarrow> listVectorsPage \<times> 'v service" where
  "ListVectorsPage env s opts =
     (if loLimit opts \<le> 0 then (\<lparr>lpVectors = [], lpNextCursor = []\<rparr>, s)
      else let allIDs = selectVectorPageIDs env s (loAfterID opts) (loLimit opts + 1);
               hasMore = loLimit opts < int (length allIDs);
               pageIDs = (if hasMore then take (nat (loLimit opts)) allIDs else allIDs);
               (vecs, v) = (if loIDsOnly opts then (map (\<lambda>vid. \<lparr>vID = vid, vValues = []\<rparr>) pageIDs, svStore s)
                            else page_vectors (seStore env) (svStore s) pageIDs);
               nextCursor = (if hasMore \<and> pageIDs \<noteq> [] then last pageIDs else [])
           in (\<lparr>lpVectors = vecs, lpNextCursor = nextCursor\<rparr>, s\<lparr>svStore := v\<rparr>))"

section \<open>Start and stop\<close>

definition storable :: "'v service \<Rightarrow> string \<Rightarrow> float64 list \<Rightarrow> bool" where
  "storable s vid vals \<longleftrightarrow> \<not> (vid = [] \<or> length vals = 0 \<or> svMaxVectorDim s < int (length vals))"

fun load_entries :: "'v serviceEnv \<Rightarrow> 'v service \<Rightarrow> (string \<times> float64 list) list \<Rightarrow> (goerror option \<times> 'v service) option" where
  "load_entries env s [] = Some (None, s)"
| "load_entries env s ((vid, vals) # rest) =
     (if \<not> storable s vid vals then load_entries env s rest
      else let vec = \<lparr>vID = vid, vValues = vals\<rparr>
           in case stUpsertVector (seStore env) (svStore s) vec of
                (Some e, v) \<Rightarrow> Some (Some e, s\<lparr>svStore := v\<rparr>)
              | (None, v) \<Rightarrow>
                  (case Index_AddVector (svIndex s) vec of (e, i) \<Rightarrow>
                     (let s1 = s\<lparr>svStore := v, svIndex := i\<rparr>
                      in if e \<noteq> None \<and> e \<noteq> Some ErrVectorExists then Some (e, s1)
                         else case Assign (svResolver s1) vid of (internalID, r) \<Rightarrow>
                           (case addANNVector env (s1\<lparr>svResolver := r\<rparr>) internalID vals of
                              None \<Rightarrow> None
                            | Some (Some e, s2) \<Rightarrow> Some (Some e, s2)
                            | Some (None, s2) \<Rightarrow> load_entries env s2 rest))))"

definition loadSnapshot :: "'v serviceEnv \<Rightarrow> 'v service \<Rightarrow> (goerror option \<times> 'v service) option" where
  "loadSnapshot env s =
     (case LoadSnapshot (seCodec env) (seFault env) (svPersistence s) of
        Inl e \<Rightarrow> Some (Some e, s)
      | Inr payload \<Rightarrow> load_entries env s (gm_range (seIter env) payload))"

definition replay_op :: "'v serviceEnv \<Rightarrow> 'v service \<Rightarrow> walOp \<Rightarrow> goerror option \<times> 'v service" where
  "replay_op env s op =
     (if wOp op = ''upsert'' then
        if \<not> storable s (wID op) (wValues op) then (Some ErrSkipWALOp, s)
        else let vec = \<lparr>vID = wID op, vValues = wValues op\<rparr>
             in case stUpsertVector (seStore env) (svStore s) vec of
                  (Some e, v) \<Rightarrow> (Some e, s\<lparr>svStore := v\<rparr>)
                | (None, v) \<Rightarrow>
                    (case Index_AddVector (svIndex s) vec of
                       (None, i) \<Rightarrow> (None, s\<lparr>svStore := v, svIndex := i\<rparr>)
                     | (Some e, i) \<Rightarrow>
                         if e = ErrVectorExists
                         then (None, s\<lparr>svStore := snd (stUpsertVector (seStore env) v vec),
                                     svIndex := snd (Index_AddVector (snd (Index_DeleteVector i (wID op))) vec)\<rparr>)
                         else (Some e, s\<lparr>svStore := v, svIndex := i\<rparr>))
      else if wOp op = ''delete'' then
        if wID op = [] then (Some ErrSkipWALOp, s) else (None, remove_ids env s [wID op])
      else (None, s))"

definition replayWAL :: "'v serviceEnv \<Rightarrow> 'v service \<Rightarrow> (goerror option \<times> 'v service) option" where
  "replayWAL env s =
     (case ReplayWAL (seCodec env) (seFault env) (svPersistence s) (replay_op env) s of
        (Some e, s1) \<Rightarrow> Some (Some e, s1)
      | (None, s1) \<Rightarrow> map_option (\<lambda>s2. (None, s2)) (rebuildANNLocked env s1))"

fun load_store :: "'v serviceEnv \<Rightarrow> 'v service \<Rightarrow> vector list \<Rightarrow> (goerror option \<times> 'v service) option" where
  "load_store env s [] = Some (None, s)"
| "load_store env s (vec # vecs) =
     (if \<not> storable s (vID vec) (vValues vec) then load_store env s vecs
      else case Index_AddVector (svIndex s) vec of (e, i) \<Rightarrow>
        (let s1 = s\<lparr>svIndex := i\<rparr>
         in if e \<noteq> None \<and> e \<noteq> Some ErrVectorExists then Some (e, s1)
            else case Assign (svResolver s1) (vID vec) of (internalID, r) \<Rightarrow>
              (case addANNVector env (s1\<lparr>svResolver := r\<rparr>) internalID (vValues vec) of
                 None \<Rightarrow> None
               | Some (_, s2) \<Rightarrow> load_store env s2 vecs)))"

definition loadVectorStoreState :: "'v serviceEnv \<Rightarrow> 'v service \<Rightarrow> (goerror option \<times> 'v service) option" where
  "loadVectorStoreState env s = load_store env s (stListVectors (seStore env) (svStore s))"

definition restoreState :: "'v serviceEnv \<Rightarrow> 'v service \<Rightarrow> (goerror option \<times> 'v service) option" where
  "restoreState env s =
     (if usesPersistentVectorStore env s
      then case loadVectorStoreState env s of
          None \<Rightarrow> None
        | Some (Some e, s1) \<Rightarrow> Some (Some e, s1)
        | Some (None, s1) \<Rightarrow> Some (None, s1\<lparr>svPersistOps := 0\<rparr>)
      else case loadSnapshot env s of
          None \<Rightarrow> None
        | Some (Some e, s1) \<Rightarrow> Some (Some e, s1)
        | Some (None, s1) \<Rightarrow>
            (case replayWAL env s1 of
               None \<Rightarrow> None
             | Some (Some e, s2) \<Rightarrow> Some (Some e, s2)
             | Some (None, s2) \<Rightarrow>
                 (case saveSnapshot env s2 of
                    (Some e, s3) \<Rightarrow> Some (Some e, s3)
                  | (None, s3) \<Rightarrow>
                      (case truncateWAL env s3 of
                         (Some e, s4) \<Rightarrow> Some (Some e, s4)
                       | (None, s4) \<Rightarrow> Some (None, s4\<lparr>svPersistOps := 0\<rparr>)))))"

record serviceOptions =
  opMaxVectorDim :: int
  opMaxK :: int
  opSnapshotEvery :: int
  opSearchMode :: string
  opANNProfile :: string
  opANNOptions :: annOptions
  opANNEvalSampleRate :: int
  opVectorStore :: string
  opCache :: cacheOptions
  opSyncEvery :: int

definition zero_stats :: serviceStats where
  "zero_stats = \<lparr>searchRequestsTotal = 0, exactSearchesTotal = 0, annSearchesTotal = 0, annSearchHitsTotal = 0,
     annSearchFallbacks = 0, annSearchErrorsTotal = 0, annCandidatesReturned = 0, annEvalSamplesTotal = 0,
     annEvalTop1Matches = 0, annEvalOverlapResults = 0, annEvalComparedResults = 0\<rparr>"

text \<open>The state before \<^verbatim>\<open>restoreState\<close>, on a given store and the files a previous process left behind.\<close>

definition service_initial :: "serviceOptions \<Rightarrow> 'v \<Rightarrow> snapshotWALBackend \<Rightarrow> 'v service" where
  "service_initial opts v files =
     \<lparr>svIndex = NewIndex, svAnn = NewAnnIndexWithOptions (opANNOptions opts), svMaxVectorDim = opMaxVectorDim opts,
      svMaxK = opMaxK opts, svSnapshotEvery = opSnapshotEvery opts, svSearchMode = normalizeSearchMode (opSearchMode opts),
      svAnnProfile = normalizeANNProfile (opANNProfile opts), svAnnOptions = opANNOptions opts,
      svAnnEvalSampleRate = clampPercent (opANNEvalSampleRate opts), svPersistOps = 0, svStore = v,
      svResolver = newMemoryIDResolver, svPersistence = newSnapshotWALBackendWithOptions (opSyncEvery opts) files,
      svStats = zero_stats\<rparr>"

text \<open>\<^verbatim>\<open>NewService\<close>: the error of \<^verbatim>\<open>restoreState\<close> is discarded; \<open>disk\<close> is the data file of the file store.\<close>

definition NewService :: "'t storeEnv \<Rightarrow> iofault \<Rightarrow> 't anyStore serviceEnv \<Rightarrow> serviceOptions \<Rightarrow> byte list \<Rightarrow> snapshotWALBackend \<Rightarrow>
    't anyStore service option" where
  "NewService senv flt env opts disk files =
     (case newDefaultVectorStoreWithOptions senv flt (opVectorStore opts) (opSyncEvery opts) disk of
        None \<Rightarrow> None
      | Some b \<Rightarrow> map_option snd (restoreState env (service_initial opts (newCachedVectorStore b (opCache opts)) files)))"

definition Service_Close :: "'v serviceEnv \<Rightarrow> 'v service \<Rightarrow> goerror option \<times> 'v service" where
  "Service_Close env s =
     (case syncPersistence env s of (syncErr, s1) \<Rightarrow>
        (case stClose (seStore env) of
           None \<Rightarrow> (syncErr, s1)
         | Some closer \<Rightarrow>
             (case closer (svStore s1) of
                (Some e, v) \<Rightarrow> (Some e, s1\<lparr>svStore := v\<rparr>)
              | (None, v) \<Rightarrow> (syncErr, s1\<lparr>svStore := v\<rparr>))))"

record serviceStatsView =
  ssCounters :: serviceStats
  ssANNNodes :: nat
  ssANNDeleted :: int
  ssCache :: cacheStats
  ssDisk :: diskStoreStats
  ssANNProfile :: string
  ssANNM :: int
  ssANNEfConstruction :: int
  ssANNEfSearch :: int

definition Service_Stats :: "'v serviceEnv \<Rightarrow> 'v service \<Rightarrow> serviceStatsView" where
  "Service_Stats env s =
     \<lparr>ssCounters = svStats s, ssANNNodes = asNodes (Ann_Stats (svAnn s)), ssANNDeleted = asDeleted (Ann_Stats (svAnn s)),
      ssCache = (case stCacheStats (seStore env) of None \<Rightarrow> \<lparr>cstHits = 0, cstMisses = 0, cstEvictions = 0, cstItems = 0, cstBytes = 0\<rparr>
                 | Some rd \<Rightarrow> rd (svStore s)),
      ssDisk = (case stDiskStats (seStore env) of None \<Rightarrow> \<lparr>dsFileBytes = 0, dsRecords = 0, dsStaleRecords = 0, dsCompactions = 0\<rparr>
                | Some rd \<Rightarrow> rd (svStore s)),
      ssANNProfile = normalizeANNProfile (svAnnProfile s), ssANNM = aoM (svAnnOptions s),
      ssANNEfConstruction = aoEfConstruction (svAnnOptions s), ssANNEfSearch = aoEfSearch (svAnnOptions s)\<rparr>"

end
