(* ===== verification/ServiceWrites.thy ===== *)
theory ServiceWrites
  imports Service
begin

text \<open>
  What the writing operations of the service guarantee. The invariant \<open>svc_inv\<close> says that the exact index, the vector store,
  the approximate index and the resolver describe the same map. Inside the locale \<open>service_store\<close> it is shown that
  \<^verbatim>\<open>AddVectors\<close> and \<^verbatim>\<open>DeleteVector\<close> keep it and are all-or-nothing, whatever fails in the persistence backend; the
  properties at the end are the instances for the configured store.
\<close>

section \<open>The invariant\<close>

text \<open>The approximate index \<open>a\<close> holds, under the numbers of \<open>r\<close>, the map \<open>m\<close>.\<close>

definition ann_holds :: "memoryIDResolver \<Rightarrow> annIndex \<Rightarrow> vmap \<Rightarrow> bool" where
  "ann_holds r a m \<longleftrightarrow> ann_wf a \<and> res_wf r \<and> dom m \<subseteq> dom (gm_get (idToInternal r)) \<and>
     (\<forall>n. ann_abs a n = (case Lookup r n of None \<Rightarrow> None | Some vid \<Rightarrow> m vid))"

definition svc_inv :: "('v \<Rightarrow> bool) \<Rightarrow> ('v \<Rightarrow> vmap) \<Rightarrow> 'v service \<Rightarrow> bool" where
  "svc_inv sinv sabs s \<longleftrightarrow>
     ix_wf (svIndex s) \<and> sinv (svStore s) \<and> sabs (svStore s) = ix_abs (svIndex s) \<and>
     ann_holds (svResolver s) (svAnn s) (ix_abs (svIndex s)) \<and>
     (\<forall>vid vs. ix_abs (svIndex s) vid = Some vs \<longrightarrow> vid \<noteq> [] \<and> int (length vs) \<le> svMaxVectorDim s)"

text \<open>A stored vector is in the approximate index, which holds vectors of one dimension.\<close>

lemma ann_abs_length:
  assumes "ann_wf a" and "ann_abs a n = Some vs"
  shows "length vs = anDim a \<and> 0 < anDim a"
  using assms by (auto simp: ann_wf_def ann_core_def ann_base_def ann_abs_def split: option.splits if_splits)

lemma ann_holds_dims:
  assumes "ann_holds r a m" and "m vid = Some vs"
  shows "length vs = anDim a" and "0 < anDim a"
proof -
  obtain n where "gm_get (idToInternal r) vid = Some n"
    using assms unfolding ann_holds_def by (metis domD domI subsetD)
  then have "Lookup r n = Some vid" using assms(1) by (simp add: ann_holds_def res_wf_inv)
  then have "ann_abs a n = Some vs" using assms by (simp add: ann_holds_def)
  then show "length vs = anDim a" and "0 < anDim a"
    using assms(1) ann_abs_length by (auto simp: ann_holds_def)
qed

section \<open>Rebuilding the approximate index\<close>

lemma length_ToFloat32 [simp]: "length (ToFloat32 xs) = length xs"
  by (simp add: ToFloat32_def)

lemma length_ToFloat64 [simp]: "length (ToFloat64 xs) = length xs"
  by (simp add: ToFloat64_def)

text \<open>What a resolver keeps when numbers are assigned to more identifiers.\<close>

definition res_ext :: "memoryIDResolver \<Rightarrow> memoryIDResolver \<Rightarrow> bool" where
  "res_ext r r' \<longleftrightarrow> res_wf r' \<and> gm_get (idToInternal r) \<subseteq>\<^sub>m gm_get (idToInternal r')"

lemma res_ext_refl [simp]: "res_ext r r = res_wf r"
  by (simp add: res_ext_def)

lemma res_ext_trans: "res_ext r r' \<Longrightarrow> res_ext r' r'' \<Longrightarrow> res_ext r r''"
  by (auto simp: res_ext_def intro: map_le_trans)

lemma res_ext_Assign:
  assumes "res_wf r" and "Assign r vid = (n, r')"
  shows "res_ext r r'" and "gm_get (idToInternal r') = (gm_get (idToInternal r))(vid \<mapsto> n)"
proof -
  show eq: "gm_get (idToInternal r') = (gm_get (idToInternal r))(vid \<mapsto> n)"
    using assms(2) by (auto simp: Assign_def Let_def fun_eq_iff split: option.splits)
  have "gm_get (idToInternal r) \<subseteq>\<^sub>m gm_get (idToInternal r')"
    using assms(2) by (auto simp: Assign_def Let_def map_le_def split: option.splits)
  then show "res_ext r r'" using res_wf_Assign [OF assms(1), of vid] assms(2) by (simp add: res_ext_def)
qed

lemma res_ext_Lookup: "res_ext r r' \<Longrightarrow> res_wf r \<Longrightarrow> Lookup r n = Some vid \<Longrightarrow> Lookup r' n = Some vid"
  by (auto simp: res_ext_def res_wf_inv map_le_def dom_def)

lemma newWorkspace_ok: "ws_ok n newWorkspace"
  by (simp add: ws_ok_def newWorkspace_def)

lemma ann_holds_Assign:
  assumes "ann_holds r a m" and "Assign r vid = (n, r')"
  shows "ann_holds r' a m"
proof -
  have wf: "res_wf r" "res_wf r'" using assms res_wf_Assign [of r vid] by (auto simp: ann_holds_def)
  note e = res_ext_Assign(2) [OF wf(1) assms(2)]
  have l: "Lookup r' k = (if k = n then Some vid else Lookup r k)" for k
    using Assign_Lookup [OF wf(1) assms(2)] by simp
  have "ann_abs a n = (case Lookup r' n of None \<Rightarrow> None | Some vid \<Rightarrow> m vid)"
  proof (cases "gm_get (idToInternal r) vid")
    case None
    then have "m vid = None" using assms(1) by (auto simp: ann_holds_def dom_def)
    moreover have "Lookup r n = None \<or> Lookup r n = Some vid"
    proof -
      have "n = nextInternal r + 1" using None assms(2) by (auto simp: Assign_def Let_def)
      then show ?thesis using wf(1) unfolding res_wf_def Lookup_def by (metis linorder_not_less not_None_eq zless_add1_eq)
    qed
    ultimately show ?thesis using assms(1) l by (auto simp: ann_holds_def)
  next
    case (Some k)
    then have "k = n" using assms(2) by (simp add: Assign_def)
    then have "Lookup r n = Some vid" using Some wf(1) by (simp add: res_wf_inv)
    then show ?thesis using assms(1) l by (simp add: ann_holds_def)
  qed
  then show ?thesis using assms(1) wf(2) l e by (auto simp: ann_holds_def)
qed

lemma ann_holds_Add:
  assumes "ann_holds r a m" and "Assign r (vID v) = (n, r')" and "vValues v \<noteq> []" and "anDim a = 0 \<or> anDim a = length (vValues v)"
  shows "\<exists>a' ws. Ann_AddVector intn a newWorkspace n (vValues v) = Some (None, a', ws) \<and> ann_holds r' a' (vput m v) \<and>
    anDim a' = length (vValues v)"
proof -
  have h: "ann_holds r' a m" using ann_holds_Assign [OF assms(1,2)] .
  then have wf: "res_wf r'" "ann_wf a" by (simp_all add: ann_holds_def)
  have rwf: "res_wf r" using assms(1) by (simp add: ann_holds_def)
  have l: "Lookup r' n = Some (vID v)" using Assign_Lookup [OF rwf assms(2)] by simp
  then have inj: "Lookup r' k = Some (vID v) \<longleftrightarrow> k = n" for k
    using wf(1) by (metis option.inject res_wf_inv)
  obtain a' ws where a': "Ann_AddVector intn a newWorkspace n (vValues v) = Some (None, a', ws)" "ann_wf a'"
    "anDim a' = length (vValues v)" "ann_abs a' = (ann_abs a)(n \<mapsto> ToFloat32 (vValues v))"
    using Ann_AddVector_facts [OF wf(2) newWorkspace_ok, of intn n "vValues v"] assms(3,4) by auto
  have "dom (vput m v) \<subseteq> dom (gm_get (idToInternal r'))"
    using h res_ext_Assign(2) [OF rwf assms(2)] by (auto simp: ann_holds_def vput_def)
  moreover have "ann_abs a' k = (case Lookup r' k of None \<Rightarrow> None | Some vid \<Rightarrow> vput m v vid)" for k
    using h inj [of k] by (auto simp: a'(4) ann_holds_def split: option.split)
  ultimately have "ann_holds r' a' (vput m v)" using a'(2) wf(1) by (simp add: ann_holds_def)
  then show ?thesis using a' by blast
qed

lemma rebuild_ann_ok:
  assumes "ann_holds r a m" and "\<forall>v \<in> set vecs. length (vValues v) = d" and "0 < d" and "anDim a = 0 \<or> anDim a = d"
  shows "\<exists>r' a'. rebuild_ann intn r a vecs = Some (r', a') \<and> ann_holds r' a' (foldl vput m vecs)"
  using assms
proof (induction vecs arbitrary: r a m)
  case (Cons v vecs)
  obtain n r1 where as: "Assign r (vID v) = (n, r1)" by force
  obtain a1 ws where a1: "Ann_AddVector intn a newWorkspace n (vValues v) = Some (None, a1, ws)" "ann_holds r1 a1 (vput m v)"
    "anDim a1 = d"
    using ann_holds_Add [OF Cons.prems(1) as] Cons.prems by force
  show ?case using Cons.IH [OF a1(2)] Cons.prems a1 as by simp
qed simp

lemma foldl_vput_entries:
  assumes "distinct (map vID vecs)"
  shows "foldl vput m vecs = (\<lambda>k. case map_of (map (\<lambda>v. (vID v, ToFloat32 (vValues v))) vecs) k of None \<Rightarrow> m k | Some ws \<Rightarrow> Some ws)"
  using assms
proof (induction vecs arbitrary: m)
  case (Cons v vecs)
  then have "map_of (map (\<lambda>v. (vID v, ToFloat32 (vValues v))) vecs) (vID v) = None" by (auto simp: map_of_eq_None_iff)
  with Cons show ?case by (auto simp: fun_eq_iff split: option.split)
qed simp

lemma foldl_vput_vlists:
  assumes "vlists m vecs" and "\<And>k ws. m k = Some ws \<Longrightarrow> list_all canon32 ws"
  shows "foldl vput Map.empty vecs = m"
proof
  fix k
  have d: "distinct (map vID vecs)" and s: "vID ` set vecs = dom m" using assms(1) by (auto simp: vlists_def)
  show "foldl vput Map.empty vecs k = m k"
  proof (cases "k \<in> dom m")
    case False
    then show ?thesis using s foldl_vput_other [of k vecs Map.empty] by (auto simp: domIff)
  next
    case True
    then obtain v where v: "v \<in> set vecs" "vID v = k" using s by (metis imageE)
    then obtain ws where ws: "m k = Some ws" "vValues v = ToFloat64 ws"
      using assms(1) by (metis vget_Inr vlists_def)
    have "map_of (map (\<lambda>v. (vID v, ToFloat32 (vValues v))) vecs) k = Some (ToFloat32 (vValues v))"
      using v d by (intro map_of_is_SomeI) (auto simp: o_def)
    then show ?thesis using ws assms(2) by (simp add: foldl_vput_entries [OF d])
  qed
qed

lemma Index_ListVectors_vlists:
  assumes "ix_wf i" and "iter_ok iter"
  shows "vlists (ix_abs i) (Index_ListVectors iter i)"
proof -
  have ids: "map vID (Index_ListVectors iter i) = map fst (ix_entries iter i)"
    by (simp add: Index_ListVectors_entries o_def split_beta)
  show ?thesis
    unfolding vlists_def ids
    using ix_entries_distinct [OF assms] ix_entries_set [OF assms]
    by (force simp: Index_ListVectors_entries vget_def dom_def image_iff split: option.split)
qed

lemma rebuildANNLocked_ok:
  assumes "ix_wf (svIndex s)" and "iter_ok (seIter env)" and "res_wf (svResolver s)"
    and "\<And>vid vs. ix_abs (svIndex s) vid = Some vs \<Longrightarrow> length vs = d \<and> list_all canon32 vs" and "0 < d"
  shows "\<exists>r a. rebuildANNLocked env s = Some (s\<lparr>svResolver := r, svAnn := a\<rparr>) \<and> ann_holds r a (ix_abs (svIndex s))"
proof -
  let ?vecs = "Index_ListVectors (seIter env) (svIndex s)"
  have vl: "vlists (ix_abs (svIndex s)) ?vecs" using Index_ListVectors_vlists assms(1,2) by blast
  have "\<forall>v \<in> set ?vecs. length (vValues v) = d"
    using vl assms(4) by (auto simp: vlists_def) (metis length_ToFloat64 vget_Inr)
  moreover have "ann_holds (svResolver s) (NewAnnIndexWithOptions (svAnnOptions s)) Map.empty"
    using assms(3) by (simp add: ann_holds_def split: option.split)
  moreover have "anDim (NewAnnIndexWithOptions (svAnnOptions s)) = 0" by (simp add: NewAnnIndexWithOptions_def)
  ultimately obtain r a where "rebuild_ann (seIntn env) (svResolver s) (NewAnnIndexWithOptions (svAnnOptions s)) ?vecs = Some (r, a)"
    "ann_holds r a (foldl vput Map.empty ?vecs)"
    using rebuild_ann_ok assms(5) by blast
  moreover have "foldl vput Map.empty ?vecs = ix_abs (svIndex s)"
    using foldl_vput_vlists [OF vl] assms(4) by blast
  ultimately show ?thesis by (auto simp: rebuildANNLocked_def intro!: exI [of _ r] exI [of _ a])
qed

section \<open>What a batch has to satisfy\<close>

text \<open>
  The first error of a batch: the checks of \<^verbatim>\<open>AddVectors\<close> vector by vector, duplicates within the batch included; then the
  dimension, which the first vector decides when the approximate index has none yet.
\<close>

fun batch_error :: "'v service \<Rightarrow> string set \<Rightarrow> vector list \<Rightarrow> goerror option" where
  "batch_error s seen [] = None"
| "batch_error s seen (v # vs) =
     (case check_vector s v of Some e \<Rightarrow> Some e
      | None \<Rightarrow> if vID v \<in> seen then Some ErrVectorExists else batch_error s (insert (vID v) seen) vs)"

fun dims_ok :: "nat \<Rightarrow> vector list \<Rightarrow> bool" where
  "dims_ok d [] = True"
| "dims_ok d (v # vs) = ((d = 0 \<or> d = length (vValues v)) \<and> dims_ok (length (vValues v)) vs)"

lemma batch_error_None:
  "batch_error s seen vs = None \<Longrightarrow> distinct (map vID vs) \<and> vID ` set vs \<inter> seen = {} \<and> (\<forall>v \<in> set vs. check_vector s v = None)"
  by (induction s seen vs rule: batch_error.induct) (auto split: option.splits if_splits)

lemma index_vectors_ok:
  assumes "ix_wf (svIndex s)" and "index_vectors s added vecs = (res, added', s')"
  shows "\<exists>ids i. added' = added @ ids \<and> s' = s\<lparr>svIndex := i\<rparr> \<and> ix_wf i \<and> set ids \<inter> dom (ix_abs (svIndex s)) = {} \<and>
    (\<forall>k. k \<notin> set ids \<longrightarrow> ix_abs i k = ix_abs (svIndex s) k) \<and>
    (case batch_error s (dom (ix_abs (svIndex s))) vecs of
       Some e \<Rightarrow> res = Some e
     | None \<Rightarrow> res = None \<and> ids = map vID vecs \<and> ix_abs i = foldl vput (ix_abs (svIndex s)) vecs)"
  using assms
proof (induction vecs arbitrary: s added)
  case Nil
  then show ?case by (intro exI [of _ "[]"] exI [of _ "svIndex s"]) simp
next
  case (Cons v vecs)
  obtain e i where add: "Index_AddVector (svIndex s) v = (e, i)" by force
  note abs = ix_abs_Add [OF add]
  have wf: "ix_wf i" using ix_wf_Add [OF Cons.prems(1), of v] add by simp
  show ?case
  proof (cases "check_vector s v = None \<and> vID v \<notin> dom (ix_abs (svIndex s))")
    case False
    then show ?thesis
      using Cons.prems add abs by (intro exI [of _ "[]"] exI [of _ "svIndex s"]) (auto split: option.splits if_splits)
  next
    case True
    then have e: "e = None" "ix_abs i = vput (ix_abs (svIndex s)) v" using abs by (auto simp: vput_def)
    let ?s = "s\<lparr>svIndex := i\<rparr>"
    have "index_vectors ?s (added @ [vID v]) vecs = (res, added', s')" using Cons.prems(2) True add e(1) by simp
    moreover have sv: "ix_abs (svIndex ?s) = ix_abs i" "ix_wf (svIndex ?s)" using wf by simp_all
    ultimately obtain ids j where IH: "added' = (added @ [vID v]) @ ids" "s' = ?s\<lparr>svIndex := j\<rparr>" "ix_wf j" "set ids \<inter> dom (ix_abs i) = {}"
      "\<forall>k. k \<notin> set ids \<longrightarrow> ix_abs j k = ix_abs i k"
      "case batch_error ?s (dom (ix_abs i)) vecs of Some e \<Rightarrow> res = Some e
       | None \<Rightarrow> res = None \<and> ids = map vID vecs \<and> ix_abs j = foldl vput (ix_abs i) vecs"
      using Cons.IH [of ?s "added @ [vID v]", unfolded sv(1)] by blast
    have same: "batch_error ?s seen vs = batch_error s seen vs" for seen vs
      by (induction vs arbitrary: seen) (simp_all add: check_vector_def)
    have "dom (ix_abs i) = insert (vID v) (dom (ix_abs (svIndex s)))" by (auto simp: e(2) vput_def)
    then have "batch_error s (dom (ix_abs (svIndex s))) (v # vecs) = batch_error ?s (dom (ix_abs i)) vecs" using True same by simp
    then show ?thesis
      using IH True e(2) by (intro exI [of _ "vID v # ids"] exI [of _ j]) (auto split: option.splits)
  qed
qed

section \<open>Frames\<close>

text \<open>What the operations on store, index, resolver and approximate index leave alone.\<close>

definition svc_frame :: "'v service \<Rightarrow> 'v service \<Rightarrow> bool" where
  "svc_frame s s' \<longleftrightarrow> svMaxVectorDim s' = svMaxVectorDim s \<and> svMaxK s' = svMaxK s \<and> svSnapshotEvery s' = svSnapshotEvery s \<and>
     svSearchMode s' = svSearchMode s \<and> svAnnProfile s' = svAnnProfile s \<and> svAnnOptions s' = svAnnOptions s \<and>
     svAnnEvalSampleRate s' = svAnnEvalSampleRate s \<and> svStats s' = svStats s"

lemma svc_frame_trans: "svc_frame s s' \<Longrightarrow> svc_frame s' s'' \<Longrightarrow> svc_frame s s''"
  by (simp add: svc_frame_def)

lemma appendWALBatch_frame:
  "appendWALBatch env s ops = (e, s') \<Longrightarrow> s' = s\<lparr>svPersistence := svPersistence s'\<rparr>"
  by (auto simp: appendWALBatch_def split: if_splits prod.splits)

lemma maybeSnapshot_frame:
  "maybeSnapshot env s = (e, s') \<Longrightarrow> s' = s\<lparr>svPersistence := svPersistence s', svPersistOps := svPersistOps s'\<rparr>"
  by (auto simp: maybeSnapshot_def syncPersistence_def saveSnapshot_def truncateWAL_def Let_def split: if_splits prod.splits option.splits)

lemma svc_inv_persist [simp]:
  "svc_inv sinv sabs (s\<lparr>svPersistence := p\<rparr>) = svc_inv sinv sabs s" "svc_inv sinv sabs (s\<lparr>svPersistOps := n\<rparr>) = svc_inv sinv sabs s"
  "svc_inv sinv sabs (s\<lparr>svStats := t\<rparr>) = svc_inv sinv sabs s"
  by (simp_all add: svc_inv_def)

section \<open>Writes over any store\<close>

context service_store
begin

abbreviation sv_inv :: "'v service \<Rightarrow> bool" where
  "sv_inv s \<equiv> svc_inv inv abs s"

lemma uses_persistent: "seStore env = st \<Longrightarrow> usesPersistentVectorStore env s = persistent (svStore s)"
  by (simp add: usesPersistentVectorStore_def persistents)

lemma remove_ids_ok:
  assumes "seStore env = st" and "inv (svStore s)" and "ix_wf (svIndex s)"
  shows "\<exists>v i. remove_ids env s ids = s\<lparr>svStore := v, svIndex := i\<rparr> \<and> inv v \<and> ix_wf i \<and>
    abs v = abs (svStore s) |` (- set ids) \<and> ix_abs i = ix_abs (svIndex s) |` (- set ids) \<and> persistent v = persistent (svStore s)"
  using assms(2,3)
proof (induction ids arbitrary: s)
  case Nil
  then show ?case by (intro exI [of _ "svStore s"] exI [of _ "svIndex s"]) (simp add: restrict_map_def)
next
  case (Cons k ids)
  obtain e v where d: "stDeleteVector st (svStore s) k = (e, v)" by force
  have v: "inv v" "abs v = (abs (svStore s))(k := None)" using vs.del [OF Cons.prems(1) d] by auto
  have pv: "persistent v = persistent (svStore s)" using persist_delete [OF Cons.prems(1), of k] d by simp
  obtain e' i where di: "Index_DeleteVector (svIndex s) k = (e', i)" by force
  have i: "ix_wf i" "ix_abs i = (ix_abs (svIndex s))(k := None)"
    using ix_wf_Delete [OF Cons.prems(2), of k] ix_abs_Delete [OF di] di by auto
  have r: "m(k := None) |` (- set ids) = m |` (- set (k # ids))" for m :: "string \<rightharpoonup> 'x"
    by (auto simp: restrict_map_def fun_eq_iff)
  let ?s = "s\<lparr>svStore := v, svIndex := i\<rparr>"
  have sel: "svStore ?s = v" "svIndex ?s = i" by simp_all
  have "remove_ids env s (k # ids) = remove_ids env ?s ids" using assms(1) d di by simp
  moreover obtain v' i' where v': "remove_ids env ?s ids = ?s\<lparr>svStore := v', svIndex := i'\<rparr>" "inv v'" "ix_wf i'"
    "abs v' = abs v |` (- set ids)" "ix_abs i' = ix_abs i |` (- set ids)" "persistent v' = persistent v"
    using Cons.IH [of ?s, unfolded sel] v(1) i(1) by blast
  moreover have "abs v' = abs (svStore s) |` (- set (k # ids))" "ix_abs i' = ix_abs (svIndex s) |` (- set (k # ids))"
    unfolding v'(4,5) v(2) i(2) by (rule r)+
  ultimately show ?case using pv by (intro exI [of _ v'] exI [of _ i']) simp
qed

text \<open>
  Undoing restores the map of the service when only entries of the listed identifiers differ from it.
\<close>

lemma rollback_ok:
  assumes env: "seStore env = st" "iter_ok (seIter env)" and s: "sv_inv s"
    and s1: "inv (svStore s1)" "ix_wf (svIndex s1)" "res_wf (svResolver s1)" "svc_frame s s1"
    and ids: "set ids \<inter> dom (ix_abs (svIndex s)) = {}" "\<forall>k. k \<notin> set ids \<longrightarrow> ix_abs (svIndex s1) k = ix_abs (svIndex s) k"
      "\<forall>k. k \<notin> set ids \<longrightarrow> abs (svStore s1) k = ix_abs (svIndex s) k"
  shows "\<exists>s2. rollbackAddedVectors env s1 ids = Some s2 \<and> sv_inv s2 \<and> ix_abs (svIndex s2) = ix_abs (svIndex s) \<and> svc_frame s s2 \<and>
    svPersistence s2 = svPersistence s1 \<and> svPersistOps s2 = svPersistOps s1 \<and> persistent (svStore s2) = persistent (svStore s1)"
proof -
  let ?m = "ix_abs (svIndex s)"
  obtain v i where r: "remove_ids env s1 ids = s1\<lparr>svStore := v, svIndex := i\<rparr>" "inv v" "ix_wf i"
    "abs v = abs (svStore s1) |` (- set ids)" "ix_abs i = ix_abs (svIndex s1) |` (- set ids)" "persistent v = persistent (svStore s1)"
    using remove_ids_ok [OF env(1) s1(1,2), of ids] by blast
  have eq: "m |` (- set ids) = ?m" if "\<forall>k. k \<notin> set ids \<longrightarrow> m k = ?m k" for m
  proof
    show "(m |` (- set ids)) k = ?m k" for k using that ids(1) by (cases "k \<in> set ids") (auto simp: domIff disjoint_iff)
  qed
  have m: "abs v = ?m" "ix_abs i = ?m" using r(4,5) eq ids(2,3) by auto
  define d where "d = (if anDim (svAnn s) = 0 then 1 else anDim (svAnn s))"
  have dims: "length vs = d \<and> list_all canon32 vs" if "?m k = Some vs" for k vs
    using that ann_holds_dims [of "svResolver s" "svAnn s" ?m k vs] s r(2) m(1) vs.canon [of v k vs]
    by (simp add: svc_inv_def d_def)
  have "0 < d" by (simp add: d_def)
  let ?s = "s1\<lparr>svStore := v, svIndex := i\<rparr>"
  obtain r' a' where b: "rebuildANNLocked env ?s = Some (?s\<lparr>svResolver := r', svAnn := a'\<rparr>)" "ann_holds r' a' ?m"
    using rebuildANNLocked_ok [of ?s env d] r(3) m env(2) s1(3) dims \<open>0 < d\<close> by auto
  have "sv_inv (?s\<lparr>svResolver := r', svAnn := a'\<rparr>)"
    using s b(2) r(2,3) m s1(4) by (simp add: svc_inv_def svc_frame_def)
  then show ?thesis
    using b(1) r(1,6) m s1(4)
    by (intro exI [of _ "?s\<lparr>svResolver := r', svAnn := a'\<rparr>"]) (simp add: rollbackAddedVectors_def svc_frame_def)
qed

lemma ann_vectors_ok:
  assumes "ann_holds (svResolver s) (svAnn s) m" and "\<forall>v \<in> set vecs. vValues v \<noteq> []"
  shows "if dims_ok (anDim (svAnn s)) vecs
    then \<exists>r a. ann_vectors env s vecs = Some (None, s\<lparr>svResolver := r, svAnn := a\<rparr>) \<and> ann_holds r a (foldl vput m vecs)
    else \<exists>r a. \<exists>v \<in> set vecs. ann_vectors env s vecs =
      Some (Some ErrInvalidVectorDim, remove_ids env (s\<lparr>svResolver := r, svAnn := a\<rparr>) [vID v]) \<and> res_wf r"
  using assms
proof (induction vecs arbitrary: s m)
  case Nil
  then show ?case by (auto intro!: exI [of _ "svResolver s"] exI [of _ "svAnn s"])
next
  case (Cons v vecs)
  obtain n r1 where as: "Assign (svResolver s) (vID v) = (n, r1)" by force
  show ?case
  proof (cases "anDim (svAnn s) = 0 \<or> anDim (svAnn s) = length (vValues v)")
    case True
    obtain a1 ws where a1: "Ann_AddVector (seIntn env) (svAnn s) newWorkspace n (vValues v) = Some (None, a1, ws)"
      "ann_holds r1 a1 (vput m v)" "anDim a1 = length (vValues v)"
      using ann_holds_Add [OF Cons.prems(1) as] True Cons.prems(2) by force
    let ?s = "s\<lparr>svResolver := r1, svAnn := a1\<rparr>"
    have st: "ann_vectors env s (v # vecs) = ann_vectors env ?s vecs" using a1(1) as by (simp add: addANNVector_def)
    have dm: "dims_ok (anDim (svAnn s)) (v # vecs) = dims_ok (anDim (svAnn ?s)) vecs" using True a1(3) by simp
    have upd: "?s\<lparr>svResolver := r, svAnn := a\<rparr> = s\<lparr>svResolver := r, svAnn := a\<rparr>" for r a by simp
    have "if dims_ok (anDim (svAnn ?s)) vecs
      then \<exists>r a. ann_vectors env ?s vecs = Some (None, ?s\<lparr>svResolver := r, svAnn := a\<rparr>) \<and> ann_holds r a (foldl vput (vput m v) vecs)
      else \<exists>r a. \<exists>v \<in> set vecs. ann_vectors env ?s vecs =
        Some (Some ErrInvalidVectorDim, remove_ids env (?s\<lparr>svResolver := r, svAnn := a\<rparr>) [vID v]) \<and> res_wf r"
      by (rule Cons.IH [of ?s "vput m v"]) (use a1(2) Cons.prems(2) in \<open>simp_all del: vput_apply\<close>)
    then show ?thesis unfolding st dm foldl_Cons upd by (cases "dims_ok (anDim (svAnn ?s)) vecs") (simp_all only: simp_thms if_True if_False, meson list.set_intros(2))
  next
    case False
    have wf: "ann_wf (svAnn s)" "res_wf r1"
      using Cons.prems(1) as res_wf_Assign [of "svResolver s" "vID v"] by (auto simp: ann_holds_def)
    obtain ws where "Ann_AddVector (seIntn env) (svAnn s) newWorkspace n (vValues v) = Some (Some ErrInvalidVectorDim, svAnn s, ws)"
      using Ann_AddVector_facts [OF wf(1) newWorkspace_ok, of "seIntn env" n "vValues v"] False by auto
    then have "ann_vectors env s (v # vecs) = Some (Some ErrInvalidVectorDim, remove_ids env (s\<lparr>svResolver := r1, svAnn := svAnn s\<rparr>) [vID v])"
      using as by (simp add: addANNVector_def)
    moreover have nd: "\<not> dims_ok (anDim (svAnn s)) (v # vecs)" using False by simp
    ultimately show ?thesis unfolding if_not_P [OF nd] using wf(2) by (meson list.set_intros(1))
  qed
qed

definition sv_next :: "'v service \<Rightarrow> vmap \<Rightarrow> snapshotWALBackend \<Rightarrow> 'v service \<Rightarrow> bool" where
  "sv_next s m p s' \<longleftrightarrow> sv_inv s' \<and> ix_abs (svIndex s') = m \<and> svc_frame s s' \<and> svPersistence s' = p \<and>
     svPersistOps s' = svPersistOps s \<and> persistent (svStore s') = persistent (svStore s)"

lemma fail_with_ok:
  assumes "seStore env = st" "iter_ok (seIter env)" "sv_inv s"
    and "inv (svStore s1)" "ix_wf (svIndex s1)" "res_wf (svResolver s1)" "svc_frame s s1"
    and "set ids \<inter> dom (ix_abs (svIndex s)) = {}" "\<forall>k. k \<notin> set ids \<longrightarrow> ix_abs (svIndex s1) k = ix_abs (svIndex s) k"
      "\<forall>k. k \<notin> set ids \<longrightarrow> abs (svStore s1) k = ix_abs (svIndex s) k"
    and "svPersistOps s1 = svPersistOps s" "persistent (svStore s1) = persistent (svStore s)"
  shows "\<exists>s2. fail_with env s1 ids e = Some (Some e, s2) \<and> sv_next s (ix_abs (svIndex s)) (svPersistence s1) s2"
  using rollback_ok [OF assms(1-10)] assms(11,12) by (auto simp: fail_with_def sv_next_def)

lemma check_vector_None:
  "check_vector s v = None \<Longrightarrow> vValues v \<noteq> [] \<and> vID v \<noteq> [] \<and> int (length (vValues v)) \<le> svMaxVectorDim s"
  by (cases "vID v = []") (auto simp: check_vector_def split: if_splits)

text \<open>A batch without index errors: the state after the loops over index, store and approximate index.\<close>

lemma AddVectors_loops:
  assumes env: "seStore env = st" and s: "sv_inv s" and ok: "\<forall>v \<in> set vecs. okv v" and ne: "vecs \<noteq> []"
    and valid: "batch_error s (dom (ix_abs (svIndex s))) vecs = None"
  shows "\<exists>i v. index_vectors s [] vecs = (None, map vID vecs, s\<lparr>svIndex := i\<rparr>) \<and>
    upsertVectors env (s\<lparr>svIndex := i\<rparr>) vecs = (None, s\<lparr>svIndex := i, svStore := v\<rparr>) \<and>
    ix_wf i \<and> inv v \<and> ix_abs i = foldl vput (ix_abs (svIndex s)) vecs \<and> abs v = foldl vput (ix_abs (svIndex s)) vecs \<and>
    persistent v = persistent (svStore s) \<and>
    (if dims_ok (anDim (svAnn s)) vecs
     then \<exists>r a. ann_vectors env (s\<lparr>svIndex := i, svStore := v\<rparr>) vecs =
         Some (None, s\<lparr>svIndex := i, svStore := v, svResolver := r, svAnn := a\<rparr>) \<and> ann_holds r a (foldl vput (ix_abs (svIndex s)) vecs)
     else \<exists>r a. \<exists>w \<in> set vecs. ann_vectors env (s\<lparr>svIndex := i, svStore := v\<rparr>) vecs =
         Some (Some ErrInvalidVectorDim, remove_ids env (s\<lparr>svIndex := i, svStore := v, svResolver := r, svAnn := a\<rparr>) [vID w]) \<and> res_wf r)"
proof -
  let ?m = "ix_abs (svIndex s)"
  obtain res ids s1 where iv: "index_vectors s [] vecs = (res, ids, s1)" by (metis prod_cases3)
  have wf: "ix_wf (svIndex s)" "inv (svStore s)" "abs (svStore s) = ?m" "ann_holds (svResolver s) (svAnn s) ?m"
    using s by (simp_all add: svc_inv_def)
  from index_vectors_ok [OF wf(1) iv] valid
  obtain i where i: "index_vectors s [] vecs = (None, map vID vecs, s\<lparr>svIndex := i\<rparr>)" "ix_wf i" "ix_abs i = foldl vput ?m vecs"
    using iv by auto
  obtain e v where u: "upsert (svStore s) vecs = (e, v)" by force
  then have v: "inv v" "e = None" "abs v = foldl vput ?m vecs" "persistent v = persistent (svStore s)"
    using vs.upsert [OF wf(2) ok u] wf(3) persist_upsert [OF wf(2), of vecs] by auto
  have up: "upsertVectors env (s\<lparr>svIndex := i\<rparr>) vecs = (None, s\<lparr>svIndex := i, svStore := v\<rparr>)"
    using ne u v(2) env by (simp add: upsertVectors_def upserts)
  have vals: "\<forall>v \<in> set vecs. vValues v \<noteq> []"
    using batch_error_None [OF valid] check_vector_None by blast
  let ?s = "s\<lparr>svIndex := i, svStore := v\<rparr>"
  have "ann_holds (svResolver ?s) (svAnn ?s) ?m" using wf(4) by simp
  from ann_vectors_ok [OF this vals, of env] i v up show ?thesis by (intro exI [of _ i] exI [of _ v]) simp
qed

end

definition add_error :: "'v service \<Rightarrow> vector list \<Rightarrow> goerror option" where
  "add_error s vecs =
     (if vecs = [] then Some ErrInvalidValues
      else case batch_error s (dom (ix_abs (svIndex s))) vecs of Some e \<Rightarrow> Some e
      | None \<Rightarrow> if dims_ok (anDim (svAnn s)) vecs then None else Some ErrInvalidVectorDim)"

context service_store
begin

lemma sv_next_refl: "sv_inv s \<Longrightarrow> sv_next s (ix_abs (svIndex s)) (svPersistence s) s"
  by (simp add: sv_next_def svc_frame_def)

text \<open>A batch with an error is rejected with it, and the service holds what it held.\<close>

text \<open>A vector of the batch fails its checks or is there already.\<close>

lemma AddVectors_rejected_batch:
  assumes env: "seStore env = st" "iter_ok (seIter env)" and s: "sv_inv s" and "vecs \<noteq> []"
    and err: "batch_error s (dom (ix_abs (svIndex s))) vecs = Some e"
  shows "\<exists>s'. AddVectors env s vecs = Some (Some e, s') \<and> sv_next s (ix_abs (svIndex s)) (svPersistence s) s'"
proof -
  let ?m = "ix_abs (svIndex s)"
  have wf: "ix_wf (svIndex s)" "inv (svStore s)" "abs (svStore s) = ?m" "res_wf (svResolver s)"
    using s by (simp_all add: svc_inv_def ann_holds_def)
  obtain res ids s1 where iv: "index_vectors s [] vecs = (res, ids, s1)" by (metis prod_cases3)
  from index_vectors_ok [OF wf(1) iv] err
  obtain i where i: "s1 = s\<lparr>svIndex := i\<rparr>" "ix_wf i" "set ids \<inter> dom ?m = {}" "\<forall>k. k \<notin> set ids \<longrightarrow> ix_abs i k = ?m k"
    "res = Some e" by auto
  have "\<exists>s2. fail_with env s1 ids e = Some (Some e, s2) \<and> sv_next s ?m (svPersistence s1) s2"
    by (rule fail_with_ok [OF env s]) (use i wf in \<open>simp_all add: svc_frame_def\<close>)
  then show ?thesis using iv i assms(4) by (auto simp: AddVectors_def)
qed

text \<open>The approximate index refuses a vector for its dimension.\<close>

lemma AddVectors_rejected_dim:
  assumes env: "seStore env = st" "iter_ok (seIter env)" and s: "sv_inv s" and ok: "\<forall>v \<in> set vecs. okv v" and ne: "vecs \<noteq> []"
    and None: "batch_error s (dom (ix_abs (svIndex s))) vecs = None" and dims: "\<not> dims_ok (anDim (svAnn s)) vecs"
  shows "\<exists>s'. AddVectors env s vecs = Some (Some ErrInvalidVectorDim, s') \<and> sv_next s (ix_abs (svIndex s)) (svPersistence s) s'"
proof -
  let ?m = "ix_abs (svIndex s)"
  obtain i v r a w where l: "index_vectors s [] vecs = (None, map vID vecs, s\<lparr>svIndex := i\<rparr>)"
    "upsertVectors env (s\<lparr>svIndex := i\<rparr>) vecs = (None, s\<lparr>svIndex := i, svStore := v\<rparr>)" "ix_wf i" "inv v"
    "ix_abs i = foldl vput ?m vecs" "abs v = foldl vput ?m vecs" "persistent v = persistent (svStore s)" "w \<in> set vecs" "res_wf r"
    "ann_vectors env (s\<lparr>svIndex := i, svStore := v\<rparr>) vecs =
       Some (Some ErrInvalidVectorDim, remove_ids env (s\<lparr>svIndex := i, svStore := v, svResolver := r, svAnn := a\<rparr>) [vID w])"
    using AddVectors_loops [OF env(1) s ok ne None] dims by auto
  let ?s = "s\<lparr>svIndex := i, svStore := v, svResolver := r, svAnn := a\<rparr>"
  obtain v' i' where rm: "remove_ids env ?s [vID w] = ?s\<lparr>svStore := v', svIndex := i'\<rparr>" "inv v'" "ix_wf i'"
    "abs v' = abs v |` (- {vID w})" "ix_abs i' = ix_abs i |` (- {vID w})" "persistent v' = persistent v"
    using remove_ids_ok [OF env(1), of ?s "[vID w]"] l(3,4) by auto
  have out: "(foldl vput ?m vecs |` (- {vID w})) k = ?m k" if "k \<notin> set (map vID vecs)" for k
  proof -
    have "k \<noteq> vID w" using that l(8) by auto
    then show ?thesis using that foldl_vput_other [of k vecs ?m] by simp
  qed
  have new: "set (map vID vecs) \<inter> dom ?m = {}" using batch_error_None [OF None] by simp
  have "\<exists>s2. fail_with env (?s\<lparr>svStore := v', svIndex := i'\<rparr>) (map vID vecs) ErrInvalidVectorDim = Some (Some ErrInvalidVectorDim, s2) \<and>
      sv_next s ?m (svPersistence (?s\<lparr>svStore := v', svIndex := i'\<rparr>)) s2"
    by (rule fail_with_ok [OF env s])
       (use rm(2-) l(3-7,9) new out in \<open>simp_all add: svc_frame_def\<close>)
  moreover have "AddVectors env s vecs = fail_with env (remove_ids env ?s [vID w]) (map vID vecs) ErrInvalidVectorDim"
    using ne l(1,2,10) by (simp add: AddVectors_def del: remove_ids.simps)
  ultimately show ?thesis unfolding rm(1) by simp
qed

lemma AddVectors_rejected:
  assumes env: "seStore env = st" "iter_ok (seIter env)" and s: "sv_inv s" and ok: "\<forall>v \<in> set vecs. okv v"
    and err: "add_error s vecs = Some e"
  shows "\<exists>s'. AddVectors env s vecs = Some (Some e, s') \<and> sv_next s (ix_abs (svIndex s)) (svPersistence s) s'"
proof (cases "vecs = []")
  case True
  then show ?thesis using err sv_next_refl [OF s] by (simp add: add_error_def AddVectors_def)
next
  case False
  then show ?thesis using err AddVectors_rejected_batch [OF env s False] AddVectors_rejected_dim [OF env s ok False]
    by (auto simp: add_error_def split: option.splits if_splits)
qed

text \<open>
  A batch without an error reaches the log. If the append fails, the batch is undone; otherwise the service holds the new vectors
  and the snapshot policy runs.
\<close>

lemma appendWALBatch_cong:
  assumes "seStore env = st" and "svPersistence s' = svPersistence s" and "persistent (svStore s') = persistent (svStore s)"
    and "appendWALBatch env s ops = (e, sw)"
  shows "appendWALBatch env s' ops = (e, s'\<lparr>svPersistence := svPersistence sw\<rparr>)"
proof -
  have "s'\<lparr>svPersistence := svPersistence s\<rparr> = s'" by (simp flip: assms(2))
  then show ?thesis
    using assms(4) unfolding appendWALBatch_def uses_persistent [OF assms(1)] assms(2,3) by (auto split: if_splits prod.splits)
qed

lemma batch_bound:
  assumes "sv_inv s" and "batch_error s (dom (ix_abs (svIndex s))) vecs = None" and "foldl vput (ix_abs (svIndex s)) vecs k = Some ws"
  shows "k \<noteq> [] \<and> int (length ws) \<le> svMaxVectorDim s"
proof (cases "k \<in> vID ` set vecs")
  case True
  note b = batch_error_None [OF assms(2)]
  obtain u where u: "u \<in> set vecs" "vID u = k" using True by blast
  have "map_of (map (\<lambda>v. (vID v, ToFloat32 (vValues v))) vecs) k = Some (ToFloat32 (vValues u))"
    using u b by (intro map_of_is_SomeI) (auto simp: o_def)
  then have "ws = ToFloat32 (vValues u)" using assms(3) b foldl_vput_entries [of vecs "ix_abs (svIndex s)"] by simp
  moreover have "check_vector s u = None" using b u(1) by blast
  ultimately show ?thesis using check_vector_None [of s u] u(2) by simp
next
  case False
  then show ?thesis using assms(1,3) foldl_vput_other [of k vecs "ix_abs (svIndex s)"] by (simp add: svc_inv_def)
qed

lemma AddVectors_logged:
  assumes env: "seStore env = st" "iter_ok (seIter env)" and s: "sv_inv s" and ok: "\<forall>v \<in> set vecs. okv v"
    and err: "add_error s vecs = None" and wal: "appendWALBatch env s (map upsert_op vecs) = (e, sw)"
  shows "case e of
      Some x \<Rightarrow> \<exists>s'. AddVectors env s vecs = Some (Some x, s') \<and> sv_next s (ix_abs (svIndex s)) (svPersistence sw) s'
    | None \<Rightarrow> \<exists>s'. AddVectors env s vecs = Some (maybeSnapshot env s') \<and>
        sv_next s (foldl vput (ix_abs (svIndex s)) vecs) (svPersistence sw) s'"
proof -
  let ?m = "ix_abs (svIndex s)"
  have ne: "vecs \<noteq> []" and valid: "batch_error s (dom ?m) vecs = None" and dims: "dims_ok (anDim (svAnn s)) vecs"
    using err by (auto simp: add_error_def split: if_splits option.splits)
  obtain i v r a where l: "index_vectors s [] vecs = (None, map vID vecs, s\<lparr>svIndex := i\<rparr>)"
    "upsertVectors env (s\<lparr>svIndex := i\<rparr>) vecs = (None, s\<lparr>svIndex := i, svStore := v\<rparr>)" "ix_wf i" "inv v"
    "ix_abs i = foldl vput ?m vecs" "abs v = foldl vput ?m vecs" "persistent v = persistent (svStore s)"
    "ann_vectors env (s\<lparr>svIndex := i, svStore := v\<rparr>) vecs = Some (None, s\<lparr>svIndex := i, svStore := v, svResolver := r, svAnn := a\<rparr>)"
    "ann_holds r a (foldl vput ?m vecs)"
    using AddVectors_loops [OF env(1) s ok ne valid] dims by auto
  let ?s = "s\<lparr>svIndex := i, svStore := v, svResolver := r, svAnn := a\<rparr>"
  have w: "appendWALBatch env ?s (map upsert_op vecs) = (e, ?s\<lparr>svPersistence := svPersistence sw\<rparr>)"
    by (rule appendWALBatch_cong [OF env(1) _ _ wal]) (simp_all add: l(7))
  have step: "AddVectors env s vecs = (case e of Some x \<Rightarrow> fail_with env (?s\<lparr>svPersistence := svPersistence sw\<rparr>) (map vID vecs) x
      | None \<Rightarrow> Some (maybeSnapshot env (?s\<lparr>svPersistence := svPersistence sw\<rparr>)))"
    using ne l(1,2,8) w by (simp add: AddVectors_def split: option.split)
  note b = batch_error_None [OF valid]
  have new: "set (map vID vecs) \<inter> dom ?m = {}" using b by simp
  have out: "foldl vput ?m vecs k = ?m k" if "k \<notin> set (map vID vecs)" for k
    using that foldl_vput_other [of k vecs ?m] by simp
  show ?thesis
  proof (cases e)
    case (Some x)
    have "\<exists>s2. fail_with env (?s\<lparr>svPersistence := svPersistence sw\<rparr>) (map vID vecs) x = Some (Some x, s2) \<and>
        sv_next s ?m (svPersistence (?s\<lparr>svPersistence := svPersistence sw\<rparr>)) s2"
      by (rule fail_with_ok [OF env s]) (use l(3-7,9) new out in \<open>simp_all add: svc_frame_def ann_holds_def\<close>)
    then show ?thesis using Some step by simp
  next
    case None
    have bound: "k \<noteq> [] \<and> int (length ws) \<le> svMaxVectorDim s" if "foldl vput ?m vecs k = Some ws" for k ws
      using batch_bound [OF s valid that] .
    have "sv_inv (?s\<lparr>svPersistence := svPersistence sw\<rparr>)"
      unfolding svc_inv_persist unfolding svc_inv_def using l(3-6,9) bound by simp
    then have "sv_next s (foldl vput ?m vecs) (svPersistence sw) (?s\<lparr>svPersistence := svPersistence sw\<rparr>)"
      using l(5,7) by (simp add: sv_next_def svc_frame_def)
    then show ?thesis unfolding step None option.case by blast
  qed
qed

text \<open>Rebuilding the approximate index re-establishes the invariant for any part of the map the service held.\<close>

lemma rebuild_inv:
  assumes env: "iter_ok (seIter env)" and s: "sv_inv s"
    and s1: "inv (svStore s1)" "ix_wf (svIndex s1)" "abs (svStore s1) = ix_abs (svIndex s1)" "res_wf (svResolver s1)"
      "ix_abs (svIndex s1) \<subseteq>\<^sub>m ix_abs (svIndex s)" "svMaxVectorDim s1 = svMaxVectorDim s"
  shows "\<exists>r a. rebuildANNLocked env s1 = Some (s1\<lparr>svResolver := r, svAnn := a\<rparr>) \<and> sv_inv (s1\<lparr>svResolver := r, svAnn := a\<rparr>)"
proof -
  have sub: "ix_abs (svIndex s) k = Some ws" if "ix_abs (svIndex s1) k = Some ws" for k ws
    using s1(5) that by (metis domI map_le_def)
  define d where "d = (if anDim (svAnn s) = 0 then 1 else anDim (svAnn s))"
  have "0 < d" by (simp add: d_def)
  have "length ws = d \<and> list_all canon32 ws" if "ix_abs (svIndex s1) k = Some ws" for k ws
    using that sub [OF that] ann_holds_dims [of "svResolver s" "svAnn s" "ix_abs (svIndex s)" k ws] s vs.canon [OF s1(1), of k ws] s1(3)
    by (simp add: svc_inv_def d_def)
  then obtain r a where "rebuildANNLocked env s1 = Some (s1\<lparr>svResolver := r, svAnn := a\<rparr>)" "ann_holds r a (ix_abs (svIndex s1))"
    using rebuildANNLocked_ok [OF s1(2) env s1(4) _ \<open>0 < d\<close>] by blast
  moreover have "k \<noteq> [] \<and> int (length ws) \<le> svMaxVectorDim s1" if "ix_abs (svIndex s1) k = Some ws" for k ws
    using sub [OF that] s s1(6) by (simp add: svc_inv_def)
  ultimately show ?thesis
    using s1(1-3) by (intro exI [of _ r] exI [of _ a]) (simp add: svc_inv_def)
qed

lemma maybeCompact_inv:
  assumes "iter_ok (seIter env)" and "sv_inv s"
  shows "\<exists>r a. maybeCompactANNAfterDeleteLocked env s = Some (s\<lparr>svResolver := r, svAnn := a\<rparr>) \<and> sv_inv (s\<lparr>svResolver := r, svAnn := a\<rparr>)"
proof -
  have "\<exists>r a. Some s = Some (s\<lparr>svResolver := r, svAnn := a\<rparr>) \<and> sv_inv (s\<lparr>svResolver := r, svAnn := a\<rparr>)"
    using assms(2) by (intro exI [of _ "svResolver s"] exI [of _ "svAnn s"]) simp
  moreover have "\<exists>r a. rebuildANNLocked env s = Some (s\<lparr>svResolver := r, svAnn := a\<rparr>) \<and> sv_inv (s\<lparr>svResolver := r, svAnn := a\<rparr>)"
    using assms by (intro rebuild_inv [OF assms]) (simp_all add: svc_inv_def ann_holds_def)
  ultimately show ?thesis by (simp add: maybeCompactANNAfterDeleteLocked_def Let_def)
qed

end

definition delete_error :: "'v service \<Rightarrow> string \<Rightarrow> goerror option" where
  "delete_error s vid =
     (if TrimSpace vid = [] then Some ErrInvalidID
      else if ix_abs (svIndex s) vid = None then Some ErrVectorNotFound else None)"

lemma ann_holds_Delete:
  assumes "ann_holds r a m" and "Assign r vid = (n, r')"
  shows "\<exists>a'. Ann_DeleteVector a n = Some a' \<and> ann_holds (Remove r' vid) a' (m(vid := None))"
proof -
  have h: "ann_holds r' a m" using ann_holds_Assign [OF assms] .
  then have wf: "res_wf r'" "ann_wf a" by (simp_all add: ann_holds_def)
  have l: "Lookup r' n = Some vid" using Assign_Lookup [OF _ assms(2)] assms(1) by (simp add: ann_holds_def)
  then have inj: "Lookup r' k = Some vid \<longleftrightarrow> k = n" for k using wf(1) by (metis option.inject res_wf_inv)
  obtain a' where a': "Ann_DeleteVector a n = Some a'" "ann_wf a'" "ann_abs a' = (ann_abs a)(n := None)"
    using Ann_DeleteVector_facts [OF wf(2)] by blast
  have "ann_abs a' k = (case Lookup (Remove r' vid) k of None \<Rightarrow> None | Some i \<Rightarrow> (m(vid := None)) i)" for k
    using h inj [of k] by (auto simp: a'(3) Remove_Lookup [OF wf(1)] ann_holds_def split: option.split)
  moreover have "dom (m(vid := None)) \<subseteq> dom (gm_get (idToInternal (Remove r' vid)))"
    using h by (auto simp: ann_holds_def Remove_def split: option.split)
  ultimately show ?thesis using a' res_wf_Remove [OF wf(1)] by (auto simp: ann_holds_def)
qed

context service_store
begin

lemma DeleteVector_rejected:
  assumes env: "seStore env = st" and s: "sv_inv s" and err: "delete_error s vid = Some e"
  shows "\<exists>s'. DeleteVector env s vid = Some (Some e, s') \<and> sv_next s (ix_abs (svIndex s)) (svPersistence s) s'"
proof (cases "TrimSpace vid = []")
  case True
  then show ?thesis using err sv_next_refl [OF s] by (simp add: delete_error_def DeleteVector_def)
next
  case False
  have wf: "inv (svStore s)" "abs (svStore s) = ix_abs (svIndex s)" using s by (simp_all add: svc_inv_def)
  obtain r v where g: "stGetVector st (svStore s) vid = (r, v)" by force
  have v: "inv v" "abs v = ix_abs (svIndex s)" "r = Inl e" "persistent v = persistent (svStore s)"
    using vs.getv [OF wf(1) g] wf(2) err False persist_get [OF wf(1), of vid] g by (auto simp: delete_error_def vget_def split: if_splits)
  have "sv_next s (ix_abs (svIndex s)) (svPersistence s) (s\<lparr>svStore := v\<rparr>)"
    using s v by (simp add: sv_next_def svc_inv_def svc_frame_def)
  then show ?thesis using False g v(3) env by (auto simp: DeleteVector_def)
qed

text \<open>The state after the vector has left store, index, approximate index and resolver.\<close>

lemma DeleteVector_removed:
  assumes env: "seStore env = st" and s: "sv_inv s" and err: "delete_error s vid = None"
  shows "\<exists>vec v1 i v2 n r a. stGetVector st (svStore s) vid = (Inr vec, v1) \<and> vget (ix_abs (svIndex s)) vid = Inr vec \<and>
    Index_DeleteVector (svIndex s) vid = (None, i) \<and> stDeleteVector st v1 vid = (None, v2) \<and> Assign (svResolver s) vid = (n, r) \<and>
    Ann_DeleteVector (svAnn s) n = Some a \<and> inv v2 \<and> persistent v2 = persistent (svStore s) \<and> okv vec \<and>
    sv_next s ((ix_abs (svIndex s))(vid := None)) (svPersistence s) (s\<lparr>svStore := v2, svIndex := i, svResolver := Remove r vid, svAnn := a\<rparr>)"
proof -
  let ?m = "ix_abs (svIndex s)"
  have wf: "inv (svStore s)" "abs (svStore s) = ?m" "ix_wf (svIndex s)" "ann_holds (svResolver s) (svAnn s) ?m"
    using s by (simp_all add: svc_inv_def)
  obtain ws where ws: "?m vid = Some ws" using err by (auto simp: delete_error_def split: if_splits)
  define vec where "vec = \<lparr>vID = vid, vValues = ToFloat64 ws\<rparr>"
  have vg: "vget ?m vid = Inr vec" using ws by (simp add: vget_def vec_def)
  obtain rv v1 where g: "stGetVector st (svStore s) vid = (rv, v1)" by force
  have v1: "inv v1" "abs v1 = ?m" "rv = Inr vec" "persistent v1 = persistent (svStore s)"
    using vs.getv [OF wf(1) g] wf(2) vg persist_get [OF wf(1), of vid] g by auto
  obtain e1 i where d: "Index_DeleteVector (svIndex s) vid = (e1, i)" by force
  have i: "e1 = None" "ix_wf i" "ix_abs i = ?m(vid := None)"
    using ix_abs_Delete [OF d] ix_wf_Delete [OF wf(3), of vid] d ws by (auto split: if_splits)
  obtain e2 v2 where dv: "stDeleteVector st v1 vid = (e2, v2)" by force
  have v2: "e2 = None" "inv v2" "abs v2 = ?m(vid := None)" "persistent v2 = persistent (svStore s)"
    using vs.del [OF v1(1) dv] v1(2,4) ws persist_delete [OF v1(1), of vid] dv by (auto split: if_splits)
  obtain n r where as: "Assign (svResolver s) vid = (n, r)" by force
  obtain a where a: "Ann_DeleteVector (svAnn s) n = Some a" "ann_holds (Remove r vid) a (?m(vid := None))"
    using ann_holds_Delete [OF wf(4) as] by blast
  have "sv_next s (?m(vid := None)) (svPersistence s) (s\<lparr>svStore := v2, svIndex := i, svResolver := Remove r vid, svAnn := a\<rparr>)"
    using s i v2 a(2) by (simp add: sv_next_def svc_inv_def svc_frame_def)
  moreover have "okv vec" using stored_ok [OF wf(1)] wf(2) ws by (simp add: vec_def)
  ultimately show ?thesis using g v1(3) vg d i(1) dv v2 as a(1) by blast
qed

lemma vput_read_back:
  assumes "inv v" and "vget (abs v) k = Inr vec"
  shows "vput ((abs v)(k := None)) vec = abs v"
proof -
  obtain ws where "abs v k = Some ws" "vec = \<lparr>vID = k, vValues = ToFloat64 ws\<rparr>"
    using assms(2) by (auto simp: vget_def split: option.splits)
  then show ?thesis using vs.canon [OF assms(1)] by (auto simp: vput_def)
qed

text \<open>Undoing a delete puts the vector back into every part.\<close>

lemma DeleteVector_undone:
  assumes env: "iter_ok (seIter env)" and s: "sv_inv s" and vec: "vget (ix_abs (svIndex s)) vid = Inr vec" "okv vec"
    and v: "inv v" "abs v = (ix_abs (svIndex s))(vid := None)" "persistent v = persistent (svStore s)"
    and i: "ix_wf i" "ix_abs i = (ix_abs (svIndex s))(vid := None)" and r: "res_wf r"
  shows "\<exists>s'. rebuildANNLocked env (s\<lparr>svStore := snd (upsert v [vec]), svIndex := snd (Index_AddVector i vec), svResolver := r, svAnn := a, svPersistence := p\<rparr>) = Some s' \<and>
    sv_next s (ix_abs (svIndex s)) p s'"
proof -
  let ?m = "ix_abs (svIndex s)"
  let ?undo = "s\<lparr>svStore := snd (upsert v [vec]), svIndex := snd (Index_AddVector i vec), svResolver := r, svAnn := a, svPersistence := p\<rparr>"
  have vi: "vID vec = vid" using vec(1) by (metis vget_Inr)
  have rb: "vput (?m(vid := None)) vec = ?m"
    using vput_read_back [of "svStore s" vid vec] vec(1) s by (simp add: svc_inv_def)
  obtain e3 v3 where u: "upsert v [vec] = (e3, v3)" by force
  have v3: "inv v3" "abs v3 = ?m" "persistent v3 = persistent (svStore s)"
    using vs.upsert [OF v(1) _ u] v(2,3) vec(2) rb persist_upsert [OF v(1), of "[vec]"] u by auto
  obtain e4 i4 where ai: "Index_AddVector i vec = (e4, i4)" by force
  have i4: "ix_wf i4" "ix_abs i4 = ?m"
    using ix_wf_Add [OF i(1), of vec] ix_abs_Add [OF ai] ai i(2) vi rb by (auto simp: vput_def)
  have "\<exists>r' a'. rebuildANNLocked env ?undo = Some (?undo\<lparr>svResolver := r', svAnn := a'\<rparr>) \<and> sv_inv (?undo\<lparr>svResolver := r', svAnn := a'\<rparr>)"
    by (rule rebuild_inv [OF env s]) (use v3 i4 u ai r in simp_all)
  then obtain r' a' where b: "rebuildANNLocked env ?undo = Some (?undo\<lparr>svResolver := r', svAnn := a'\<rparr>)"
    "sv_inv (?undo\<lparr>svResolver := r', svAnn := a'\<rparr>)" by blast
  have "sv_next s ?m p (?undo\<lparr>svResolver := r', svAnn := a'\<rparr>)"
    unfolding sv_next_def using b(2) i4 v3(3) u ai by (simp add: svc_frame_def)
  then show ?thesis using b(1) by blast
qed

lemma DeleteVector_logged:
  assumes env: "seStore env = st" "iter_ok (seIter env)" and s: "sv_inv s"
    and err: "delete_error s vid = None" and wal: "appendWAL env s (delete_op vid) = (e, sw)"
  shows "case e of
      Some x \<Rightarrow> \<exists>s'. DeleteVector env s vid = Some (Some x, s') \<and> sv_next s (ix_abs (svIndex s)) (svPersistence sw) s'
    | None \<Rightarrow> \<exists>s'. DeleteVector env s vid = Some (maybeSnapshot env s') \<and>
        sv_next s ((ix_abs (svIndex s))(vid := None)) (svPersistence sw) s'"
proof -
  let ?m = "ix_abs (svIndex s)"
  obtain vec v1 i v2 n r a where d: "stGetVector st (svStore s) vid = (Inr vec, v1)" "vget ?m vid = Inr vec"
    "Index_DeleteVector (svIndex s) vid = (None, i)" "stDeleteVector st v1 vid = (None, v2)" "Assign (svResolver s) vid = (n, r)"
    "Ann_DeleteVector (svAnn s) n = Some a" "inv v2" "persistent v2 = persistent (svStore s)" "okv vec"
    "sv_next s (?m(vid := None)) (svPersistence s) (s\<lparr>svStore := v2, svIndex := i, svResolver := Remove r vid, svAnn := a\<rparr>)"
    using DeleteVector_removed [OF env(1) s err] by blast
  let ?s = "s\<lparr>svStore := v2, svIndex := i, svResolver := Remove r vid, svAnn := a\<rparr>"
  let ?sw = "?s\<lparr>svPersistence := svPersistence sw\<rparr>"
  have w: "appendWAL env ?s (delete_op vid) = (e, ?sw)"
    unfolding appendWAL_def by (rule appendWALBatch_cong [OF env(1) _ _ wal [unfolded appendWAL_def]]) (simp_all add: d(8))
  have sv: "sv_inv ?s" "ix_abs i = ?m(vid := None)" using d(10) unfolding sv_next_def by auto
  then have inv2: "sv_inv ?s" "ix_abs i = ?m(vid := None)" "abs v2 = ?m(vid := None)" "ix_wf i" "res_wf (Remove r vid)"
    by (simp_all add: svc_inv_def ann_holds_def)
  have ne: "TrimSpace vid \<noteq> []" using err by (auto simp: delete_error_def)
  let ?undo = "?sw\<lparr>svStore := snd (upsert v2 [vec]), svIndex := snd (Index_AddVector i vec), svResolver := snd (Assign (Remove r vid) vid)\<rparr>"
  have eq: "s\<lparr>svIndex := i, svStore := v2, svAnn := a, svResolver := Remove r vid\<rparr> = ?s" by simp
  have step: "DeleteVector env s vid = (case e of Some x \<Rightarrow> map_option (\<lambda>s'. (Some x, s')) (rebuildANNLocked env ?undo)
      | None \<Rightarrow> map_option (maybeSnapshot env) (maybeCompactANNAfterDeleteLocked env ?sw))"
    using ne d(1,3-6) w env(1) by (simp add: DeleteVector_def Let_def deleteANNVector_def upsert_one eq split: option.split)
  show ?thesis
  proof (cases e)
    case None
    have "sv_inv ?sw" using inv2(1) unfolding svc_inv_persist .
    then obtain r' a' where c: "maybeCompactANNAfterDeleteLocked env ?sw = Some (?sw\<lparr>svResolver := r', svAnn := a'\<rparr>)"
      "sv_inv (?sw\<lparr>svResolver := r', svAnn := a'\<rparr>)"
      using maybeCompact_inv [OF env(2)] by blast
    have "sv_next s (?m(vid := None)) (svPersistence sw) (?sw\<lparr>svResolver := r', svAnn := a'\<rparr>)"
      unfolding sv_next_def using c(2) inv2(2) d(8) by (simp add: svc_frame_def)
    then show ?thesis unfolding step None option.case c(1) by auto
  next
    case (Some x)
    have "s\<lparr>svStore := snd (upsert v2 [vec]), svIndex := snd (Index_AddVector i vec), svResolver := snd (Assign (Remove r vid) vid), svAnn := a,
        svPersistence := svPersistence sw\<rparr> = ?undo" by simp
    then obtain s' where b: "rebuildANNLocked env ?undo = Some s'" "sv_next s ?m (svPersistence sw) s'"
      using DeleteVector_undone [OF env(2) s d(2,9,7) inv2(3) d(8) inv2(4,2) res_wf_Assign [OF inv2(5)], of "svPersistence sw" a] by metis
    then show ?thesis unfolding step Some option.case b(1) by auto
  qed
qed

end

section \<open>A new service\<close>

lemma svc_inv_initial:
  assumes "sinv v" and "sabs v = Map.empty"
  shows "svc_inv sinv sabs (service_initial opts v files)"
  using assms by (simp add: svc_inv_def service_initial_def ann_holds_def split: option.split)

text \<open>An environment in which the hypotheses hold, for examples: everything concrete, with the given operating-system faults.\<close>

definition sample_env :: "iofault \<Rightarrow> string fset anyStore serviceEnv" where
  "sample_env flt =
     \<lparr>seStore = any_ops set_env no_fault 0, seCodec = hex_codec, seFault = flt, seIter = rev, seIters = (\<lambda>_. rev),
      seIntn = (\<lambda>_. 0), seSort = key_sort, seProcs = 1, seOrder = (\<lambda>n. [0..<n])\<rparr>"

definition sample_opts :: "string \<Rightarrow> serviceOptions" where
  "sample_opts mode =
     \<lparr>opMaxVectorDim = 4, opMaxK = 10, opSnapshotEvery = 100, opSearchMode = mode, opANNProfile = [],
      opANNOptions = \<lparr>aoM = 0, aoEfConstruction = 0, aoEfSearch = 0, aoSeed = 0\<rparr>, opANNEvalSampleRate = 0,
      opVectorStore = ''memory'', opCache = \<lparr>coEnabled = False, coMaxBytes = 0, coMaxItems = 0, coTTL = 0\<rparr>, opSyncEvery = 1\<rparr>"

definition sample_service :: "string \<Rightarrow> string fset anyStore service" where
  "sample_service mode = service_initial (sample_opts mode) (Inl (BMem (newMemoryVectorStore set_env))) no_files"

definition sample_vector :: vector where
  "sample_vector = \<lparr>vID = ''a'', vValues = [0]\<rparr>"

lemma sample_env_ok: "seStore (sample_env flt) = any_ops set_env no_fault 0" "iter_ok (seIter (sample_env flt))"
  by (simp_all add: sample_env_def)

lemma any_abs_new: "any_abs (Inl (BMem (newMemoryVectorStore env))) = Map.empty"
  by (simp add: any_abs_def be_abs_def mem_abs_def newMemoryVectorStore_def fun_eq_iff)

lemma any_inv_new: "any_inv set_env (Inl (BMem (newMemoryVectorStore set_env)))"
  by (simp add: any_inv_def any_base_def be_inv_def fits_map_def any_abs_new)

lemma sample_service_inv: "svc_inv (any_inv set_env) any_abs (sample_service mode)"
  unfolding sample_service_def by (intro svc_inv_initial any_inv_new any_abs_new)

lemma trim_a: "TrimSpace ''a'' = ''a''"
  by (rule TrimSpace_untrimmed) (simp add: untrimmed_def strip_one_def space_encodings_def)

lemma sample_vector_ok:
  "fits sample_vector" "add_error (sample_service mode) [sample_vector] = None" "loggable (upsert_op sample_vector)"
  by (simp_all add: sample_vector_def rec_fits_def add_error_def check_vector_def sample_service_def service_initial_def sample_opts_def
      NewAnnIndexWithOptions_def loggable_def upsert_op_def in_range_def finite64_def float_eval trim_a)

section \<open>Properties\<close>

lemma maybeSnapshot_keeps:
  assumes "svc_inv sinv sabs s" and "maybeSnapshot env s = (e, s')"
  shows "svc_inv sinv sabs s'" and "svStore s' = svStore s"
proof -
  have eq: "s' = s\<lparr>svPersistence := svPersistence s', svPersistOps := svPersistOps s'\<rparr>" using assms(2) by (rule maybeSnapshot_frame)
  show "svc_inv sinv sabs s'" using assms(1) by (subst eq) simp
  show "svStore s' = svStore s" by (subst eq) simp
qed

lemma svc_inv_map: "svc_inv sinv sabs s \<Longrightarrow> ix_abs (svIndex s) = sabs (svStore s)"
  by (simp add: svc_inv_def)

lemma any_next:
  assumes "any_svc.sv_next senv s m p s'"
  shows "svc_inv (any_inv senv) any_abs s'" and "any_abs (svStore s') = m"
  using assms unfolding any_svc.sv_next_def by (auto simp: svc_inv_def)

text \<open>What an operation that logs comes to: the error of the log and the old map, or the new map.\<close>

lemma logged_outcome:
  assumes "svc_inv (any_inv senv) any_abs s"
    and "case e of
        Some x \<Rightarrow> \<exists>s'. op = Some (Some x, s') \<and> any_svc.sv_next senv s (ix_abs (svIndex s)) p s'
      | None \<Rightarrow> \<exists>s'. op = Some (maybeSnapshot env s') \<and> any_svc.sv_next senv s m p s'"
  shows "\<exists>e' s'. op = Some (e', s') \<and> svc_inv (any_inv senv) any_abs s' \<and>
    (case e of Some x \<Rightarrow> e' = Some x \<and> any_abs (svStore s') = any_abs (svStore s) | None \<Rightarrow> any_abs (svStore s') = m)"
proof (cases e)
  case (Some x)
  then obtain s' where s': "op = Some (Some x, s')" "any_svc.sv_next senv s (ix_abs (svIndex s)) p s'" using assms(2) by auto
  then show ?thesis using Some any_next [OF s'(2)] svc_inv_map [OF assms(1)] by simp
next
  case None
  then obtain s1 where s1: "op = Some (maybeSnapshot env s1)" "any_svc.sv_next senv s m p s1" using assms(2) by auto
  obtain e' s' where "maybeSnapshot env s1 = (e', s')" by force
  then show ?thesis using None s1(1) any_next [OF s1(2)] maybeSnapshot_keeps [of "any_inv senv" any_abs s1 env e' s'] by simp
qed

lemma AddVectors_outcome:
  assumes "seStore env = any_ops senv no_fault now" and "iter_ok (seIter env)" and "svc_inv (any_inv senv) any_abs s"
    and "\<forall>v \<in> set vecs. fits v"
  shows "\<exists>e s'. AddVectors env s vecs = Some (e, s') \<and> svc_inv (any_inv senv) any_abs s' \<and>
    (case add_error s vecs of
       Some x \<Rightarrow> e = Some x \<and> any_abs (svStore s') = any_abs (svStore s)
     | None \<Rightarrow> (case fst (appendWALBatch env s (map upsert_op vecs)) of
         Some x \<Rightarrow> e = Some x \<and> any_abs (svStore s') = any_abs (svStore s)
       | None \<Rightarrow> any_abs (svStore s') = foldl vput (any_abs (svStore s)) vecs))"
proof (cases "add_error s vecs")
  case (Some x)
  obtain s' where s': "AddVectors env s vecs = Some (Some x, s')" "any_svc.sv_next senv s (ix_abs (svIndex s)) (svPersistence s) s'"
    using any_svc.AddVectors_rejected [OF assms Some] by blast
  then show ?thesis using Some any_next [OF s'(2)] svc_inv_map [OF assms(3)] by simp
next
  case None
  obtain e sw where w: "appendWALBatch env s (map upsert_op vecs) = (e, sw)" by force
  from logged_outcome [OF assms(3) any_svc.AddVectors_logged [OF assms None w]] None w show ?thesis
    unfolding svc_inv_map [OF assms(3)] by simp
qed

text \<open>
  C1. Adding a batch is all or nothing, whatever fails in the persistence backend. The call always returns (no panic) and keeps the
  invariant that index, store, approximate index and resolver describe one map. If the batch has an error
  (the first by the order of the checks; a duplicate; a wrong dimension) it is returned and the stored map is unchanged; if the log
  cannot be appended, that error is returned and the map is unchanged; otherwise all vectors of the batch are stored.
\<close>

theorem add_vectors_all_or_nothing:
  assumes "seStore env = any_ops senv no_fault now" and "iter_ok (seIter env)" and "svc_inv (any_inv senv) any_abs s"
    and "\<forall>v \<in> set vecs. fits v"
  shows "\<exists>e s'. AddVectors env s vecs = Some (e, s') \<and> svc_inv (any_inv senv) any_abs s' \<and>
    (case add_error s vecs of
       Some x \<Rightarrow> e = Some x \<and> any_abs (svStore s') = any_abs (svStore s)
     | None \<Rightarrow> (case fst (appendWALBatch env s (map upsert_op vecs)) of
         Some x \<Rightarrow> e = Some x \<and> any_abs (svStore s') = any_abs (svStore s)
       | None \<Rightarrow> any_abs (svStore s') = foldl vput (any_abs (svStore s)) vecs))"
  by (rule AddVectors_outcome [OF assms])

lemma sample_append:
  "fst (appendWALBatch (sample_env no_fault) (sample_service mode) (map upsert_op [sample_vector])) = None"
  using sample_vector_ok(3) AppendWALBatch_ok [OF hex_codec_ok, of "[upsert_op sample_vector]"]
  by (simp add: appendWALBatch_def usesPersistentVectorStore_def sample_env_def any_ops_def sample_service_def service_initial_def
      be_persistent_def Mem_IsPersistent_def loggable_def Let_def split: prod.split)

theorem add_vectors_all_or_nothing_witness:
  "\<exists>e s'. AddVectors (sample_env no_fault) (sample_service []) [sample_vector] = Some (e, s') \<and>
     any_abs (svStore s') = foldl vput (any_abs (svStore (sample_service []))) [sample_vector]"
  using add_vectors_all_or_nothing [OF sample_env_ok(1) sample_env_ok(2) [of no_fault] sample_service_inv [of "[]"], of "[sample_vector]"]
    sample_vector_ok(1) sample_vector_ok(2) [of "[]"] sample_append [of "[]"]
  by auto

lemma DeleteVector_outcome:
  assumes "seStore env = any_ops senv no_fault now" and "iter_ok (seIter env)" and "svc_inv (any_inv senv) any_abs s"
  shows "\<exists>e s'. DeleteVector env s vid = Some (e, s') \<and> svc_inv (any_inv senv) any_abs s' \<and>
    (case delete_error s vid of
       Some x \<Rightarrow> e = Some x \<and> any_abs (svStore s') = any_abs (svStore s)
     | None \<Rightarrow> (case fst (appendWAL env s (delete_op vid)) of
         Some x \<Rightarrow> e = Some x \<and> any_abs (svStore s') = any_abs (svStore s)
       | None \<Rightarrow> any_abs (svStore s') = (any_abs (svStore s))(vid := None)))"
proof (cases "delete_error s vid")
  case (Some x)
  obtain s' where s': "DeleteVector env s vid = Some (Some x, s')" "any_svc.sv_next senv s (ix_abs (svIndex s)) (svPersistence s) s'"
    using any_svc.DeleteVector_rejected [OF assms(1,3) Some] by blast
  then show ?thesis using Some any_next [OF s'(2)] svc_inv_map [OF assms(3)] by simp
next
  case None
  obtain e sw where w: "appendWAL env s (delete_op vid) = (e, sw)" by force
  from logged_outcome [OF assms(3) any_svc.DeleteVector_logged [OF assms None w]] None w show ?thesis
    unfolding svc_inv_map [OF assms(3)] by simp
qed

text \<open>
  C14. Deleting a vector is all or nothing as well: a blank or unknown identifier is reported and nothing changes; if the log cannot be
  appended, the error is returned and the vector is back in the store, the index and the approximate index;
  otherwise exactly this identifier is gone.
\<close>

theorem delete_vector_all_or_nothing:
  assumes "seStore env = any_ops senv no_fault now" and "iter_ok (seIter env)" and "svc_inv (any_inv senv) any_abs s"
  shows "\<exists>e s'. DeleteVector env s vid = Some (e, s') \<and> svc_inv (any_inv senv) any_abs s' \<and>
    (case delete_error s vid of
       Some x \<Rightarrow> e = Some x \<and> any_abs (svStore s') = any_abs (svStore s)
     | None \<Rightarrow> (case fst (appendWAL env s (delete_op vid)) of
         Some x \<Rightarrow> e = Some x \<and> any_abs (svStore s') = any_abs (svStore s)
       | None \<Rightarrow> any_abs (svStore s') = (any_abs (svStore s))(vid := None)))"
  by (rule DeleteVector_outcome [OF assms])

theorem delete_vector_all_or_nothing_witness:
  "\<exists>s e s'. any_abs (svStore s) = foldl vput Map.empty [sample_vector] \<and>
     DeleteVector (sample_env \<lparr>ioErr = (\<lambda>_. Some (ErrIO ''disk full'')), ioPartial = 3\<rparr>) s ''a'' = Some (e, s') \<and>
     e = Some (ErrIO ''disk full'') \<and> any_abs (svStore s') = any_abs (svStore s)"
proof -
  let ?env = "sample_env \<lparr>ioErr = (\<lambda>_. Some (ErrIO ''disk full'')), ioPartial = 3\<rparr>"
  obtain sw where "appendWALBatch (sample_env no_fault) (sample_service []) (map upsert_op [sample_vector]) = (None, sw)"
    using sample_append by (metis prod.collapse)
  then obtain s where s: "any_svc.sv_next set_env (sample_service []) (foldl vput (ix_abs (svIndex (sample_service []))) [sample_vector]) (svPersistence sw) s"
    using any_svc.AddVectors_logged [OF sample_env_ok(1) sample_env_ok(2) [of no_fault] sample_service_inv, of "[sample_vector]"] sample_vector_ok
    by fastforce
  note inv = any_next(1) [OF s]
  have m: "any_abs (svStore s) = foldl vput Map.empty [sample_vector]"
    unfolding any_next(2) [OF s] by (simp add: sample_service_def service_initial_def)
  then have "ix_abs (svIndex s) ''a'' \<noteq> None" unfolding svc_inv_map [OF inv] by (simp add: sample_vector_def)
  then have "delete_error s ''a'' = None" by (simp add: delete_error_def trim_a)
  moreover have "any_persistent (svStore s) = False"
    using s by (simp add: any_svc.sv_next_def sample_service_def service_initial_def any_persistent_def be_persistent_def Mem_IsPersistent_def)
  then have "\<not> usesPersistentVectorStore ?env s" by (simp add: any_svc.uses_persistent [OF sample_env_ok(1)])
  then have "fst (appendWAL ?env s (delete_op ''a'')) = Some (ErrIO ''disk full'')"
    by (simp add: appendWAL_def appendWALBatch_def AppendWALBatch_def sample_env_def)
  ultimately show ?thesis
    using delete_vector_all_or_nothing [OF sample_env_ok inv, of "\<lparr>ioErr = (\<lambda>_. Some (ErrIO ''disk full'')), ioPartial = 3\<rparr>" "''a''"] m
    by auto
qed

end
