(* ===== verification/Durability.thy ===== *)
theory Durability
  imports ServiceWrites
begin

text \<open>
  What survives a restart of a service on the memory store. The files of the persistence backend stand for a map: the
  snapshot with the logged operations applied. Every write keeps the files in step with the vectors the service
  holds, snapshots in between included, and \<^verbatim>\<open>restoreState\<close> of a new process rebuilds a service that holds exactly these vectors. The histories
  considered are those in which no append to the log has failed; \<^verbatim>\<open>failed_sync_resurfaces\<close> shows what happens otherwise.
\<close>

section \<open>The map the files stand for\<close>

text \<open>The effect of replaying one operation, \<open>D\<close> being the maximal dimension.\<close>

definition map_op :: "int \<Rightarrow> vmap \<Rightarrow> walOp \<Rightarrow> vmap" where
  "map_op D m op =
     (if wOp op = ''upsert'' then
        if wID op = [] \<or> wValues op = [] \<or> D < int (length (wValues op)) then m
        else m(wID op \<mapsto> ToFloat32 (wValues op))
      else if wOp op = ''delete'' then if wID op = [] then m else m(wID op := None)
      else m)"

definition snap_map :: "(string, float64 list) gomap \<Rightarrow> vmap" where
  "snap_map payload k = map_option ToFloat32 (gm_get payload k)"

definition payload_ok :: "int \<Rightarrow> (string, float64 list) gomap \<Rightarrow> bool" where
  "payload_ok D payload \<longleftrightarrow> gm_wf payload \<and> (\<exists>d > 0. int d \<le> max 1 D \<and>
     (\<forall>k vals. gm_get payload k = Some vals \<longrightarrow> k \<noteq> [] \<and> length vals = d \<and> int d \<le> D \<and> rec_fits k vals))"

definition op_ok :: "jsonCodec \<Rightarrow> walOp \<Rightarrow> bool" where
  "op_ok c op \<longleftrightarrow> loggable op \<and> short_line c op \<and> rec_fits (wID op) (wValues op)"

definition dur_files :: "jsonCodec \<Rightarrow> int \<Rightarrow> snapshotWALBackend \<Rightarrow> vmap \<Rightarrow> bool" where
  "dur_files c D b m \<longleftrightarrow> (\<exists>ops payload. wal_text b = wal_image c ops \<and> list_all (op_ok c) ops \<and>
     LoadSnapshot c no_fault b = Inr payload \<and> payload_ok D payload \<and> foldl (map_op D) (snap_map payload) ops = m)"

text \<open>The map a snapshot can hold: JSON has no infinities and the identifiers have to be UTF-8.\<close>

definition savable :: "vmap \<Rightarrow> bool" where
  "savable m \<longleftrightarrow> (\<forall>k ws. m k = Some ws \<longrightarrow> utf8_valid k \<and> list_all finite64 (ToFloat64 ws))"

text \<open>
  Replaying operations again changes nothing: each identifier ends with what the last operation on it says. So a log that was not truncated after
  a newer snapshot does no harm.
\<close>

definition touches :: "int \<Rightarrow> string \<Rightarrow> walOp \<Rightarrow> bool" where
  "touches D k op \<longleftrightarrow> wID op = k \<and> k \<noteq> [] \<and> (wOp op = ''upsert'' \<and> wValues op \<noteq> [] \<and> int (length (wValues op)) \<le> D \<or> wOp op = ''delete'')"

lemma map_op_touch: "touches D k op \<Longrightarrow> map_op D m op k = map_op D m' op k"
  by (auto simp: touches_def map_op_def)

lemma map_op_keep: "\<not> touches D k op \<Longrightarrow> map_op D m op k = m k"
  by (auto simp: touches_def map_op_def)

lemma map_ops_local: "m k = m' k \<Longrightarrow> foldl (map_op D) m ops k = foldl (map_op D) m' ops k"
proof (induction ops arbitrary: m m')
  case (Cons op ops)
  have "map_op D m op k = map_op D m' op k"
    using Cons.prems map_op_touch [of D k op m m'] map_op_keep [of D k op m] map_op_keep [of D k op m'] by argo
  then show ?case using Cons.IH [of "map_op D m op" "map_op D m' op"] by simp
qed simp

lemma map_ops_idem: "foldl (map_op D) (foldl (map_op D) m ops) ops = foldl (map_op D) m ops"
proof
  fix k
  show "foldl (map_op D) (foldl (map_op D) m ops) ops k = foldl (map_op D) m ops k"
  proof (cases "\<exists>op \<in> set ops. touches D k op")
    case True
    have "foldl (map_op D) m1 ops k = foldl (map_op D) m2 ops k" for m1 m2
      using True
    proof (induction ops arbitrary: m1 m2)
      case (Cons op ops)
      show ?case
      proof (cases "touches D k op")
        case True
        then show ?thesis using map_ops_local [of "map_op D m1 op" k "map_op D m2 op"] map_op_touch [of D k op m1 m2] by simp
      next
        case False
        then show ?thesis using Cons by simp
      qed
    qed simp
    then show ?thesis .
  next
    case False
    have "foldl (map_op D) m1 ops k = m1 k" for m1
      using False by (induction ops arbitrary: m1) (simp_all add: map_op_keep)
    then show ?thesis by simp
  qed
qed

section \<open>The files under writes\<close>

text \<open>Whatever can fail: an append that reports success has written all of its operations.\<close>

lemma bw_write_text: "bw_write flt (w, buf) p = (None, (w', buf')) \<Longrightarrow> w' @ buf' = w @ buf @ p"
proof (induction flt "(w, buf)" p arbitrary: w buf w' buf' rule: bw_write.induct)
  case (1 flt w buf p)
  show ?case
    using 1(2) 1(1) [OF _ refl refl] unfolding bw_write.simps [of flt w buf p]
    by (auto simp: Let_def split: if_splits option.splits)
qed

lemma write_ops_text:
  "write_ops c flt ops (w, buf) = (None, (w', buf')) \<Longrightarrow> w' @ buf' = w @ buf @ wal_image c ops"
proof (induction ops arbitrary: w buf)
  case (Cons op ops)
  obtain data e w1 buf1 where d: "jMarshalOp c op = Some data" "bw_write flt (w, buf) (data @ [CHR 0x0A]) = (e, (w1, buf1))"
    using Cons.prems by (auto split: option.splits) (metis surj_pair)
  then have "e = None" "write_ops c flt ops (w1, buf1) = (None, (w', buf'))" using Cons.prems by (auto split: option.splits)
  then show ?case using Cons.IH d bw_write_text [of flt w buf "data @ [CHR 0x0A]" w1 buf1] by (simp add: wal_enc_def)
qed simp

lemma AppendWALBatch_text:
  assumes "AppendWALBatch c flt b ops = (None, b')"
  shows "wal_text b' = wal_text b @ wal_image c ops" and "swSnapshot b' = swSnapshot b"
proof -
  have "wal_text b' = wal_text b @ wal_image c ops \<and> swSnapshot b' = swSnapshot b"
  proof (cases "ops = []")
    case True
    then show ?thesis using assms by (simp add: AppendWALBatch_def)
  next
    case False
    obtain e w buf where w: "write_ops c flt ops ([], []) = (e, (w, buf))" by (metis surj_pair)
    obtain e' w' buf' where f: "bw_flush flt (w, buf) = (e', (w', buf'))" by (metis surj_pair)
    have "e = None" "e' = None" "wal_text b' = wal_text b @ w'" "swSnapshot b' = swSnapshot b"
      using assms False w f by (auto simp: AppendWALBatch_def Let_def wal_text_def split: option.splits if_splits)
    moreover have "w @ buf = wal_image c ops" using write_ops_text [of c flt ops "[]" "[]"] w \<open>e = None\<close> by simp
    moreover have "w' = w @ buf" using f \<open>e' = None\<close> by (auto simp: bw_flush_def split: if_splits option.splits)
    ultimately show ?thesis by simp
  qed
  then show "wal_text b' = wal_text b @ wal_image c ops" and "swSnapshot b' = swSnapshot b" by simp_all
qed

lemma LoadSnapshot_cong: "swSnapshot b' = swSnapshot b \<Longrightarrow> LoadSnapshot c flt b' = LoadSnapshot c flt b"
  by (simp add: LoadSnapshot_def)

lemma dur_files_append:
  assumes "dur_files c D b m" and "AppendWALBatch c flt b ops = (None, b')" and "list_all (op_ok c) ops"
  shows "dur_files c D b' (foldl (map_op D) m ops)"
proof -
  obtain ops0 payload where "wal_text b = wal_image c ops0" "list_all (op_ok c) ops0" "LoadSnapshot c no_fault b = Inr payload"
    "payload_ok D payload" "foldl (map_op D) (snap_map payload) ops0 = m"
    using assms(1) unfolding dur_files_def by blast
  then have "wal_text b' = wal_image c (ops0 @ ops)" "list_all (op_ok c) (ops0 @ ops)" "LoadSnapshot c no_fault b' = Inr payload"
    "payload_ok D payload" "foldl (map_op D) (snap_map payload) (ops0 @ ops) = foldl (map_op D) m ops"
    using AppendWALBatch_text [OF assms(2)] assms(3) LoadSnapshot_cong [of b' b] by auto
  then show ?thesis unfolding dur_files_def by blast
qed

definition map_ok :: "int \<Rightarrow> vmap \<Rightarrow> bool" where
  "map_ok D m \<longleftrightarrow> (\<exists>d > 0. \<forall>k ws. m k = Some ws \<longrightarrow>
     k \<noteq> [] \<and> length ws = d \<and> int d \<le> D \<and> rec_fits k ws \<and> list_all canon32 ws)"

lemma snapshot_payload_vlists:
  assumes "vlists m vs"
  shows "gm_get (snapshot_payload vs) k = map_option ToFloat64 (m k)"
proof -
  have d: "distinct (map vID vs)" "vID ` set vs = dom m" using assms by (auto simp: vlists_def)
  have get: "gm_get (snapshot_payload xs) k = map_of (map (\<lambda>v. (vID v, vValues v)) xs) k" if "distinct (map vID xs)" for xs
    using that unfolding snapshot_payload_def
  proof (induction xs rule: rev_induct)
    case (snoc x xs)
    then have "x \<in> set xs \<Longrightarrow> False" "map_of (map (\<lambda>v. (vID v, vValues v)) xs) (vID x) = None" by (auto simp: map_of_eq_None_iff)
    then show ?case using snoc by (auto simp: map_add_def split: option.split)
  qed simp
  show ?thesis
  proof (cases "m k")
    case None
    then have "k \<notin> vID ` set vs" using d(2) by auto
    then show ?thesis using None get [OF d(1)] by (auto simp: map_of_eq_None_iff)
  next
    case (Some ws)
    then obtain v where v: "v \<in> set vs" "vID v = k" using d(2) by (metis domI imageE)
    then have "vValues v = ToFloat64 ws" using assms Some by (metis option.inject vget_Inr vlists_def)
    moreover have "map_of (map (\<lambda>v. (vID v, vValues v)) vs) k = Some (vValues v)"
      using v d(1) by (intro map_of_is_SomeI) (auto simp: o_def)
    ultimately show ?thesis using Some get [OF d(1)] by simp
  qed
qed

lemma rec_fits_ToFloat64: "rec_fits k (ToFloat64 ws) = rec_fits k ws"
  by (simp add: rec_fits_def)

lemma payload_of_map:
  assumes "map_ok D m" and "gm_wf payload" and "gm_get payload = (\<lambda>k. map_option ToFloat64 (m k))"
  shows "payload_ok D payload" and "snap_map payload = m"
proof -
  obtain d where d: "0 < d" "\<And>k ws. m k = Some ws \<Longrightarrow> k \<noteq> [] \<and> length ws = d \<and> int d \<le> D \<and> rec_fits k ws \<and> list_all canon32 ws"
    using assms(1) unfolding map_ok_def by blast
  show "payload_ok D payload"
  proof (cases "m = Map.empty")
    case True
    then show ?thesis using assms(2,3) by (auto simp: payload_ok_def intro!: exI [of _ 1])
  next
    case False
    then have "int d \<le> D" using d(2) by (metis ext not_None_eq)
    then show ?thesis
      using assms(2,3) d by (auto simp: payload_ok_def rec_fits_ToFloat64 intro!: exI [of _ d])
  qed
  show "snap_map payload = m"
    using d(2) assms(3) by (auto simp: snap_map_def fun_eq_iff option.map_comp o_def intro!: option.map_ident_strong)
qed

text \<open>Saving a snapshot of the current map, with any outcome, and truncating the log after a saved one.\<close>

lemma dur_files_save:
  assumes "json_ok c" and "dur_files c D b m" and "map_ok D m" and "savable m" and "vlists m vs"
    and "SaveSnapshot c flt b vs = (e, b')"
  shows "dur_files c D b' m" and "wal_text b' = wal_text b"
    and "e = None \<Longrightarrow> \<exists>payload. LoadSnapshot c no_fault b' = Inr payload \<and> payload_ok D payload \<and> snap_map payload = m"
proof -
  note f = SaveSnapshot_facts [OF assms(1,6)]
  obtain ops payload where ops: "wal_text b = wal_image c ops" "list_all (op_ok c) ops" "LoadSnapshot c no_fault b = Inr payload"
    "payload_ok D payload" "foldl (map_op D) (snap_map payload) ops = m"
    using assms(2) unfolding dur_files_def by blast
  show t: "wal_text b' = wal_text b" using f by (simp add: wal_text_def)
  have new: "\<exists>payload. LoadSnapshot c no_fault b' = Inr payload \<and> payload_ok D payload \<and> snap_map payload = m" if "e = None"
  proof -
    have "\<forall>v \<in> set vs. utf8_valid (vID v)" using assms(4,5) unfolding savable_def vlists_def by (metis domD imageI list.set_map)
    then obtain pl where pl: "LoadSnapshot c no_fault b' = Inr pl" "gm_wf pl" "gm_get pl = gm_get (snapshot_payload vs)"
      using f \<open>e = None\<close> by auto
    moreover have "gm_get pl = (\<lambda>k. map_option ToFloat64 (m k))" using pl(3) snapshot_payload_vlists [OF assms(5)] by auto
    ultimately show ?thesis using payload_of_map [OF assms(3)] by blast
  qed
  then show "e = None \<Longrightarrow> \<exists>payload. LoadSnapshot c no_fault b' = Inr payload \<and> payload_ok D payload \<and> snap_map payload = m" .
  show "dur_files c D b' m"
  proof (cases e)
    case (Some x)
    then have "swSnapshot b' = swSnapshot b" using f by simp
    then have "LoadSnapshot c no_fault b' = Inr payload" using LoadSnapshot_cong ops(3) by metis
    then show ?thesis using ops t unfolding dur_files_def by auto
  next
    case None
    then obtain pl where pl: "LoadSnapshot c no_fault b' = Inr pl" "payload_ok D pl" "snap_map pl = m" using new by blast
    have "foldl (map_op D) (snap_map pl) ops = m" using map_ops_idem [of D "snap_map payload" ops] ops(5) pl(3) by simp
    then show ?thesis using pl ops t unfolding dur_files_def by auto
  qed
qed

lemma dur_files_truncate:
  assumes "LoadSnapshot c no_fault b = Inr payload" and "payload_ok D payload" and "dur_files c D b (snap_map payload)"
    and "TruncateWAL flt b = (e, b')"
  shows "dur_files c D b' (snap_map payload)"
proof -
  have "b' = b \<or> wal_text b' = [] \<and> swSnapshot b' = swSnapshot b"
    using assms(4) by (auto simp: TruncateWAL_def wal_text_def split: option.splits)
  moreover have "dur_files c D b' (snap_map payload)" if "wal_text b' = []" "swSnapshot b' = swSnapshot b"
    using that assms(1,2) LoadSnapshot_cong [OF that(2), of c no_fault] unfolding dur_files_def
    by (intro exI [of _ "[]"] exI [of _ payload]) simp
  ultimately show ?thesis using assms(3) by blast
qed

lemma dur_files_sync:
  assumes "dur_files c D b m" and "Backend_Sync flt b = (e, b')"
  shows "dur_files c D b' m"
proof -
  have "wal_text b' = wal_text b" "swSnapshot b' = swSnapshot b"
    using assms(2) by (auto simp: Backend_Sync_def wal_text_def split: if_splits option.splits)
  then show ?thesis using assms(1) LoadSnapshot_cong [of b' b c no_fault] by (simp add: dur_files_def)
qed

section \<open>Writes keep the files in step\<close>

definition dur :: "'t storeEnv \<Rightarrow> jsonCodec \<Rightarrow> int \<Rightarrow> 't anyStore service \<Rightarrow> bool" where
  "dur senv c D s \<longleftrightarrow> svMaxVectorDim s = D \<and> svc_inv (any_inv senv) any_abs s \<and> \<not> any_persistent (svStore s) \<and> savable (any_abs (svStore s)) \<and>
     dur_files c D (svPersistence s) (any_abs (svStore s))"

text \<open>Vectors the backend can log and save.\<close>

definition vec_ok :: "jsonCodec \<Rightarrow> vector \<Rightarrow> bool" where
  "vec_ok c v \<longleftrightarrow> op_ok c (upsert_op v) \<and> list_all finite64 (ToFloat64 (ToFloat32 (vValues v)))"

lemma svc_map_ok:
  assumes "svc_inv (any_inv senv) any_abs s"
  shows "map_ok (svMaxVectorDim s) (any_abs (svStore s))"
proof -
  let ?m = "any_abs (svStore s)" and ?d = "if anDim (svAnn s) = 0 then 1 else anDim (svAnn s)"
  have i: "any_inv senv (svStore s)" "ann_holds (svResolver s) (svAnn s) ?m"
    "\<And>k ws. ?m k = Some ws \<Longrightarrow> k \<noteq> [] \<and> int (length ws) \<le> svMaxVectorDim s"
    using assms by (simp_all add: svc_inv_def)
  have "k \<noteq> [] \<and> length ws = ?d \<and> int ?d \<le> svMaxVectorDim s \<and> rec_fits k ws \<and> list_all canon32 ws" if "?m k = Some ws" for k ws
    using i(1) i(3) [OF that] ann_holds_dims [OF i(2) that] any_st.canon [OF i(1) that] that
    by (simp add: any_inv_def fits_map_def)
  then show ?thesis unfolding map_ok_def by (intro exI [of _ ?d]) simp
qed

lemma maybeSnapshot_dur:
  assumes "seStore env = any_ops senv no_fault now" and "seCodec env = c" and "json_ok c" and "dur senv c D s"
    and "maybeSnapshot env s = (e, s')"
  shows "dur senv c D s'"
proof -
  let ?m = "any_abs (svStore s)" and ?D = "svMaxVectorDim s"
  have d: "svc_inv (any_inv senv) any_abs s" "\<not> any_persistent (svStore s)" "savable ?m" "dur_files c ?D (svPersistence s) ?m" "?D = D"
    using assms(4) by (auto simp: dur_def)
  have eq: "s' = s\<lparr>svPersistence := svPersistence s', svPersistOps := svPersistOps s'\<rparr>" using assms(5) by (rule maybeSnapshot_frame)
  have np: "usesPersistentVectorStore env x \<longleftrightarrow> any_persistent (svStore x)" for x using any_svc.uses_persistent [OF assms(1)] .
  define vs where "vs = stListVectors (seStore env) (svStore s)"
  have vl: "vlists ?m vs"
    using any_st.listv [of senv "svStore s"] d(1) assms(1) by (simp add: vs_def svc_inv_def any_ops_def)
  obtain e1 b1 where sy: "Backend_Sync (seFault env) (svPersistence s) = (e1, b1)" by force
  obtain e2 b2 where sv: "SaveSnapshot c (seFault env) b1 vs = (e2, b2)" by force
  obtain e3 b3 where tr: "TruncateWAL (seFault env) b2 = (e3, b3)" by force
  have f1: "dur_files c ?D b1 ?m" using dur_files_sync [OF d(4) sy] .
  note save = dur_files_save [OF assms(3) f1 svc_map_ok [OF d(1)] d(3) vl sv]
  have f3: "dur_files c ?D b3 ?m" if "e2 = None"
    using save(3) [OF that] save(1) dur_files_truncate [OF _ _ _ tr] by metis
  have "svPersistence s' \<in> {svPersistence s, b1, b2, b3} \<and> (svPersistence s' = b3 \<longrightarrow> e2 = None \<or> b3 \<in> {svPersistence s, b1, b2})"
    using assms(2,5) sy sv tr d(2)
    by (auto simp: maybeSnapshot_def np syncPersistence_def saveSnapshot_def truncateWAL_def vs_def Let_def split: if_splits option.splits)
  then have "dur_files c ?D (svPersistence s') ?m" using d(4) f1 save(1) f3 by auto
  moreover have "svStore s' = svStore s" "svMaxVectorDim s' = ?D" by (subst eq, simp)+
  ultimately show ?thesis using d maybeSnapshot_keeps [OF d(1) assms(5)] by (simp add: dur_def)
qed

lemma foldl_map_op_upsert:
  assumes "\<forall>v \<in> set vs. vID v \<noteq> [] \<and> vValues v \<noteq> [] \<and> int (length (vValues v)) \<le> D"
  shows "foldl (map_op D) m (map upsert_op vs) = foldl vput m vs"
  using assms by (induction vs arbitrary: m) (simp_all add: map_op_def upsert_op_def vput_def)

lemma savable_foldl: "savable m \<Longrightarrow> \<forall>v \<in> set vs. vec_ok c v \<Longrightarrow> savable (foldl vput m vs)"
proof (induction vs arbitrary: m)
  case (Cons v vs)
  then have "utf8_valid (vID v)" "list_all finite64 (ToFloat64 (ToFloat32 (vValues v)))"
    by (simp_all add: vec_ok_def op_ok_def loggable_def upsert_op_def)
  with Cons.prems(1) have "savable (vput m v)" by (simp add: savable_def)
  then show ?case using Cons by (simp del: vput_apply)
qed simp

lemma any_next_dur:
  assumes "any_svc.sv_next senv s m p s'" and "\<not> any_persistent (svStore s)" and "savable m" and "dur_files c D p m"
    and "svMaxVectorDim s = D"
  shows "dur senv c D s'"
proof -
  have "svMaxVectorDim s' = svMaxVectorDim s" "any_persistent (svStore s') = any_persistent (svStore s)" "svPersistence s' = p"
    using assms(1) by (simp_all add: any_svc.sv_next_def svc_frame_def)
  then show ?thesis using any_next [OF assms(1)] assms(2-) by (simp add: dur_def)
qed

text \<open>The log as the service appends to it.\<close>

lemma appendWALBatch_files:
  assumes "seStore env = any_ops senv no_fault now" and "seCodec env = c" and "dur senv c D s"
    and "appendWALBatch env s ops = (None, sw)" and "list_all (op_ok c) ops"
  shows "dur_files c D (svPersistence sw) (foldl (map_op D) (any_abs (svStore s)) ops)"
proof (cases "ops = []")
  case True
  then show ?thesis using assms(3,4) by (simp add: appendWALBatch_def dur_def)
next
  case False
  obtain e b where a: "AppendWALBatch c (seFault env) (svPersistence s) ops = (e, b)" by force
  have "\<not> usesPersistentVectorStore env s" using any_svc.uses_persistent [OF assms(1)] assms(3) by (simp add: dur_def)
  then have "e = None" "svPersistence sw = b" using assms(2,4) False a by (auto simp: appendWALBatch_def)
  moreover have "dur_files c D (svPersistence s) (any_abs (svStore s))" using assms(3) by (simp add: dur_def)
  ultimately show ?thesis using dur_files_append [OF _ _ assms(5)] a by simp
qed

lemma AddVectors_dur:
  assumes env: "seStore env = any_ops senv no_fault now" "iter_ok (seIter env)" "seCodec env = c" "json_ok c" and s: "dur senv c D s"
    and vs: "\<forall>v \<in> set vecs. vec_ok c v" and add: "AddVectors env s vecs = Some (e, s')"
    and logged: "add_error s vecs = None \<Longrightarrow> fst (appendWALBatch env s (map upsert_op vecs)) = None"
  shows "dur senv c D s'"
proof -
  have inv: "svc_inv (any_inv senv) any_abs s" "\<not> any_persistent (svStore s)" "savable (any_abs (svStore s))"
    "dur_files c D (svPersistence s) (any_abs (svStore s))" "svMaxVectorDim s = D"
    using s by (simp_all add: dur_def)
  have fits: "\<forall>v \<in> set vecs. fits v" using vs by (simp add: vec_ok_def op_ok_def upsert_op_def)
  note m = svc_inv_map [OF inv(1)]
  show ?thesis
  proof (cases "add_error s vecs")
    case (Some x)
    then have "any_svc.sv_next senv s (any_abs (svStore s)) (svPersistence s) s'"
      using any_svc.AddVectors_rejected [OF env(1,2) inv(1) fits Some] add m by auto
    then show ?thesis using any_next_dur inv by blast
  next
    case None
    then obtain sw where w: "appendWALBatch env s (map upsert_op vecs) = (None, sw)" using logged by (metis prod.collapse)
    obtain s1 where s1: "AddVectors env s vecs = Some (maybeSnapshot env s1)"
      "any_svc.sv_next senv s (foldl vput (any_abs (svStore s)) vecs) (svPersistence sw) s1"
      using any_svc.AddVectors_logged [OF env(1,2) inv(1) fits None w] m by auto
    have "\<forall>v \<in> set vecs. check_vector s v = None"
      using None batch_error_None [of s "dom (ix_abs (svIndex s))" vecs] by (simp add: add_error_def split: if_splits option.splits)
    then have "\<forall>v \<in> set vecs. vID v \<noteq> [] \<and> vValues v \<noteq> [] \<and> int (length (vValues v)) \<le> D"
      using any_svc.check_vector_None inv(5) by blast
    moreover have "list_all (op_ok c) (map upsert_op vecs)" using vs by (simp add: list_all_iff vec_ok_def)
    ultimately have "dur_files c D (svPersistence sw) (foldl vput (any_abs (svStore s)) vecs)"
      using appendWALBatch_files [OF env(1,3) s w] foldl_map_op_upsert by metis
    then have "dur senv c D s1" using any_next_dur [OF s1(2) inv(2)] savable_foldl [OF inv(3) vs] inv(5) by blast
    then show ?thesis using maybeSnapshot_dur [OF env(1,3,4)] s1(1) add by (metis option.inject)
  qed
qed

lemma DeleteVector_dur:
  assumes env: "seStore env = any_ops senv no_fault now" "iter_ok (seIter env)" "seCodec env = c" "json_ok c" and s: "dur senv c D s"
    and short: "short_line c (delete_op vid)" and del: "DeleteVector env s vid = Some (e, s')"
    and logged: "delete_error s vid = None \<Longrightarrow> fst (appendWAL env s (delete_op vid)) = None"
  shows "dur senv c D s'"
proof -
  let ?m = "any_abs (svStore s)"
  have inv: "svc_inv (any_inv senv) any_abs s" "\<not> any_persistent (svStore s)" "savable ?m"
    "dur_files c D (svPersistence s) ?m" "svMaxVectorDim s = D"
    using s by (simp_all add: dur_def)
  note m = svc_inv_map [OF inv(1)]
  show ?thesis
  proof (cases "delete_error s vid")
    case (Some x)
    then have "any_svc.sv_next senv s ?m (svPersistence s) s'"
      using any_svc.DeleteVector_rejected [OF env(1) inv(1) Some] del m by auto
    then show ?thesis using any_next_dur inv by blast
  next
    case None
    then obtain sw where w: "appendWAL env s (delete_op vid) = (None, sw)" using logged by (metis prod.collapse)
    obtain s1 where s1: "DeleteVector env s vid = Some (maybeSnapshot env s1)" "any_svc.sv_next senv s (?m(vid := None)) (svPersistence sw) s1"
      using any_svc.DeleteVector_logged [OF env(1,2) inv(1) None w] m by auto
    have ne: "vid \<noteq> []" using None by (auto simp: delete_error_def)
    obtain ws where ws: "?m vid = Some ws" using None m by (auto simp: delete_error_def split: if_splits)
    have "rec_fits vid ws" using inv(1) ws by (simp add: svc_inv_def any_inv_def fits_map_def)
    then have "op_ok c (delete_op vid)"
      using short inv(3) ws by (auto simp: op_ok_def loggable_def savable_def delete_op_def rec_fits_def in_range_def)
    then have "dur_files c D (svPersistence sw) (?m(vid := None))"
      using appendWALBatch_files [OF env(1,3) s w [unfolded appendWAL_def]] ne by (simp add: map_op_def delete_op_def)
    moreover have "savable (?m(vid := None))" using inv(3) by (simp add: savable_def)
    ultimately have "dur senv c D s1" using any_next_dur [OF s1(2) inv(2)] inv(5) by blast
    then show ?thesis using maybeSnapshot_dur [OF env(1,3,4)] s1(1) del by (metis option.inject)
  qed
qed

section \<open>Restarting\<close>

lemma ReplayWAL_image:
  assumes "json_ok c" and "list_all (op_ok c) ops" and "wal_text b = wal_image c ops"
  shows "ReplayWAL c no_fault b apply s = apply_ops apply s ops"
proof -
  have ok: "\<forall>op \<in> set ops. loggable op \<and> short_line c op" "\<forall>op \<in> set ops. list_all finite64 (wValues op)"
    using assms(2) by (auto simp: list_all_iff op_ok_def loggable_def)
  have "replay_lines c apply s (scan_lines (wal_text b)) = apply_ops apply s ops"
    using scan_lines_image [OF assms(1) ok(2), of "[]"] replay_lines_image [OF assms(1) ok(1), of "apply" s "[]"] assms(3)
    by (auto simp: scan_lines.simps [of "[]"] split: prod.split)
  then show ?thesis
    by (cases "swWAL b") (simp_all add: ReplayWAL_def no_fault_def wal_text_def scan_lines.simps [of "[]"])
qed

context service_store
begin

lemma load_entries_ok:
  assumes "seStore env = st" and "sv_inv s" and "distinct (map fst es)" and "fst ` set es \<inter> dom (ix_abs (svIndex s)) = {}"
    and "\<forall>(k, vals) \<in> set es. storable s k vals \<and> length vals = d \<and> okv \<lparr>vID = k, vValues = vals\<rparr>"
    and "anDim (svAnn s) = 0 \<or> anDim (svAnn s) = d"
  shows "\<exists>s'. load_entries env s es = Some (None, s') \<and>
    sv_next s (foldl vput (ix_abs (svIndex s)) (map (\<lambda>(k, vals). \<lparr>vID = k, vValues = vals\<rparr>) es)) (svPersistence s) s'"
  using assms(2-)
proof (induction es arbitrary: s)
  case Nil
  then show ?case using sv_next_refl by simp
next
  case (Cons p es)
  obtain k vals where p: "p = (k, vals)" by force
  let ?m = "ix_abs (svIndex s)" and ?v = "\<lparr>vID = k, vValues = vals\<rparr>"
  have wf: "ix_wf (svIndex s)" "inv (svStore s)" "abs (svStore s) = ?m" "ann_holds (svResolver s) (svAnn s) ?m"
    using Cons.prems(1) by (simp_all add: svc_inv_def)
  have st': "storable s k vals" "length vals = d" "okv ?v" using Cons.prems(4) p by auto
  obtain e v where u: "upsert (svStore s) [?v] = (e, v)" by force
  have v: "inv v" "e = None" "abs v = vput ?m ?v" "persistent v = persistent (svStore s)"
    using vs.upsert [OF wf(2) _ u] wf(3) st'(3) persist_upsert [OF wf(2), of "[?v]"] u by (simp_all del: vput_apply)
  obtain e' i where ai: "Index_AddVector (svIndex s) ?v = (e', i)" by force
  have i: "e' = None" "ix_abs i = vput ?m ?v" "ix_wf i"
    using ix_abs_Add [OF ai] ix_wf_Add [OF wf(1), of ?v] ai Cons.prems(3) p by (auto simp: vput_def)
  obtain n r where as: "Assign (svResolver s) k = (n, r)" by force
  obtain a ws where a: "Ann_AddVector (seIntn env) (svAnn s) newWorkspace n vals = Some (None, a, ws)" "ann_holds r a (vput ?m ?v)" "anDim a = d"
    using ann_holds_Add [OF wf(4), of ?v n r "seIntn env"] as st'(1,2) Cons.prems(5) by (auto simp: storable_def)
  let ?s = "s\<lparr>svStore := v, svIndex := i, svResolver := r, svAnn := a\<rparr>"
  have bound: "k \<noteq> [] \<and> int (length vals) \<le> svMaxVectorDim s" using st'(1) by (auto simp: storable_def)
  have "sv_inv ?s"
    using Cons.prems(1) v(1,3) i(2,3) a(2) bound unfolding svc_inv_def by simp
  moreover have "load_entries env s (p # es) = load_entries env ?s es"
    using p st'(1) assms(1) u v(2) ai i(1) as a(1) by (simp add: upsert_one addANNVector_def)
  moreover have "\<forall>(k, vals) \<in> set es. storable ?s k vals \<and> length vals = d \<and> okv \<lparr>vID = k, vValues = vals\<rparr>"
    using Cons.prems(4) by (auto simp: storable_def)
  moreover have "fst ` set es \<inter> dom (ix_abs (svIndex ?s)) = {}"
    using Cons.prems(2,3) p by (auto simp: i(2) vput_def)
  ultimately obtain s' where s': "load_entries env s (p # es) = Some (None, s')"
    "sv_next ?s (foldl vput (ix_abs i) (map (\<lambda>(k, vals). \<lparr>vID = k, vValues = vals\<rparr>) es)) (svPersistence ?s) s'"
    using Cons.IH [of ?s] Cons.prems(2) a(3) by (auto simp del: vput_apply)
  then have "sv_next s (foldl vput (ix_abs i) (map (\<lambda>(k, vals). \<lparr>vID = k, vValues = vals\<rparr>) es)) (svPersistence s) s'"
    using v(4) by (simp add: sv_next_def svc_frame_def)
  then show ?case using s'(1) i(2) p by (simp del: vput_apply)
qed

text \<open>Replaying an operation changes store and index alike.\<close>

lemma replay_upsert_ok:
  assumes "seStore env = st" and "inv (svStore s)" and "ix_wf (svIndex s)" and "abs (svStore s) = ix_abs (svIndex s)"
    and "okv \<lparr>vID = wID op, vValues = wValues op\<rparr>" and True: "wOp op = ''upsert'' \<and> storable s (wID op) (wValues op)"
  shows "\<exists>e v i. replay_op env s op = (e, s\<lparr>svStore := v, svIndex := i\<rparr>) \<and> (e = None \<or> e = Some ErrSkipWALOp) \<and> inv v \<and> ix_wf i \<and>
    abs v = map_op (svMaxVectorDim s) (ix_abs (svIndex s)) op \<and> ix_abs i = map_op (svMaxVectorDim s) (ix_abs (svIndex s)) op \<and>
    persistent v = persistent (svStore s)"
proof -
  let ?m = "ix_abs (svIndex s)" and ?v = "\<lparr>vID = wID op, vValues = wValues op\<rparr>"
  have mo: "map_op (svMaxVectorDim s) ?m op = vput ?m ?v" using True by (auto simp: map_op_def storable_def vput_def)
  obtain e v where u: "upsert (svStore s) [?v] = (e, v)" by force
  have v: "inv v" "e = None" "abs v = vput ?m ?v" "persistent v = persistent (svStore s)"
    using vs.upsert [OF assms(2) _ u] assms(4,5) persist_upsert [OF assms(2), of "[?v]"] u by (simp_all del: vput_apply)
  obtain e2 v2 where u2: "upsert v [?v] = (e2, v2)" by force
  have v2: "inv v2" "abs v2 = vput ?m ?v" "persistent v2 = persistent (svStore s)"
    using vs.upsert [OF v(1) _ u2] v(3,4) assms(5) persist_upsert [OF v(1), of "[?v]"] u2 by (auto simp: vput_def)
  obtain e' i where ai: "Index_AddVector (svIndex s) ?v = (e', i)" by force
  show ?thesis
  proof (cases "wID op \<in> dom ?m")
    case False
    then have "e' = None" "ix_abs i = vput ?m ?v" "ix_wf i"
      using ix_abs_Add [OF ai] ix_wf_Add [OF assms(3), of ?v] ai by (auto simp: vput_def)
    then show ?thesis
      using True assms(1) u v ai mo by (intro exI [of _ None] exI [of _ v] exI [of _ i]) (simp add: replay_op_def upsert_one)
  next
    case in_m: True
    then have ei: "e' = Some ErrVectorExists" "i = svIndex s" using ix_abs_Add [OF ai] by auto
    obtain e3 i3 where di: "Index_DeleteVector (svIndex s) (wID op) = (e3, i3)" by force
    obtain e4 i4 where ai4: "Index_AddVector i3 ?v = (e4, i4)" by force
    have i4: "ix_wf i4" "ix_abs i4 = vput ?m ?v"
      using ix_wf_Delete [OF assms(3), of "wID op"] di ix_wf_Add [of i3 ?v] ai4 ix_abs_Delete [OF di] ix_abs_Add [OF ai4]
      by (auto simp: vput_def)
    then show ?thesis
      using True assms(1) u v(2) u2 v2 ai ei di ai4 mo
      by (intro exI [of _ None] exI [of _ v2] exI [of _ i4]) (simp add: replay_op_def upsert_one)
  qed
qed

lemma replay_op_ok:
  assumes "seStore env = st" and "inv (svStore s)" and "ix_wf (svIndex s)" and "abs (svStore s) = ix_abs (svIndex s)"
    and "okv \<lparr>vID = wID op, vValues = wValues op\<rparr>"
  shows "\<exists>e v i. replay_op env s op = (e, s\<lparr>svStore := v, svIndex := i\<rparr>) \<and> (e = None \<or> e = Some ErrSkipWALOp) \<and> inv v \<and> ix_wf i \<and>
    abs v = map_op (svMaxVectorDim s) (ix_abs (svIndex s)) op \<and> ix_abs i = map_op (svMaxVectorDim s) (ix_abs (svIndex s)) op \<and>
    persistent v = persistent (svStore s)"
proof (cases "wOp op = ''upsert'' \<and> storable s (wID op) (wValues op)")
  case True
  then show ?thesis using replay_upsert_ok [OF assms] by blast
next
  case False
  have same: "\<exists>v i. s = s\<lparr>svStore := v, svIndex := i\<rparr> \<and> inv v \<and> ix_wf i \<and> abs v = ix_abs (svIndex s) \<and> ix_abs i = ix_abs (svIndex s) \<and>
      persistent v = persistent (svStore s)"
    using assms(2-4) by (intro exI [of _ "svStore s"] exI [of _ "svIndex s"]) simp
  show ?thesis
  proof (cases "wOp op = ''delete'' \<and> wID op \<noteq> []")
    case True
    obtain v i where r: "remove_ids env s [wID op] = s\<lparr>svStore := v, svIndex := i\<rparr>" "inv v" "ix_wf i"
      "abs v = abs (svStore s) |` (- {wID op})" "ix_abs i = ix_abs (svIndex s) |` (- {wID op})" "persistent v = persistent (svStore s)"
      using remove_ids_ok [OF assms(1-3), of "[wID op]"] by auto
    have "m |` (- {k}) = m(k := None)" for m :: "string \<rightharpoonup> 'x" and k by (auto simp: restrict_map_def fun_eq_iff)
    then have "abs v = (ix_abs (svIndex s))(wID op := None)" "ix_abs i = (ix_abs (svIndex s))(wID op := None)" using r(4,5) assms(4) by auto
    then show ?thesis
      using True r(2,3,6) by (intro exI [of _ None] exI [of _ v] exI [of _ i]) (simp add: replay_op_def map_op_def r(1) del: remove_ids.simps)
  next
    case no: False
    then have "fst (replay_op env s op) \<in> {None, Some ErrSkipWALOp}" "snd (replay_op env s op) = s"
      "map_op (svMaxVectorDim s) (ix_abs (svIndex s)) op = ix_abs (svIndex s)"
      using False by (auto simp: replay_op_def map_op_def storable_def)
    then show ?thesis using same by (metis empty_iff insert_iff prod.collapse)
  qed
qed

lemma replay_ops_ok:
  assumes "seStore env = st" and "inv (svStore s)" and "ix_wf (svIndex s)" and "abs (svStore s) = ix_abs (svIndex s)"
    and "\<forall>op \<in> set ops. okv \<lparr>vID = wID op, vValues = wValues op\<rparr>"
  shows "\<exists>v i. apply_ops (replay_op env) s ops = (None, s\<lparr>svStore := v, svIndex := i\<rparr>) \<and> inv v \<and> ix_wf i \<and>
    abs v = foldl (map_op (svMaxVectorDim s)) (ix_abs (svIndex s)) ops \<and>
    ix_abs i = foldl (map_op (svMaxVectorDim s)) (ix_abs (svIndex s)) ops \<and> persistent v = persistent (svStore s)"
  using assms(2-)
proof (induction ops arbitrary: s)
  case Nil
  then show ?case by (intro exI [of _ "svStore s"] exI [of _ "svIndex s"]) simp
next
  case (Cons op ops)
  let ?m = "map_op (svMaxVectorDim s) (ix_abs (svIndex s)) op"
  obtain e v i where r: "replay_op env s op = (e, s\<lparr>svStore := v, svIndex := i\<rparr>)" "e = None \<or> e = Some ErrSkipWALOp" "inv v" "ix_wf i"
    "abs v = ?m" "ix_abs i = ?m" "persistent v = persistent (svStore s)"
    using replay_op_ok [OF assms(1) Cons.prems(1-3), of op] Cons.prems(4) by auto
  let ?s = "s\<lparr>svStore := v, svIndex := i\<rparr>"
  have sel: "svStore ?s = v" "svIndex ?s = i" "svMaxVectorDim ?s = svMaxVectorDim s" by simp_all
  obtain v' i' where "apply_ops (replay_op env) ?s ops = (None, ?s\<lparr>svStore := v', svIndex := i'\<rparr>)" "inv v'" "ix_wf i'"
    "abs v' = foldl (map_op (svMaxVectorDim s)) ?m ops" "ix_abs i' = foldl (map_op (svMaxVectorDim s)) ?m ops" "persistent v' = persistent v"
    using Cons.IH [of ?s, unfolded sel] r(3-6) Cons.prems(4) by auto
  then show ?case using r(1,2,7) by (intro exI [of _ v'] exI [of _ i']) auto
qed

end

lemma snapshot_payload_wf: "gm_wf (snapshot_payload vs)"
  unfolding snapshot_payload_def by (induction vs rule: rev_induct) auto

lemma SaveSnapshot_succeeds:
  assumes "json_ok c" and "savable m" and "vlists m vs"
  shows "\<exists>b'. SaveSnapshot c no_fault b vs = (None, b')"
proof -
  have "list_all (\<lambda>(_, v). list_all finite64 v) (snapshot_payload vs)"
  proof (clarsimp simp: list_all_iff)
    fix k v x assume "(k, v) \<in> set (snapshot_payload vs)" and x: "x \<in> set v"
    then have "gm_get (snapshot_payload vs) k = Some v" using snapshot_payload_wf by (simp add: gm_get_def gm_wf_def)
    then obtain ws where "m k = Some ws" "v = ToFloat64 ws" using snapshot_payload_vlists [OF assms(3), of k] by auto
    then show "finite64 x" using assms(2) x by (auto simp: savable_def list_all_iff)
  qed
  then obtain data where "jMarshalMap c (snapshot_payload vs) = Some data" using assms(1) unfolding json_ok_def by blast
  then show ?thesis by (simp add: SaveSnapshot_def no_fault_def)
qed

lemma foldl_snap_map:
  assumes "gm_wf payload" and "iter_ok iter"
  shows "foldl vput Map.empty (map (\<lambda>(k, vals). \<lparr>vID = k, vValues = vals\<rparr>) (gm_range iter payload)) = snap_map payload"
proof
  fix k
  let ?vs = "map (\<lambda>(k, vals). \<lparr>vID = k, vValues = vals\<rparr>) (gm_range iter payload)"
  have ids: "map vID ?vs = iter (gm_keys payload)" by (simp add: o_def split_beta flip: gm_range_fst)
  then have d: "distinct (map vID ?vs)" using assms by simp
  have mo: "map (\<lambda>v. (vID v, ToFloat32 (vValues v))) ?vs = map (\<lambda>(k, vals). (k, ToFloat32 vals)) (gm_range iter payload)"
    by (simp add: o_def split_beta)
  have "map_of (map (\<lambda>(k, vals). (k, ToFloat32 vals)) xs) k = map_option ToFloat32 (map_of xs k)" for xs :: "(string \<times> float64 list) list"
    by (induction xs) auto
  moreover have "map_of (gm_range iter payload) k = gm_get payload k"
  proof (cases "gm_get payload k")
    case None
    then show ?thesis using assms(2) gm_range_mem [of iter k _ payload] by (auto simp: map_of_eq_None_iff)
  next
    case (Some v)
    have "distinct (map fst (gm_range iter payload))" using assms by simp
    then show ?thesis using Some assms(2) by (intro trans [OF map_of_is_SomeI]) (simp_all add: gm_range_mem)
  qed
  ultimately show "foldl vput Map.empty ?vs k = snap_map payload k"
    unfolding foldl_vput_entries [OF d] mo by (simp add: snap_map_def split: option.split)
qed

text \<open>Loading the snapshot and replaying the log gives a service that holds the map the files stand for.\<close>

lemma restore_loads:
  assumes env: "seStore env = any_ops senv no_fault now" "iter_ok (seIter env)" "seFault env = no_fault" "seCodec env = c" "json_ok c"
    and s: "svc_inv (any_inv senv) any_abs s" "any_abs (svStore s) = Map.empty" "anDim (svAnn s) = 0"
    and f: "LoadSnapshot c no_fault (svPersistence s) = Inr payload" "payload_ok (svMaxVectorDim s) payload"
  shows "\<exists>s1. loadSnapshot env s = Some (None, s1) \<and> any_svc.sv_next senv s (snap_map payload) (svPersistence s) s1"
proof -
  obtain d where d: "gm_wf payload" "0 < d"
    "\<And>k vals. gm_get payload k = Some vals \<Longrightarrow> k \<noteq> [] \<and> length vals = d \<and> int d \<le> svMaxVectorDim s \<and> rec_fits k vals"
    using f(2) unfolding payload_ok_def by blast
  let ?es = "gm_range (seIter env) payload"
  have "storable s k vals \<and> length vals = d \<and> fits \<lparr>vID = k, vValues = vals\<rparr>" if "gm_get payload k = Some vals" for k vals
    using d(3) [OF that] d(2) by (auto simp: storable_def)
  then have "\<forall>(k, vals) \<in> set ?es. storable s k vals \<and> length vals = d \<and> fits \<lparr>vID = k, vValues = vals\<rparr>"
    using env(2) by (auto simp: gm_range_mem)
  moreover have "distinct (map fst ?es)" using d(1) env(2) by simp
  ultimately obtain s1 where "load_entries env s ?es = Some (None, s1)" "any_svc.sv_next senv s (snap_map payload) (svPersistence s) s1"
    using any_svc.load_entries_ok [OF env(1) s(1), of ?es d] s(2,3) foldl_snap_map [OF d(1) env(2)] svc_inv_map [OF s(1)]
    by (auto simp del: vput_apply)
  then show ?thesis using f(1) env(3,4) by (simp add: loadSnapshot_def)
qed

lemma restore_replays:
  assumes env: "seStore env = any_ops senv no_fault now" "iter_ok (seIter env)" "seFault env = no_fault" "seCodec env = c" "json_ok c"
    and s: "svc_inv (any_inv senv) any_abs s" "any_abs (svStore s) = m0"
    and f: "wal_text (svPersistence s) = wal_image c ops" "list_all (op_ok c) ops"
    and m: "m = foldl (map_op (svMaxVectorDim s)) m0 ops" "map_ok (svMaxVectorDim s) m"
  shows "\<exists>s'. replayWAL env s = Some (None, s') \<and> any_svc.sv_next senv s m (svPersistence s) s'"
proof -
  let ?D = "svMaxVectorDim s"
  have s1: "any_inv senv (svStore s)" "ix_wf (svIndex s)" "any_abs (svStore s) = ix_abs (svIndex s)" "res_wf (svResolver s)"
    using s(1) by (simp_all add: svc_inv_def ann_holds_def)
  have "\<forall>op \<in> set ops. fits \<lparr>vID = wID op, vValues = wValues op\<rparr>" using f(2) by (simp add: list_all_iff op_ok_def)
  from any_svc.replay_ops_ok [OF env(1) s1(1-3) this] obtain v i where
    r: "apply_ops (replay_op env) s ops = (None, s\<lparr>svStore := v, svIndex := i\<rparr>)" "any_inv senv v" "ix_wf i" "any_abs v = m" "ix_abs i = m"
      "any_persistent v = any_persistent (svStore s)"
    using s1(3) s(2) m(1) by auto
  let ?s = "s\<lparr>svStore := v, svIndex := i\<rparr>"
  obtain d where d: "0 < d" "\<And>k ws. m k = Some ws \<Longrightarrow> k \<noteq> [] \<and> length ws = d \<and> int d \<le> ?D \<and> rec_fits k ws \<and> list_all canon32 ws"
    using m(2) unfolding map_ok_def by blast
  obtain r' a where b: "rebuildANNLocked env ?s = Some (?s\<lparr>svResolver := r', svAnn := a\<rparr>)" "ann_holds r' a m"
    using rebuildANNLocked_ok [of ?s env d] r(3,5) env(2) s1(4) d by auto
  let ?s' = "?s\<lparr>svResolver := r', svAnn := a\<rparr>"
  have "k \<noteq> [] \<and> int (length ws) \<le> ?D" if "m k = Some ws" for k ws using d(2) [OF that] by simp
  then have "svc_inv (any_inv senv) any_abs ?s'" using r(2-5) b(2) by (simp add: svc_inv_def)
  then have "any_svc.sv_next senv s m (svPersistence s) ?s'" using r(5,6) by (simp add: any_svc.sv_next_def svc_frame_def)
  moreover have "replayWAL env s = Some (None, ?s')"
    using ReplayWAL_image [OF env(5) f(2,1), of "replay_op env" s] r(1) b(1) env(3,4) by (simp add: replayWAL_def)
  ultimately show ?thesis by blast
qed

text \<open>A new process on the files finds the map they stand for, and leaves files that stand for it.\<close>

lemma restoreState_ok:
  assumes env: "seStore env = any_ops senv no_fault now" "iter_ok (seIter env)" "seFault env = no_fault" "seCodec env = c" "json_ok c"
    and s: "svc_inv (any_inv senv) any_abs s" "any_abs (svStore s) = Map.empty" "anDim (svAnn s) = 0" "\<not> any_persistent (svStore s)"
    and f: "dur_files c (svMaxVectorDim s) (svPersistence s) m" "map_ok (svMaxVectorDim s) m" "savable m"
  shows "\<exists>s'. restoreState env s = Some (None, s') \<and> dur senv c (svMaxVectorDim s) s' \<and> any_abs (svStore s') = m"
proof -
  let ?D = "svMaxVectorDim s"
  obtain ops payload where ops: "wal_text (svPersistence s) = wal_image c ops" "list_all (op_ok c) ops"
    "LoadSnapshot c no_fault (svPersistence s) = Inr payload" "payload_ok ?D payload" "foldl (map_op ?D) (snap_map payload) ops = m"
    using f(1) unfolding dur_files_def by blast
  have np: "usesPersistentVectorStore env x \<longleftrightarrow> any_persistent (svStore x)" for x using any_svc.uses_persistent [OF env(1)] .
  obtain s1 where s1: "loadSnapshot env s = Some (None, s1)" "any_svc.sv_next senv s (snap_map payload) (svPersistence s) s1"
    using restore_loads [OF env s(1-3) ops(3,4)] by blast
  have f1: "svc_frame s s1" "svPersistence s1 = svPersistence s" "any_persistent (svStore s1) = any_persistent (svStore s)"
    using s1(2) by (simp_all add: any_svc.sv_next_def)
  then have D: "svMaxVectorDim s1 = ?D" by (simp add: svc_frame_def)
  obtain s2 where s2: "replayWAL env s1 = Some (None, s2)" "any_svc.sv_next senv s1 m (svPersistence s1) s2"
    using restore_replays [OF env any_next [OF s1(2)], of ops m] ops f(2) f1(2) D by auto
  have f2: "svc_frame s1 s2" "svPersistence s2 = svPersistence s" "\<not> any_persistent (svStore s2)"
    using s2(2) f1 s(4) by (simp_all add: any_svc.sv_next_def)
  define vs where "vs = any_list senv no_fault (svStore s2)"
  have vl: "vlists m vs" using any_st.listv [of senv "svStore s2"] any_next [OF s2(2)] by (simp add: vs_def svc_inv_def)
  obtain b1 where sv: "SaveSnapshot c no_fault (svPersistence s) vs = (None, b1)" using SaveSnapshot_succeeds [OF env(5) f(3) vl] by blast
  note save = dur_files_save [OF env(5) f(1,2,3) vl sv]
  obtain b2 where tr: "TruncateWAL no_fault b1 = (None, b2)" by (simp add: TruncateWAL_def no_fault_def)
  obtain pl where pl: "LoadSnapshot c no_fault b1 = Inr pl" "payload_ok ?D pl" "snap_map pl = m" using save(3) by blast
  have b2: "dur_files c ?D b2 m" using dur_files_truncate [OF pl(1,2) _ tr] save(1) pl(3) by simp
  let ?s = "s2\<lparr>svPersistence := b2, svPersistOps := 0\<rparr>"
  have "saveSnapshot env s2 = (None, s2\<lparr>svPersistence := b1\<rparr>)"
    using sv f2 env by (simp add: saveSnapshot_def np any_ops_def vs_def)
  moreover have "truncateWAL env (s2\<lparr>svPersistence := b1\<rparr>) = (None, s2\<lparr>svPersistence := b2\<rparr>)"
    using tr f2 env(3) by (simp add: truncateWAL_def np)
  ultimately have "restoreState env s = Some (None, ?s)" using s1(1) s2(1) s(4) by (simp add: restoreState_def np)
  moreover have "dur senv c ?D ?s \<and> any_abs (svStore ?s) = m"
    using any_next [OF s2(2)] f1(1) f2(1,3) f(3) b2 D by (simp add: dur_def svc_frame_def)
  ultimately show ?thesis by blast
qed

section \<open>Histories\<close>

text \<open>
  The states of a service on a memory store through its life: the first start on no files, writes, and restarts by a new
  process on the files of the last state. Any call to the operating system may fail during a write, as long as the log takes the operations;
  restarts are without faults.
\<close>

definition env_for :: "'t storeEnv \<Rightarrow> jsonCodec \<Rightarrow> 't anyStore serviceEnv \<Rightarrow> bool" where
  "env_for senv c env \<longleftrightarrow> (\<exists>now. seStore env = any_ops senv no_fault now) \<and> iter_ok (seIter env) \<and> seCodec env = c"

definition fresh_store :: "'t storeEnv \<Rightarrow> 't anyStore \<Rightarrow> bool" where
  "fresh_store senv v \<longleftrightarrow> any_inv senv v \<and> any_abs v = Map.empty \<and> \<not> any_persistent v"

inductive dur_reach :: "'t storeEnv \<Rightarrow> jsonCodec \<Rightarrow> serviceOptions \<Rightarrow> 't anyStore service \<Rightarrow> bool" for senv c opts where
  start: "env_for senv c env \<Longrightarrow> seFault env = no_fault \<Longrightarrow> fresh_store senv v \<Longrightarrow>
    restoreState env (service_initial opts v no_files) = Some (e, s) \<Longrightarrow> dur_reach senv c opts s"
| add: "dur_reach senv c opts s \<Longrightarrow> env_for senv c env \<Longrightarrow> \<forall>v \<in> set vecs. vec_ok c v \<Longrightarrow>
    (add_error s vecs = None \<Longrightarrow> fst (appendWALBatch env s (map upsert_op vecs)) = None) \<Longrightarrow>
    AddVectors env s vecs = Some (e, s') \<Longrightarrow> dur_reach senv c opts s'"
| delete: "dur_reach senv c opts s \<Longrightarrow> env_for senv c env \<Longrightarrow> short_line c (delete_op vid) \<Longrightarrow>
    (delete_error s vid = None \<Longrightarrow> fst (appendWAL env s (delete_op vid)) = None) \<Longrightarrow>
    DeleteVector env s vid = Some (e, s') \<Longrightarrow> dur_reach senv c opts s'"
| restart: "dur_reach senv c opts s \<Longrightarrow> env_for senv c env \<Longrightarrow> seFault env = no_fault \<Longrightarrow> fresh_store senv v \<Longrightarrow>
    restoreState env (service_initial opts v (svPersistence s)) = Some (e, s') \<Longrightarrow> dur_reach senv c opts s'"

lemma initial_sel [simp]:
  "svPersistence (service_initial opts v files) = newSnapshotWALBackendWithOptions (opSyncEvery opts) files"
  "svMaxVectorDim (service_initial opts v files) = opMaxVectorDim opts" "svStore (service_initial opts v files) = v"
  "anDim (svAnn (service_initial opts v files)) = 0"
  by (simp_all add: service_initial_def NewAnnIndexWithOptions_def)

lemma dur_files_new: "dur_files c D (newSnapshotWALBackendWithOptions n files) m = dur_files c D files m"
  by (simp add: dur_files_def newSnapshotWALBackendWithOptions_def wal_text_def LoadSnapshot_def)

lemma dur_files_none: "dur_files c D no_files Map.empty"
proof -
  have "payload_ok D []" by (auto simp: payload_ok_def intro!: exI [of _ 1])
  moreover have "snap_map [] = Map.empty" by (simp add: snap_map_def fun_eq_iff)
  ultimately show ?thesis
    by (auto simp: dur_files_def no_files_def wal_text_def LoadSnapshot_def intro!: exI [of _ "[]"])
qed

lemma restore_initial:
  assumes "env_for senv c env" and "seFault env = no_fault" and "json_ok c" and "fresh_store senv v"
    and "dur_files c (opMaxVectorDim opts) files m" and "map_ok (opMaxVectorDim opts) m" and "savable m"
  shows "\<exists>s'. restoreState env (service_initial opts v files) = Some (None, s') \<and>
    dur senv c (opMaxVectorDim opts) s' \<and> any_abs (svStore s') = m"
proof -
  obtain now where env: "seStore env = any_ops senv no_fault now" "iter_ok (seIter env)" "seCodec env = c"
    using assms(1) by (auto simp: env_for_def)
  let ?s = "service_initial opts v files"
  have "svc_inv (any_inv senv) any_abs ?s" using assms(4) by (intro svc_inv_initial) (simp_all add: fresh_store_def)
  then show ?thesis
    using restoreState_ok [OF env(1,2) assms(2) env(3) assms(3), of ?s m] assms(4-7)
    by (auto simp: fresh_store_def dur_files_new)
qed

lemma dur_map_ok: "dur senv c D s \<Longrightarrow> map_ok D (any_abs (svStore s))"
  using svc_map_ok by (auto simp: dur_def)

text \<open>Every state of a history is in step with its files.\<close>

lemma dur_reach_inv: "dur_reach senv c opts s \<Longrightarrow> json_ok c \<Longrightarrow> dur senv c (opMaxVectorDim opts) s"
proof (induction rule: dur_reach.induct)
  case (start env v e s)
  have "map_ok (opMaxVectorDim opts) Map.empty" "savable Map.empty" by (auto simp: map_ok_def savable_def)
  then show ?case using restore_initial [OF start(1,2,5,3) dur_files_none] start(4) by force
next
  case (add s env vecs e s')
  then obtain now where "seStore env = any_ops senv no_fault now" "iter_ok (seIter env)" "seCodec env = c" by (auto simp: env_for_def)
  from AddVectors_dur [OF this add.prems add.IH [OF add.prems] add(3,5)] add(4) show ?case by blast
next
  case (delete s env vid e s')
  then obtain now where "seStore env = any_ops senv no_fault now" "iter_ok (seIter env)" "seCodec env = c" by (auto simp: env_for_def)
  from DeleteVector_dur [OF this delete.prems delete.IH [OF delete.prems] delete(3,5)] delete(4) show ?case by blast
next
  case (restart s env v e s')
  note d = restart.IH [OF restart.prems]
  have "dur_files c (opMaxVectorDim opts) (svPersistence s) (any_abs (svStore s))" "savable (any_abs (svStore s))" using d by (simp_all add: dur_def)
  then show ?case using restore_initial [OF restart(2,3) restart.prems restart(4) _ dur_map_ok [OF d]] restart(5) by force
qed

section \<open>Properties\<close>


lemma sample_env_for: "env_for set_env hex_codec (sample_env flt)"
  using sample_env_ok(1) [of flt] sample_env_ok(2) [of flt] by (auto simp: env_for_def sample_env_def)

lemma sample_fresh: "fresh_store set_env (Inl (BMem (newMemoryVectorStore set_env)))"
  by (simp add: fresh_store_def any_inv_new any_abs_new any_persistent_def be_persistent_def Mem_IsPersistent_def)

lemma sample_vec_ok: "vec_ok hex_codec sample_vector"
proof -
  have op: "upsert_op sample_vector = sample_op ''a''" by (simp add: upsert_op_def sample_vector_def sample_op_def)
  have "rec_fits ''a'' [0 :: float64]" by (simp add: rec_fits_def)
  moreover have "list_all finite64 (ToFloat64 (ToFloat32 [0]))"
    by (simp add: ToFloat64_def ToFloat32_def finite64_def float_eval)
  ultimately show ?thesis using sample_op_ok unfolding vec_ok_def op_ok_def op by (simp add: sample_op_def sample_vector_def)
qed

text \<open>A history with one vector, for examples.\<close>

lemma sample_start:
  "\<exists>b. restoreState (sample_env no_fault) (sample_service mode) = Some (None, (sample_service mode)\<lparr>svPersistence := b\<rparr>) \<and>
     swSyncEvery b = 1 \<and> swPendingOps b = 0"
proof -
  have list: "any_list set_env no_fault (Inl (BMem (newMemoryVectorStore set_env))) = []"
    by (simp add: any_list_def be_list_def Mem_ListVectors_def newMemoryVectorStore_def gm_range_def set_env_def)
  obtain b where b: "SaveSnapshot hex_codec no_fault (svPersistence (sample_service mode)) [] = (None, b)"
    using SaveSnapshot_succeeds [OF hex_codec_ok, of Map.empty "[]"] by (auto simp: savable_def vlists_def)
  moreover have "swSyncEvery b = 1"
    using b by (auto simp: SaveSnapshot_def no_fault_def sample_service_def service_initial_def sample_opts_def
        newSnapshotWALBackendWithOptions_def normalizeSyncEvery_def split: option.splits)
  ultimately show ?thesis
    using list
    by (simp add: restoreState_def usesPersistentVectorStore_def loadSnapshot_def replayWAL_def saveSnapshot_def truncateWAL_def
        sample_env_def sample_service_def service_initial_def any_ops_def be_persistent_def Mem_IsPersistent_def LoadSnapshot_def
        newSnapshotWALBackendWithOptions_def no_files_def ReplayWAL_def rebuildANNLocked_def Index_ListVectors_def NewIndex_def
        TruncateWAL_def no_fault_def gm_range_def)
qed

lemma add_error_persist: "add_error (s\<lparr>svPersistence := b\<rparr>) vecs = add_error s vecs"
proof -
  have "batch_error (s\<lparr>svPersistence := b\<rparr>) seen vs = batch_error s seen vs" for seen vs
    by (induction vs arbitrary: seen) (simp_all add: check_vector_def)
  then show ?thesis by (simp add: add_error_def)
qed

lemma sample_history:
  "\<exists>s. dur_reach set_env hex_codec (sample_opts mode) s \<and> any_abs (svStore s) = foldl vput Map.empty [sample_vector]"
proof -
  obtain b where b: "restoreState (sample_env no_fault) (sample_service mode) = Some (None, (sample_service mode)\<lparr>svPersistence := b\<rparr>)"
    using sample_start by blast
  let ?s = "(sample_service mode)\<lparr>svPersistence := b\<rparr>"
  have r0: "dur_reach set_env hex_codec (sample_opts mode) ?s"
    by (rule start [OF sample_env_for [of no_fault] _ sample_fresh]) (use b in \<open>simp_all add: sample_env_def sample_service_def\<close>)
  have inv: "svc_inv (any_inv set_env) any_abs ?s" using sample_service_inv [of mode] by simp
  have ix: "ix_abs (svIndex ?s) = Map.empty" by (simp add: sample_service_def service_initial_def)
  have "fst (appendWALBatch (sample_env no_fault) ?s (map upsert_op [sample_vector])) = None"
    using sample_vector_ok(3) AppendWALBatch_ok [OF hex_codec_ok, of "[upsert_op sample_vector]"]
    by (simp add: appendWALBatch_def usesPersistentVectorStore_def sample_env_def any_ops_def sample_service_def service_initial_def
        be_persistent_def Mem_IsPersistent_def loggable_def Let_def split: prod.split)
  then obtain sw where w: "appendWALBatch (sample_env no_fault) ?s (map upsert_op [sample_vector]) = (None, sw)" by (metis prod.collapse)
  have fits: "\<forall>v \<in> set [sample_vector]. fits v" using sample_vector_ok(1) by simp
  have ok: "add_error ?s [sample_vector] = None" using sample_vector_ok(2) by (simp only: add_error_persist)
  obtain s1 where s1: "AddVectors (sample_env no_fault) ?s [sample_vector] = Some (maybeSnapshot (sample_env no_fault) s1)"
    "any_svc.sv_next set_env ?s (foldl vput Map.empty [sample_vector]) (svPersistence sw) s1"
    using any_svc.AddVectors_logged [OF sample_env_ok inv fits ok w] ix by auto
  obtain e s2 where ms: "maybeSnapshot (sample_env no_fault) s1 = (e, s2)" by force
  have "dur_reach set_env hex_codec (sample_opts mode) s2"
    using add [OF r0 sample_env_for, of "[sample_vector]" no_fault e s2] sample_vec_ok w s1(1) ms by simp
  then show ?thesis using maybeSnapshot_keeps(2) [OF any_next(1) [OF s1(2)] ms] any_next(2) [OF s1(2)] by auto
qed


text \<open>The append whose only fault is the final sync: the operations are in the file and the error is reported.\<close>

definition sync_fault :: "goerror \<Rightarrow> iofault" where
  "sync_fault x = \<lparr>ioErr = (\<lambda>op. if op = IoSync then Some x else None), ioPartial = 0\<rparr>"

lemma AppendWALBatch_sync_fault:
  assumes "json_ok c" and "\<forall>op \<in> set ops. list_all finite64 (wValues op)" and "ops \<noteq> []"
    and "swSyncEvery b \<le> swPendingOps b + int (length ops)"
  shows "\<exists>b'. AppendWALBatch c (sync_fault x) b ops = (Some x, b') \<and> wal_text b' = wal_text b @ wal_image c ops \<and> swSnapshot b' = swSnapshot b"
proof -
  have io: "ioErr (sync_fault x) IoWrite = None" "ioErr (sync_fault x) IoMkdir = None" "ioErr (sync_fault x) IoOpen = None"
    "ioErr (sync_fault x) IoSync = Some x" by (simp_all add: sync_fault_def)
  obtain w buf where w: "write_ops c (sync_fault x) ops ([], []) = (None, (w, buf))" "w @ buf = wal_image c ops"
    using write_ops_ok [OF io(1) assms(1,2), of "[]" "[]"] by auto
  have "bw_flush (sync_fault x) (w, buf) = (None, (wal_image c ops, []))" using w(2) by (auto simp: bw_flush_def io)
  then show ?thesis
    using assms(3,4) w(1) by (simp add: AppendWALBatch_def io Let_def wal_text_def)
qed

text \<open>
  C36. A batch that was refused may come back: if the sync at the end of the append fails, \<^verbatim>\<open>AddVectors\<close> reports the error and the
  running service does not hold the batch, but its operations are in the log, and the next process serves the vectors.
\<close>

theorem failed_sync_resurfaces:
  assumes "dur_reach senv c opts s" and "json_ok c" and "env_for senv c env" and "seFault env = sync_fault x"
    and "\<forall>v \<in> set vecs. vec_ok c v" and "add_error s vecs = None"
    and "swSyncEvery (svPersistence s) \<le> swPendingOps (svPersistence s) + int (length vecs)"
    and "env_for senv c env'" and "seFault env' = no_fault" and "fresh_store senv v"
  shows "\<exists>s1 s2. AddVectors env s vecs = Some (Some x, s1) \<and> any_abs (svStore s1) = any_abs (svStore s) \<and>
    restoreState env' (service_initial opts v (svPersistence s1)) = Some (None, s2) \<and>
    any_abs (svStore s2) = foldl vput (any_abs (svStore s)) vecs"
proof -
  let ?D = "opMaxVectorDim opts" and ?m = "any_abs (svStore s)"
  note d = dur_reach_inv [OF assms(1,2)]
  then have inv: "svc_inv (any_inv senv) any_abs s" "\<not> any_persistent (svStore s)" "savable ?m" "svMaxVectorDim s = ?D"
    by (simp_all add: dur_def)
  obtain now where env: "seStore env = any_ops senv no_fault now" "iter_ok (seIter env)" "seCodec env = c"
    using assms(3) by (auto simp: env_for_def)
  have ne: "vecs \<noteq> []" and chk: "\<forall>v \<in> set vecs. check_vector s v = None"
    using assms(6) batch_error_None [of s "dom (ix_abs (svIndex s))" vecs] by (auto simp: add_error_def split: if_splits option.splits)
  have fits: "\<forall>v \<in> set vecs. fits v" using assms(5) by (simp add: vec_ok_def op_ok_def upsert_op_def)
  have ops: "list_all (op_ok c) (map upsert_op vecs)" "\<forall>op \<in> set (map upsert_op vecs). list_all finite64 (wValues op)"
    using assms(5) by (auto simp: list_all_iff vec_ok_def op_ok_def loggable_def)
  obtain b where b: "AppendWALBatch c (sync_fault x) (svPersistence s) (map upsert_op vecs) = (Some x, b)"
    "wal_text b = wal_text (svPersistence s) @ wal_image c (map upsert_op vecs)" "swSnapshot b = swSnapshot (svPersistence s)"
    using AppendWALBatch_sync_fault [OF assms(2) ops(2)] ne assms(7) by auto
  have "appendWALBatch env s (map upsert_op vecs) = (Some x, s\<lparr>svPersistence := b\<rparr>)"
    using b(1) ne env(3) assms(4) inv(2) by (simp add: appendWALBatch_def any_svc.uses_persistent [OF env(1)])
  from any_svc.AddVectors_logged [OF env(1,2) inv(1) fits assms(6) this] obtain s1 where
    s1: "AddVectors env s vecs = Some (Some x, s1)" "any_svc.sv_next senv s (ix_abs (svIndex s)) b s1" by auto
  have files: "dur_files c ?D b (foldl (map_op ?D) ?m (map upsert_op vecs))"
  proof -
    obtain b' where b': "AppendWALBatch c no_fault (svPersistence s) (map upsert_op vecs) = (None, b')"
      using AppendWALBatch_ok [OF assms(2) ops(2)] ne by (simp add: Let_def)
    have "dur_files c ?D b' (foldl (map_op ?D) ?m (map upsert_op vecs))"
      using dur_files_append [OF _ b' ops(1)] d by (simp add: dur_def)
    moreover have "wal_text b = wal_text b'" "swSnapshot b = swSnapshot b'" using AppendWALBatch_text [OF b'] b(2,3) by simp_all
    ultimately show ?thesis using LoadSnapshot_cong [of b b' c no_fault] by (simp add: dur_files_def)
  qed
  have "\<forall>v \<in> set vecs. vID v \<noteq> [] \<and> vValues v \<noteq> [] \<and> int (length (vValues v)) \<le> ?D"
    using any_svc.check_vector_None chk inv(4) by metis
  then have files': "dur_files c ?D b (foldl vput ?m vecs)" using files foldl_map_op_upsert by metis
  have mo: "map_ok ?D (foldl vput ?m vecs)"
  proof -
    let ?e = "env\<lparr>seFault := no_fault\<rparr>"
    have "fst (appendWALBatch ?e s (map upsert_op vecs)) = None"
      using AppendWALBatch_ok [OF assms(2) ops(2)] ne env(3) by (simp add: appendWALBatch_def Let_def split: prod.split)
    then obtain sw where w: "appendWALBatch ?e s (map upsert_op vecs) = (None, sw)" by (metis prod.collapse)
    obtain s' where s': "any_svc.sv_next senv s (foldl vput ?m vecs) (svPersistence sw) s'"
      using any_svc.AddVectors_logged [OF _ _ inv(1) fits assms(6) w, of now] env(1,2) svc_inv_map [OF inv(1)] by auto
    then have "svMaxVectorDim s' = ?D" using inv(4) by (simp add: any_svc.sv_next_def svc_frame_def)
    then show ?thesis using svc_map_ok [OF any_next(1) [OF s']] any_next(2) [OF s'] by simp
  qed
  obtain s2 where "restoreState env' (service_initial opts v b) = Some (None, s2)" "any_abs (svStore s2) = foldl vput ?m vecs"
    using restore_initial [OF assms(8,9,2,10) files' mo savable_foldl [OF inv(3) assms(5)]] by blast
  moreover have "svPersistence s1 = b" using s1(2) by (simp add: any_svc.sv_next_def)
  ultimately show ?thesis using s1(1) any_next(2) [OF s1(2)] svc_inv_map [OF inv(1)] by auto
qed

theorem failed_sync_resurfaces_witness:
  "\<exists>s s1 s2. AddVectors (sample_env (sync_fault (ErrIO ''sync''))) s [sample_vector] = Some (Some (ErrIO ''sync''), s1) \<and>
     any_abs (svStore s1) ''a'' = None \<and>
     restoreState (sample_env no_fault) (service_initial (sample_opts []) (Inl (BMem (newMemoryVectorStore set_env))) (svPersistence s1)) = Some (None, s2) \<and>
     any_abs (svStore s2) ''a'' = Some (ToFloat32 [0])"
proof -
  obtain b where b: "restoreState (sample_env no_fault) (sample_service []) = Some (None, (sample_service [])\<lparr>svPersistence := b\<rparr>)"
    "swSyncEvery b = 1" "swPendingOps b = 0"
    using sample_start by blast
  let ?s = "(sample_service [])\<lparr>svPersistence := b\<rparr>"
  have r: "dur_reach set_env hex_codec (sample_opts []) ?s"
    by (rule start [OF sample_env_for [of no_fault] _ sample_fresh]) (use b in \<open>simp_all add: sample_env_def sample_service_def\<close>)
  have flt: "seFault (sample_env (sync_fault (ErrIO ''sync''))) = sync_fault (ErrIO ''sync'')" "seFault (sample_env no_fault) = no_fault"
    by (simp_all add: sample_env_def)
  have v: "\<forall>v \<in> set [sample_vector]. vec_ok hex_codec v" using sample_vec_ok by simp
  have ok: "add_error ?s [sample_vector] = None" using sample_vector_ok(2) by (simp only: add_error_persist)
  have p: "swSyncEvery (svPersistence ?s) \<le> swPendingOps (svPersistence ?s) + int (length [sample_vector])"
    using b(2,3) by simp
  have m: "any_abs (svStore ?s) = Map.empty" by (simp add: sample_service_def any_abs_new)
  obtain s1 s2 where "AddVectors (sample_env (sync_fault (ErrIO ''sync''))) ?s [sample_vector] = Some (Some (ErrIO ''sync''), s1)"
    "any_abs (svStore s1) = Map.empty"
    "restoreState (sample_env no_fault) (service_initial (sample_opts []) (Inl (BMem (newMemoryVectorStore set_env))) (svPersistence s1)) = Some (None, s2)"
    "any_abs (svStore s2) = foldl vput Map.empty [sample_vector]"
    using failed_sync_resurfaces [OF r hex_codec_ok sample_env_for flt(1) v ok p sample_env_for flt(2) sample_fresh] unfolding m by blast
  then show ?thesis by (intro exI [of _ ?s] exI [of _ s1] exI [of _ s2]) (simp add: sample_vector_def)
qed

end
