(* ===== verification/ServiceReads.thy ===== *)
theory ServiceReads
  imports Durability
begin

text \<open>
  What the reading operations of the service guarantee: pages and the walk of a client that follows the cursors while the
  stored map changes, single and batch search in both modes, and the counters.
\<close>

section \<open>Pages\<close>

definition stored_vector :: "vmap \<Rightarrow> string \<Rightarrow> vector" where
  "stored_vector m vid = \<lparr>vID = vid, vValues = ToFloat64 (the (m vid))\<rparr>"

lemma vID_stored [simp]: "vID (stored_vector m vid) = vid"
  by (simp add: stored_vector_def)

lemma vget_stored: "vid \<in> dom m \<Longrightarrow> vget m vid = Inr (stored_vector m vid)"
  by (auto simp: vget_def stored_vector_def)

text \<open>The identifiers after a cursor, in order.\<close>

definition ids_after :: "vmap \<Rightarrow> string \<Rightarrow> string list" where
  "ids_after m after = filter (\<lambda>vid. after = [] \<or> after < vid) (sorted_list_of_set (dom m))"

lemma ids_after_set: "finite (dom m) \<Longrightarrow> set (ids_after m after) = {vid \<in> dom m. after = [] \<or> after < vid}"
  by (auto simp: ids_after_def)

lemma ids_after_sorted: "sorted_wrt (<) (ids_after m after)"
  by (simp add: ids_after_def sorted_wrt_filter)

context service_store
begin

lemma page_vectors_ok:
  assumes "inv v" and "set ids \<subseteq> dom (abs v)"
  shows "\<exists>v'. page_vectors st v ids = (map (stored_vector (abs v)) ids, v') \<and> inv v' \<and> abs v' = abs v \<and> persistent v' = persistent v"
  using assms
proof (induction ids arbitrary: v)
  case (Cons k ids)
  obtain r v1 where g: "stGetVector st v k = (r, v1)" by force
  have v1: "inv v1" "abs v1 = abs v" "r = Inr (stored_vector (abs v) k)" "persistent v1 = persistent v"
    using vs.getv [OF Cons.prems(1) g] vget_stored [of k "abs v"] Cons.prems(2) persist_get [OF Cons.prems(1), of k] g by auto
  then show ?case using Cons.IH [of v1] Cons.prems(2) g by auto
qed simp

lemma ListVectorsPage_ok:
  assumes env: "seStore env = st" and s: "sv_inv s" and limit: "0 < limit"
  shows "\<exists>v'. ListVectorsPage env s \<lparr>loAfterID = after, loLimit = limit, loIDsOnly = idsOnly\<rparr> =
    (\<lparr>lpVectors = map (if idsOnly then \<lambda>vid. \<lparr>vID = vid, vValues = []\<rparr> else stored_vector (ix_abs (svIndex s)))
        (take (nat limit) (ids_after (ix_abs (svIndex s)) after)),
      lpNextCursor = (if limit < int (length (ids_after (ix_abs (svIndex s)) after))
        then last (take (nat limit) (ids_after (ix_abs (svIndex s)) after)) else [])\<rparr>, s\<lparr>svStore := v'\<rparr>) \<and>
    inv v' \<and> abs v' = abs (svStore s) \<and> persistent v' = persistent (svStore s)"
proof -
  let ?m = "ix_abs (svIndex s)"
  define ids where "ids = ids_after ?m after"
  have v: "inv (svStore s)" "abs (svStore s) = ?m" using s by (simp_all add: svc_inv_def)
  have fin: "finite (dom ?m)" using vs.fin [OF v(1)] v(2) by simp
  have "sort (sorted_list_of_set (dom ?m)) = sorted_list_of_set (dom ?m)" by (simp add: sorted_sort_id)
  then have sel: "selectVectorPageIDs env s after (limit + 1) = take (nat (limit + 1)) ids"
    using limit env vs.page [OF v(1)] v(2)
    by (simp add: selectVectorPageIDs_def pages page_spec_def ids_after_def ids_def)
  have more: "limit < int (length (take (nat (limit + 1)) ids)) \<longleftrightarrow> limit < int (length ids)" using limit by auto
  have page: "(if limit < int (length ids) then take (nat limit) (take (nat (limit + 1)) ids) else take (nat (limit + 1)) ids) = take (nat limit) ids"
    using limit by (auto simp: min_def)
  have ne: "limit < int (length ids) \<Longrightarrow> take (nat limit) ids \<noteq> []" using limit by auto
  have "set (take (nat limit) ids) \<subseteq> dom (abs (svStore s))"
    using set_take_subset [of "nat limit" ids] ids_after_set [OF fin, of after] v(2) by (auto simp: ids_def)
  then obtain v' where v': "page_vectors st (svStore s) (take (nat limit) ids) = (map (stored_vector ?m) (take (nat limit) ids), v')"
    "inv v'" "abs v' = abs (svStore s)" "persistent v' = persistent (svStore s)"
    using page_vectors_ok [OF v(1)] v(2) by metis
  have keep: "s\<lparr>svStore := svStore s\<rparr> = s" by simp
  show ?thesis
    unfolding ids_def [symmetric]
  proof (cases idsOnly)
    case True
    then show "\<exists>v'. ListVectorsPage env s \<lparr>loAfterID = after, loLimit = limit, loIDsOnly = idsOnly\<rparr> =
        (\<lparr>lpVectors = map (if idsOnly then \<lambda>vid. \<lparr>vID = vid, vValues = []\<rparr> else stored_vector ?m) (take (nat limit) ids),
          lpNextCursor = (if limit < int (length ids) then last (take (nat limit) ids) else [])\<rparr>, s\<lparr>svStore := v'\<rparr>) \<and>
        inv v' \<and> abs v' = abs (svStore s) \<and> persistent v' = persistent (svStore s)"
      using limit v(1) ne unfolding ListVectorsPage_def
      by (intro exI [of _ "svStore s"]) (auto simp: sel more page Let_def)
  next
    case False
    then show "\<exists>v'. ListVectorsPage env s \<lparr>loAfterID = after, loLimit = limit, loIDsOnly = idsOnly\<rparr> =
        (\<lparr>lpVectors = map (if idsOnly then \<lambda>vid. \<lparr>vID = vid, vValues = []\<rparr> else stored_vector ?m) (take (nat limit) ids),
          lpNextCursor = (if limit < int (length ids) then last (take (nat limit) ids) else [])\<rparr>, s\<lparr>svStore := v'\<rparr>) \<and>
        inv v' \<and> abs v' = abs (svStore s) \<and> persistent v' = persistent (svStore s)"
      using limit v' ne env unfolding ListVectorsPage_def
      by (intro exI [of _ v']) (auto simp: sel more page Let_def)
  qed
qed

end

section \<open>Walking the pages\<close>

text \<open>
  A client that asks for a page, then for the page after the cursor it was given, until there is no cursor. Page \<open>i\<close> is
  answered in state \<open>i\<close> of the list, so anything may happen between two requests; \<open>None\<close> if the states run out first.
\<close>

fun walk_pages :: "'v serviceEnv \<Rightarrow> int \<Rightarrow> string \<Rightarrow> 'v service list \<Rightarrow> vector list option" where
  "walk_pages env limit after [] = None"
| "walk_pages env limit after (s # ss) =
     (let page = fst (ListVectorsPage env s \<lparr>loAfterID = after, loLimit = limit, loIDsOnly = False\<rparr>)
      in if lpNextCursor page = [] then Some (lpVectors page)
         else map_option (\<lambda>rest. lpVectors page @ rest) (walk_pages env limit (lpNextCursor page) ss))"

lemma sorted_take_last:
  assumes "sorted_wrt (<) (xs :: string list)" and "n < length xs" and "0 < n"
  shows "x \<in> set (take n xs) \<Longrightarrow> x \<le> last (take n xs)" and "x \<in> set xs \<Longrightarrow> x \<le> last (take n xs) \<Longrightarrow> x \<in> set (take n xs)"
    and "last (take n xs) \<in> set xs"
proof -
  have l: "last (take n xs) = xs ! (n - 1)" using assms(2,3) by (subst last_conv_nth) auto
  show "last (take n xs) \<in> set xs" using l assms(2) by simp
  show "x \<le> last (take n xs)" if "x \<in> set (take n xs)"
  proof -
    obtain i where "i < n" "x = xs ! i" using \<open>x \<in> set (take n xs)\<close> assms(2) by (auto simp: in_set_conv_nth)
    then show ?thesis using assms(2) l sorted_wrt_nth_less [OF assms(1), of i "n - 1"] by (cases "i = n - 1") (simp_all add: less_imp_le)
  qed
  show "x \<in> set (take n xs)" if "x \<in> set xs" "x \<le> last (take n xs)"
  proof -
    obtain i where i: "i < length xs" "x = xs ! i" using \<open>x \<in> set xs\<close> by (auto simp: in_set_conv_nth)
    then have "i < n" using that(2) l assms(3) sorted_wrt_nth_less [OF assms(1), of "n - 1" i] by force
    then show ?thesis using i by (auto simp: in_set_conv_nth intro: exI [of _ i])
  qed
qed

text \<open>
  What a walk over the maps \<open>ms\<close> from a cursor is to return: vectors in strictly ascending order of their identifiers, each as it was
  stored at some time, and every identifier that was there all the time.
\<close>

definition walked :: "vmap list \<Rightarrow> string \<Rightarrow> vector list \<Rightarrow> bool" where
  "walked ms after vs \<longleftrightarrow> sorted_wrt (<) (map vID vs) \<and>
     (\<forall>v \<in> set vs. (after = [] \<or> after < vID v) \<and> (\<exists>m \<in> set ms. vget m (vID v) = Inr v)) \<and>
     (\<forall>vid. (after = [] \<or> after < vid) \<and> (\<forall>m \<in> set ms. vid \<in> dom m) \<longrightarrow> vid \<in> vID ` set vs)"

lemma walked_here:
  assumes "finite (dom m)" and "vid \<in> set (ids_after m after)"
  shows "after = [] \<or> after < vid" and "vget m vid = Inr (stored_vector m vid)"
  using assms vget_stored [of vid m] by (auto simp: ids_after_set)

lemma walked_end:
  assumes "finite (dom m)"
  shows "walked (m # ms) after (map (stored_vector m) (ids_after m after))"
proof -
  have "\<forall>vid \<in> set (ids_after m after). (after = [] \<or> after < vid) \<and> vget m vid = Inr (stored_vector m vid)"
    using walked_here [OF assms] by blast
  then show ?thesis by (simp add: walked_def o_def ids_after_sorted image_image ids_after_set [OF assms])
qed

lemma walked_more:
  assumes fin: "finite (dom m)" and n: "n < length (ids_after m after)" "0 < n"
    and cur: "cur = last (take n (ids_after m after))" "cur \<noteq> []" and vs: "walked ms cur vs"
  shows "walked (m # ms) after (map (stored_vector m) (take n (ids_after m after)) @ vs)"
proof -
  let ?ids = "ids_after m after"
  let ?out = "map (stored_vector m) (take n ?ids) @ vs"
  note cut = sorted_take_last [OF ids_after_sorted n, folded cur(1)]
  have after: "after = [] \<or> after < cur" using walked_here(1) [OF fin cut(3)] .
  have tail: "\<And>v. v \<in> set vs \<Longrightarrow> cur < vID v" "sorted_wrt (<) (map vID vs)"
    "\<And>v. v \<in> set vs \<Longrightarrow> \<exists>m \<in> set ms. vget m (vID v) = Inr v"
    "\<And>vid. cur < vid \<Longrightarrow> \<forall>m \<in> set ms. vid \<in> dom m \<Longrightarrow> vid \<in> vID ` set vs"
    using vs cur(2) by (auto simp: walked_def)
  have "sorted_wrt (<) (take n ?ids)" using ids_after_sorted sorted_wrt_take by blast
  then have "sorted_wrt (<) (map vID ?out)"
    using tail(1,2) cut(1) by (auto simp: o_def sorted_wrt_append) (meson order.strict_trans1)
  moreover have "(after = [] \<or> after < vID v) \<and> (\<exists>m' \<in> set (m # ms). vget m' (vID v) = Inr v)" if v: "v \<in> set ?out" for v
  proof (cases "v \<in> set vs")
    case True
    then show ?thesis using tail(1,3) after by (auto intro: less_trans)
  next
    case False
    then obtain k where k: "k \<in> set ?ids" "v = stored_vector m k" using v set_take_subset [of n ?ids] by auto
    then show ?thesis using walked_here [OF fin k(1)] by simp
  qed
  moreover have "vid \<in> vID ` set ?out" if "after = [] \<or> after < vid" "\<forall>m' \<in> set (m # ms). vid \<in> dom m'" for vid
  proof (cases "cur < vid")
    case True
    then show ?thesis using tail(4) [of vid] that(2) by (simp add: image_Un)
  next
    case False
    then have "vid \<in> set (take n ?ids)" using cut(2) [of vid] ids_after_set [OF fin, of after] that by auto
    then show ?thesis by (simp add: image_Un image_image)
  qed
  ultimately show ?thesis unfolding walked_def by blast
qed

context service_store
begin

lemma walk_pages_ok:
  assumes "seStore env = st" and "0 < limit" and "\<forall>s \<in> set ss. sv_inv s \<and> dom (ix_abs (svIndex s)) \<subseteq> U" and "finite U"
    and "card {u \<in> U. after = [] \<or> after < u} < length ss"
  shows "\<exists>vs. walk_pages env limit after ss = Some vs \<and> walked (map (\<lambda>s. ix_abs (svIndex s)) ss) after vs"
  using assms(3,5)
proof (induction ss arbitrary: after)
  case (Cons s ss)
  let ?m = "ix_abs (svIndex s)"
  let ?ids = "ids_after ?m after"
  define cur where "cur = last (take (nat limit) ?ids)"
  have s: "sv_inv s" "dom ?m \<subseteq> U" using Cons.prems(1) by simp_all
  have fin: "finite (dom ?m)" using s(2) assms(4) finite_subset by blast
  have page: "fst (ListVectorsPage env s \<lparr>loAfterID = after, loLimit = limit, loIDsOnly = False\<rparr>) =
      \<lparr>lpVectors = map (stored_vector ?m) (take (nat limit) ?ids), lpNextCursor = (if limit < int (length ?ids) then cur else [])\<rparr>"
    using ListVectorsPage_ok [OF assms(1) s(1) assms(2), of after False] by (auto simp: cur_def)
  show ?case
  proof (cases "limit < int (length ?ids)")
    case False
    then have "take (nat limit) ?ids = ?ids" by simp
    then show ?thesis using False page walked_end [OF fin] by simp
  next
    case True
    then have n: "nat limit < length ?ids" "0 < nat limit" using assms(2) by auto
    have "cur \<in> set ?ids" using sorted_take_last(3) [OF ids_after_sorted n] by (simp add: cur_def)
    then have cur: "cur \<in> dom ?m" "after = [] \<or> after < cur" using ids_after_set [OF fin] by auto
    then have ne: "cur \<noteq> []" using s(1) by (auto simp: svc_inv_def)
    have "{u \<in> U. cur = [] \<or> cur < u} \<subset> {u \<in> U. after = [] \<or> after < u}" using cur ne s(2) by auto
    then have "card {u \<in> U. cur = [] \<or> cur < u} < card {u \<in> U. after = [] \<or> after < u}"
      using assms(4) by (intro psubset_card_mono) auto
    then obtain vs where "walk_pages env limit cur ss = Some vs" "walked (map (\<lambda>s. ix_abs (svIndex s)) ss) cur vs"
      using Cons.IH [of cur] Cons.prems by auto
    then show ?thesis using True page ne walked_more [OF fin n cur_def ne] by simp
  qed
qed simp

end

section \<open>Search\<close>

text \<open>The stored vectors a query can be compared with, with their squared distances.\<close>

definition vm_cands :: "vmap \<Rightarrow> float32 list \<Rightarrow> searchResult set" where
  "vm_cands m q = {\<lparr>srID = vid, srDistance = d\<rparr> | vid vs d. m vid = Some vs \<and>
     SquaredEuclideanDistance32SameLen q vs = Some d \<and> \<not> f64_isnan d \<and> length vs = length q}"

lemma ix_cands_vm: "ix_cands i q = vm_cands (ix_abs i) q"
  by (simp add: ix_cands_def vm_cands_def)

definition exact_answer :: "vmap \<Rightarrow> float32 list \<Rightarrow> int \<Rightarrow> searchResult list \<Rightarrow> bool" where
  "exact_answer m q k res \<longleftrightarrow> (\<exists>cands. topk_spec (nat k) cands res \<and> set cands = vm_cands m q \<and> distinct (map srID cands))"

definition ann_answer :: "annIndex \<Rightarrow> vmap \<Rightarrow> float32 list \<Rightarrow> int \<Rightarrow> searchResult list \<Rightarrow> bool" where
  "ann_answer a m q k res \<longleftrightarrow> (\<exists>sel. res = map (\<lambda>r. r\<lparr>srDistance := sqrtDistance (srDistance r)\<rparr>) sel \<and> sel \<noteq> [] \<and>
     int (length sel) \<le> k \<and> distinct (map srID sel) \<and> set sel \<subseteq> vm_cands m q \<and>
     (dists_num a q \<longrightarrow> sorted_wrt (\<lambda>x y. f64_le (srDistance x) (srDistance y)) sel))"

text \<open>
  The counters: each answered request counts one exact search or one approximate hit, and each approximate search one hit or one
  fallback. Both are equations between words: the counters wrap around together.
\<close>

definition counters_ok :: "serviceStats \<Rightarrow> bool" where
  "counters_ok t \<longleftrightarrow> searchRequestsTotal t = exactSearchesTotal t + annSearchHitsTotal t \<and>
     annSearchesTotal t = annSearchHitsTotal t + annSearchFallbacks t"

lemma svStats_update_inj [simp]: "s\<lparr>svStats := x\<rparr> = s\<lparr>svStats := y\<rparr> \<longleftrightarrow> x = y"
  by (metis service.select_convs(14) service.surjective service.update_convs(14))

lemma validate_svStats [simp]: "validateSearchRequest (s\<lparr>svStats := t\<rparr>) vals k = validateSearchRequest s vals k"
  by (simp add: validateSearchRequest_def)

lemma resolve_results_eq:
  "\<forall>x \<in> set cs. Lookup r (arID x) \<noteq> None \<Longrightarrow>
     resolve_results r cs = map (\<lambda>x. \<lparr>srID = the (Lookup r (arID x)), srDistance = arDistance x\<rparr>)
       (filter (\<lambda>x. \<not> f64_isnan (arDistance x)) cs)"
  by (induction cs) (auto simp: f64_eq_self split: option.split)

lemma resolved_answer:
  assumes "ann_holds r a m" and "int (length cs) \<le> k" and "distinct (map arID cs)"
    and live: "\<forall>x \<in> set cs. \<exists>v. ann_abs a (arID x) = Some v \<and> squaredDistance32 q v = Some (arDistance x) \<and> length v = length q"
    and "dists_num a q \<longrightarrow> sorted_wrt (\<lambda>x y. f64_le (arDistance x) (arDistance y)) cs" and "resolve_results r cs \<noteq> []"
  shows "ann_answer a m q k (map (\<lambda>r. r\<lparr>srDistance := sqrtDistance (srDistance r)\<rparr>) (resolve_results r cs))"
proof -
  let ?f = "\<lambda>x. \<lparr>srID = the (Lookup r (arID x)), srDistance = arDistance x\<rparr>"
  let ?cs = "filter (\<lambda>x. \<not> f64_isnan (arDistance x)) cs"
  have wf: "res_wf r" and h: "ann_abs a n = (case Lookup r n of None \<Rightarrow> None | Some vid \<Rightarrow> m vid)" for n
    using assms(1) by (simp_all add: ann_holds_def)
  have l: "\<exists>vid v. Lookup r (arID x) = Some vid \<and> m vid = Some v \<and> SquaredEuclideanDistance32SameLen q v = Some (arDistance x) \<and> length v = length q"
    if "x \<in> set cs" for x
    using live that by (fastforce simp: h squaredDistance32_eq split: option.splits)
  have eq: "resolve_results r cs = map ?f ?cs" using l by (intro resolve_results_eq) force
  have "inj_on (\<lambda>x. the (Lookup r (arID x))) (set cs)"
  proof (rule inj_onI)
    fix x y assume xy: "x \<in> set cs" "y \<in> set cs" "the (Lookup r (arID x)) = the (Lookup r (arID y))"
    then obtain vid where "Lookup r (arID x) = Some vid" "Lookup r (arID y) = Some vid" using l by fastforce
    then have "arID x = arID y" using wf by (metis option.inject res_wf_inv)
    then show "x = y" using assms(3) xy by (simp add: distinct_map inj_on_def)
  qed
  moreover have "distinct cs" using assms(3) by (simp add: distinct_map)
  ultimately have "distinct (map srID (map ?f ?cs))" by (simp add: distinct_map o_def inj_on_subset)
  moreover have "set (map ?f ?cs) \<subseteq> vm_cands m q" using l by (force simp: vm_cands_def)
  moreover have "dists_num a q \<longrightarrow> sorted_wrt (\<lambda>x y. f64_le (srDistance x) (srDistance y)) (map ?f ?cs)"
    using assms(5) by (simp add: sorted_wrt_map sorted_wrt_filter)
  moreover have "int (length (map ?f ?cs)) \<le> k" using assms(2) length_filter_le [of "\<lambda>x. \<not> f64_isnan (arDistance x)" cs] unfolding length_map by linarith
  ultimately show ?thesis using assms(6) unfolding ann_answer_def eq by blast
qed

text \<open>The approximate search gives the same answer for all values of the counters.\<close>

lemma searchANN_ok:
  assumes "ann_holds (svResolver s) (svAnn s) m" and "0 < k" and "vals \<noteq> []"
  shows "\<exists>out. (\<forall>res. out = Some res \<longrightarrow> ann_answer (svAnn s) m (ToFloat32 vals) k res) \<and>
    (\<forall>t. \<exists>t'. searchANN (s\<lparr>svStats := t\<rparr>) vals k = Some (out, s\<lparr>svStats := t'\<rparr>) \<and>
      searchRequestsTotal t' = searchRequestsTotal t \<and> exactSearchesTotal t' = exactSearchesTotal t \<and>
      annSearchesTotal t' = annSearchesTotal t + 1 \<and> annSearchFallbacks t' = annSearchFallbacks t \<and>
      annSearchHitsTotal t' = annSearchHitsTotal t + (if out = None then 0 else 1))"
proof -
  let ?a = "svAnn s"
  have wf: "ann_wf ?a" using assms(1) by (simp add: ann_holds_def)
  consider (miss) ws e where "SearchWithDistancesInto ?a newWorkspace vals k = Some (Inl e, ws)"
    | (none) ws where "SearchWithDistancesInto ?a newWorkspace vals k = Some (Inr [], ws)"
    | (hits) ws cs where "SearchWithDistancesInto ?a newWorkspace vals k = Some (Inr cs, ws)" "int (length cs) \<le> k" "distinct (map arID cs)"
      "\<forall>x \<in> set cs. \<exists>v. ann_abs ?a (arID x) = Some v \<and> squaredDistance32 (ToFloat32 vals) v = Some (arDistance x)"
      "dists_num ?a (ToFloat32 vals) \<longrightarrow> sorted_wrt (\<lambda>x y. f64_le (arDistance x) (arDistance y)) cs" "length vals = anDim ?a"
    using Ann_search_facts [OF wf newWorkspace_ok, of vals k] assms(2,3)
    by (cases "anNodes ?a = []"; cases "length vals = anDim ?a") (force simp: SearchWithDistancesInto_def)+
  then show ?thesis
  proof cases
    case miss
    then show ?thesis by (intro exI [of _ None]) (simp add: searchANN_def inc_stat_def Let_def)
  next
    case none
    then show ?thesis by (intro exI [of _ None]) (simp add: searchANN_def inc_stat_def Let_def)
  next
    case hits
    let ?res = "resolve_results (svResolver s) cs"
    let ?out = "if ?res = [] then None else Some (map (\<lambda>r. r\<lparr>srDistance := sqrtDistance (srDistance r)\<rparr>) ?res)"
    have "\<forall>x \<in> set cs. \<exists>v. ann_abs ?a (arID x) = Some v \<and> squaredDistance32 (ToFloat32 vals) v = Some (arDistance x) \<and>
        length v = length (ToFloat32 vals)"
      using hits(4,6) ann_abs_length [OF wf] by fastforce
    then have "\<forall>res. ?out = Some res \<longrightarrow> ann_answer ?a m (ToFloat32 vals) k res"
      using resolved_answer [OF assms(1) hits(2,3) _ hits(5)] by simp
    then show ?thesis
      using hits(1) by (intro exI [of _ ?out]) (simp add: searchANN_def inc_stat_def Let_def)
  qed
qed

text \<open>What a query has to satisfy: the stored vectors have its dimension.\<close>

definition query_fits :: "vmap \<Rightarrow> float64 list \<Rightarrow> bool" where
  "query_fits m vals \<longleftrightarrow> (\<forall>vid vs. m vid = Some vs \<longrightarrow> length vs = length vals)"

lemma service_searchExact_ok:
  assumes "svc_inv sinv sabs s" and "iter_ok (seIter env)" and "slice_sort_ok (seSort env)" and "0 < k"
    and "query_fits (ix_abs (svIndex s)) vals"
  shows "\<exists>res. exact_answer (ix_abs (svIndex s)) (ToFloat32 vals) k res \<and> (\<forall>t. service_searchExact env (s\<lparr>svStats := t\<rparr>) vals k = Some res)"
  using searchExact_topk [OF _ assms(2,3,4), of "svIndex s" vals] assms(1,5)
  by (auto simp: svc_inv_def query_fits_def exact_answer_def service_searchExact_def ix_cands_vm)

lemma maybeEvaluateANN_ok:
  assumes "\<forall>t. service_searchExact env (s\<lparr>svStats := t\<rparr>) vals k = Some res"
  shows "\<exists>t'. maybeEvaluateANN env (s\<lparr>svStats := t\<rparr>) vals k out = Some (s\<lparr>svStats := t'\<rparr>) \<and>
    searchRequestsTotal t' = searchRequestsTotal t \<and> exactSearchesTotal t' = exactSearchesTotal t \<and>
    annSearchesTotal t' = annSearchesTotal t \<and> annSearchFallbacks t' = annSearchFallbacks t \<and>
    annSearchHitsTotal t' = annSearchHitsTotal t"
  using assms by (auto simp: maybeEvaluateANN_def inc_stat_def Let_def)

lemma Search_ok:
  assumes "svc_inv sinv sabs s" and "iter_ok (seIter env)" and "slice_sort_ok (seSort env)"
    and "validateSearchRequest s vals k = None" and "query_fits (ix_abs (svIndex s)) vals"
  shows "\<exists>res. (exact_answer (ix_abs (svIndex s)) (ToFloat32 vals) k res \<or>
      svSearchMode s = ''ann'' \<and> ann_answer (svAnn s) (ix_abs (svIndex s)) (ToFloat32 vals) k res) \<and>
    (\<forall>t. \<exists>t'. Search env (s\<lparr>svStats := t\<rparr>) vals k = Some (Inr res, s\<lparr>svStats := t'\<rparr>) \<and> (counters_ok t \<longrightarrow> counters_ok t'))"
proof -
  let ?m = "ix_abs (svIndex s)"
  have k: "0 < k" "vals \<noteq> []" using assms(4) by (auto simp: validateSearchRequest_def split: if_splits)
  obtain ex where ex: "exact_answer ?m (ToFloat32 vals) k ex" "\<forall>t. service_searchExact env (s\<lparr>svStats := t\<rparr>) vals k = Some ex"
    using service_searchExact_ok [OF assms(1,2,3) k(1) assms(5)] by blast
  show ?thesis
  proof (cases "svSearchMode s = ''ann''")
    case False
    then show ?thesis using ex by (intro exI [of _ ex]) (simp add: Search_def assms(4) inc_stat_def Let_def counters_ok_def algebra_simps)
  next
    case True
    have "ann_holds (svResolver s) (svAnn s) ?m" using assms(1) by (simp add: svc_inv_def)
    from searchANN_ok [OF this k] obtain out where
      ans: "\<forall>res. out = Some res \<longrightarrow> ann_answer (svAnn s) ?m (ToFloat32 vals) k res" and
      run: "\<forall>t. \<exists>t'. searchANN (s\<lparr>svStats := t\<rparr>) vals k = Some (out, s\<lparr>svStats := t'\<rparr>) \<and>
        searchRequestsTotal t' = searchRequestsTotal t \<and> exactSearchesTotal t' = exactSearchesTotal t \<and>
        annSearchesTotal t' = annSearchesTotal t + 1 \<and> annSearchFallbacks t' = annSearchFallbacks t \<and>
        annSearchHitsTotal t' = annSearchHitsTotal t + (if out = None then 0 else 1)"
      by blast
    let ?res = "case out of None \<Rightarrow> ex | Some res \<Rightarrow> res"
    have "\<exists>t'. Search env (s\<lparr>svStats := t\<rparr>) vals k = Some (Inr ?res, s\<lparr>svStats := t'\<rparr>) \<and> (counters_ok t \<longrightarrow> counters_ok t')" for t
    proof -
      obtain t1 where t1: "searchANN (s\<lparr>svStats := searchRequestsTotal_update (\<lambda>x. x + 1) t\<rparr>) vals k = Some (out, s\<lparr>svStats := t1\<rparr>)"
        "searchRequestsTotal t1 = searchRequestsTotal t + 1" "exactSearchesTotal t1 = exactSearchesTotal t"
        "annSearchesTotal t1 = annSearchesTotal t + 1" "annSearchFallbacks t1 = annSearchFallbacks t"
        "annSearchHitsTotal t1 = annSearchHitsTotal t + (if out = None then 0 else 1)"
        using run [rule_format, of "searchRequestsTotal_update (\<lambda>x. x + 1) t"] by auto
      show ?thesis
      proof (cases out)
        case None
        then show ?thesis using True t1 ex(2) by (simp add: Search_def assms(4) inc_stat_def Let_def counters_ok_def algebra_simps)
      next
        case (Some r)
        then show ?thesis
          using True t1 maybeEvaluateANN_ok [OF ex(2), of t1 r]
          by (auto simp: Search_def assms(4) inc_stat_def Let_def counters_ok_def algebra_simps)
      qed
    qed
    moreover have "exact_answer ?m (ToFloat32 vals) k ?res \<or> ann_answer (svAnn s) ?m (ToFloat32 vals) k ?res"
      using ans ex(1) by (cases out) simp_all
    ultimately show ?thesis using True by blast
  qed
qed

section \<open>Batch search\<close>

text \<open>The first error of a batch, and the name under which a query is answered.\<close>

fun query_error :: "'v service \<Rightarrow> batchSearchQuery list \<Rightarrow> goerror option" where
  "query_error s [] = None"
| "query_error s (q # qs) = (case validateSearchRequest s (bqValues q) (bqK q) of Some e \<Rightarrow> Some e | None \<Rightarrow> query_error s qs)"

definition query_name :: "nat \<Rightarrow> batchSearchQuery \<Rightarrow> string" where
  "query_name i q = (if TrimSpace (bqID q) = [] then ''query-'' @ decimal i else TrimSpace (bqID q))"

definition prepared_query :: "'v service \<Rightarrow> nat \<Rightarrow> batchSearchQuery \<Rightarrow> preparedBatchQuery" where
  "prepared_query s i q = \<lparr>pqID = query_name i q, pqVals = bqValues q,
     pqVals32 = (if svSearchMode s \<noteq> ''ann'' then ToFloat32 (bqValues q) else []), pqAcc = newTopKAccumulator (bqK q)\<rparr>"

lemma prepare_queries_eq:
  "prepare_queries s i qs = (case query_error s qs of Some e \<Rightarrow> Inl e
     | None \<Rightarrow> Inr (map2 (prepared_query s) [i..<i + length qs] qs))"
proof (induction qs arbitrary: i)
  case (Cons q qs)
  have "[i..<i + length (q # qs)] = i # [Suc i..<Suc i + length qs]" using upt_conv_Cons [of i "i + length (q # qs)"] by simp
  then show ?case
    using Cons.IH [of "Suc i"]
    by (auto simp: prepared_query_def query_name_def Let_def simp del: upt_Suc split: option.split)
qed simp

lemma query_error_None: "query_error s qs = None \<Longrightarrow> q \<in> set qs \<Longrightarrow> validateSearchRequest s (bqValues q) (bqK q) = None"
  by (induction qs) (auto split: option.splits)

lemma prepared_query_facts:
  assumes "query_error s qs = None" and "q \<in> set qs"
  shows "pqVals (prepared_query s i q) = bqValues q" and "accLimit (pqAcc (prepared_query s i q)) = bqK q"
  using query_error_None [OF assms]
  by (auto simp: prepared_query_def newTopKAccumulator_def validateSearchRequest_def split: if_splits)

text \<open>Jobs that answer without an error, in any order: each fills its own slot.\<close>

definition answers :: "'v serviceEnv \<Rightarrow> 'v service \<Rightarrow> preparedBatchQuery \<Rightarrow> searchResult list \<Rightarrow> bool" where
  "answers env s p res \<longleftrightarrow> (\<forall>t. \<exists>t'. Search env (s\<lparr>svStats := t\<rparr>) (pqVals p) (accLimit (pqAcc p)) = Some (Inr res, s\<lparr>svStats := t'\<rparr>) \<and>
     (counters_ok t \<longrightarrow> counters_ok t'))"

lemma ann_serial_ok:
  assumes "\<forall>p \<in> set ps. answers env s p (g p)"
  shows "\<exists>t'. ann_serial env (s\<lparr>svStats := t\<rparr>) ps = Some (Inr (map (\<lambda>p. \<lparr>bsID = pqID p, bsResults = g p\<rparr>) ps), s\<lparr>svStats := t'\<rparr>) \<and>
    (counters_ok t \<longrightarrow> counters_ok t')"
  using assms
proof (induction ps arbitrary: t)
  case (Cons p ps)
  obtain t1 where t1: "Search env (s\<lparr>svStats := t\<rparr>) (pqVals p) (accLimit (pqAcc p)) = Some (Inr (g p), s\<lparr>svStats := t1\<rparr>)"
    "counters_ok t \<longrightarrow> counters_ok t1"
    using Cons.prems unfolding answers_def by (meson list.set_intros(1))
  then show ?case using Cons.IH [of t1] Cons.prems by auto
qed auto

lemma ann_jobs_ok:
  assumes "\<forall>p \<in> set ps. answers env s p (g p)" and "\<forall>i \<in> set jobs. i < length ps"
  shows "\<exists>t'. ann_jobs env (s\<lparr>svStats := t\<rparr>) ps jobs results None =
    Some (None, foldl (\<lambda>rs i. rs[i := \<lparr>bsID = pqID (ps ! i), bsResults = g (ps ! i)\<rparr>]) results jobs, s\<lparr>svStats := t'\<rparr>) \<and>
    (counters_ok t \<longrightarrow> counters_ok t')"
  using assms(2)
proof (induction jobs arbitrary: t results)
  case (Cons i jobs)
  have "answers env s (ps ! i) (g (ps ! i))" using assms(1) Cons.prems by simp
  then obtain t1 where t1: "Search env (s\<lparr>svStats := t\<rparr>) (pqVals (ps ! i)) (accLimit (pqAcc (ps ! i))) = Some (Inr (g (ps ! i)), s\<lparr>svStats := t1\<rparr>)"
    "counters_ok t \<longrightarrow> counters_ok t1"
    unfolding answers_def by blast
  moreover have "idx ps i = Some (ps ! i)" using Cons.prems by (simp add: idx_def)
  ultimately show ?case using Cons.IH [of t1] Cons.prems by auto
qed auto

lemma nth_foldl_update:
  "j < length rs \<Longrightarrow> foldl (\<lambda>rs i. rs[i := h i]) rs js ! j = (if j \<in> set js then h j else rs ! j)"
  by (induction js arbitrary: rs) (auto simp: nth_list_update)

lemma length_foldl_update: "length (foldl (\<lambda>rs i. rs[i := h i]) rs js) = length rs"
  by (induction js arbitrary: rs) simp_all

lemma searchBatchANN_ok:
  assumes "\<forall>p \<in> set ps. answers env s p (g p)" and "mset (seOrder env (length ps)) = mset [0..<length ps]"
  shows "\<exists>t'. searchBatchANN env s ps = Some (Inr (map (\<lambda>p. \<lparr>bsID = pqID p, bsResults = g p\<rparr>) ps), s\<lparr>svStats := t'\<rparr>) \<and>
    (counters_ok (svStats s) \<longrightarrow> counters_ok t')"
proof (cases "min (length ps) (seProcs env) \<le> 1")
  case True
  then show ?thesis using ann_serial_ok [OF assms(1), of "svStats s"] by (simp add: searchBatchANN_def Let_def)
next
  case False
  let ?jobs = "seOrder env (length ps)"
  let ?h = "\<lambda>i. \<lparr>bsID = pqID (ps ! i), bsResults = g (ps ! i)\<rparr>"
  have jobs: "set ?jobs = {0..<length ps}" using assms(2) by (metis set_mset_mset set_upt)
  have "foldl (\<lambda>rs i. rs[i := ?h i]) (replicate (length ps) \<lparr>bsID = [], bsResults = []\<rparr>) ?jobs = map (\<lambda>p. \<lparr>bsID = pqID p, bsResults = g p\<rparr>) ps"
    by (rule nth_equalityI) (simp_all add: length_foldl_update nth_foldl_update jobs)
  then show ?thesis
    using False ann_jobs_ok [OF assms(1), of ?jobs "svStats s" "replicate (length ps) \<lparr>bsID = [], bsResults = []\<rparr>"] jobs
    by (auto simp: searchBatchANN_def Let_def)
qed

definition query_answered :: "'v service \<Rightarrow> vmap \<Rightarrow> batchSearchQuery \<Rightarrow> searchResult list \<Rightarrow> bool" where
  "query_answered s m q res \<longleftrightarrow> exact_answer m (ToFloat32 (bqValues q)) (bqK q) res \<or>
     svSearchMode s = ''ann'' \<and> ann_answer (svAnn s) m (ToFloat32 (bqValues q)) (bqK q) res"

lemma nat_accLimit [simp]: "nat (accLimit (newTopKAccumulator k)) = nat k"
  by (simp add: newTopKAccumulator_def)

lemma batch_procs:
  "searchBatchExactParallel (if c then procs else 1) iters srt i ps =
     (if c then searchBatchExactParallel procs iters srt i ps else searchBatchExactSerial (iters 0) srt i ps)"
  by (simp add: searchBatchExactParallel_def Let_def)

lemma SearchBatch_exact_ok:
  assumes "svc_inv sinv sabs s" and "\<And>j. iter_ok (seIters env j)" and "slice_sort_ok (seSort env)"
    and "qs \<noteq> []" and "query_error s qs = None" and "svSearchMode s \<noteq> ''ann''"
    and "\<forall>q \<in> set qs. list_all finite32 (ToFloat32 (bqValues q))" and "\<forall>vid vs. ix_abs (svIndex s) vid = Some vs \<longrightarrow> list_all finite32 vs"
  shows "\<exists>res. SearchBatch env s qs = Some (Inr res, s) \<and> map bsID res = map2 query_name [0..<length qs] qs \<and>
    list_all2 (\<lambda>q r. query_answered s (ix_abs (svIndex s)) q (bsResults r)) qs res"
proof -
  let ?ps = "map2 (prepared_query s) [0..<length qs] qs"
  let ?procs = "if 8 \<le> length ?ps \<and> 1 < seProcs env then seProcs env else 1"
  have fin: "list_all pq_finite ?ps"
    using assms(6,7) by (auto simp: list_all_iff pq_finite_def prepared_query_def dest: set_zip_rightD)
  have acc: "\<forall>p \<in> set ?ps. \<exists>k > 0. pqAcc p = newTopKAccumulator k"
    using query_error_None [OF assms(5)]
    by (force simp: prepared_query_def validateSearchRequest_def dest: set_zip_rightD split: if_splits)
  obtain res where res: "searchBatchExactParallel ?procs (seIters env) (seSort env) (svIndex s) ?ps = Some res" "map bsID res = map pqID ?ps"
    "list_all2 (\<lambda>p r. \<exists>cands. topk_spec (nat (accLimit (pqAcc p))) cands (bsResults r) \<and>
      set cands = ix_cands (svIndex s) (pqVals32 p) \<and> distinct (map srID cands)) ?ps res"
    using searchBatch_topk [where i = "svIndex s" and iters = "seIters env" and procs = ?procs, OF _ assms(2,3) fin _ acc] assms(1,8)
    unfolding svc_inv_def by blast
  have "SearchBatch env s qs = Some (Inr res, s)"
    using assms(4,5,6) res(1) [unfolded batch_procs] by (simp add: SearchBatch_def prepare_queries_eq)
  moreover have "map bsID res = map2 query_name [0..<length qs] qs"
    unfolding res(2) by (simp add: prepared_query_def split_beta o_def)
  moreover have "list_all2 (\<lambda>q r. query_answered s (ix_abs (svIndex s)) q (bsResults r)) qs res"
    using res(3) assms(6)
    by (simp add: list_all2_conv_all_nth prepared_query_def query_answered_def exact_answer_def ix_cands_vm)
  ultimately show ?thesis by blast
qed

lemma prepared_query_nth:
  assumes "query_error s qs = None" and "j < length qs"
  defines "ps \<equiv> map2 (prepared_query s) [0..<length qs] qs"
  shows "ps ! j \<in> set ps" "ps ! j = prepared_query s j (qs ! j)" "pqVals (ps ! j) = bqValues (qs ! j)" "accLimit (pqAcc (ps ! j)) = bqK (qs ! j)"
proof -
  show "ps ! j \<in> set ps" unfolding ps_def by (rule nth_mem) (use assms(2) in simp)
  show eq: "ps ! j = prepared_query s j (qs ! j)" unfolding ps_def using assms(2) by simp
  show "pqVals (ps ! j) = bqValues (qs ! j)" "accLimit (pqAcc (ps ! j)) = bqK (qs ! j)"
    unfolding eq using prepared_query_facts [OF assms(1) nth_mem [OF assms(2)]] by blast+
qed

lemma SearchBatch_ann_ok:
  assumes "svc_inv sinv sabs s" and "iter_ok (seIter env)" and "slice_sort_ok (seSort env)"
    and "qs \<noteq> []" and "query_error s qs = None" and "svSearchMode s = ''ann''"
    and "\<forall>q \<in> set qs. query_fits (ix_abs (svIndex s)) (bqValues q)" and "mset (seOrder env (length qs)) = mset [0..<length qs]"
  shows "\<exists>res t. SearchBatch env s qs = Some (Inr res, s\<lparr>svStats := t\<rparr>) \<and> (counters_ok (svStats s) \<longrightarrow> counters_ok t) \<and>
    map bsID res = map2 query_name [0..<length qs] qs \<and>
    list_all2 (\<lambda>q r. query_answered s (ix_abs (svIndex s)) q (bsResults r)) qs res \<and>
    list_all2 (\<lambda>q r. \<exists>s'. Search env s (bqValues q) (bqK q) = Some (Inr (bsResults r), s')) qs res"
proof -
  let ?ps = "map2 (prepared_query s) [0..<length qs] qs"
  have "\<forall>p \<in> set ?ps. \<exists>res. (exact_answer (ix_abs (svIndex s)) (ToFloat32 (pqVals p)) (accLimit (pqAcc p)) res \<or>
      ann_answer (svAnn s) (ix_abs (svIndex s)) (ToFloat32 (pqVals p)) (accLimit (pqAcc p)) res) \<and> answers env s p res"
  proof
    fix p assume "p \<in> set ?ps"
    then obtain i q where p: "p = prepared_query s i q" "q \<in> set qs" by (auto dest: set_zip_rightD)
    note eqs = prepared_query_facts [OF assms(5) p(2), of i, folded p(1)]
    show "\<exists>res. (exact_answer (ix_abs (svIndex s)) (ToFloat32 (pqVals p)) (accLimit (pqAcc p)) res \<or>
      ann_answer (svAnn s) (ix_abs (svIndex s)) (ToFloat32 (pqVals p)) (accLimit (pqAcc p)) res) \<and> answers env s p res"
      unfolding answers_def eqs
      using Search_ok [OF assms(1,2,3) query_error_None [OF assms(5) p(2)] bspec [OF assms(7) p(2)]] by blast
  qed
  from bchoice [OF this] obtain g where g: "\<forall>p \<in> set ?ps. (exact_answer (ix_abs (svIndex s)) (ToFloat32 (pqVals p)) (accLimit (pqAcc p)) (g p) \<or>
      ann_answer (svAnn s) (ix_abs (svIndex s)) (ToFloat32 (pqVals p)) (accLimit (pqAcc p)) (g p))" "\<forall>p \<in> set ?ps. answers env s p (g p)"
    by blast
  let ?res = "map (\<lambda>p. \<lparr>bsID = pqID p, bsResults = g p\<rparr>) ?ps"
  obtain t where t: "searchBatchANN env s ?ps = Some (Inr ?res, s\<lparr>svStats := t\<rparr>)" "counters_ok (svStats s) \<longrightarrow> counters_ok t"
    using searchBatchANN_ok [OF g(2)] assms(8) by auto
  note nth = prepared_query_nth [OF assms(5)]
  have "SearchBatch env s qs = Some (Inr ?res, s\<lparr>svStats := t\<rparr>)"
    using assms(4,5,6) t(1) by (simp add: SearchBatch_def prepare_queries_eq)
  moreover have "map bsID ?res = map2 query_name [0..<length qs] qs" by (simp add: prepared_query_def split_beta o_def)
  moreover have "list_all2 (\<lambda>q r. query_answered s (ix_abs (svIndex s)) q (bsResults r)) qs ?res"
    unfolding list_all2_conv_all_nth
  proof (intro conjI allI impI)
    fix j assume j: "j < length qs"
    then have "bsResults (?res ! j) = g (?ps ! j)" by simp
    then show "query_answered s (ix_abs (svIndex s)) (qs ! j) (bsResults (?res ! j))"
      using bspec [OF g(1) nth(1) [OF j]] assms(6) unfolding nth(3,4) [OF j] query_answered_def by (simp only: simp_thms)
  qed simp
  moreover have "list_all2 (\<lambda>q r. \<exists>s'. Search env s (bqValues q) (bqK q) = Some (Inr (bsResults r), s')) qs ?res"
    unfolding list_all2_conv_all_nth
  proof (intro conjI allI impI)
    fix j assume "j < length qs"
    then have j: "answers env s (?ps ! j) (g (?ps ! j))" "bsResults (?res ! j) = g (?ps ! j)"
      using bspec [OF g(2) nth(1)] by simp_all
    obtain t' where "Search env (s\<lparr>svStats := svStats s\<rparr>) (pqVals (?ps ! j)) (accLimit (pqAcc (?ps ! j))) = Some (Inr (g (?ps ! j)), s\<lparr>svStats := t'\<rparr>)"
      using j(1) unfolding answers_def by blast
    then show "\<exists>s'. Search env s (bqValues (qs ! j)) (bqK (qs ! j)) = Some (Inr (bsResults (?res ! j)), s')"
      unfolding j(2) nth(3,4) [OF \<open>j < length qs\<close>] by simp
  qed simp
  ultimately show ?thesis using t(2) by blast
qed

section \<open>Properties\<close>

text \<open>A service that holds one vector, for examples.\<close>

lemma sample_loaded:
  "\<exists>s. svc_inv (any_inv set_env) any_abs s \<and> any_abs (svStore s) = foldl vput Map.empty [sample_vector] \<and>
     svSearchMode s = normalizeSearchMode mode \<and> svMaxK s = 10 \<and> svMaxVectorDim s = 4"
proof -
  obtain sw where "appendWALBatch (sample_env no_fault) (sample_service mode) (map upsert_op [sample_vector]) = (None, sw)"
    using sample_append by (metis prod.collapse)
  then obtain s where s: "any_svc.sv_next set_env (sample_service mode) (foldl vput (ix_abs (svIndex (sample_service mode))) [sample_vector])
      (svPersistence sw) s"
    using any_svc.AddVectors_logged [OF sample_env_ok(1) sample_env_ok(2) [of no_fault] sample_service_inv [of mode], of "[sample_vector]"] sample_vector_ok
    by fastforce
  have "svc_frame (sample_service mode) s" using s by (simp add: any_svc.sv_next_def)
  then have "svSearchMode s = normalizeSearchMode mode \<and> svMaxK s = 10 \<and> svMaxVectorDim s = 4"
    by (simp add: svc_frame_def sample_service_def service_initial_def sample_opts_def)
  moreover have "any_abs (svStore s) = foldl vput Map.empty [sample_vector]"
    unfolding any_next(2) [OF s] by (simp add: sample_service_def service_initial_def)
  ultimately show ?thesis using any_next(1) [OF s] by blast
qed

text \<open>
  C17. Paging is complete under concurrent writes: a client that follows the cursors, page \<open>i\<close> answered in the \<open>i\<close>-th of any
  sequence of states that satisfy the invariant, comes to an end once the sequence is longer than the number of identifiers in
  play. It then has vectors in strictly ascending order of identifiers (so none twice), each as it was stored in one of the states, and
  among them every identifier that was stored throughout.
\<close>

theorem paging_complete:
  assumes "seStore env = any_ops senv no_fault now" and "0 < limit" and "\<forall>s \<in> set ss. svc_inv (any_inv senv) any_abs s"
    and "finite U" and "\<forall>s \<in> set ss. dom (any_abs (svStore s)) \<subseteq> U" and "card U < length ss"
  shows "\<exists>vs. walk_pages env limit [] ss = Some vs \<and> sorted_wrt (<) (map vID vs) \<and>
    (\<forall>v \<in> set vs. \<exists>s \<in> set ss. vget (any_abs (svStore s)) (vID v) = Inr v) \<and>
    (\<forall>vid. (\<forall>s \<in> set ss. vid \<in> dom (any_abs (svStore s))) \<longrightarrow> vid \<in> vID ` set vs)"
proof -
  have map: "ix_abs (svIndex s) = any_abs (svStore s)" if "s \<in> set ss" for s using assms(3) that svc_inv_map by blast
  have "\<forall>s \<in> set ss. svc_inv (any_inv senv) any_abs s \<and> dom (ix_abs (svIndex s)) \<subseteq> U" using assms(3,5) map by simp
  then obtain vs where vs: "walk_pages env limit [] ss = Some vs" "walked (map (\<lambda>s. ix_abs (svIndex s)) ss) [] vs"
    using any_svc.walk_pages_ok [OF assms(1,2) _ assms(4), of ss "[]"] assms(6) by auto
  have "map (\<lambda>s. ix_abs (svIndex s)) ss = map (\<lambda>s. any_abs (svStore s)) ss" using map by simp
  then show ?thesis using vs by (intro exI [of _ vs]) (simp add: walked_def)
qed

theorem paging_complete_witness:
  "\<exists>(s :: string fset anyStore service) vs. any_abs (svStore s) = foldl vput Map.empty [sample_vector] \<and>
     walk_pages (sample_env no_fault) 1 [] [s, s] = Some vs \<and> ''a'' \<in> vID ` set vs"
proof -
  obtain s where s: "svc_inv (any_inv set_env) any_abs s" "any_abs (svStore s) = foldl vput Map.empty [sample_vector]"
    using sample_loaded by blast
  have "dom (any_abs (svStore s)) = {''a''}" by (auto simp: s(2) sample_vector_def vput_def)
  then show ?thesis
    using paging_complete [OF sample_env_ok(1), of 1 "[s, s]" "{''a''}"] s by force
qed

text \<open>
  C11. Search, in both modes. A request that does not validate is refused with its first error. Otherwise, if the stored vectors have the
  dimension of the query, the call returns without a panic: the top \<open>k\<close> of the stored vectors, or, in the approximate mode, at least one and at
  most \<open>k\<close> different stored vectors with their true distances. Only the counters change, and they stay
  consistent: requests are exact searches plus hits, approximate searches are hits plus fallbacks.
\<close>

theorem search_answers:
  assumes "svc_inv (any_inv senv) any_abs s" and "iter_ok (seIter env)" and "slice_sort_ok (seSort env)"
    and "query_fits (any_abs (svStore s)) vals"
  shows "\<exists>r t. Search env s vals k = Some (r, s\<lparr>svStats := t\<rparr>) \<and> (counters_ok (svStats s) \<longrightarrow> counters_ok t) \<and>
    (case validateSearchRequest s vals k of
       Some e \<Rightarrow> r = Inl e \<and> t = svStats s
     | None \<Rightarrow> \<exists>res. r = Inr res \<and> (exact_answer (any_abs (svStore s)) (ToFloat32 vals) k res \<or>
         svSearchMode s = ''ann'' \<and> ann_answer (svAnn s) (any_abs (svStore s)) (ToFloat32 vals) k res))"
proof (cases "validateSearchRequest s vals k")
  case (Some e)
  then show ?thesis by (intro exI [of _ "Inl e"] exI [of _ "svStats s"]) (simp add: Search_def)
next
  case None
  note map = svc_inv_map [OF assms(1)]
  obtain res where res: "exact_answer (any_abs (svStore s)) (ToFloat32 vals) k res \<or>
      svSearchMode s = ''ann'' \<and> ann_answer (svAnn s) (any_abs (svStore s)) (ToFloat32 vals) k res"
    "\<forall>t. \<exists>t'. Search env (s\<lparr>svStats := t\<rparr>) vals k = Some (Inr res, s\<lparr>svStats := t'\<rparr>) \<and> (counters_ok t \<longrightarrow> counters_ok t')"
    using Search_ok [OF assms(1,2,3) None] assms(4) unfolding map by blast
  obtain t where "Search env s vals k = Some (Inr res, s\<lparr>svStats := t\<rparr>)" "counters_ok (svStats s) \<longrightarrow> counters_ok t"
    using res(2) [rule_format, of "svStats s"] by auto
  then show ?thesis using res(1) None by auto
qed

lemma normalize_ann: "normalizeSearchMode ''ann'' = ''ann''"
  by (simp add: normalizeSearchMode_def lower_char_def TrimSpace_untrimmed untrimmed_def strip_one_def space_encodings_def)

theorem search_answers_witness:
  "\<exists>(s :: string fset anyStore service) r t. svSearchMode s = ''ann'' \<and> dom (any_abs (svStore s)) = {''a''} \<and>
     Search (sample_env no_fault) s [0] 3 = Some (Inr r, s\<lparr>svStats := t\<rparr>)"
proof -
  obtain s where s: "svc_inv (any_inv set_env) any_abs s" "any_abs (svStore s) = foldl vput Map.empty [sample_vector]"
    "svSearchMode s = ''ann''" "svMaxK s = 10" "svMaxVectorDim s = 4"
    using sample_loaded [of "''ann''"] normalize_ann by auto
  have "query_fits (any_abs (svStore s)) [0]" by (simp add: query_fits_def s(2) sample_vector_def)
  moreover have "slice_sort_ok (seSort (sample_env no_fault))" using key_sort_ok by (simp add: sample_env_def)
  moreover have "validateSearchRequest s [0] 3 = None" by (simp add: validateSearchRequest_def s(4,5))
  moreover have "dom (any_abs (svStore s)) = {''a''}" by (auto simp: s(2) sample_vector_def vput_def)
  ultimately show ?thesis
    using search_answers [OF s(1) sample_env_ok(2), of no_fault "[0]" 3] s(3) by auto
qed


lemma finite32_zero: "list_all finite32 (ToFloat32 [0])"
  by (simp add: ToFloat32_def finite32_def float_eval)


text \<open>
  C28. Batch search in the approximate mode equals single searches: for any number of processors and any order in which the goroutines
  finish, each query gets exactly the answer a single \<^verbatim>\<open>Search\<close> gives, in the slot of its query; only the counters change.
\<close>

theorem search_batch_ann_single:
  assumes "svc_inv (any_inv senv) any_abs s" and "iter_ok (seIter env)" and "slice_sort_ok (seSort env)"
    and "svSearchMode s = ''ann''" and "\<forall>q \<in> set qs. query_fits (any_abs (svStore s)) (bqValues q)"
    and "mset (seOrder env (length qs)) = mset [0..<length qs]" and "qs \<noteq> []" and "query_error s qs = None"
  shows "\<exists>res t. SearchBatch env s qs = Some (Inr res, s\<lparr>svStats := t\<rparr>) \<and> map bsID res = map2 query_name [0..<length qs] qs \<and>
    list_all2 (\<lambda>q b. \<exists>s'. Search env s (bqValues q) (bqK q) = Some (Inr (bsResults b), s')) qs res"
  using SearchBatch_ann_ok [OF assms(1,2,3,7,8,4) _ assms(6)] assms(5) unfolding svc_inv_map [OF assms(1)] by blast

theorem search_batch_ann_single_witness:
  "\<exists>(s :: string fset anyStore service) res t. dom (any_abs (svStore s)) = {''a''} \<and>
     SearchBatch ((sample_env no_fault)\<lparr>seProcs := 4, seOrder := (\<lambda>n. rev [0..<n])\<rparr>) s (replicate 3 \<lparr>bqID = ''q'', bqValues = [0], bqK = 2\<rparr>) =
       Some (Inr res, s\<lparr>svStats := t\<rparr>) \<and> length res = 3"
proof -
  obtain s where s: "svc_inv (any_inv set_env) any_abs s" "any_abs (svStore s) = foldl vput Map.empty [sample_vector]"
    "svSearchMode s = ''ann''" "svMaxK s = 10" "svMaxVectorDim s = 4"
    using sample_loaded [of "''ann''"] normalize_ann by auto
  let ?qs = "replicate 3 \<lparr>bqID = ''q'', bqValues = [0], bqK = 2\<rparr>"
  let ?env = "(sample_env no_fault)\<lparr>seProcs := 4, seOrder := (\<lambda>n. rev [0..<n])\<rparr>"
  have fit: "\<forall>q \<in> set ?qs. query_fits (any_abs (svStore s)) (bqValues q)" by (simp add: query_fits_def s(2) sample_vector_def)
  have env: "iter_ok (seIter ?env)" "slice_sort_ok (seSort ?env)" "mset (seOrder ?env (length ?qs)) = mset [0..<length ?qs]"
    using key_sort_ok by (simp_all add: sample_env_def)
  have ok: "?qs \<noteq> []" "query_error s ?qs = None" by (simp_all add: validateSearchRequest_def s(4,5) numeral_3_eq_3)
  have "dom (any_abs (svStore s)) = {''a''}" by (auto simp: s(2) sample_vector_def vput_def)
  moreover obtain res t where "SearchBatch ?env s ?qs = Some (Inr res, s\<lparr>svStats := t\<rparr>)"
    "list_all2 (\<lambda>q b. \<exists>s'. Search ?env s (bqValues q) (bqK q) = Some (Inr (bsResults b), s')) ?qs res"
    using search_batch_ann_single [OF s(1) env(1,2) s(3) fit env(3) ok] by blast
  moreover have "length res = 3" using list_all2_lengthD [OF calculation(3)] by simp
  ultimately show ?thesis by blast
qed

end
