(* ===== verification/Interleaving.thy ===== *)
theory Interleaving
  imports ServiceReads
begin

text \<open>
  Reads while a write is under way. The writing operations of \<^verbatim>\<open>internal/core/service.go\<close> hold \<^verbatim>\<open>persistMu\<close>, which keeps other writers out, but the reading
  operations do not take it: they run between the critical sections of the index, the store, the resolver and the approximate index. A write is given as a machine whose
  steps are these sections; \<open>interleaved\<close> collects its executions with reads of the store and exact searches in between, each with its own clock, iteration order and
  faults. The locale \<open>observed\<close> is the contract of such a machine: an invariant that its sections and the reads keep, and the maps a read may see.
\<close>

section \<open>Executions\<close>

datatype readEvent = Got string "vector result" | Found "float64 list" int "searchResult list result"

inductive interleaved :: "('v serviceEnv \<Rightarrow> 'p \<Rightarrow> 'v service \<Rightarrow> ('p \<times> 'v service) option) \<Rightarrow> 'v serviceEnv set \<Rightarrow> 'p \<Rightarrow> 'v service \<Rightarrow>
    readEvent list \<Rightarrow> 'p \<Rightarrow> 'v service \<Rightarrow> bool"
  for sect :: "'v serviceEnv \<Rightarrow> 'p \<Rightarrow> 'v service \<Rightarrow> ('p \<times> 'v service) option" and E :: "'v serviceEnv set" and pc0 :: 'p and s0 :: "'v service" where
  start: "interleaved sect E pc0 s0 [] pc0 s0"
| step: "interleaved sect E pc0 s0 evs pc s \<Longrightarrow> env \<in> E \<Longrightarrow> sect env pc s = Some (pc', s') \<Longrightarrow> interleaved sect E pc0 s0 evs pc' s'"
| get: "interleaved sect E pc0 s0 evs pc s \<Longrightarrow> env \<in> E \<Longrightarrow> Service_GetVector env s vid = (r, s') \<Longrightarrow>
    interleaved sect E pc0 s0 (evs @ [Got vid r]) pc s'"
| search: "interleaved sect E pc0 s0 evs pc s \<Longrightarrow> env \<in> E \<Longrightarrow> svSearchMode s \<noteq> ''ann'' \<Longrightarrow> Search env s vals k = Some (r, s') \<Longrightarrow>
    interleaved sect E pc0 s0 (evs @ [Found vals k r]) pc s'"

definition on_store :: "'t storeEnv \<Rightarrow> 't anyStore serviceEnv \<Rightarrow> bool" where
  "on_store senv env \<longleftrightarrow> (\<exists>now. seStore env = any_ops senv no_fault now) \<and> iter_ok (seIter env) \<and> slice_sort_ok (seSort env)"

lemma sample_on_store: "on_store set_env (sample_env flt)"
  using sample_env_ok [of flt] key_sort_ok by (auto simp: on_store_def sample_env_def)

text \<open>What a read returned: the value, or the nearest vectors, of a map it may see.\<close>

fun read_ok :: "(vmap \<Rightarrow> bool) \<Rightarrow> readEvent \<Rightarrow> bool" where
  "read_ok sees (Got vid r) = (if TrimSpace vid = [] then r = Inl ErrInvalidID else \<exists>m. sees m \<and> r = vget m vid)"
| "read_ok sees (Found vals k (Inl e)) = True"
| "read_ok sees (Found vals k (Inr res)) = (\<exists>m. sees m \<and> (query_fits m vals \<longrightarrow> exact_answer m (ToFloat32 vals) k res))"

lemma read_okI:
  "(\<And>res. r = Inr res \<Longrightarrow> sees m \<and> (query_fits m vals \<longrightarrow> exact_answer m (ToFloat32 vals) k res)) \<Longrightarrow> read_ok sees (Found vals k r)"
  by (cases r) auto

section \<open>What the reads change\<close>

context service_store
begin

lemma get_frame:
  assumes "seStore env = st" and "inv (svStore s)" and "Service_GetVector env s vid = (r, s')"
  shows "\<exists>v. s' = s\<lparr>svStore := v, svStats := svStats s\<rparr> \<and> inv v \<and> abs v = abs (svStore s) \<and>
    r = (if TrimSpace vid = [] then Inl ErrInvalidID else vget (abs (svStore s)) vid)"
proof (cases "TrimSpace vid = []")
  case True
  then show ?thesis using assms by (intro exI [of _ "svStore s"]) (simp add: Service_GetVector_def)
next
  case False
  obtain r1 v where g: "stGetVector st (svStore s) vid = (r1, v)" by force
  from vs.getv [OF assms(2) g] have "inv v" "abs v = abs (svStore s)" "r1 = vget (abs (svStore s)) vid" by auto
  then show ?thesis using assms(1,3) False g by (intro exI [of _ v]) (auto simp: Service_GetVector_def)
qed

end

lemma Search_exact_frame:
  assumes "svSearchMode s \<noteq> ''ann''" and "Search env s vals k = Some (r, s')"
  shows "\<exists>t. s' = s\<lparr>svStats := t\<rparr>"
proof (cases "validateSearchRequest s vals k")
  case None
  then show ?thesis using assms by (auto simp: Search_def Let_def inc_stat_def)
next
  case (Some e)
  then show ?thesis using assms by (intro exI [of _ "svStats s"]) (simp add: Search_def)
qed

lemma Search_exact_answer:
  assumes "svSearchMode s \<noteq> ''ann''" and "Search env s vals k = Some (Inr res, s')" and "iter_ok (seIter env)" and "slice_sort_ok (seSort env)"
    and "ix_wf (svIndex s)" and "query_fits (ix_abs (svIndex s)) vals"
  shows "exact_answer (ix_abs (svIndex s)) (ToFloat32 vals) k res"
proof -
  have v: "validateSearchRequest s vals k = None" using assms(2) by (cases "validateSearchRequest s vals k") (simp_all add: Search_def)
  then have "0 < k" by (simp add: validateSearchRequest_def split: if_splits)
  moreover have "searchExact (seIter env) (seSort env) (svIndex s) vals k = Some res"
    using assms(1,2) v by (auto simp: Search_def Let_def inc_stat_def service_searchExact_def)
  ultimately show ?thesis using searchExact_topk [OF assms(5,3,4), of k vals] assms(6) by (auto simp: query_fits_def exact_answer_def ix_cands_vm)
qed

section \<open>The contract of a write\<close>

locale observed =
  fixes senv :: "'t storeEnv" and sect :: "'t anyStore serviceEnv \<Rightarrow> 'p \<Rightarrow> 't anyStore service \<Rightarrow> ('p \<times> 't anyStore service) option"
    and holds :: "'p \<Rightarrow> 't anyStore service \<Rightarrow> bool" and sees :: "vmap \<Rightarrow> bool"
  assumes sections: "holds pc s \<Longrightarrow> on_store senv env \<Longrightarrow> sect env pc s = Some (pc', s') \<Longrightarrow> holds pc' s'"
    and reads: "holds pc s \<Longrightarrow> any_inv senv v \<Longrightarrow> any_abs v = any_abs (svStore s) \<Longrightarrow> holds pc (s\<lparr>svStore := v, svStats := t\<rparr>)"
    and visible: "holds pc s \<Longrightarrow> any_inv senv (svStore s) \<and> ix_wf (svIndex s) \<and> sees (ix_abs (svIndex s)) \<and> sees (any_abs (svStore s))"
begin

theorem interleaved_holds:
  assumes "interleaved sect E pc0 s0 evs pc s" and "\<forall>env \<in> E. on_store senv env" and "holds pc0 s0"
  shows "holds pc s \<and> list_all (read_ok sees) evs"
  using assms(1)
proof (induction rule: interleaved.induct)
  case start
  then show ?case using assms(3) by simp
next
  case (step evs pc s env pc' s')
  then show ?case using sections assms(2) by blast
next
  case (get evs pc s env vid r s')
  obtain now where now: "seStore env = any_ops senv no_fault now" using assms(2) get.hyps(2) by (auto simp: on_store_def)
  note v = visible [OF conjunct1 [OF get.IH]]
  obtain v' where g: "s' = s\<lparr>svStore := v', svStats := svStats s\<rparr>" "any_inv senv v'" "any_abs v' = any_abs (svStore s)"
      "r = (if TrimSpace vid = [] then Inl ErrInvalidID else vget (any_abs (svStore s)) vid)"
    using any_svc.get_frame [OF now conjunct1 [OF v] get.hyps(3)] by blast
  have "holds pc s'" unfolding g(1) using reads [OF conjunct1 [OF get.IH] g(2,3)] .
  then show ?case using get.IH v g(4) by auto
next
  case (search evs pc s env vals k r s')
  note v = visible [OF conjunct1 [OF search.IH]]
  obtain t where t: "s' = s\<lparr>svStore := svStore s, svStats := t\<rparr>" using Search_exact_frame [OF search.hyps(3,4)] by auto
  have "holds pc s'" unfolding t using reads search.IH v by blast
  moreover have "iter_ok (seIter env)" "slice_sort_ok (seSort env)" using assms(2) search.hyps(2) by (auto simp: on_store_def)
  then have "read_ok sees (Found vals k r)" using v Search_exact_answer [OF search.hyps(3)] search.hyps(4) by (auto intro!: read_okI)
  ultimately show ?case using search.IH by simp
qed

end

end
