(* ===== verification/Concurrent.thy ===== *)
theory Concurrent
  imports Interleaving
begin

text \<open>
  Reads while a batch is being added: \<^verbatim>\<open>AddVectors\<close> of \<^verbatim>\<open>internal/core/service.go\<close> as a machine of its critical sections. The rebuild of the approximate index,
  which reads of the store and exact searches do not look at, is one step, as is a call of the store.
\<close>

section \<open>The critical sections of a batch\<close>

text \<open>Where the operation stands: the identifiers added so far, what is left of the loop, and the error to return once all is undone.\<close>

datatype addPoint =
    IndexNext "string list" "vector list"
  | StoreBatch "string list"
  | AnnAssign "string list" "vector list"
  | AnnAdd "string list" int vector "vector list"
  | AnnUndoStore "string list" goerror string
  | AnnUndoIndex "string list" goerror string
  | LogBatch "string list"
  | RollStore goerror "string list"
  | RollIndex goerror string "string list"
  | RollRebuild goerror
  | MaybeSnapshot
  | Finished "goerror option"

fun add_section :: "'v serviceEnv \<Rightarrow> vector list \<Rightarrow> addPoint \<Rightarrow> 'v service \<Rightarrow> (addPoint \<times> 'v service) option" where
  "add_section env vectors (IndexNext added []) s = Some (StoreBatch added, s)"
| "add_section env vectors (IndexNext added (vec # vecs)) s =
     (case check_vector s vec of Some e \<Rightarrow> Some (RollStore e added, s)
      | None \<Rightarrow>
          (case Index_AddVector (svIndex s) vec of
             (Some e, i) \<Rightarrow> Some (RollStore e added, s\<lparr>svIndex := i\<rparr>)
           | (None, i) \<Rightarrow> Some (IndexNext (added @ [vID vec]) vecs, s\<lparr>svIndex := i\<rparr>)))"
| "add_section env vectors (StoreBatch added) s =
     (case upsertVectors env s vectors of
        (Some e, s') \<Rightarrow> Some (RollStore e added, s')
      | (None, s') \<Rightarrow> Some (AnnAssign added vectors, s'))"
| "add_section env vectors (AnnAssign added []) s = Some (LogBatch added, s)"
| "add_section env vectors (AnnAssign added (vec # vecs)) s =
     (case Assign (svResolver s) (vID vec) of (internalID, r) \<Rightarrow> Some (AnnAdd added internalID vec vecs, s\<lparr>svResolver := r\<rparr>))"
| "add_section env vectors (AnnAdd added internalID vec vecs) s =
     (case addANNVector env s internalID (vValues vec) of
        None \<Rightarrow> None
      | Some (Some e, s') \<Rightarrow> Some (AnnUndoStore added e (vID vec), s')
      | Some (None, s') \<Rightarrow> Some (AnnAssign added vecs, s'))"
| "add_section env vectors (AnnUndoStore added e vid) s =
     Some (AnnUndoIndex added e vid, s\<lparr>svStore := snd (stDeleteVector (seStore env) (svStore s) vid)\<rparr>)"
| "add_section env vectors (AnnUndoIndex added e vid) s =
     Some (RollStore e added, s\<lparr>svIndex := snd (Index_DeleteVector (svIndex s) vid)\<rparr>)"
| "add_section env vectors (LogBatch added) s =
     (case appendWALBatch env s (map upsert_op vectors) of
        (Some e, s') \<Rightarrow> Some (RollStore e added, s')
      | (None, s') \<Rightarrow> Some (MaybeSnapshot, s'))"
| "add_section env vectors (RollStore e []) s = Some (RollRebuild e, s)"
| "add_section env vectors (RollStore e (vid # ids)) s =
     Some (RollIndex e vid ids, s\<lparr>svStore := snd (stDeleteVector (seStore env) (svStore s) vid)\<rparr>)"
| "add_section env vectors (RollIndex e vid ids) s = Some (RollStore e ids, s\<lparr>svIndex := snd (Index_DeleteVector (svIndex s) vid)\<rparr>)"
| "add_section env vectors (RollRebuild e) s = map_option (\<lambda>s'. (Finished (Some e), s')) (rebuildANNLocked env s)"
| "add_section env vectors MaybeSnapshot s = (case maybeSnapshot env s of (e, s') \<Rightarrow> Some (Finished e, s'))"
| "add_section env vectors (Finished e) s = None"

text \<open>Every section brings the operation nearer to its end.\<close>

fun add_rank :: "vector list \<Rightarrow> addPoint \<Rightarrow> nat" where
  "add_rank vectors (IndexNext added todo) = 3 * (length added + length todo) + length todo + 7 + 2 * length vectors"
| "add_rank vectors (StoreBatch added) = 3 * length added + 6 + 2 * length vectors"
| "add_rank vectors (AnnAssign added todo) = 3 * length added + 5 + 2 * length todo"
| "add_rank vectors (AnnAdd added n v todo) = 3 * length added + 6 + 2 * length todo"
| "add_rank vectors (AnnUndoStore added e vid) = 3 * length added + 4"
| "add_rank vectors (AnnUndoIndex added e vid) = 3 * length added + 3"
| "add_rank vectors (LogBatch added) = 3 * length added + 3"
| "add_rank vectors (RollStore e ids) = 3 * length ids + 2"
| "add_rank vectors (RollIndex e vid ids) = 3 * length ids + 4"
| "add_rank vectors (RollRebuild e) = 1"
| "add_rank vectors MaybeSnapshot = 1"
| "add_rank vectors (Finished e) = 0"

lemma add_section_rank: "add_section env vectors pc s = Some (pc', s') \<Longrightarrow> add_rank vectors pc' < add_rank vectors pc"
  by (cases "(env, vectors, pc, s)" rule: add_section.cases) (auto split: option.splits prod.splits)

section \<open>Executions\<close>

abbreviation adding :: "'v serviceEnv set \<Rightarrow> vector list \<Rightarrow> 'v service \<Rightarrow> readEvent list \<Rightarrow> addPoint \<Rightarrow> 'v service \<Rightarrow> bool" where
  "adding E vectors s0 \<equiv> interleaved (\<lambda>env. add_section env vectors) E (IndexNext [] vectors) s0"

text \<open>With no read in between the sections are \<^verbatim>\<open>AddVectors\<close>.\<close>

lemma sections_index:
  "adding E vectors s0 evs (IndexNext added todo) s \<Longrightarrow> env \<in> E \<Longrightarrow> index_vectors s added todo = (e, added', s') \<Longrightarrow>
   adding E vectors s0 evs (case e of None \<Rightarrow> StoreBatch added' | Some x \<Rightarrow> RollStore x added') s'"
proof (induction todo arbitrary: added s)
  case Nil
  then show ?case by (auto intro: interleaved.step)
next
  case (Cons v todo)
  have step: "adding E vectors s0 evs pc t" if "add_section env vectors (IndexNext added (v # todo)) s = Some (pc, t)" for pc t
    using interleaved.step [OF Cons.prems(1,2) that] .
  show ?case
  proof (cases "check_vector s v")
    case (Some x)
    have "adding E vectors s0 evs (RollStore x added) s" by (rule step) (simp add: Some)
    moreover have "e = Some x" "added' = added" "s' = s" using Cons.prems(3) Some by auto
    ultimately show ?thesis by simp
  next
    case None
    obtain e1 i where ai: "Index_AddVector (svIndex s) v = (e1, i)" by force
    show ?thesis
    proof (cases e1)
      case (Some x)
      have "adding E vectors s0 evs (RollStore x added) (s\<lparr>svIndex := i\<rparr>)" by (rule step) (simp add: Some None ai)
      moreover have "e = Some x" "added' = added" "s' = s\<lparr>svIndex := i\<rparr>" using Cons.prems(3) Some None ai by auto
      ultimately show ?thesis by simp
    next
      case n: None
      have "adding E vectors s0 evs (IndexNext (added @ [vID v]) todo) (s\<lparr>svIndex := i\<rparr>)" using step [of "IndexNext (added @ [vID v]) todo" "s\<lparr>svIndex := i\<rparr>"] None ai n by simp
      then show ?thesis using Cons.IH [OF _ Cons.prems(2)] Cons.prems(3) None ai n by simp
    qed
  qed
qed

lemma sections_roll:
  "adding E vectors s0 evs (RollStore e ids) s \<Longrightarrow> env \<in> E \<Longrightarrow> adding E vectors s0 evs (RollRebuild e) (remove_ids env s ids)"
proof (induction ids arbitrary: s)
  case Nil
  then show ?case by (auto intro: interleaved.step)
next
  case (Cons vid ids)
  let ?s = "s\<lparr>svStore := snd (stDeleteVector (seStore env) (svStore s) vid)\<rparr>"
  have "adding E vectors s0 evs (RollIndex e vid ids) ?s" using interleaved.step [OF Cons.prems] by simp
  from interleaved.step [OF this Cons.prems(2)]
  have "adding E vectors s0 evs (RollStore e ids) (?s\<lparr>svIndex := snd (Index_DeleteVector (svIndex s) vid)\<rparr>)" by simp
  then show ?case using Cons.IH [OF _ Cons.prems(2)] by simp
qed

lemma sections_fail:
  assumes "adding E vectors s0 evs (RollStore e ids) s" and "env \<in> E" and "fail_with env s ids e = Some (r, s')"
  shows "adding E vectors s0 evs (Finished r) s'"
  using interleaved.step [OF sections_roll [OF assms(1,2)] assms(2)] assms(3)
  by (auto simp: fail_with_def rollbackAddedVectors_def)

lemma sections_ann:
  "adding E vectors s0 evs (AnnAssign added todo) s \<Longrightarrow> env \<in> E \<Longrightarrow> ann_vectors env s todo = Some (e, s') \<Longrightarrow>
   adding E vectors s0 evs (case e of None \<Rightarrow> LogBatch added | Some x \<Rightarrow> RollStore x added) s'"
proof (induction todo arbitrary: s)
  case Nil
  then show ?case by (auto intro: interleaved.step)
next
  case (Cons v todo)
  obtain n r where as: "Assign (svResolver s) (vID v) = (n, r)" by force
  have "adding E vectors s0 evs (AnnAdd added n v todo) (s\<lparr>svResolver := r\<rparr>)"
    using interleaved.step [OF Cons.prems(1,2)] as by simp
  note step = interleaved.step [OF this Cons.prems(2)]
  obtain e1 s1 where ad: "addANNVector env (s\<lparr>svResolver := r\<rparr>) n (vValues v) = Some (e1, s1)"
    using Cons.prems(3) as by (auto split: option.splits)
  show ?case
  proof (cases e1)
    case None
    then have "adding E vectors s0 evs (AnnAssign added todo) s1" using step ad by simp
    then show ?thesis using Cons.IH [OF _ Cons.prems(2)] Cons.prems(3) as ad None by simp
  next
    case (Some x)
    then have "adding E vectors s0 evs (AnnUndoStore added x (vID v)) s1" using step ad by simp
    from interleaved.step [OF interleaved.step [OF this Cons.prems(2)] Cons.prems(2)]
    show ?thesis using Cons.prems(3) as ad Some by auto
  qed
qed

lemma sections_log:
  assumes "adding E vectors s0 evs (LogBatch added) s" and "env \<in> E"
    and "(case appendWALBatch env s (map upsert_op vectors) of
        (Some e, s4) \<Rightarrow> fail_with env s4 added e | (None, s4) \<Rightarrow> Some (maybeSnapshot env s4)) = Some (r, s')"
  shows "adding E vectors s0 evs (Finished r) s'"
proof -
  obtain e s4 where l: "appendWALBatch env s (map upsert_op vectors) = (e, s4)" by force
  show ?thesis
  proof (cases e)
    case None
    have "adding E vectors s0 evs MaybeSnapshot s4" using interleaved.step [OF assms(1,2)] l None by simp
    from interleaved.step [OF this assms(2)] show ?thesis using assms(3) l None by simp
  next
    case (Some x)
    have "adding E vectors s0 evs (RollStore x added) s4" using interleaved.step [OF assms(1,2)] l Some by simp
    then show ?thesis using sections_fail [OF _ assms(2)] assms(3) l Some by simp
  qed
qed

lemma sections_store:
  assumes "adding E vectors s0 evs (StoreBatch added) s" and "env \<in> E"
    and "(case upsertVectors env s vectors of
        (Some e, s2) \<Rightarrow> fail_with env s2 added e
      | (None, s2) \<Rightarrow>
          (case ann_vectors env s2 vectors of
             None \<Rightarrow> None
           | Some (Some e, s3) \<Rightarrow> fail_with env s3 added e
           | Some (None, s3) \<Rightarrow>
               (case appendWALBatch env s3 (map upsert_op vectors) of
                  (Some e, s4) \<Rightarrow> fail_with env s4 added e
                | (None, s4) \<Rightarrow> Some (maybeSnapshot env s4)))) = Some (r, s')"
  shows "adding E vectors s0 evs (Finished r) s'"
proof -
  obtain e s2 where u: "upsertVectors env s vectors = (e, s2)" by force
  show ?thesis
  proof (cases e)
    case (Some x)
    have "adding E vectors s0 evs (RollStore x added) s2" using interleaved.step [OF assms(1,2)] u Some by simp
    then show ?thesis using sections_fail [OF _ assms(2)] assms(3) u Some by simp
  next
    case None
    have p: "adding E vectors s0 evs (AnnAssign added vectors) s2" using interleaved.step [OF assms(1,2)] u None by simp
    obtain e3 s3 where a: "ann_vectors env s2 vectors = Some (e3, s3)" using assms(3) u None by (auto split: option.splits)
    show ?thesis
    proof (cases e3)
      case (Some x)
      then show ?thesis using sections_fail [OF _ assms(2)] sections_ann [OF p assms(2) a] assms(3) u None a by simp
    next
      case n: None
      then show ?thesis using sections_log [OF _ assms(2)] sections_ann [OF p assms(2) a] assms(3) u None a by simp
    qed
  qed
qed

lemma AddVectors_sections:
  assumes "vectors \<noteq> []" and "env \<in> E" and "AddVectors env s vectors = Some (r, s')"
  shows "adding E vectors s [] (Finished r) s'"
proof -
  obtain e added s1 where iv: "index_vectors s [] vectors = (e, added, s1)" by (metis prod_cases3)
  note p = sections_index [OF interleaved.start assms(2) iv]
  show ?thesis
  proof (cases e)
    case (Some x)
    then show ?thesis using sections_fail [OF _ assms(2)] p assms(1,3) iv by (simp add: AddVectors_def)
  next
    case None
    then show ?thesis using sections_store [OF _ assms(2)] p assms(1,3) iv by (simp add: AddVectors_def)
  qed
qed

section \<open>What a read can see\<close>

text \<open>
  A map as a read may find it: every identifier has its old value or, if it had none and is in \<open>I\<close>, the value of a vector of the batch.
\<close>

definition seen_in :: "string set \<Rightarrow> vmap \<Rightarrow> vector list \<Rightarrow> vmap \<Rightarrow> bool" where
  "seen_in I m0 vectors m \<longleftrightarrow>
     (\<forall>k. m k = m0 k \<or> k \<in> I \<and> m0 k = None \<and> (\<exists>v \<in> set vectors. vID v = k \<and> m k = Some (ToFloat32 (vValues v))))"

abbreviation old_or_new :: "vmap \<Rightarrow> vector list \<Rightarrow> vmap \<Rightarrow> bool" where
  "old_or_new \<equiv> seen_in UNIV"

lemma seen_in_refl [simp]: "seen_in I m vectors m"
  by (simp add: seen_in_def)

lemma seen_in_mono: "seen_in I m0 vectors m \<Longrightarrow> I \<subseteq> J \<Longrightarrow> seen_in J m0 vectors m"
  by (auto simp: seen_in_def)

lemma seen_in_empty: "seen_in {} m0 vectors m \<Longrightarrow> m = m0"
  by (auto simp: seen_in_def)

lemma seen_in_remove: "seen_in (insert k I) m0 vectors m \<Longrightarrow> m0 k = None \<Longrightarrow> seen_in I m0 vectors (m(k := None))"
  by (auto simp: seen_in_def)

lemma seen_in_delete: "seen_in I m0 vectors m \<Longrightarrow> m0 k = None \<Longrightarrow> seen_in I m0 vectors (m(k := None))"
  by (auto simp: seen_in_def)

lemma seen_in_put: "seen_in I m0 vectors m \<Longrightarrow> m0 (vID v) = None \<Longrightarrow> v \<in> set vectors \<Longrightarrow> seen_in (insert (vID v) I) m0 vectors (vput m v)"
  by (auto simp: seen_in_def)

lemma seen_in_foldl:
  "set pre \<subseteq> set vectors \<Longrightarrow> vID ` set pre \<inter> dom m0 = {} \<Longrightarrow> seen_in (vID ` set pre) m0 vectors (foldl vput m0 pre)"
proof (induction pre rule: rev_induct)
  case (snoc v pre)
  then have "seen_in (vID ` set pre) m0 vectors (foldl vput m0 pre)" "m0 (vID v) = None" "v \<in> set vectors"
    by (auto simp: domIff simp del: vput_apply)
  from seen_in_put [OF this] show ?case by (simp del: vput_apply)
qed simp

text \<open>The part of the batch that has been indexed: new, distinct identifiers of vectors that pass the checks.\<close>

definition batch_new :: "'v service \<Rightarrow> vector list \<Rightarrow> string list \<Rightarrow> bool" where
  "batch_new s0 pre added \<longleftrightarrow>
     added = map vID pre \<and> distinct added \<and> (\<forall>k \<in> set added. ix_abs (svIndex s0) k = None) \<and> (\<forall>v \<in> set pre. check_vector s0 v = None)"

lemma batch_new_seen:
  "batch_new s0 pre added \<Longrightarrow> set pre \<subseteq> set vectors \<Longrightarrow> seen_in (set added) (ix_abs (svIndex s0)) vectors (foldl vput (ix_abs (svIndex s0)) pre)"
  using seen_in_foldl [of pre vectors "ix_abs (svIndex s0)"] by (simp add: batch_new_def disjoint_iff domIff)

lemma batch_new_error:
  assumes "batch_new s0 vectors added"
  shows "batch_error s0 (dom (ix_abs (svIndex s0))) vectors = None"
proof -
  have "batch_error s0 D vs = None" if "distinct (map vID vs)" "vID ` set vs \<inter> D = {}" "\<forall>v \<in> set vs. check_vector s0 v = None" for D vs
    using that by (induction vs arbitrary: D) auto
  from this [of vectors "dom (ix_abs (svIndex s0))"] assms show ?thesis by (auto simp: batch_new_def disjoint_iff domIff)
qed

section \<open>The invariant at every point\<close>

text \<open>What holds at each point, with the map \<open>m0\<close> before the operation and the map \<open>full\<close> with the batch.\<close>

fun point_inv :: "('v service \<Rightarrow> bool) \<Rightarrow> ('v \<Rightarrow> vmap) \<Rightarrow> 'v service \<Rightarrow> vector list \<Rightarrow> addPoint \<Rightarrow> 'v service \<Rightarrow> bool" where
  "point_inv I ab s0 vs (IndexNext added todo) s \<longleftrightarrow>
     (\<exists>pre. vs = pre @ todo \<and> batch_new s0 pre added \<and> ix_abs (svIndex s) = foldl vput (ix_abs (svIndex s0)) pre \<and>
        ab (svStore s) = ix_abs (svIndex s0) \<and> ann_holds (svResolver s) (svAnn s) (ix_abs (svIndex s0)))"
| "point_inv I ab s0 vs (StoreBatch added) s \<longleftrightarrow>
     batch_new s0 vs added \<and> ix_abs (svIndex s) = foldl vput (ix_abs (svIndex s0)) vs \<and> ab (svStore s) = ix_abs (svIndex s0) \<and>
     ann_holds (svResolver s) (svAnn s) (ix_abs (svIndex s0))"
| "point_inv I ab s0 vs (AnnAssign added todo) s \<longleftrightarrow>
     (\<exists>pre. vs = pre @ todo \<and> batch_new s0 vs added \<and> ix_abs (svIndex s) = foldl vput (ix_abs (svIndex s0)) vs \<and>
        ab (svStore s) = foldl vput (ix_abs (svIndex s0)) vs \<and> ann_holds (svResolver s) (svAnn s) (foldl vput (ix_abs (svIndex s0)) pre))"
| "point_inv I ab s0 vs (AnnAdd added n v todo) s \<longleftrightarrow>
     (\<exists>pre r. vs = pre @ v # todo \<and> batch_new s0 vs added \<and> ix_abs (svIndex s) = foldl vput (ix_abs (svIndex s0)) vs \<and>
        ab (svStore s) = foldl vput (ix_abs (svIndex s0)) vs \<and> ann_holds r (svAnn s) (foldl vput (ix_abs (svIndex s0)) pre) \<and>
        Assign r (vID v) = (n, svResolver s))"
| "point_inv I ab s0 vs (LogBatch added) s \<longleftrightarrow>
     batch_new s0 vs added \<and> ix_abs (svIndex s) = foldl vput (ix_abs (svIndex s0)) vs \<and>
     ab (svStore s) = foldl vput (ix_abs (svIndex s0)) vs \<and> ann_holds (svResolver s) (svAnn s) (foldl vput (ix_abs (svIndex s0)) vs)"
| "point_inv I ab s0 vs (AnnUndoStore added e vid) s \<longleftrightarrow>
     vid \<in> set added \<and> (\<forall>k \<in> set added. ix_abs (svIndex s0) k = None) \<and> seen_in (set added) (ix_abs (svIndex s0)) vs (ix_abs (svIndex s)) \<and>
     seen_in (set added) (ix_abs (svIndex s0)) vs (ab (svStore s))"
| "point_inv I ab s0 vs (AnnUndoIndex added e vid) s \<longleftrightarrow>
     vid \<in> set added \<and> (\<forall>k \<in> set added. ix_abs (svIndex s0) k = None) \<and> seen_in (set added) (ix_abs (svIndex s0)) vs (ix_abs (svIndex s)) \<and>
     seen_in (set added) (ix_abs (svIndex s0)) vs (ab (svStore s))"
| "point_inv I ab s0 vs (RollStore e ids) s \<longleftrightarrow>
     (\<forall>k \<in> set ids. ix_abs (svIndex s0) k = None) \<and> seen_in (set ids) (ix_abs (svIndex s0)) vs (ix_abs (svIndex s)) \<and>
     seen_in (set ids) (ix_abs (svIndex s0)) vs (ab (svStore s))"
| "point_inv I ab s0 vs (RollIndex e vid ids) s \<longleftrightarrow>
     (\<forall>k \<in> insert vid (set ids). ix_abs (svIndex s0) k = None) \<and> seen_in (insert vid (set ids)) (ix_abs (svIndex s0)) vs (ix_abs (svIndex s)) \<and>
     seen_in (set ids) (ix_abs (svIndex s0)) vs (ab (svStore s))"
| "point_inv I ab s0 vs (RollRebuild e) s \<longleftrightarrow> ix_abs (svIndex s) = ix_abs (svIndex s0) \<and> ab (svStore s) = ix_abs (svIndex s0)"
| "point_inv I ab s0 vs MaybeSnapshot s \<longleftrightarrow> batch_new s0 vs (map vID vs) \<and> I s \<and> ix_abs (svIndex s) = foldl vput (ix_abs (svIndex s0)) vs"
| "point_inv I ab s0 vs (Finished r) s \<longleftrightarrow>
     I s \<and> (ix_abs (svIndex s) = ix_abs (svIndex s0) \<and> r \<noteq> None \<or>
       batch_new s0 vs (map vID vs) \<and> ix_abs (svIndex s) = foldl vput (ix_abs (svIndex s0)) vs)"

definition add_inv :: "('v \<Rightarrow> bool) \<Rightarrow> ('v \<Rightarrow> vmap) \<Rightarrow> 'v service \<Rightarrow> vector list \<Rightarrow> addPoint \<Rightarrow> 'v service \<Rightarrow> bool" where
  "add_inv sinv sabs s0 vs pc s \<longleftrightarrow> sinv (svStore s) \<and> ix_wf (svIndex s) \<and> res_wf (svResolver s) \<and> svMaxVectorDim s = svMaxVectorDim s0 \<and>
     point_inv (svc_inv sinv sabs) sabs s0 vs pc s"

lemma add_inv_seen:
  assumes "add_inv sinv sabs s0 vs pc s"
  shows "old_or_new (ix_abs (svIndex s0)) vs (ix_abs (svIndex s)) \<and> old_or_new (ix_abs (svIndex s0)) vs (sabs (svStore s))"
proof -
  have all: "old_or_new (ix_abs (svIndex s0)) vs (foldl vput (ix_abs (svIndex s0)) pre)" if "batch_new s0 pre added" "set pre \<subseteq> set vs" for pre added
    using batch_new_seen [OF that] seen_in_mono by blast
  have up: "seen_in J m0 vs m \<Longrightarrow> old_or_new m0 vs m" for J m0 m by (rule seen_in_mono) simp_all
  show ?thesis using assms by (cases pc) (auto simp: add_inv_def svc_inv_def dest: all intro: all up)
qed

text \<open>A read changes at most the counters and the inside of the store.\<close>

lemma add_inv_read:
  assumes "add_inv sinv sabs s0 vs pc s" and "sinv v" and "sabs v = sabs (svStore s)"
  shows "add_inv sinv sabs s0 vs pc (s\<lparr>svStore := v, svStats := t\<rparr>)"
  using assms by (cases pc) (auto simp: add_inv_def svc_inv_def)

lemma check_vector_cong: "svMaxVectorDim s = svMaxVectorDim s0 \<Longrightarrow> check_vector s v = check_vector s0 v"
  by (simp add: check_vector_def)

lemma batch_new_snoc:
  assumes "batch_new s0 pre added" and "check_vector s0 v = None" and "vID v \<notin> dom (foldl vput (ix_abs (svIndex s0)) pre)"
  shows "batch_new s0 (pre @ [v]) (added @ [vID v])"
  using assms by (auto simp: batch_new_def dom_foldl_vput)

text \<open>Every section keeps the invariant and none panics, whatever its environment.\<close>

context service_store
begin

abbreviation next_ok :: "'v serviceEnv \<Rightarrow> 'v service \<Rightarrow> vector list \<Rightarrow> addPoint \<Rightarrow> 'v service \<Rightarrow> bool" where
  "next_ok env s0 vs pc s \<equiv> \<exists>pc' s'. add_section env vs pc s = Some (pc', s') \<and> add_inv inv abs s0 vs pc' s'"

lemma index_section:
  assumes "add_inv inv abs s0 vs (IndexNext added todo) s"
  shows "next_ok env s0 vs (IndexNext added todo) s"
proof (cases todo)
  case Nil
  then show ?thesis using assms by (simp add: add_inv_def)
next
  case (Cons v rest)
  obtain pre where p: "vs = pre @ v # rest" "batch_new s0 pre added" "ix_abs (svIndex s) = foldl vput (ix_abs (svIndex s0)) pre"
    "abs (svStore s) = ix_abs (svIndex s0)" "ann_holds (svResolver s) (svAnn s) (ix_abs (svIndex s0))"
    using assms Cons by (auto simp: add_inv_def)
  have base: "inv (svStore s)" "ix_wf (svIndex s)" "res_wf (svResolver s)" "svMaxVectorDim s = svMaxVectorDim s0"
    using assms by (simp_all add: add_inv_def)
  have roll: "add_inv inv abs s0 vs (RollStore e added) s" for e
    using base p batch_new_seen [OF p(2), of vs] by (auto simp: add_inv_def batch_new_def)
  obtain e i where ai: "Index_AddVector (svIndex s) v = (e, i)" by force
  note ab = ix_abs_Add [OF ai]
  have ix: "ix_wf i" using ix_wf_Add [OF base(2), of v] ai by simp
  consider x where "check_vector s v = Some x" | (old) "check_vector s v = None" "vID v \<in> dom (ix_abs (svIndex s))"
    | (new) "check_vector s v = None" "vID v \<notin> dom (ix_abs (svIndex s))" by blast
  then show ?thesis
  proof cases
    case 1
    then show ?thesis using Cons roll by simp
  next
    case old
    then have "e = Some ErrVectorExists" "i = svIndex s" using ab by auto
    then show ?thesis using old Cons ai roll by simp
  next
    case new
    then have e: "e = None" "ix_abs i = vput (ix_abs (svIndex s)) v" using ab by (auto simp: vput_def)
    have "batch_new s0 (pre @ [v]) (added @ [vID v])"
      using batch_new_snoc [OF p(2)] new check_vector_cong [OF base(4)] p(3) by simp
    then have "add_inv inv abs s0 vs (IndexNext (added @ [vID v]) rest) (s\<lparr>svIndex := i\<rparr>)"
      using base ix p e(2) by (auto simp: add_inv_def intro!: exI [of _ "pre @ [v]"] simp del: vput_apply)
    then show ?thesis using new Cons ai e(1) by simp
  qed
qed

lemma store_section:
  assumes "seStore env = st" and "\<forall>v \<in> set vs. okv v" and "vs \<noteq> []" and "add_inv inv abs s0 vs (StoreBatch added) s"
  shows "next_ok env s0 vs (StoreBatch added) s"
proof -
  obtain e v where u: "upsert (svStore s) vs = (e, v)" by force
  have "inv (svStore s)" using assms(4) by (simp add: add_inv_def)
  from vs.upsert [OF this assms(2) u] have "upsertVectors env s vs = (None, s\<lparr>svStore := v\<rparr>)" "inv v" "abs v = foldl vput (abs (svStore s)) vs"
    using u assms(1,3) by (simp_all add: upsertVectors_def upserts)
  then show ?thesis using assms(4) by (auto simp: add_inv_def)
qed

lemma ann_section:
  assumes "add_inv inv abs s0 vs (AnnAdd added n v todo) s"
  shows "next_ok env s0 vs (AnnAdd added n v todo) s"
proof -
  obtain pre r where p: "vs = pre @ v # todo" "batch_new s0 vs added" "ix_abs (svIndex s) = foldl vput (ix_abs (svIndex s0)) vs"
    "abs (svStore s) = foldl vput (ix_abs (svIndex s0)) vs" "ann_holds r (svAnn s) (foldl vput (ix_abs (svIndex s0)) pre)"
    "Assign r (vID v) = (n, svResolver s)"
    using assms by (auto simp: add_inv_def)
  have base: "inv (svStore s)" "ix_wf (svIndex s)" "res_wf (svResolver s)" "svMaxVectorDim s = svMaxVectorDim s0"
    using assms by (simp_all add: add_inv_def)
  have v: "vValues v \<noteq> []" using p(1,2) check_vector_None [of s0 v] by (simp add: batch_new_def)
  show ?thesis
  proof (cases "anDim (svAnn s) = 0 \<or> anDim (svAnn s) = length (vValues v)")
    case True
    obtain a ws where a: "Ann_AddVector (seIntn env) (svAnn s) newWorkspace n (vValues v) = Some (None, a, ws)"
      "ann_holds (svResolver s) a (vput (foldl vput (ix_abs (svIndex s0)) pre) v)"
      using ann_holds_Add [OF p(5,6) v True] by blast
    have "add_inv inv abs s0 vs (AnnAssign added todo) (s\<lparr>svAnn := a\<rparr>)"
      using base p(1-4) a(2) by (auto simp: add_inv_def intro!: exI [of _ "pre @ [v]"] simp del: vput_apply)
    then show ?thesis using a(1) by (simp add: addANNVector_def)
  next
    case False
    have "ann_wf (svAnn s)" using p(5) by (simp add: ann_holds_def)
    then obtain ws where "Ann_AddVector (seIntn env) (svAnn s) newWorkspace n (vValues v) = Some (Some ErrInvalidVectorDim, svAnn s, ws)"
      using Ann_AddVector_facts [OF _ newWorkspace_ok, of "svAnn s" "seIntn env" n "vValues v"] False by auto
    moreover have "add_inv inv abs s0 vs (AnnUndoStore added ErrInvalidVectorDim (vID v)) s"
      using base p(1-4) batch_new_seen [OF p(2), of vs] by (auto simp: add_inv_def batch_new_def)
    ultimately show ?thesis by (simp add: addANNVector_def)
  qed
qed

lemma log_section:
  assumes "sv_inv s0" and "add_inv inv abs s0 vs (LogBatch added) s"
  shows "next_ok env s0 vs (LogBatch added) s"
proof -
  have base: "inv (svStore s)" "ix_wf (svIndex s)" "res_wf (svResolver s)" "svMaxVectorDim s = svMaxVectorDim s0"
    and p: "batch_new s0 vs added" "ix_abs (svIndex s) = foldl vput (ix_abs (svIndex s0)) vs"
      "abs (svStore s) = foldl vput (ix_abs (svIndex s0)) vs" "ann_holds (svResolver s) (svAnn s) (foldl vput (ix_abs (svIndex s0)) vs)"
    using assms(2) by (simp_all add: add_inv_def)
  obtain e s' where l: "appendWALBatch env s (map upsert_op vs) = (e, s')" by force
  note s' = appendWALBatch_frame [OF l]
  have frame: "svIndex s' = svIndex s" "svStore s' = svStore s" "svResolver s' = svResolver s" "svAnn s' = svAnn s" "svMaxVectorDim s' = svMaxVectorDim s"
    by (subst s', simp)+
  show ?thesis
  proof (cases e)
    case None
    have "sv_inv s'" unfolding svc_inv_def frame using base p batch_bound [OF assms(1) batch_new_error [OF p(1)]] by auto
    then have "add_inv inv abs s0 vs MaybeSnapshot s'" using base p by (auto simp: add_inv_def frame batch_new_def)
    then show ?thesis using l None by simp
  next
    case (Some x)
    have "add_inv inv abs s0 vs (RollStore x added) s'"
      using base p batch_new_seen [OF p(1), of vs] by (auto simp: add_inv_def frame batch_new_def)
    then show ?thesis using l Some by simp
  qed
qed

lemma delete_sections:
  assumes "seStore env = st" and "inv (svStore s)" and "ix_wf (svIndex s)"
  shows "inv (snd (stDeleteVector (seStore env) (svStore s) k))"
    and "abs (snd (stDeleteVector (seStore env) (svStore s) k)) = (abs (svStore s))(k := None)"
    and "ix_wf (snd (Index_DeleteVector (svIndex s) k))" and "ix_abs (snd (Index_DeleteVector (svIndex s) k)) = (ix_abs (svIndex s))(k := None)"
proof -
  obtain e v e' i where d: "stDeleteVector st (svStore s) k = (e, v)" "Index_DeleteVector (svIndex s) k = (e', i)" by force
  from vs.del [OF assms(2) d(1)] show "inv (snd (stDeleteVector (seStore env) (svStore s) k))"
    "abs (snd (stDeleteVector (seStore env) (svStore s) k)) = (abs (svStore s))(k := None)" using d(1) assms(1) by simp_all
  show "ix_wf (snd (Index_DeleteVector (svIndex s) k))" using assms(3) by simp
  show "ix_abs (snd (Index_DeleteVector (svIndex s) k)) = (ix_abs (svIndex s))(k := None)" using ix_abs_Delete [OF d(2)] d(2) by simp
qed

lemma undo_section:
  assumes "seStore env = st" and "add_inv inv abs s0 vs pc s"
    and "pc = AnnUndoStore added e vid \<or> pc = AnnUndoIndex added e vid \<or> pc = RollStore e ids \<or> pc = RollIndex e vid ids"
  shows "next_ok env s0 vs pc s"
proof -
  have base: "inv (svStore s)" "ix_wf (svIndex s)" using assms(2) by (simp_all add: add_inv_def)
  note d = delete_sections [OF assms(1) base]
  from assms(3) show ?thesis
  proof (elim disjE)
    assume "pc = RollStore e ids"
    then show ?thesis using assms(2) d
      by (cases ids) (auto simp: add_inv_def dest: seen_in_empty intro!: seen_in_remove)
  next
    assume "pc = RollIndex e vid ids"
    then show ?thesis using assms(2) d by (auto simp: add_inv_def intro!: seen_in_remove)
  qed (use assms(2) d in \<open>auto simp: add_inv_def intro!: seen_in_delete\<close>)
qed

lemma add_section_inv:
  assumes "seStore env = st" and "iter_ok (seIter env)" and "sv_inv s0" and "\<forall>v \<in> set vs. okv v" and "vs \<noteq> []" and "add_inv inv abs s0 vs pc s"
  shows "(\<exists>r. pc = Finished r) \<or> next_ok env s0 vs pc s"
proof (cases pc)
  case (AnnAssign added todo)
  then show ?thesis
  proof (cases todo)
    case (Cons v rest)
    obtain n r where as: "Assign (svResolver s) (vID v) = (n, r)" by force
    moreover have "add_inv inv abs s0 vs (AnnAdd added n v rest) (s\<lparr>svResolver := r\<rparr>)"
      using assms(6) AnnAssign Cons as res_wf_Assign [of "svResolver s" "vID v"] by (auto simp: add_inv_def)
    ultimately show ?thesis using AnnAssign Cons by simp
  qed (use assms(6) in \<open>simp add: add_inv_def\<close>)
next
  case (RollRebuild e)
  then have "\<exists>r a. rebuildANNLocked env s = Some (s\<lparr>svResolver := r, svAnn := a\<rparr>) \<and> sv_inv (s\<lparr>svResolver := r, svAnn := a\<rparr>)"
    using assms(6) by (intro rebuild_inv [OF assms(2,3)]) (simp_all add: add_inv_def)
  then obtain r a where ra: "rebuildANNLocked env s = Some (s\<lparr>svResolver := r, svAnn := a\<rparr>)" "sv_inv (s\<lparr>svResolver := r, svAnn := a\<rparr>)" by blast
  moreover have "res_wf r" using ra(2) by (simp add: svc_inv_def ann_holds_def)
  ultimately have "add_inv inv abs s0 vs (Finished (Some e)) (s\<lparr>svResolver := r, svAnn := a\<rparr>)"
    using assms(6) RollRebuild by (simp add: add_inv_def)
  then show ?thesis using RollRebuild ra(1) by simp
next
  case MaybeSnapshot
  obtain e s' where m: "maybeSnapshot env s = (e, s')" by force
  have "sv_inv s" using assms(6) MaybeSnapshot by (simp add: add_inv_def)
  note k = maybeSnapshot_keeps [OF this m] and f = maybeSnapshot_frame [OF m]
  have frame: "svIndex s' = svIndex s" "svResolver s' = svResolver s" "svMaxVectorDim s' = svMaxVectorDim s" by (subst f, simp)+
  have "add_inv inv abs s0 vs (Finished e) s'" using assms(6) MaybeSnapshot k by (simp add: add_inv_def frame)
  then show ?thesis using MaybeSnapshot m by simp
next
  case (IndexNext added todo)
  then show ?thesis using index_section assms(6) by blast
next
  case (StoreBatch added)
  then show ?thesis using store_section [OF assms(1,4,5)] assms(6) by blast
next
  case (AnnAdd added n v todo)
  then show ?thesis using ann_section assms(6) by blast
next
  case (LogBatch added)
  then show ?thesis using log_section [OF assms(3)] assms(6) by blast
qed (use undo_section [OF assms(1,6)] in simp_all)

lemma add_inv_start: "sv_inv s0 \<Longrightarrow> add_inv inv abs s0 vs (IndexNext [] vs) s0"
  by (simp add: add_inv_def svc_inv_def ann_holds_def batch_new_def)

end

section \<open>Executions keep the invariant\<close>

definition adds_ok :: "'t storeEnv \<Rightarrow> 't anyStore service \<Rightarrow> vector list \<Rightarrow> addPoint \<Rightarrow> 't anyStore service \<Rightarrow> bool" where
  "adds_ok senv s0 vs pc s \<longleftrightarrow> svc_inv (any_inv senv) any_abs s0 \<and> vs \<noteq> [] \<and> (\<forall>v \<in> set vs. fits v) \<and> add_inv (any_inv senv) any_abs s0 vs pc s"

lemma adds_ok_section:
  assumes "adds_ok senv s0 vs pc s" and "on_store senv env"
  shows "(\<exists>r. pc = Finished r) \<or> (\<exists>pc' s'. add_section env vs pc s = Some (pc', s') \<and> adds_ok senv s0 vs pc' s')"
proof -
  obtain now where now: "seStore env = any_ops senv no_fault now" "iter_ok (seIter env)" using assms(2) by (auto simp: on_store_def)
  have ok: "svc_inv (any_inv senv) any_abs s0" "\<forall>v \<in> set vs. fits v" "vs \<noteq> []" "add_inv (any_inv senv) any_abs s0 vs pc s"
    using assms(1) by (simp_all add: adds_ok_def)
  show ?thesis using any_svc.add_section_inv [OF now ok] ok(1-3) unfolding adds_ok_def by blast
qed

interpretation add_reads: observed senv "\<lambda>env. add_section env vs" "adds_ok senv s0 vs" "old_or_new (ix_abs (svIndex s0)) vs"
  for senv s0 vs
proof unfold_locales
  show "adds_ok senv s0 vs pc' s'" if "adds_ok senv s0 vs pc s" "on_store senv env" "add_section env vs pc s = Some (pc', s')" for pc s env pc' s'
    using adds_ok_section [OF that(1,2)] that(3) by auto
  show "adds_ok senv s0 vs pc (s\<lparr>svStore := v, svStats := t\<rparr>)"
    if "adds_ok senv s0 vs pc s" "any_inv senv v" "any_abs v = any_abs (svStore s)" for pc s v t
    using that add_inv_read [of "any_inv senv" any_abs s0 vs pc s v t] by (simp add: adds_ok_def)
  show "any_inv senv (svStore s) \<and> ix_wf (svIndex s) \<and> old_or_new (ix_abs (svIndex s0)) vs (ix_abs (svIndex s)) \<and>
      old_or_new (ix_abs (svIndex s0)) vs (any_abs (svStore s))" if "adds_ok senv s0 vs pc s" for pc s
    using that add_inv_seen [of "any_inv senv" any_abs s0 vs pc s] by (simp add: adds_ok_def) (simp add: add_inv_def)
qed

text \<open>A vector of another dimension than \<open>sample_vector\<close>, for an example.\<close>

definition sample_pair :: vector where
  "sample_pair = \<lparr>vID = ''b'', vValues = [0, 0]\<rparr>"

lemma trim_b: "TrimSpace ''b'' = ''b''"
  by (rule TrimSpace_untrimmed) (simp add: untrimmed_def strip_one_def space_encodings_def)

section \<open>Properties\<close>



text \<open>
  C35. A batch that is refused can bring a concurrent search down. Let the service hold a vector, and take a query of its dimension and a new vector that is shorter.
  On its own the search answers, and on its own the batch is refused for its dimension and leaves nothing behind. But the index holds the short vector until the
  approximate index refuses it, and an exact search in that moment panics.
\<close>

theorem refused_batch_panics_search:
  assumes "on_store senv env" and "svc_inv (any_inv senv) any_abs s0" and "svSearchMode s0 \<noteq> ''ann''"
    and "any_abs (svStore s0) vid = Some ws" and "length vals = length ws" and "validateSearchRequest s0 vals k = None"
    and "check_vector s0 v = None" and "vID v \<notin> dom (any_abs (svStore s0))" and "length (vValues v) < length ws" and "fits v"
  shows "(\<exists>res s. Search env s0 vals k = Some (Inr res, s)) \<and>
    (\<exists>s. AddVectors env s0 [v] = Some (Some ErrInvalidVectorDim, s) \<and> any_abs (svStore s) = any_abs (svStore s0)) \<and>
    (\<exists>pc s. adding {env} [v] s0 [] pc s \<and> Search env s vals k = None)"
proof (intro conjI)
  obtain now where env: "seStore env = any_ops senv no_fault now" "iter_ok (seIter env)" "slice_sort_ok (seSort env)" using assms(1) by (auto simp: on_store_def)
  have m: "any_abs (svStore s0) = ix_abs (svIndex s0)" using svc_inv_map [OF assms(2)] by simp
  have h: "ann_holds (svResolver s0) (svAnn s0) (ix_abs (svIndex s0))" "ix_wf (svIndex s0)" using assms(2) by (simp_all add: svc_inv_def)
  have d: "anDim (svAnn s0) = length ws" "0 < length ws" using ann_holds_dims [OF h(1), of vid ws] assms(4) m by auto
  have "query_fits (ix_abs (svIndex s0)) vals" using ann_holds_dims(1) [OF h(1)] d(1) assms(5) by (auto simp: query_fits_def)
  from Search_ok [OF assms(2) env(2,3) assms(6) this] show "\<exists>res s. Search env s0 vals k = Some (Inr res, s)"
    by (metis service.surjective service.update_convs(14))
  have "add_error s0 [v] = Some ErrInvalidVectorDim" using assms(7-9) d m by (auto simp: add_error_def)
  with AddVectors_outcome [OF env(1,2) assms(2), of "[v]"] assms(10)
  show "\<exists>s. AddVectors env s0 [v] = Some (Some ErrInvalidVectorDim, s) \<and> any_abs (svStore s) = any_abs (svStore s0)" by auto
  obtain e i where ai: "Index_AddVector (svIndex s0) v = (e, i)" by force
  then have e: "e = None" "ix_abs i (vID v) = Some (ToFloat32 (vValues v))" using ix_abs_Add [OF ai] assms(8) m by auto
  have "ix_wf i" using ix_wf_Add [OF h(2), of v] ai by simp
  from searchExact_panics [OF this env(2) e(2), of vals "seSort env" k] have "searchExact (seIter env) (seSort env) i vals k = None" using assms(5,9) by simp
  moreover have "validateSearchRequest (s0\<lparr>svIndex := i\<rparr>) vals k = validateSearchRequest s0 vals k" by (simp add: validateSearchRequest_def)
  ultimately have "Search env (s0\<lparr>svIndex := i\<rparr>) vals k = None"
    using assms(3,6) by (simp add: Search_def Let_def inc_stat_def service_searchExact_def)
  moreover have "adding {env} [v] s0 [] (IndexNext [vID v] []) (s0\<lparr>svIndex := i\<rparr>)"
    using interleaved.step [OF interleaved.start [of "\<lambda>env. add_section env [v]"], of env "{env}"] assms(7) ai e(1) by simp
  ultimately show "\<exists>pc s. adding {env} [v] s0 [] pc s \<and> Search env s vals k = None" by blast
qed

lemma sample_pair_loaded:
  "\<exists>s. svc_inv (any_inv set_env) any_abs s \<and> any_abs (svStore s) = foldl vput Map.empty [sample_pair] \<and>
     svSearchMode s = ''exact'' \<and> svMaxK s = 10 \<and> svMaxVectorDim s = 4"
proof -
  have ok: "fits sample_pair" "add_error (sample_service ''exact'') [sample_pair] = None" "loggable (upsert_op sample_pair)"
    by (simp_all add: sample_pair_def rec_fits_def add_error_def check_vector_def sample_service_def service_initial_def sample_opts_def
      NewAnnIndexWithOptions_def loggable_def upsert_op_def in_range_def finite64_def float_eval trim_b)
  have "fst (appendWALBatch (sample_env no_fault) (sample_service ''exact'') (map upsert_op [sample_pair])) = None"
    using ok(3) AppendWALBatch_ok [OF hex_codec_ok, of "[upsert_op sample_pair]"]
    by (simp add: appendWALBatch_def usesPersistentVectorStore_def sample_env_def any_ops_def sample_service_def service_initial_def
      be_persistent_def Mem_IsPersistent_def loggable_def Let_def split: prod.split)
  then obtain sw where "appendWALBatch (sample_env no_fault) (sample_service ''exact'') (map upsert_op [sample_pair]) = (None, sw)"
    by (metis prod.collapse)
  then obtain s where s: "any_svc.sv_next set_env (sample_service ''exact'') (foldl vput (ix_abs (svIndex (sample_service ''exact''))) [sample_pair])
      (svPersistence sw) s"
    using any_svc.AddVectors_logged [OF sample_env_ok(1) sample_env_ok(2) [of no_fault] sample_service_inv [of "''exact''"], of "[sample_pair]"] ok
    by fastforce
  have "svc_frame (sample_service ''exact'') s" using s by (simp add: any_svc.sv_next_def)
  then have "svSearchMode s = ''exact'' \<and> svMaxK s = 10 \<and> svMaxVectorDim s = 4"
    by (simp add: svc_frame_def sample_service_def service_initial_def sample_opts_def normalizeSearchMode_def lower_char_def
        TrimSpace_untrimmed untrimmed_def strip_one_def space_encodings_def)
  moreover have "any_abs (svStore s) = foldl vput Map.empty [sample_pair]"
    unfolding any_next(2) [OF s] by (simp add: sample_service_def service_initial_def)
  ultimately show ?thesis using any_next(1) [OF s] by blast
qed

theorem refused_batch_panics_search_witness:
  "\<exists>(s0 :: string fset anyStore service) pc s. any_abs (svStore s0) = foldl vput Map.empty [sample_pair] \<and>
     adding {sample_env no_fault} [sample_vector] s0 [] pc s \<and> Search (sample_env no_fault) s [0, 0] 1 = None"
proof -
  obtain s0 where s0: "svc_inv (any_inv set_env) any_abs s0" "any_abs (svStore s0) = foldl vput Map.empty [sample_pair]"
      "svSearchMode s0 = ''exact''" "svMaxK s0 = 10" "svMaxVectorDim s0 = 4"
    using sample_pair_loaded by blast
  have "any_abs (svStore s0) ''b'' = Some (ToFloat32 [0, 0])" by (simp add: s0(2) sample_pair_def vput_def)
  moreover have "validateSearchRequest s0 [0, 0] 1 = None" by (simp add: validateSearchRequest_def s0)
  moreover have "check_vector s0 sample_vector = None" by (simp add: check_vector_def sample_vector_def s0 trim_a finite64_def float_eval)
  moreover have "vID sample_vector \<notin> dom (any_abs (svStore s0))" by (simp add: s0(2) sample_vector_def sample_pair_def vput_def)
  moreover have "length (vValues sample_vector) < length (ToFloat32 [0, 0])" by (simp add: sample_vector_def)
  ultimately show ?thesis
    using refused_batch_panics_search [OF sample_on_store s0(1), of "''b''" "ToFloat32 [0, 0]" "[0, 0]" 1 sample_vector] s0(2,3) sample_vector_ok(1) by auto
qed

end
