(* ===== verification/ConcurrentDelete.thy ===== *)
theory ConcurrentDelete
  imports Interleaving
begin

text \<open>
  Reads while a vector is being deleted: \<^verbatim>\<open>DeleteVector\<close> of \<^verbatim>\<open>internal/core/service.go\<close> as a machine of its critical sections, from the check of the identifier on.
\<close>

section \<open>The critical sections of a delete\<close>

text \<open>Where the operation stands, with the vector that was read and the error to return once it is back.\<close>

datatype delPoint =
    DelGet
  | DelIndex vector
  | DelStore vector
  | DelReindex vector goerror
  | DelAssign vector
  | DelAnn vector int
  | DelRemove vector
  | DelLog vector
  | UndoStore vector goerror
  | UndoIndex vector goerror
  | UndoAssign goerror
  | UndoRebuild goerror
  | DelCompact
  | DelSnapshot
  | Deleted "goerror option"

fun del_section :: "'v serviceEnv \<Rightarrow> string \<Rightarrow> delPoint \<Rightarrow> 'v service \<Rightarrow> (delPoint \<times> 'v service) option" where
  "del_section env vid DelGet s =
     (case stGetVector (seStore env) (svStore s) vid of
        (Inl e, v) \<Rightarrow> Some (Deleted (Some e), s\<lparr>svStore := v\<rparr>)
      | (Inr vec, v) \<Rightarrow> Some (DelIndex vec, s\<lparr>svStore := v\<rparr>))"
| "del_section env vid (DelIndex vec) s =
     (case Index_DeleteVector (svIndex s) vid of
        (Some e, i) \<Rightarrow> Some (Deleted (Some e), s\<lparr>svIndex := i\<rparr>)
      | (None, i) \<Rightarrow> Some (DelStore vec, s\<lparr>svIndex := i\<rparr>))"
| "del_section env vid (DelStore vec) s =
     (case stDeleteVector (seStore env) (svStore s) vid of
        (Some e, v) \<Rightarrow> Some (DelReindex vec e, s\<lparr>svStore := v\<rparr>)
      | (None, v) \<Rightarrow> Some (DelAssign vec, s\<lparr>svStore := v\<rparr>))"
| "del_section env vid (DelReindex vec e) s = Some (Deleted (Some e), s\<lparr>svIndex := snd (Index_AddVector (svIndex s) vec)\<rparr>)"
| "del_section env vid (DelAssign vec) s =
     (case Assign (svResolver s) vid of (internalID, r) \<Rightarrow> Some (DelAnn vec internalID, s\<lparr>svResolver := r\<rparr>))"
| "del_section env vid (DelAnn vec internalID) s = map_option (\<lambda>s'. (DelRemove vec, s')) (deleteANNVector s internalID)"
| "del_section env vid (DelRemove vec) s = Some (DelLog vec, s\<lparr>svResolver := Remove (svResolver s) vid\<rparr>)"
| "del_section env vid (DelLog vec) s =
     (case appendWAL env s (delete_op vid) of
        (Some e, s') \<Rightarrow> Some (UndoStore vec e, s')
      | (None, s') \<Rightarrow> Some (DelCompact, s'))"
| "del_section env vid (UndoStore vec e) s = Some (UndoIndex vec e, s\<lparr>svStore := snd (stUpsertVector (seStore env) (svStore s) vec)\<rparr>)"
| "del_section env vid (UndoIndex vec e) s = Some (UndoAssign e, s\<lparr>svIndex := snd (Index_AddVector (svIndex s) vec)\<rparr>)"
| "del_section env vid (UndoAssign e) s = Some (UndoRebuild e, s\<lparr>svResolver := snd (Assign (svResolver s) vid)\<rparr>)"
| "del_section env vid (UndoRebuild e) s = map_option (\<lambda>s'. (Deleted (Some e), s')) (rebuildANNLocked env s)"
| "del_section env vid DelCompact s = map_option (\<lambda>s'. (DelSnapshot, s')) (maybeCompactANNAfterDeleteLocked env s)"
| "del_section env vid DelSnapshot s = (case maybeSnapshot env s of (e, s') \<Rightarrow> Some (Deleted e, s'))"
| "del_section env vid (Deleted e) s = None"

fun del_rank :: "delPoint \<Rightarrow> nat" where
  "del_rank DelGet = 11"
| "del_rank (DelIndex vec) = 10"
| "del_rank (DelStore vec) = 9"
| "del_rank (DelReindex vec e) = 1"
| "del_rank (DelAssign vec) = 8"
| "del_rank (DelAnn vec n) = 7"
| "del_rank (DelRemove vec) = 6"
| "del_rank (DelLog vec) = 5"
| "del_rank (UndoStore vec e) = 4"
| "del_rank (UndoIndex vec e) = 3"
| "del_rank (UndoAssign e) = 2"
| "del_rank (UndoRebuild e) = 1"
| "del_rank DelCompact = 2"
| "del_rank DelSnapshot = 1"
| "del_rank (Deleted e) = 0"

lemma del_section_rank: "del_section env vid pc s = Some (pc', s') \<Longrightarrow> del_rank pc' < del_rank pc"
  by (cases pc) (auto split: option.splits prod.splits sum.splits)

section \<open>Executions\<close>

abbreviation deleting :: "'v serviceEnv set \<Rightarrow> string \<Rightarrow> 'v service \<Rightarrow> readEvent list \<Rightarrow> delPoint \<Rightarrow> 'v service \<Rightarrow> bool" where
  "deleting E vid s0 \<equiv> interleaved (\<lambda>env. del_section env vid) E DelGet s0"

text \<open>The sections one after another, for as many steps as the rank allows.\<close>

fun run_sections :: "'v serviceEnv \<Rightarrow> string \<Rightarrow> nat \<Rightarrow> delPoint \<Rightarrow> 'v service \<Rightarrow> (delPoint \<times> 'v service) option" where
  "run_sections env vid 0 pc s = Some (pc, s)"
| "run_sections env vid (Suc n) pc s =
     (case pc of
        Deleted e \<Rightarrow> Some (pc, s)
      | _ \<Rightarrow> (case del_section env vid pc s of None \<Rightarrow> None | Some (pc', s') \<Rightarrow> run_sections env vid n pc' s'))"

text \<open>With no read in between the sections are \<^verbatim>\<open>DeleteVector\<close>.\<close>

lemma DeleteVector_sections:
  assumes "TrimSpace vid \<noteq> []"
  shows "DeleteVector env s vid = (case run_sections env vid 11 DelGet s of Some (Deleted e, s') \<Rightarrow> Some (e, s') | _ \<Rightarrow> None)"
  using assms
  by (auto simp: DeleteVector_def eval_nat_numeral Let_def deleteANNVector_def map_option_case split: prod.split sum.split option.split)

lemma run_sections_deleting:
  assumes "deleting E vid s0 evs pc s" and "env \<in> E" and "run_sections env vid n pc s = Some (pc', s')"
  shows "deleting E vid s0 evs pc' s'"
  using assms(1,3)
proof (induction n arbitrary: pc s)
  case (Suc n)
  show ?case
  proof (cases "\<exists>e. pc = Deleted e")
    case False
    then obtain pc1 s1 where s1: "del_section env vid pc s = Some (pc1, s1)" "run_sections env vid n pc1 s1 = Some (pc', s')"
      using Suc.prems(2) by (cases pc) (auto split: option.splits prod.splits)
    show ?thesis using Suc.IH [OF interleaved.step [OF Suc.prems(1) assms(2) s1(1)] s1(2)] .
  qed (use Suc.prems in auto)
qed simp

section \<open>The invariant at every point\<close>

text \<open>
  What holds at each point, with the map \<open>m0\<close> before the operation. A store that finds a vector does not refuse to delete it, so the point \<open>DelReindex\<close> is not reached.
\<close>

fun del_point :: "('v service \<Rightarrow> bool) \<Rightarrow> ('v \<Rightarrow> vmap) \<Rightarrow> vmap \<Rightarrow> string \<Rightarrow> delPoint \<Rightarrow> 'v service \<Rightarrow> bool" where
  "del_point I ab m0 vid DelGet s \<longleftrightarrow> I s \<and> ix_abs (svIndex s) = m0"
| "del_point I ab m0 vid (DelIndex vec) s \<longleftrightarrow> I s \<and> ix_abs (svIndex s) = m0 \<and> vget m0 vid = Inr vec"
| "del_point I ab m0 vid (DelStore vec) s \<longleftrightarrow> ix_abs (svIndex s) = m0(vid := None) \<and> ab (svStore s) = m0 \<and> ann_holds (svResolver s) (svAnn s) m0 \<and>
     vget m0 vid = Inr vec"
| "del_point I ab m0 vid (DelReindex vec e) s \<longleftrightarrow> False"
| "del_point I ab m0 vid (DelAssign vec) s \<longleftrightarrow> ix_abs (svIndex s) = m0(vid := None) \<and> ab (svStore s) = m0(vid := None) \<and>
     ann_holds (svResolver s) (svAnn s) m0 \<and> vget m0 vid = Inr vec"
| "del_point I ab m0 vid (DelAnn vec n) s \<longleftrightarrow> ix_abs (svIndex s) = m0(vid := None) \<and> ab (svStore s) = m0(vid := None) \<and>
     (\<exists>r. ann_holds r (svAnn s) m0 \<and> Assign r vid = (n, svResolver s)) \<and> vget m0 vid = Inr vec"
| "del_point I ab m0 vid (DelRemove vec) s \<longleftrightarrow> ix_abs (svIndex s) = m0(vid := None) \<and> ab (svStore s) = m0(vid := None) \<and>
     ann_holds (Remove (svResolver s) vid) (svAnn s) (m0(vid := None)) \<and> vget m0 vid = Inr vec"
| "del_point I ab m0 vid (DelLog vec) s \<longleftrightarrow> I s \<and> ix_abs (svIndex s) = m0(vid := None) \<and> vget m0 vid = Inr vec"
| "del_point I ab m0 vid (UndoStore vec e) s \<longleftrightarrow> ix_abs (svIndex s) = m0(vid := None) \<and> ab (svStore s) = m0(vid := None) \<and> vget m0 vid = Inr vec"
| "del_point I ab m0 vid (UndoIndex vec e) s \<longleftrightarrow> ix_abs (svIndex s) = m0(vid := None) \<and> ab (svStore s) = m0 \<and> vget m0 vid = Inr vec"
| "del_point I ab m0 vid (UndoAssign e) s \<longleftrightarrow> ix_abs (svIndex s) = m0 \<and> ab (svStore s) = m0"
| "del_point I ab m0 vid (UndoRebuild e) s \<longleftrightarrow> ix_abs (svIndex s) = m0 \<and> ab (svStore s) = m0"
| "del_point I ab m0 vid DelCompact s \<longleftrightarrow> I s \<and> ix_abs (svIndex s) = m0(vid := None)"
| "del_point I ab m0 vid DelSnapshot s \<longleftrightarrow> I s \<and> ix_abs (svIndex s) = m0(vid := None)"
| "del_point I ab m0 vid (Deleted r) s \<longleftrightarrow> I s \<and> (ix_abs (svIndex s) = m0 \<and> r \<noteq> None \<or> ix_abs (svIndex s) = m0(vid := None))"

definition del_inv :: "('v \<Rightarrow> bool) \<Rightarrow> ('v \<Rightarrow> vmap) \<Rightarrow> 'v service \<Rightarrow> string \<Rightarrow> delPoint \<Rightarrow> 'v service \<Rightarrow> bool" where
  "del_inv sinv sabs s0 vid pc s \<longleftrightarrow> sinv (svStore s) \<and> ix_wf (svIndex s) \<and> res_wf (svResolver s) \<and> svMaxVectorDim s = svMaxVectorDim s0 \<and>
     del_point (svc_inv sinv sabs) sabs (ix_abs (svIndex s0)) vid pc s"

text \<open>The maps a read may see: the old one, and the one without the vector.\<close>

definition old_or_gone :: "vmap \<Rightarrow> string \<Rightarrow> vmap \<Rightarrow> bool" where
  "old_or_gone m0 vid m \<longleftrightarrow> m = m0 \<or> m = m0(vid := None)"

lemma del_inv_seen:
  "del_inv sinv sabs s0 vid pc s \<Longrightarrow>
   old_or_gone (ix_abs (svIndex s0)) vid (ix_abs (svIndex s)) \<and> old_or_gone (ix_abs (svIndex s0)) vid (sabs (svStore s))"
  by (cases pc) (auto simp: del_inv_def old_or_gone_def svc_inv_def)

lemma svc_inv_read: "svc_inv sinv sabs s \<Longrightarrow> sinv v \<Longrightarrow> sabs v = sabs (svStore s) \<Longrightarrow> svc_inv sinv sabs (s\<lparr>svStore := v, svStats := t\<rparr>)"
  by (simp add: svc_inv_def)

lemma del_inv_read:
  "del_inv sinv sabs s0 vid pc s \<Longrightarrow> sinv v \<Longrightarrow> sabs v = sabs (svStore s) \<Longrightarrow> del_inv sinv sabs s0 vid pc (s\<lparr>svStore := v, svStats := t\<rparr>)"
  using svc_inv_read [of sinv sabs s v t] by (cases pc) (simp_all add: del_inv_def)

context service_store
begin

abbreviation del_next :: "'v serviceEnv \<Rightarrow> 'v service \<Rightarrow> string \<Rightarrow> delPoint \<Rightarrow> 'v service \<Rightarrow> bool" where
  "del_next env s0 vid pc s \<equiv> \<exists>pc' s'. del_section env vid pc s = Some (pc', s') \<and> del_inv inv abs s0 vid pc' s'"

lemma del_get_section:
  assumes "seStore env = st" and "del_inv inv abs s0 vid DelGet s"
  shows "del_next env s0 vid DelGet s"
proof -
  have p: "inv (svStore s)" "sv_inv s" "ix_abs (svIndex s) = ix_abs (svIndex s0)" "abs (svStore s) = ix_abs (svIndex s)"
    using assms(2) by (auto simp: del_inv_def svc_inv_def)
  obtain r v where g: "stGetVector st (svStore s) vid = (r, v)" by force
  from vs.getv [OF p(1) g] p have v: "inv v" "abs v = ix_abs (svIndex s)" "r = vget (ix_abs (svIndex s0)) vid" by auto
  have "sv_inv (s\<lparr>svStore := v\<rparr>)" using p(2) v(1,2) by (simp add: svc_inv_def)
  then show ?thesis using assms v g p(3) by (cases "vget (ix_abs (svIndex s0)) vid") (auto simp: del_inv_def)
qed

lemma del_remove_sections:
  assumes "seStore env = st" and "del_inv inv abs s0 vid pc s" and "pc = DelIndex vec \<or> pc = DelStore vec"
  shows "del_next env s0 vid pc s"
  using assms(3)
proof
  assume pc: "pc = DelIndex vec"
  then have p: "ix_wf (svIndex s)" "ix_abs (svIndex s) = ix_abs (svIndex s0)" "vget (ix_abs (svIndex s0)) vid = Inr vec" "sv_inv s"
    using assms(2) by (simp_all add: del_inv_def)
  obtain e i where d: "Index_DeleteVector (svIndex s) vid = (e, i)" by force
  have "e = None" "ix_wf i" "ix_abs i = (ix_abs (svIndex s0))(vid := None)"
    using ix_abs_Delete [OF d] ix_wf_Delete [OF p(1), of vid] d p(2,3) by (auto simp: vget_def split: if_splits option.splits)
  then show ?thesis using pc assms(2) d by (auto simp: del_inv_def svc_inv_def)
next
  assume pc: "pc = DelStore vec"
  then have p: "inv (svStore s)" "abs (svStore s) = ix_abs (svIndex s0)" "vget (ix_abs (svIndex s0)) vid = Inr vec"
    using assms(2) by (simp_all add: del_inv_def)
  obtain e v where d: "stDeleteVector st (svStore s) vid = (e, v)" by force
  have "e = None" "inv v" "abs v = (ix_abs (svIndex s0))(vid := None)"
    using vs.del [OF p(1) d] p(2,3) by (auto simp: vget_def split: if_splits option.splits)
  then show ?thesis using pc assms(1,2) d by (auto simp: del_inv_def)
qed

lemma del_ann_sections:
  assumes "sv_inv s0" and "del_inv inv abs s0 vid pc s" and "pc = DelAssign vec \<or> pc = DelAnn vec n \<or> pc = DelRemove vec"
  shows "del_next env s0 vid pc s"
  using assms(3)
proof (elim disjE)
  assume pc: "pc = DelAssign vec"
  obtain n r where as: "Assign (svResolver s) vid = (n, r)" by force
  have "res_wf r" using assms(2) as res_wf_Assign [of "svResolver s" vid] by (simp add: del_inv_def)
  then show ?thesis using pc assms(2) as by (auto simp: del_inv_def)
next
  assume pc: "pc = DelAnn vec n"
  then obtain r where r: "ann_holds r (svAnn s) (ix_abs (svIndex s0))" "Assign r vid = (n, svResolver s)"
    using assms(2) by (auto simp: del_inv_def)
  from ann_holds_Delete [OF r] obtain a where "Ann_DeleteVector (svAnn s) n = Some a"
    "ann_holds (Remove (svResolver s) vid) a ((ix_abs (svIndex s0))(vid := None))" by blast
  then show ?thesis using pc assms(2) by (auto simp: del_inv_def deleteANNVector_def)
next
  assume pc: "pc = DelRemove vec"
  then have "sv_inv (s\<lparr>svResolver := Remove (svResolver s) vid\<rparr>)" "res_wf (Remove (svResolver s) vid)"
    using assms(1,2) by (auto simp: del_inv_def svc_inv_def ann_holds_def)
  then show ?thesis using pc assms(2) by (auto simp: del_inv_def)
qed

lemma del_log_section:
  assumes "del_inv inv abs s0 vid (DelLog vec) s"
  shows "del_next env s0 vid (DelLog vec) s"
proof -
  obtain e s' where l: "appendWAL env s (delete_op vid) = (e, s')" by force
  note f = appendWALBatch_frame [OF l [unfolded appendWAL_def]]
  have frame: "svIndex s' = svIndex s" "svStore s' = svStore s" "svResolver s' = svResolver s" "svMaxVectorDim s' = svMaxVectorDim s"
    by (subst f, simp)+
  have "sv_inv s'" using assms by (subst f) (simp add: del_inv_def)
  then show ?thesis using assms l by (cases e) (auto simp: del_inv_def frame svc_inv_def)
qed

lemma del_undo_sections:
  assumes "seStore env = st" and "sv_inv s0" and "del_inv inv abs s0 vid pc s" and "pc = UndoStore vec e \<or> pc = UndoIndex vec e \<or> pc = UndoAssign e"
  shows "del_next env s0 vid pc s"
proof -
  let ?m = "ix_abs (svIndex s0)"
  have a: "inv (svStore s0)" "abs (svStore s0) = ?m" using assms(2) by (simp_all add: svc_inv_def)
  have rb: "vput (?m(vid := None)) vec = ?m" "vID vec = vid" "okv vec" if g: "vget ?m vid = Inr vec"
  proof -
    show "vput (?m(vid := None)) vec = ?m" using vput_read_back [of "svStore s0" vid vec] g a by simp
    obtain ws where "?m vid = Some ws" "vec = \<lparr>vID = vid, vValues = ToFloat64 ws\<rparr>" using g by (auto simp: vget_def split: option.splits)
    then show "vID vec = vid" "okv vec" using stored_ok [OF a(1)] a(2) by simp_all
  qed
  from assms(4) show ?thesis
  proof (elim disjE)
    assume pc: "pc = UndoStore vec e"
    then have p: "inv (svStore s)" "abs (svStore s) = ?m(vid := None)" "vget ?m vid = Inr vec" using assms(3) by (simp_all add: del_inv_def)
    obtain e1 v where u: "upsert (svStore s) [vec] = (e1, v)" by force
    have "inv v" "abs v = ?m" using vs.upsert [OF p(1) _ u] p(2) rb [OF p(3)] by auto
    then show ?thesis using pc assms(1,3) u by (auto simp: del_inv_def upsert_one)
  next
    assume pc: "pc = UndoIndex vec e"
    then have p: "ix_wf (svIndex s)" "ix_abs (svIndex s) = ?m(vid := None)" "vget ?m vid = Inr vec" using assms(3) by (simp_all add: del_inv_def)
    obtain e1 i where ai: "Index_AddVector (svIndex s) vec = (e1, i)" by force
    have "ix_wf i" "ix_abs i = ?m"
      using ix_wf_Add [OF p(1), of vec] ix_abs_Add [OF ai] ai p(2) rb [OF p(3)] by (auto simp: vput_def)
    then show ?thesis using pc assms(3) ai by (auto simp: del_inv_def)
  next
    assume pc: "pc = UndoAssign e"
    then show ?thesis using assms(3) res_wf_Assign [of "svResolver s" vid] by (auto simp: del_inv_def)
  qed
qed

lemma del_section_inv:
  assumes "seStore env = st" and "iter_ok (seIter env)" and "sv_inv s0" and "del_inv inv abs s0 vid pc s"
  shows "(\<exists>r. pc = Deleted r) \<or> del_next env s0 vid pc s"
proof (cases pc)
  case (UndoRebuild e)
  then have "\<exists>r a. rebuildANNLocked env s = Some (s\<lparr>svResolver := r, svAnn := a\<rparr>) \<and> sv_inv (s\<lparr>svResolver := r, svAnn := a\<rparr>)"
    using assms(4) by (intro rebuild_inv [OF assms(2,3)]) (simp_all add: del_inv_def)
  then obtain r a where ra: "rebuildANNLocked env s = Some (s\<lparr>svResolver := r, svAnn := a\<rparr>)" "sv_inv (s\<lparr>svResolver := r, svAnn := a\<rparr>)" by blast
  moreover have "res_wf r" using ra(2) by (simp add: svc_inv_def ann_holds_def)
  ultimately show ?thesis using assms(4) UndoRebuild by (auto simp: del_inv_def)
next
  case DelCompact
  then have "sv_inv s" using assms(4) by (simp add: del_inv_def)
  then obtain r a where ra: "maybeCompactANNAfterDeleteLocked env s = Some (s\<lparr>svResolver := r, svAnn := a\<rparr>)" "sv_inv (s\<lparr>svResolver := r, svAnn := a\<rparr>)"
    using maybeCompact_inv [OF assms(2)] by blast
  moreover have "res_wf r" using ra(2) by (simp add: svc_inv_def ann_holds_def)
  ultimately show ?thesis using assms(4) DelCompact by (auto simp: del_inv_def)
next
  case DelSnapshot
  obtain e s' where m: "maybeSnapshot env s = (e, s')" by force
  have "sv_inv s" using assms(4) DelSnapshot by (simp add: del_inv_def)
  note k = maybeSnapshot_keeps [OF this m] and f = maybeSnapshot_frame [OF m]
  have frame: "svIndex s' = svIndex s" "svResolver s' = svResolver s" "svMaxVectorDim s' = svMaxVectorDim s" by (subst f, simp)+
  have "del_inv inv abs s0 vid (Deleted e) s'" using assms(4) DelSnapshot k by (simp add: del_inv_def frame)
  then show ?thesis using DelSnapshot m by simp
next
  case (DelReindex vec e)
  then show ?thesis using assms(4) by (simp add: del_inv_def)
next
  case DelGet
  then show ?thesis using del_get_section [OF assms(1)] assms(4) by blast
next
  case (DelLog vec)
  then show ?thesis using del_log_section assms(4) by blast
qed (use del_remove_sections [OF assms(1,4)] del_ann_sections [OF assms(3,4)] del_undo_sections [OF assms(1,3,4)] in \<open>simp_all\<close>)

end

definition deletes_ok :: "'t storeEnv \<Rightarrow> 't anyStore service \<Rightarrow> string \<Rightarrow> delPoint \<Rightarrow> 't anyStore service \<Rightarrow> bool" where
  "deletes_ok senv s0 vid pc s \<longleftrightarrow> svc_inv (any_inv senv) any_abs s0 \<and> del_inv (any_inv senv) any_abs s0 vid pc s"

lemma deletes_ok_section:
  assumes "deletes_ok senv s0 vid pc s" and "on_store senv env"
  shows "(\<exists>r. pc = Deleted r) \<or> (\<exists>pc' s'. del_section env vid pc s = Some (pc', s') \<and> deletes_ok senv s0 vid pc' s')"
proof -
  obtain now where now: "seStore env = any_ops senv no_fault now" "iter_ok (seIter env)" using assms(2) by (auto simp: on_store_def)
  show ?thesis using any_svc.del_section_inv [OF now, of s0 vid pc s] assms(1) unfolding deletes_ok_def by blast
qed

interpretation delete_reads: observed senv "\<lambda>env. del_section env vid" "deletes_ok senv s0 vid" "old_or_gone (ix_abs (svIndex s0)) vid"
  for senv s0 vid
proof unfold_locales
  show "deletes_ok senv s0 vid pc' s'" if "deletes_ok senv s0 vid pc s" "on_store senv env" "del_section env vid pc s = Some (pc', s')" for pc s env pc' s'
    using deletes_ok_section [OF that(1,2)] that(3) by auto
  show "deletes_ok senv s0 vid pc (s\<lparr>svStore := v, svStats := t\<rparr>)"
    if "deletes_ok senv s0 vid pc s" "any_inv senv v" "any_abs v = any_abs (svStore s)" for pc s v t
    using that del_inv_read [of "any_inv senv" any_abs s0 vid pc s v t] by (simp add: deletes_ok_def)
  show "any_inv senv (svStore s) \<and> ix_wf (svIndex s) \<and> old_or_gone (ix_abs (svIndex s0)) vid (ix_abs (svIndex s)) \<and>
      old_or_gone (ix_abs (svIndex s0)) vid (any_abs (svStore s))" if "deletes_ok senv s0 vid pc s" for pc s
    using that del_inv_seen [of "any_inv senv" any_abs s0 vid pc s] by (simp add: deletes_ok_def) (simp add: del_inv_def)
qed

section \<open>Properties\<close>



end
