(* ===== verification/ServiceLife.thy ===== *)
theory ServiceLife
  imports ServiceReads
begin

text \<open>
  The service through its life. A service on the file store keeps its vectors in the store's own file, and a new process rebuilds the
  index and the approximate index from it. The relation \<open>svc_reach\<close> collects every interleaving of operations and restarts, and the
  invariant of the service holds in all its states.
\<close>

section \<open>Loading a persistent store\<close>

context service_store
begin

lemma load_store_ok:
  assumes "ix_wf (svIndex s)" and "ann_holds (svResolver s) (svAnn s) (ix_abs (svIndex s))"
    and "distinct (map vID vecs)" and "vID ` set vecs \<inter> dom (ix_abs (svIndex s)) = {}"
    and "\<forall>v \<in> set vecs. storable s (vID v) (vValues v) \<and> length (vValues v) = d" and "anDim (svAnn s) = 0 \<or> anDim (svAnn s) = d"
  shows "\<exists>i r a. load_store env s vecs = Some (None, s\<lparr>svIndex := i, svResolver := r, svAnn := a\<rparr>) \<and> ix_wf i \<and>
    ix_abs i = foldl vput (ix_abs (svIndex s)) vecs \<and> ann_holds r a (ix_abs i)"
  using assms
proof (induction vecs arbitrary: s)
  case Nil
  then show ?case by (intro exI [of _ "svIndex s"] exI [of _ "svResolver s"] exI [of _ "svAnn s"]) simp
next
  case (Cons v vecs)
  let ?m = "ix_abs (svIndex s)"
  have v: "storable s (vID v) (vValues v)" "length (vValues v) = d" using Cons.prems(5) by auto
  obtain e i where ai: "Index_AddVector (svIndex s) v = (e, i)" by force
  have i: "e = None" "ix_abs i = vput ?m v" "ix_wf i"
    using ix_abs_Add [OF ai] ix_wf_Add [OF Cons.prems(1), of v] ai Cons.prems(4) by (auto simp: vput_def)
  obtain n r where as: "Assign (svResolver s) (vID v) = (n, r)" by force
  obtain a ws where a: "Ann_AddVector (seIntn env) (svAnn s) newWorkspace n (vValues v) = Some (None, a, ws)" "ann_holds r a (vput ?m v)" "anDim a = d"
    using ann_holds_Add [OF Cons.prems(2) as, of "seIntn env"] v Cons.prems(6) by (auto simp: storable_def)
  let ?s = "s\<lparr>svIndex := i, svResolver := r, svAnn := a\<rparr>"
  have step: "load_store env s (v # vecs) = load_store env ?s vecs" using v(1) ai i(1) as a(1) by (simp add: addANNVector_def)
  have sel: "svIndex ?s = i" "svResolver ?s = r" "svAnn ?s = a" "storable ?s = storable s" by (simp_all add: storable_def fun_eq_iff)
  have h: "ann_holds r a (ix_abs i)" using a(2) unfolding i(2) .
  have "vID ` set vecs \<inter> dom (ix_abs i) = {}" using Cons.prems(3,4) by (auto simp: i(2) vput_def)
  then obtain i' r' a' where "load_store env ?s vecs = Some (None, ?s\<lparr>svIndex := i', svResolver := r', svAnn := a'\<rparr>)" "ix_wf i'"
    "ix_abs i' = foldl vput (ix_abs i) vecs" "ann_holds r' a' (ix_abs i')"
    using Cons.IH [of ?s, unfolded sel, OF i(3) h] a(3) Cons.prems(3,5) by (auto simp del: vput_apply)
  then show ?case using step i(2) by (intro exI [of _ i'] exI [of _ r'] exI [of _ a']) (simp del: vput_apply)
qed

lemma restore_persistent:
  assumes env: "seStore env = st" and v: "inv v" "persistent v" and D: "opMaxVectorDim opts = D"
    and m: "\<And>k ws. abs v k = Some ws \<Longrightarrow> k \<noteq> [] \<and> length ws = d \<and> int d \<le> D" and "0 < d"
  shows "\<exists>s'. restoreState env (service_initial opts v files) = Some (None, s') \<and> sv_inv s' \<and> svStore s' = v \<and>
    svStats s' = zero_stats \<and> svMaxVectorDim s' = D \<and> (abs v = Map.empty \<longrightarrow> anDim (svAnn s') = 0)"
proof -
  let ?s = "service_initial opts v files" and ?vecs = "stListVectors st v"
  have sel: "svIndex ?s = NewIndex" "svStore ?s = v" "svMaxVectorDim ?s = D" "svResolver ?s = newMemoryIDResolver"
    "svAnn ?s = NewAnnIndexWithOptions (opANNOptions opts)" "svStats ?s = zero_stats"
    using D by (simp_all add: service_initial_def)
  have vl: "vlists (abs v) ?vecs" using vs.listv [OF v(1)] .
  have new: "ix_wf (svIndex ?s)" "ann_holds (svResolver ?s) (svAnn ?s) (ix_abs (svIndex ?s))" "ix_abs (svIndex ?s) = Map.empty"
    by (simp_all add: sel ann_holds_def split: option.split)
  have "storable ?s (vID w) (vValues w) \<and> length (vValues w) = d" if w: "w \<in> set ?vecs" for w
  proof -
    obtain ws where "abs v (vID w) = Some ws" "vValues w = ToFloat64 ws"
      using vl w by (metis vget_Inr vlists_def)
    then show ?thesis using m [of "vID w" ws] \<open>0 < d\<close> by (simp add: storable_def sel D)
  qed
  moreover have "anDim (svAnn ?s) = 0" by simp
  moreover have "distinct (map vID ?vecs)" "vID ` set ?vecs \<inter> dom (ix_abs (svIndex ?s)) = {}" using vl new(3) by (simp_all add: vlists_def)
  ultimately obtain i r a where l: "load_store env ?s ?vecs = Some (None, ?s\<lparr>svIndex := i, svResolver := r, svAnn := a\<rparr>)" "ix_wf i"
    "ix_abs i = foldl vput Map.empty ?vecs" "ann_holds r a (ix_abs i)"
    using load_store_ok [OF new(1,2), of ?vecs d env] new(3) by auto
  have "foldl vput Map.empty ?vecs = abs v" using foldl_vput_vlists [OF vl] vs.canon [OF v(1)] by blast
  then have abs: "ix_abs i = abs v" using l(3) by simp
  have b: "\<forall>k ws. abs v k = Some ws \<longrightarrow> k \<noteq> [] \<and> int (length ws) \<le> D" using m by blast
  with b have "sv_inv (?s\<lparr>svIndex := i, svResolver := r, svAnn := a, svPersistOps := 0\<rparr>)"
    using l(2,4) v(1) abs b D by (simp add: svc_inv_def sel)
  moreover have "restoreState env ?s = Some (None, ?s\<lparr>svIndex := i, svResolver := r, svAnn := a, svPersistOps := 0\<rparr>)"
    using l(1) v(2) env by (simp add: restoreState_def uses_persistent loadVectorStoreState_def)
  moreover have "anDim a = 0" if "abs v = Map.empty"
  proof -
    have "?vecs = []" using vl that by (simp add: vlists_def)
    then have "svAnn ?s = svAnn (?s\<lparr>svIndex := i, svResolver := r, svAnn := a\<rparr>)" using l(1) by simp
    then have "a = svAnn ?s" by simp
    then show ?thesis by simp
  qed
  ultimately show ?thesis by (intro exI [of _ "?s\<lparr>svIndex := i, svResolver := r, svAnn := a, svPersistOps := 0\<rparr>"]) (simp add: sel D)
qed

end

section \<open>What each operation leaves alone\<close>

text \<open>A search changes the counters and nothing else, also when it ends in an error.\<close>

definition stat_step :: "'v service \<Rightarrow> 'v service \<Rightarrow> bool" where
  "stat_step s s' \<longleftrightarrow> (\<exists>t. s' = s\<lparr>svStats := t\<rparr> \<and> (counters_ok (svStats s) \<longrightarrow> counters_ok t))"

lemma stat_step_refl [simp]: "stat_step s s"
  unfolding stat_step_def by (intro exI [of _ "svStats s"]) simp

lemma stat_step_trans: "stat_step s s' \<Longrightarrow> stat_step s' s'' \<Longrightarrow> stat_step s s''"
  by (auto simp: stat_step_def)

lemma searchANN_frame:
  assumes "searchANN s vals k = Some (out, s')"
  shows "\<exists>t. s' = s\<lparr>svStats := t\<rparr> \<and> searchRequestsTotal t = searchRequestsTotal (svStats s) \<and>
    exactSearchesTotal t = exactSearchesTotal (svStats s) \<and> annSearchesTotal t = annSearchesTotal (svStats s) + 1 \<and>
    annSearchFallbacks t = annSearchFallbacks (svStats s) \<and>
    annSearchHitsTotal t = annSearchHitsTotal (svStats s) + (if out = None then 0 else 1)"
  using assms
  by (auto simp: searchANN_def inc_stat_def Let_def split: option.splits sum.splits if_splits)

lemma maybeEvaluateANN_frame:
  assumes "maybeEvaluateANN env s vals k out = Some s'"
  shows "\<exists>t. s' = s\<lparr>svStats := t\<rparr> \<and> searchRequestsTotal t = searchRequestsTotal (svStats s) \<and>
    exactSearchesTotal t = exactSearchesTotal (svStats s) \<and> annSearchesTotal t = annSearchesTotal (svStats s) \<and>
    annSearchFallbacks t = annSearchFallbacks (svStats s) \<and> annSearchHitsTotal t = annSearchHitsTotal (svStats s)"
  using assms
  by (auto simp: maybeEvaluateANN_def inc_stat_def Let_def split: option.splits if_splits intro: exI [of _ "svStats s"])

lemma Search_frame:
  assumes "Search env s vals k = Some (r, s')"
  shows "stat_step s s'"
proof (cases "validateSearchRequest s vals k")
  case (Some e)
  then show ?thesis using assms by (simp add: Search_def)
next
  case val: None
  let ?s = "inc_stat searchRequestsTotal_update 1 s"
  show ?thesis
  proof (cases "svSearchMode s = ''ann''")
    case False
    then show ?thesis
      using assms val by (auto simp: Search_def inc_stat_def Let_def stat_step_def counters_ok_def algebra_simps)
  next
    case True
    then obtain out s1 where run: "searchANN ?s vals k = Some (out, s1)"
      using assms val by (auto simp: Search_def inc_stat_def Let_def split: option.splits)
    note t1 = searchANN_frame [OF this]
    show ?thesis
    proof (cases out)
      case None
      then show ?thesis
        using assms val True run t1
        by (auto simp: Search_def inc_stat_def Let_def stat_step_def counters_ok_def algebra_simps)
    next
      case (Some res)
      then have "maybeEvaluateANN env s1 vals k res = Some s'" using assms val True run by (auto simp: Search_def inc_stat_def Let_def)
      from maybeEvaluateANN_frame [OF this] show ?thesis
        using Some t1 by (auto simp: inc_stat_def stat_step_def counters_ok_def algebra_simps)
    qed
  qed
qed

lemma ann_serial_frame: "ann_serial env s ps = Some (r, s') \<Longrightarrow> stat_step s s'"
  by (induction ps arbitrary: s r s')
     (force split: option.splits sum.splits dest: Search_frame intro: stat_step_trans)+

lemma ann_jobs_frame: "ann_jobs env s ps jobs results firstErr = Some (e, r, s') \<Longrightarrow> stat_step s s'"
  by (induction jobs arbitrary: s results firstErr)
     (force split: option.splits sum.splits dest: Search_frame intro: stat_step_trans)+

lemma SearchBatch_frame: "SearchBatch env s qs = Some (r, s') \<Longrightarrow> stat_step s s'"
  by (auto simp: SearchBatch_def searchBatchANN_def Let_def dest: ann_serial_frame ann_jobs_frame split: if_splits sum.splits)

lemma svc_inv_stat_step: "stat_step s s' \<Longrightarrow> svc_inv sinv sabs s \<Longrightarrow> svc_inv sinv sabs s'"
  by (auto simp: stat_step_def)

text \<open>A write keeps the invariant, the limits and the counters, whatever it returns.\<close>

lemma logged_keeps:
  assumes "case e of
        Some x \<Rightarrow> \<exists>s'. op = Some (Some x, s') \<and> any_svc.sv_next senv s (ix_abs (svIndex s)) p s'
      | None \<Rightarrow> \<exists>s'. op = Some (maybeSnapshot env s') \<and> any_svc.sv_next senv s m p s'"
    and "op = Some (e', s')"
  shows "svc_inv (any_inv senv) any_abs s' \<and> svc_frame s s'"
proof (cases e)
  case (Some x)
  then show ?thesis using assms by (auto simp: any_svc.sv_next_def)
next
  case None
  then obtain s1 where s1: "maybeSnapshot env s1 = (e', s')" "any_svc.sv_next senv s m p s1" using assms by auto
  have eq: "s' = s1\<lparr>svPersistence := svPersistence s', svPersistOps := svPersistOps s'\<rparr>" using s1(1) by (rule maybeSnapshot_frame)
  have "svc_frame s1 s'" by (subst eq) (simp add: svc_frame_def)
  then show ?thesis
    using maybeSnapshot_keeps(1) [OF any_next(1) [OF s1(2)] s1(1)] s1(2) by (auto simp: any_svc.sv_next_def intro: svc_frame_trans)
qed

lemma AddVectors_keeps:
  assumes "seStore env = any_ops senv no_fault now" and "iter_ok (seIter env)" and "svc_inv (any_inv senv) any_abs s"
    and "\<forall>v \<in> set vecs. fits v" and "AddVectors env s vecs = Some (e, s')"
  shows "svc_inv (any_inv senv) any_abs s' \<and> svc_frame s s'"
proof (cases "add_error s vecs")
  case (Some x)
  then show ?thesis using any_svc.AddVectors_rejected [OF assms(1-4) Some] assms(5) by (auto simp: any_svc.sv_next_def)
next
  case None
  obtain e1 sw where w: "appendWALBatch env s (map upsert_op vecs) = (e1, sw)" by force
  show ?thesis by (rule logged_keeps [OF any_svc.AddVectors_logged [OF assms(1-4) None w] assms(5)])
qed

lemma DeleteVector_keeps:
  assumes "seStore env = any_ops senv no_fault now" and "iter_ok (seIter env)" and "svc_inv (any_inv senv) any_abs s"
    and "DeleteVector env s vid = Some (e, s')"
  shows "svc_inv (any_inv senv) any_abs s' \<and> svc_frame s s'"
proof (cases "delete_error s vid")
  case (Some x)
  then show ?thesis using any_svc.DeleteVector_rejected [OF assms(1,3) Some] assms(4) by (auto simp: any_svc.sv_next_def)
next
  case None
  obtain e1 sw where w: "appendWAL env s (delete_op vid) = (e1, sw)" by force
  show ?thesis by (rule logged_keeps [OF any_svc.DeleteVector_logged [OF assms(1-3) None w] assms(4)])
qed

lemma svc_inv_store:
  assumes "svc_inv (any_inv senv) any_abs s" and "any_inv senv v" and "any_abs v = any_abs (svStore s)"
  shows "svc_inv (any_inv senv) any_abs (s\<lparr>svStore := v\<rparr>) \<and> svc_frame s (s\<lparr>svStore := v\<rparr>)"
  using assms by (simp add: svc_inv_def svc_frame_def)

lemma GetVector_keeps:
  assumes "seStore env = any_ops senv no_fault now" and "svc_inv (any_inv senv) any_abs s" and "Service_GetVector env s vid = (r, s')"
  shows "svc_inv (any_inv senv) any_abs s' \<and> svc_frame s s'"
proof (cases "TrimSpace vid = []")
  case True
  then show ?thesis using assms by (simp add: Service_GetVector_def svc_frame_def)
next
  case False
  obtain r1 v where g: "stGetVector (any_ops senv no_fault now) (svStore s) vid = (r1, v)" by force
  have "any_inv senv (svStore s)" using assms(2) by (simp add: svc_inv_def)
  from any_svc.vs.getv [OF this g] have "svc_inv (any_inv senv) any_abs (s\<lparr>svStore := v\<rparr>) \<and> svc_frame s (s\<lparr>svStore := v\<rparr>)"
    using svc_inv_store [OF assms(2)] by blast
  then show ?thesis using assms(1,3) False g by (simp add: Service_GetVector_def)
qed

lemma ListVectorsPage_keeps:
  assumes "seStore env = any_ops senv no_fault now" and "svc_inv (any_inv senv) any_abs s" and "ListVectorsPage env s opts = (p, s')"
  shows "svc_inv (any_inv senv) any_abs s' \<and> svc_frame s s'"
proof (cases "0 < loLimit opts")
  case False
  then show ?thesis using assms by (simp add: ListVectorsPage_def svc_frame_def)
next
  case True
  obtain after limit only where o: "opts = \<lparr>loAfterID = after, loLimit = limit, loIDsOnly = only\<rparr>" by (cases opts)
  obtain v where "s' = s\<lparr>svStore := v\<rparr>" "any_inv senv v" "any_abs v = any_abs (svStore s)"
    using any_svc.ListVectorsPage_ok [OF assms(1,2), of limit after only] True assms(3) o by auto
  then show ?thesis using svc_inv_store [OF assms(2)] by simp
qed

section \<open>Reachable states\<close>

definition store_backend :: "'t anyStore \<Rightarrow> 't backendStore" where
  "store_backend v = (case v of Inl b \<Rightarrow> b | Inr c \<Rightarrow> csBackend c)"

definition file_mode :: "serviceOptions \<Rightarrow> bool" where
  "file_mode opts \<longleftrightarrow> ToLower (TrimSpace (opVectorStore opts)) \<in> {''disk'', ''file''}"

definition runs_on :: "'t storeEnv \<Rightarrow> 't anyStore serviceEnv \<Rightarrow> bool" where
  "runs_on senv env \<longleftrightarrow> (\<exists>now. seStore env = any_ops senv no_fault now) \<and> iter_ok (seIter env)"

text \<open>
  The store of a configuration works without faults; the persistence backend, the clock, the iteration orders and the random numbers may
  differ from step to step. A service on the file store may be restarted on its data file at any time; restarts on the
  memory store are the subject of \<open>dur_reach\<close>.
\<close>

inductive svc_reach :: "'t storeEnv \<Rightarrow> serviceOptions \<Rightarrow> 't anyStore service \<Rightarrow> bool" for senv opts where
  start: "runs_on senv env \<Longrightarrow> json_ok (seCodec env) \<Longrightarrow> seFault env = no_fault \<Longrightarrow>
    NewService senv no_fault env opts [] no_files = Some s \<Longrightarrow> svc_reach senv opts s"
| add: "svc_reach senv opts s \<Longrightarrow> runs_on senv env \<Longrightarrow> \<forall>v \<in> set vecs. fits v \<Longrightarrow>
    AddVectors env s vecs = Some (e, s') \<Longrightarrow> svc_reach senv opts s'"
| delete: "svc_reach senv opts s \<Longrightarrow> runs_on senv env \<Longrightarrow> DeleteVector env s vid = Some (e, s') \<Longrightarrow> svc_reach senv opts s'"
| get: "svc_reach senv opts s \<Longrightarrow> runs_on senv env \<Longrightarrow> Service_GetVector env s vid = (r, s') \<Longrightarrow> svc_reach senv opts s'"
| page: "svc_reach senv opts s \<Longrightarrow> runs_on senv env \<Longrightarrow> ListVectorsPage env s lopts = (p, s') \<Longrightarrow> svc_reach senv opts s'"
| search: "svc_reach senv opts s \<Longrightarrow> Search env s vals k = Some (r, s') \<Longrightarrow> svc_reach senv opts s'"
| batch: "svc_reach senv opts s \<Longrightarrow> SearchBatch env s qs = Some (rs, s') \<Longrightarrow> svc_reach senv opts s'"
| restart: "svc_reach senv opts s \<Longrightarrow> runs_on senv env \<Longrightarrow> file_mode opts \<Longrightarrow> store_backend (svStore s) = BFile f \<Longrightarrow>
    NewService senv no_fault env opts (fsDisk f) (svPersistence s) = Some s' \<Longrightarrow> svc_reach senv opts s'"

lemma new_cached_any:
  assumes "be_inv senv b" and "fits_map (be_abs b)"
  shows "any_inv senv (newCachedVectorStore b c)" and "any_abs (newCachedVectorStore b c) = be_abs b"
    and "any_persistent (newCachedVectorStore b c) = be_persistent b"
proof -
  show "any_abs (newCachedVectorStore b c) = be_abs b" "any_persistent (newCachedVectorStore b c) = be_persistent b"
    by (auto simp: newCachedVectorStore_def any_abs_def any_persistent_def)
  moreover have "any_base senv (newCachedVectorStore b c)"
    using assms(1) cached_be.cs_new [OF assms(1), of c]
    by (cases "newCachedVectorStore b c") (auto simp: any_base_def newCachedVectorStore_def split: if_splits)
  ultimately show "any_inv senv (newCachedVectorStore b c)" using assms(2) by (simp add: any_inv_def)
qed

text \<open>A new process on the data file of a service.\<close>

lemma NewService_file:
  assumes env: "runs_on senv env" and "file_mode opts"
    and f: "newFileVectorStoreWithOptions senv no_fault (if opSyncEvery opts \<le> 0 then 1 else opSyncEvery opts) disk = Some f" "fs_inv senv f"
      "fits_map (fs_abs f)"
    and m: "\<And>k ws. fs_abs f k = Some ws \<Longrightarrow> k \<noteq> [] \<and> length ws = d \<and> int d \<le> opMaxVectorDim opts" and "0 < d"
  shows "\<exists>s'. NewService senv no_fault env opts disk files = Some s' \<and> svc_inv (any_inv senv) any_abs s' \<and>
    any_abs (svStore s') = fs_abs f \<and> any_persistent (svStore s') \<and> svStats s' = zero_stats \<and> svMaxVectorDim s' = opMaxVectorDim opts \<and>
    (fs_abs f = Map.empty \<longrightarrow> anDim (svAnn s') = 0)"
proof -
  obtain now where now: "seStore env = any_ops senv no_fault now" using env by (auto simp: runs_on_def)
  let ?v = "newCachedVectorStore (BFile f) (opCache opts)"
  have be: "be_inv senv (BFile f)" "be_abs (BFile f) = fs_abs f" "be_persistent (BFile f)"
    using f(2) by (simp_all add: be_inv_def be_abs_def be_persistent_def File_IsPersistent_def)
  have v: "any_inv senv ?v" "any_abs ?v = fs_abs f" "any_persistent ?v" using new_cached_any [of senv "BFile f" "opCache opts"] be f(3) by simp_all
  obtain s' where s': "restoreState env (service_initial opts ?v files) = Some (None, s')" "svc_inv (any_inv senv) any_abs s'" "svStore s' = ?v"
    "svStats s' = zero_stats" "svMaxVectorDim s' = opMaxVectorDim opts" "fs_abs f = Map.empty \<longrightarrow> anDim (svAnn s') = 0"
    using any_svc.restore_persistent [where opts = opts and files = files and d = d, OF now v(1,3) refl, unfolded v(2), OF m \<open>0 < d\<close>] by blast
  then show ?thesis using f(1) assms(2) v(2,3) by (auto simp: NewService_def newDefaultVectorStoreWithOptions_def file_mode_def Let_def)
qed

lemma NewService_memory:
  assumes env: "runs_on senv env" "env_ok senv" "json_ok (seCodec env)" "seFault env = no_fault" and "\<not> file_mode opts"
  shows "\<exists>s'. NewService senv no_fault env opts disk no_files = Some s' \<and> svc_inv (any_inv senv) any_abs s' \<and>
    any_abs (svStore s') = Map.empty \<and> svStats s' = zero_stats \<and> svMaxVectorDim s' = opMaxVectorDim opts"
proof -
  let ?v = "newCachedVectorStore (BMem (newMemoryVectorStore senv)) (opCache opts)"
  let ?s = "service_initial opts ?v no_files"
  have be: "be_inv senv (BMem (newMemoryVectorStore senv))" "be_abs (BMem (newMemoryVectorStore senv)) = Map.empty"
    "\<not> be_persistent (BMem (newMemoryVectorStore senv))"
    using env(2) any_abs_new [of senv] by (simp_all add: be_inv_def any_abs_def be_persistent_def Mem_IsPersistent_def)
  have fresh: "fresh_store senv ?v"
    using new_cached_any [of senv "BMem (newMemoryVectorStore senv)" "opCache opts"] be by (simp add: fresh_store_def fits_map_def)
  have envc: "env_for senv (seCodec env) env" using env(1) by (auto simp: env_for_def runs_on_def)
  have "map_ok (opMaxVectorDim opts) Map.empty" "savable Map.empty" by (auto simp: map_ok_def savable_def)
  then obtain s' where s': "restoreState env ?s = Some (None, s')" "dur senv (seCodec env) (opMaxVectorDim opts) s'" "any_abs (svStore s') = Map.empty"
    using restore_initial [OF envc env(4,3) fresh dur_files_none] by blast
  obtain now where now: "seStore env = any_ops senv no_fault now" "iter_ok (seIter env)" using env(1) by (auto simp: runs_on_def)
  have it: "seIter env [] = []" using now(2) unfolding iter_ok_def by (metis mset_zero_iff)
  have np: "\<not> usesPersistentVectorStore env (s\<lparr>svStore := ?v\<rparr>)" for s
    using fresh now by (simp add: any_svc.uses_persistent [OF now(1)] fresh_store_def)
  have "svStats s' = zero_stats"
    using s'(1) np [of ?s] env(4) it
    by (auto simp: restoreState_def loadSnapshot_def replayWAL_def saveSnapshot_def truncateWAL_def service_initial_def LoadSnapshot_def
        newSnapshotWALBackendWithOptions_def no_files_def ReplayWAL_def rebuildANNLocked_def Index_ListVectors_def NewIndex_def
        gm_range_def usesPersistentVectorStore_def split: option.splits prod.splits if_splits)
  then show ?thesis
    using s' assms(5) by (auto simp: NewService_def newDefaultVectorStoreWithOptions_def file_mode_def Let_def dur_def)
qed

text \<open>What a service stores: names that are not empty and canonical values of one dimension within the limit.\<close>

definition vectors_typed :: "int \<Rightarrow> vmap \<Rightarrow> bool" where
  "vectors_typed D m \<longleftrightarrow> (\<exists>d > 0. \<forall>vid vs. m vid = Some vs \<longrightarrow> vid \<noteq> [] \<and> length vs = d \<and> int d \<le> D \<and> list_all canon32 vs)"

lemma svc_inv_typed:
  assumes "svc_inv (any_inv senv) any_abs s"
  shows "vectors_typed (svMaxVectorDim s) (any_abs (svStore s))"
proof -
  note inv = assms [unfolded svc_inv_def]
  have "vid \<noteq> [] \<and> length vs = max 1 (anDim (svAnn s)) \<and> int (max 1 (anDim (svAnn s))) \<le> svMaxVectorDim s \<and> list_all canon32 vs"
    if "any_abs (svStore s) vid = Some vs" for vid vs
  proof -
    have "length vs = anDim (svAnn s)" "0 < anDim (svAnn s)"
      using ann_holds_dims [of "svResolver s" "svAnn s" "ix_abs (svIndex s)" vid vs] inv that by simp_all
    moreover have "vid \<noteq> [] \<and> int (length vs) \<le> svMaxVectorDim s" using inv that by simp
    moreover have "list_all canon32 vs" using any_st.canon [of senv "svStore s" vid vs] inv that by simp
    ultimately show ?thesis by (simp add: max_def)
  qed
  then show ?thesis unfolding vectors_typed_def by (intro exI [of _ "max 1 (anDim (svAnn s))"]) simp
qed

lemma persistent_backend: "any_persistent v \<longleftrightarrow> (\<exists>f. store_backend v = BFile f)"
  by (cases v; cases "store_backend v")
     (auto simp: any_persistent_def store_backend_def be_persistent_def Mem_IsPersistent_def File_IsPersistent_def)

lemma backend_of:
  assumes "any_inv senv v" and "store_backend v = BFile f"
  shows "fs_inv senv f" and "fs_abs f = any_abs v" and "fits_map (fs_abs f)"
proof -
  have "be_inv senv (BFile f)" "be_abs (BFile f) = any_abs v"
    using assms by (cases v; simp add: any_inv_def any_base_def any_abs_def store_backend_def cached_be.cs_inv_def)+
  then show "fs_inv senv f" "fs_abs f = any_abs v" by (simp_all add: be_inv_def be_abs_def)
  then show "fits_map (fs_abs f)" using assms(1) by (simp add: any_inv_def)
qed

lemma file_restart_ok:
  assumes "svc_inv (any_inv senv) any_abs s" and "store_backend (svStore s) = BFile f" and "runs_on senv' env" and "env_ok senv'"
    and "file_mode opts" and "svMaxVectorDim s \<le> opMaxVectorDim opts"
  shows "\<exists>s'. NewService senv' no_fault env opts (fsDisk f) files = Some s' \<and> svc_inv (any_inv senv') any_abs s' \<and>
    any_abs (svStore s') = any_abs (svStore s) \<and> svStats s' = zero_stats \<and> svMaxVectorDim s' = opMaxVectorDim opts"
proof -
  have "any_inv senv (svStore s)" using assms(1) by (simp add: svc_inv_def)
  note f = backend_of [OF this assms(2)]
  let ?n = "if opSyncEvery opts \<le> 0 then 1 else opSyncEvery opts"
  obtain f' where f': "newFileVectorStoreWithOptions senv' no_fault ?n (fsDisk f) = Some f'" "fs_inv senv' f'" "fs_abs f' = fs_abs f"
    using reopen_same [OF f(1) assms(4)] by blast
  obtain d where d0: "0 < d" "\<forall>vid vs. any_abs (svStore s) vid = Some vs \<longrightarrow> vid \<noteq> [] \<and> length vs = d \<and> int d \<le> svMaxVectorDim s \<and> list_all canon32 vs"
    using svc_inv_typed [OF assms(1)] unfolding vectors_typed_def by blast
  have d: "vid \<noteq> [] \<and> length vs = d \<and> int d \<le> opMaxVectorDim opts" if "fs_abs f' vid = Some vs" for vid vs
    using d0(2) [rule_format, of vid vs] that assms(6) unfolding f'(3) f(2) by simp
  show ?thesis using NewService_file [OF assms(3,5) f'(1,2) _ d d0(1)] f(2,3) f'(3) by (metis (no_types, lifting))
qed

lemma frame_keeps: "svc_frame s s' \<Longrightarrow> svStats s' = svStats s \<and> svMaxVectorDim s' = svMaxVectorDim s"
  by (simp add: svc_frame_def)

lemma runs_on_E:
  assumes "runs_on senv env"
  obtains now where "seStore env = any_ops senv no_fault now" "iter_ok (seIter env)"
  using assms by (auto simp: runs_on_def)

lemma svc_reach_inv:
  assumes "svc_reach senv opts s" and "env_ok senv"
  shows "svc_inv (any_inv senv) any_abs s \<and> counters_ok (svStats s) \<and> svMaxVectorDim s = opMaxVectorDim opts"
  using assms
proof (induction rule: svc_reach.induct)
  case (start env s)
  have zero: "counters_ok zero_stats" by (simp add: counters_ok_def zero_stats_def)
  show ?case
  proof (cases "file_mode opts")
    case True
    obtain f where f: "newFileVectorStoreWithOptions senv no_fault (if opSyncEvery opts \<le> 0 then 1 else opSyncEvery opts) [] = Some f"
      "fs_inv senv f" "fs_abs f = Map.empty"
      using fs_inv_empty [OF start.prems] by blast
    then show ?thesis
      using NewService_file [OF start(1) True f(1,2), of 1 no_files] start(4) zero by (auto simp: fits_map_def)
  next
    case False
    then show ?thesis using NewService_memory [OF start(1) start.prems start(2,3) False, of "[]"] start(4) zero by auto
  qed
next
  case (add s env vecs e s')
  obtain now where now: "seStore env = any_ops senv no_fault now" "iter_ok (seIter env)" using runs_on_E [OF add(2)] .
  from AddVectors_keeps [OF now _ add(3,4)] add.IH [OF add.prems] show ?case by (auto dest: frame_keeps)
next
  case (delete s env vid e s')
  obtain now where now: "seStore env = any_ops senv no_fault now" "iter_ok (seIter env)" using runs_on_E [OF delete(2)] .
  from DeleteVector_keeps [OF now _ delete(3)] delete.IH [OF delete.prems] show ?case by (auto dest: frame_keeps)
next
  case (get s env vid r s')
  obtain now where now: "seStore env = any_ops senv no_fault now" using runs_on_E [OF get(2)] .
  from GetVector_keeps [OF now _ get(3)] get.IH [OF get.prems] show ?case by (auto dest: frame_keeps)
next
  case (page s env lopts p s')
  obtain now where now: "seStore env = any_ops senv no_fault now" using runs_on_E [OF page(2)] .
  from ListVectorsPage_keeps [OF now _ page(3)] page.IH [OF page.prems] show ?case by (auto dest: frame_keeps)
next
  case (search s env vals k r s')
  then show ?case using Search_frame [OF search(2)] by (auto simp: stat_step_def)
next
  case (batch s env qs rs s')
  then show ?case using SearchBatch_frame [OF batch(2)] by (auto simp: stat_step_def)
next
  case (restart s env f s')
  then show ?case using file_restart_ok [of senv s f senv env opts "svPersistence s"] by (auto simp: counters_ok_def zero_stats_def)
qed

section \<open>Properties\<close>

text \<open>
  C3. The invariant of the service: in every state reached by any interleaving of starts, writes, reads, searches and restarts on the
  file store, with any faults of the persistence backend, the exact index, the vector store, the approximate index and the resolver
  describe one map; all stored vectors have names, one common dimension within the limit and canonical values; the counters add up.
\<close>

theorem service_invariant:
  assumes "svc_reach senv opts s" and "env_ok senv"
  shows "svc_inv (any_inv senv) any_abs s \<and> vectors_typed (opMaxVectorDim opts) (any_abs (svStore s)) \<and> counters_ok (svStats s)"
  using svc_reach_inv [OF assms] svc_inv_typed [of senv s] by simp

definition file_opts :: "string \<Rightarrow> serviceOptions" where
  "file_opts mode = (sample_opts mode)\<lparr>opVectorStore := ''disk'', opCache := \<lparr>coEnabled = True, coMaxBytes = 0, coMaxItems = 1, coTTL = 0\<rparr>\<rparr>"

lemma file_opts_mode: "file_mode (file_opts mode)"
  by (simp add: file_mode_def file_opts_def TrimSpace_untrimmed untrimmed_def strip_one_def space_encodings_def lower_char_def)

lemma sample_runs_on: "runs_on set_env (sample_env flt)"
  using sample_env_ok [of flt] by (auto simp: runs_on_def)

text \<open>A service on the file store, started on an empty file, after one insertion.\<close>

lemma file_history:
  "\<exists>s f. svc_reach set_env (file_opts mode) s \<and> store_backend (svStore s) = BFile f \<and>
     any_abs (svStore s) = foldl vput Map.empty [sample_vector]"
proof -
  let ?opts = "file_opts mode" and ?env = "sample_env no_fault"
  obtain f where f: "newFileVectorStoreWithOptions set_env no_fault (if opSyncEvery ?opts \<le> 0 then 1 else opSyncEvery ?opts) [] = Some f"
    "fs_inv set_env f" "fs_abs f = Map.empty"
    using fs_inv_empty [OF set_env_ok] by blast
  obtain s0 where s0: "NewService set_env no_fault ?env ?opts [] no_files = Some s0" "svc_inv (any_inv set_env) any_abs s0"
    "any_abs (svStore s0) = Map.empty" "svMaxVectorDim s0 = 4" "any_persistent (svStore s0)" "anDim (svAnn s0) = 0"
    using NewService_file [OF sample_runs_on file_opts_mode f(1,2), of 1 no_fault no_files] f(3)
    by (auto simp: fits_map_def file_opts_def sample_opts_def)
  have r0: "svc_reach set_env ?opts s0"
    by (rule start [OF sample_runs_on [of no_fault] _ _ s0(1)]) (simp_all add: sample_env_def hex_codec_ok)
  have w: "appendWALBatch ?env s0 (map upsert_op [sample_vector]) = (None, s0)"
    using s0(5) by (simp add: appendWALBatch_def any_svc.uses_persistent [OF sample_env_ok(1)])
  have ix: "ix_abs (svIndex s0) = Map.empty" using svc_inv_map [OF s0(2)] s0(3) by simp
  have ok: "add_error s0 [sample_vector] = None"
    using sample_vector_ok(2) [of mode] ix s0(4,6) by (simp add: add_error_def check_vector_def sample_vector_def trim_a)
  obtain s1 where s1: "AddVectors ?env s0 [sample_vector] = Some (maybeSnapshot ?env s1)"
    "any_svc.sv_next set_env s0 (foldl vput Map.empty [sample_vector]) (svPersistence s0) s1"
    using any_svc.AddVectors_logged [OF sample_env_ok s0(2) _ ok w] sample_vector_ok(1) ix by auto
  obtain e s2 where ms: "maybeSnapshot ?env s1 = (e, s2)" by force
  have "svc_reach set_env ?opts s2"
    by (rule add [OF r0 sample_runs_on [of no_fault], of "[sample_vector]" e]) (use s1(1) ms sample_vector_ok(1) in simp_all)
  moreover have "any_persistent (svStore s2)"
    using s0(5) s1(2) maybeSnapshot_keeps(2) [OF any_next(1) [OF s1(2)] ms] by (simp add: any_svc.sv_next_def)
  moreover have "any_abs (svStore s2) = foldl vput Map.empty [sample_vector]"
    using maybeSnapshot_keeps(2) [OF any_next(1) [OF s1(2)] ms] any_next(2) [OF s1(2)] by simp
  ultimately show ?thesis using persistent_backend by blast
qed

theorem service_invariant_witness:
  "\<exists>s. any_abs (svStore s) = foldl vput Map.empty [sample_vector] \<and> vectors_typed 4 (any_abs (svStore s)) \<and> svc_inv (any_inv set_env) any_abs s"
proof -
  obtain s where s: "svc_reach set_env (file_opts []) s" "any_abs (svStore s) = foldl vput Map.empty [sample_vector]"
    using file_history by blast
  have "opMaxVectorDim (file_opts []) = 4" by (simp add: file_opts_def sample_opts_def)
  then show ?thesis using service_invariant [OF s(1) set_env_ok] s(2) by metis
qed

text \<open>
  C16. Durability on the file store: at any moment of the life of a service, a new process that opens its data file, with any
  ordered-set implementation, iteration order and cache configuration, starts without a panic and serves exactly the same
  vectors, with index, approximate index and resolver rebuilt. The snapshot and the log play no part.
\<close>

theorem file_restart_restores:
  assumes "svc_reach senv opts s" and "env_ok senv" and "store_backend (svStore s) = BFile f"
    and "runs_on senv' env" and "env_ok senv'" and "file_mode opts'" and "opMaxVectorDim opts \<le> opMaxVectorDim opts'"
  shows "\<exists>s'. NewService senv' no_fault env opts' (fsDisk f) files = Some s' \<and> svc_inv (any_inv senv') any_abs s' \<and>
    any_abs (svStore s') = any_abs (svStore s)"
  using file_restart_ok [OF _ assms(3-6), of senv files] svc_reach_inv [OF assms(1,2)] assms(7) by auto

theorem file_restart_restores_witness:
  "\<exists>(s :: string fset anyStore service) f s'. store_backend (svStore s) = BFile f \<and> any_abs (svStore s) ''a'' = Some (ToFloat32 [0]) \<and>
     NewService set_env no_fault (sample_env no_fault) (file_opts ''ann'') (fsDisk f) no_files = Some s' \<and>
     any_abs (svStore s') ''a'' = Some (ToFloat32 [0])"
proof -
  obtain s f where s: "svc_reach set_env (file_opts []) s" "store_backend (svStore s) = BFile f"
    "any_abs (svStore s) = foldl vput Map.empty [sample_vector]"
    using file_history by blast
  have D: "opMaxVectorDim (file_opts []) \<le> opMaxVectorDim (file_opts ''ann'')" by (simp add: file_opts_def sample_opts_def)
  obtain s' where "NewService set_env no_fault (sample_env no_fault) (file_opts ''ann'') (fsDisk f) no_files = Some s'"
    "any_abs (svStore s') = any_abs (svStore s)"
    using file_restart_restores [OF s(1) set_env_ok s(2) sample_runs_on set_env_ok file_opts_mode D] by blast
  moreover have "any_abs (svStore s) ''a'' = Some (ToFloat32 [0])" by (simp add: s(3) sample_vector_def)
  ultimately show ?thesis using s(2) by metis
qed

end
