(* ===== verification/Config.thy ===== *)
theory Config
  imports Stores GoFloat
begin

text \<open>
  \<^verbatim>\<open>internal/config/config.go\<close>: the configuration record, its defaults, the environment variables that override it and the
  normalisation of profiles. The YAML decoder is a package outside the repository and a parameter: a function from the
  text of the file and the record with the defaults to an error or the decoded record.
\<close>

section \<open>Numbers and booleans in text\<close>

text \<open>\<^verbatim>\<open>strconv.ParseBool\<close>.\<close>

definition ParseBool :: "string \<Rightarrow> bool option" where
  "ParseBool v =
     (if v \<in> {''1'', ''t'', ''T'', ''TRUE'', ''true'', ''True''} then Some True
      else if v \<in> {''0'', ''f'', ''F'', ''FALSE'', ''false'', ''False''} then Some False else None)"

text \<open>\<^verbatim>\<open>strconv.ParseInt(v, 10, 64)\<close>, and \<^verbatim>\<open>strconv.Atoi\<close> where \<^verbatim>\<open>int\<close> has 64 bits.\<close>

definition ParseInt :: "string \<Rightarrow> int option" where
  "ParseInt v =
     (let (neg, digits) = (case v of [] \<Rightarrow> (False, [])
            | c # r \<Rightarrow> if c = CHR ''-'' then (True, r) else if c = CHR ''+'' then (False, r) else (False, v))
      in if digits = [] then None
         else case digits_value 0 digits of None \<Rightarrow> None
           | Some n \<Rightarrow> let i = (if neg then - int n else int n) in if - (2 ^ 63) \<le> i \<and> i < 2 ^ 63 then Some i else None)"

text \<open>\<^verbatim>\<open>strings.Split(v, ",")\<close>.\<close>

fun split_at :: "char \<Rightarrow> string \<Rightarrow> string \<Rightarrow> string list" where
  "split_at sep acc [] = [rev acc]"
| "split_at sep acc (c # r) = (if c = sep then rev acc # split_at sep [] r else split_at sep (c # acc) r)"

definition Split :: "string \<Rightarrow> char \<Rightarrow> string list" where
  "Split s sep = split_at sep [] s"

section \<open>The record\<close>

record serverConfig =
  scProtocol :: string
  scPort :: string
  scReadTimeout :: string
  scWriteTimeout :: string
  scAPIKey :: string
  scAccessLog :: bool
  scMetrics :: bool
  scRateLimitRPS :: int

record databaseConfig =
  dcSnapshotPath :: string
  dcWALPath :: string
  dcSnapshotEvery :: int
  dcVectorStore :: string
  dcVectorPath :: string
  dcSyncEvery :: int
  dcCacheEnabled :: bool
  dcCacheMaxBytes :: int
  dcCacheMaxItems :: int
  dcCacheTTL :: string

record limitsConfig =
  lcMaxBodyBytes :: int
  lcMaxVectorDim :: int
  lcMaxK :: int

record searchConfig =
  srcMode :: string
  srcANNProfile :: string
  srcANNM :: int
  srcANNEfConstruct :: int
  srcANNEfSearch :: int
  srcANNEvalSampleRate :: int

record grpcConfig =
  gcEnabled :: bool
  gcPort :: string

record authConfig =
  acEnabled :: bool
  acAPIKey :: string
  acGRPCEnabled :: bool

record transportConfig =
  tcTLSEnabled :: bool
  tcCertFile :: string
  tcKeyFile :: string

record proxyConfig =
  pcTrustForwardedFor :: bool
  pcTrustedProxies :: "string list"

record storageConfig =
  stcStrict :: bool
  stcDirMode :: string
  stcFileMode :: string

record securityConfig =
  secProfile :: string
  secAuth :: authConfig
  secTransport :: transportConfig
  secProxy :: proxyConfig
  secStorage :: storageConfig

record config =
  cfgServer :: serverConfig
  cfgDatabase :: databaseConfig
  cfgLimits :: limitsConfig
  cfgSearch :: searchConfig
  cfgGRPC :: grpcConfig
  cfgSecurity :: securityConfig

definition defaultConfig :: config where
  "defaultConfig =
     \<lparr>cfgServer = \<lparr>scProtocol = ''http'', scPort = ''19190'', scReadTimeout = ''10s'', scWriteTimeout = ''10s'', scAPIKey = [],
        scAccessLog = False, scMetrics = True, scRateLimitRPS = 100\<rparr>,
      cfgDatabase = \<lparr>dcSnapshotPath = ''./data/snapshot.json'', dcWALPath = ''./data/wal.log'', dcSnapshotEvery = 25,
        dcVectorStore = ''memory'', dcVectorPath = ''./data/vectors'', dcSyncEvery = 1, dcCacheEnabled = False,
        dcCacheMaxBytes = 8 * 2 ^ 20, dcCacheMaxItems = 1024, dcCacheTTL = ''15m''\<rparr>,
      cfgLimits = \<lparr>lcMaxBodyBytes = 2 ^ 20, lcMaxVectorDim = 4096, lcMaxK = 100\<rparr>,
      cfgSearch = \<lparr>srcMode = ''exact'', srcANNProfile = ''balanced'', srcANNM = 0, srcANNEfConstruct = 0, srcANNEfSearch = 0,
        srcANNEvalSampleRate = 0\<rparr>,
      cfgGRPC = \<lparr>gcEnabled = False, gcPort = ''19191''\<rparr>,
      cfgSecurity = \<lparr>secProfile = ''development'', secAuth = \<lparr>acEnabled = False, acAPIKey = [], acGRPCEnabled = False\<rparr>,
        secTransport = \<lparr>tcTLSEnabled = False, tcCertFile = [], tcKeyFile = []\<rparr>,
        secProxy = \<lparr>pcTrustForwardedFor = False, pcTrustedProxies = []\<rparr>,
        secStorage = \<lparr>stcStrict = False, stcDirMode = ''0755'', stcFileMode = ''0644''\<rparr>\<rparr>\<rparr>"

section \<open>Environment variables\<close>

text \<open>The three patterns of \<^verbatim>\<open>overrideFromEnv\<close>: a value that is blank, or that does not parse or is out of range, changes nothing.\<close>

definition env_string :: "(string \<Rightarrow> string) \<Rightarrow> string \<Rightarrow> (string \<Rightarrow> config \<Rightarrow> config) \<Rightarrow> config \<Rightarrow> config" where
  "env_string getenv name upd cfg = (let v = TrimSpace (getenv name) in if v \<noteq> [] then upd v cfg else cfg)"

definition env_bool :: "(string \<Rightarrow> string) \<Rightarrow> string \<Rightarrow> (bool \<Rightarrow> config \<Rightarrow> config) \<Rightarrow> config \<Rightarrow> config" where
  "env_bool getenv name upd =
     env_string getenv name (\<lambda>v cfg. case ParseBool v of Some enabled \<Rightarrow> upd enabled cfg | None \<Rightarrow> cfg)"

definition env_int :: "(int \<Rightarrow> bool) \<Rightarrow> (string \<Rightarrow> string) \<Rightarrow> string \<Rightarrow> (int \<Rightarrow> config \<Rightarrow> config) \<Rightarrow> config \<Rightarrow> config" where
  "env_int ok getenv name upd =
     env_string getenv name (\<lambda>v cfg. case ParseInt v of Some n \<Rightarrow> if ok n then upd n cfg else cfg | None \<Rightarrow> cfg)"

text \<open>The statements of \<^verbatim>\<open>overrideFromEnv\<close> in groups; the last function of a composition runs first.\<close>

definition env_server :: "(string \<Rightarrow> string) \<Rightarrow> config \<Rightarrow> config" where
  "env_server getenv =
     env_int (\<lambda>n. 0 \<le> n) getenv ''VECTOR_DB_RATE_LIMIT_RPS'' (\<lambda>x. cfgServer_update (scRateLimitRPS_update (\<lambda>_. x))) o
     env_bool getenv ''VECTOR_DB_METRICS_ENABLED'' (\<lambda>x. cfgServer_update (scMetrics_update (\<lambda>_. x))) o
     env_bool getenv ''VECTOR_DB_ACCESS_LOG'' (\<lambda>x. cfgServer_update (scAccessLog_update (\<lambda>_. x))) o
     env_string getenv ''VECTOR_DB_API_KEY'' (\<lambda>x. cfgServer_update (scAPIKey_update (\<lambda>_. x))) o
     env_string getenv ''VECTOR_DB_WRITE_TIMEOUT'' (\<lambda>x. cfgServer_update (scWriteTimeout_update (\<lambda>_. x))) o
     env_string getenv ''VECTOR_DB_READ_TIMEOUT'' (\<lambda>x. cfgServer_update (scReadTimeout_update (\<lambda>_. x))) o
     env_string getenv ''VECTOR_DB_PORT'' (\<lambda>x. cfgServer_update (scPort_update (\<lambda>_. x))) o
     env_string getenv ''VECTOR_DB_PROTOCOL'' (\<lambda>x. cfgServer_update (scProtocol_update (\<lambda>_. x)))"

definition env_database :: "(string \<Rightarrow> string) \<Rightarrow> config \<Rightarrow> config" where
  "env_database getenv =
     env_string getenv ''VECTOR_DB_CACHE_TTL'' (\<lambda>x. cfgDatabase_update (dcCacheTTL_update (\<lambda>_. x))) o
     env_int (\<lambda>n. 0 < n) getenv ''VECTOR_DB_CACHE_MAX_ITEMS'' (\<lambda>x. cfgDatabase_update (dcCacheMaxItems_update (\<lambda>_. x))) o
     env_int (\<lambda>n. 0 < n) getenv ''VECTOR_DB_CACHE_MAX_BYTES'' (\<lambda>x. cfgDatabase_update (dcCacheMaxBytes_update (\<lambda>_. x))) o
     env_bool getenv ''VECTOR_DB_CACHE_ENABLED'' (\<lambda>x. cfgDatabase_update (dcCacheEnabled_update (\<lambda>_. x))) o
     env_int (\<lambda>n. 0 < n) getenv ''VECTOR_DB_SYNC_EVERY'' (\<lambda>x. cfgDatabase_update (dcSyncEvery_update (\<lambda>_. x))) o
     env_string getenv ''VECTOR_DB_VECTOR_PATH'' (\<lambda>x. cfgDatabase_update (dcVectorPath_update (\<lambda>_. x))) o
     env_string getenv ''VECTOR_DB_VECTOR_STORE'' (\<lambda>x. cfgDatabase_update (dcVectorStore_update (\<lambda>_. x))) o
     env_int (\<lambda>n. 0 < n) getenv ''VECTOR_DB_SNAPSHOT_EVERY'' (\<lambda>x. cfgDatabase_update (dcSnapshotEvery_update (\<lambda>_. x))) o
     env_string getenv ''VECTOR_DB_WAL_PATH'' (\<lambda>x. cfgDatabase_update (dcWALPath_update (\<lambda>_. x))) o
     env_string getenv ''VECTOR_DB_SNAPSHOT_PATH'' (\<lambda>x. cfgDatabase_update (dcSnapshotPath_update (\<lambda>_. x)))"

definition env_limits :: "(string \<Rightarrow> string) \<Rightarrow> config \<Rightarrow> config" where
  "env_limits getenv =
     env_int (\<lambda>n. 0 < n) getenv ''VECTOR_DB_MAX_K'' (\<lambda>x. cfgLimits_update (lcMaxK_update (\<lambda>_. x))) o
     env_int (\<lambda>n. 0 < n) getenv ''VECTOR_DB_MAX_VECTOR_DIM'' (\<lambda>x. cfgLimits_update (lcMaxVectorDim_update (\<lambda>_. x))) o
     env_int (\<lambda>n. 0 < n) getenv ''VECTOR_DB_MAX_BODY_BYTES'' (\<lambda>x. cfgLimits_update (lcMaxBodyBytes_update (\<lambda>_. x)))"

definition env_search :: "(string \<Rightarrow> string) \<Rightarrow> config \<Rightarrow> config" where
  "env_search getenv =
     env_int (\<lambda>n. 0 \<le> n) getenv ''VECTOR_DB_ANN_EVAL_SAMPLE_RATE'' (\<lambda>x. cfgSearch_update (srcANNEvalSampleRate_update (\<lambda>_. x))) o
     env_int (\<lambda>n. 0 < n) getenv ''VECTOR_DB_ANN_EF_SEARCH'' (\<lambda>x. cfgSearch_update (srcANNEfSearch_update (\<lambda>_. x))) o
     env_int (\<lambda>n. 0 < n) getenv ''VECTOR_DB_ANN_EF_CONSTRUCTION'' (\<lambda>x. cfgSearch_update (srcANNEfConstruct_update (\<lambda>_. x))) o
     env_int (\<lambda>n. 0 < n) getenv ''VECTOR_DB_ANN_M'' (\<lambda>x. cfgSearch_update (srcANNM_update (\<lambda>_. x))) o
     env_string getenv ''VECTOR_DB_ANN_PROFILE'' (\<lambda>x. cfgSearch_update (srcANNProfile_update (\<lambda>_. x))) o
     env_string getenv ''VECTOR_DB_SEARCH_MODE'' (\<lambda>x. cfgSearch_update (srcMode_update (\<lambda>_. x)))"

definition env_security :: "(string \<Rightarrow> string) \<Rightarrow> config \<Rightarrow> config" where
  "env_security getenv =
     env_bool getenv ''VECTOR_DB_TRUST_FORWARDED_FOR'' (\<lambda>x. cfgSecurity_update (secProxy_update (pcTrustForwardedFor_update (\<lambda>_. x)))) o
     env_string getenv ''VECTOR_DB_TLS_KEY_FILE'' (\<lambda>x. cfgSecurity_update (secTransport_update (tcKeyFile_update (\<lambda>_. x)))) o
     env_string getenv ''VECTOR_DB_TLS_CERT_FILE'' (\<lambda>x. cfgSecurity_update (secTransport_update (tcCertFile_update (\<lambda>_. x)))) o
     env_bool getenv ''VECTOR_DB_TLS_ENABLED'' (\<lambda>x. cfgSecurity_update (secTransport_update (tcTLSEnabled_update (\<lambda>_. x)))) o
     env_bool getenv ''VECTOR_DB_SECURITY_GRPC_AUTH_ENABLED'' (\<lambda>x. cfgSecurity_update (secAuth_update (acGRPCEnabled_update (\<lambda>_. x)))) o
     env_string getenv ''VECTOR_DB_SECURITY_API_KEY'' (\<lambda>x. cfgSecurity_update (secAuth_update (acAPIKey_update (\<lambda>_. x)))) o
     env_bool getenv ''VECTOR_DB_SECURITY_AUTH_ENABLED'' (\<lambda>x. cfgSecurity_update (secAuth_update (acEnabled_update (\<lambda>_. x)))) o
     env_string getenv ''VECTOR_DB_SECURITY_PROFILE'' (\<lambda>x. cfgSecurity_update (secProfile_update (\<lambda>_. x))) o
     env_string getenv ''VECTOR_DB_GRPC_PORT'' (\<lambda>x. cfgGRPC_update (gcPort_update (\<lambda>_. x))) o
     env_bool getenv ''VECTOR_DB_GRPC_ENABLED'' (\<lambda>x. cfgGRPC_update (gcEnabled_update (\<lambda>_. x)))"

definition env_proxies :: "(string \<Rightarrow> string) \<Rightarrow> config \<Rightarrow> config" where
  "env_proxies getenv =
     env_string getenv ''VECTOR_DB_TRUSTED_PROXIES'' (\<lambda>v. cfgSecurity_update (secProxy_update
       (pcTrustedProxies_update (\<lambda>_. filter (\<lambda>part. part \<noteq> []) (map TrimSpace (Split v CHR '',''))))))"

definition env_storage :: "(string \<Rightarrow> string) \<Rightarrow> config \<Rightarrow> config" where
  "env_storage getenv =
     env_string getenv ''VECTOR_DB_STORAGE_FILE_MODE'' (\<lambda>x. cfgSecurity_update (secStorage_update (stcFileMode_update (\<lambda>_. x)))) o
     env_string getenv ''VECTOR_DB_STORAGE_DIR_MODE'' (\<lambda>x. cfgSecurity_update (secStorage_update (stcDirMode_update (\<lambda>_. x)))) o
     env_bool getenv ''VECTOR_DB_STRICT_FILE_PERMISSIONS'' (\<lambda>x. cfgSecurity_update (secStorage_update (stcStrict_update (\<lambda>_. x))))"

section \<open>Normalisation\<close>

definition normalizeProtocol :: "string \<Rightarrow> string" where
  "normalizeProtocol protocol = (if ToLower (TrimSpace protocol) = ''grpc'' then ''grpc'' else ''http'')"

definition applyTransportDefaults :: "config \<Rightarrow> config" where
  "applyTransportDefaults cfg =
     (let p = normalizeProtocol (scProtocol (cfgServer cfg))
      in cfg\<lparr>cfgServer := (cfgServer cfg)\<lparr>scProtocol := p\<rparr>, cfgGRPC := (cfgGRPC cfg)\<lparr>gcEnabled := (p = ''grpc'')\<rparr>\<rparr>)"

definition config_normalizeANNProfile :: "string \<Rightarrow> string" where
  "config_normalizeANNProfile profile =
     (let p = ToLower (TrimSpace profile)
      in if p = ''fast'' then ''fast'' else if p = ''quality'' then ''quality'' else ''balanced'')"

definition annProfileDefaults :: "string \<Rightarrow> int \<times> int \<times> int" where
  "annProfileDefaults profile =
     (let p = config_normalizeANNProfile profile
      in if p = ''fast'' then (8, 32, 32) else if p = ''quality'' then (24, 96, 96) else (16, 64, 64))"

definition applyANNProfileDefaults :: "config \<Rightarrow> config" where
  "applyANNProfileDefaults cfg =
     (let sr = cfgSearch cfg;
          profile = config_normalizeANNProfile (srcANNProfile sr);
          (m, efConstruct, efSearch) = annProfileDefaults profile
      in cfg\<lparr>cfgSearch := sr\<lparr>srcANNProfile := profile,
            srcANNM := (if srcANNM sr \<le> 0 then m else srcANNM sr),
            srcANNEfConstruct := (if srcANNEfConstruct sr \<le> 0 then efConstruct else srcANNEfConstruct sr),
            srcANNEfSearch := (if srcANNEfSearch sr \<le> 0 then efSearch else srcANNEfSearch sr)\<rparr>\<rparr>)"

definition normalizeSecurityProfile :: "string \<Rightarrow> string" where
  "normalizeSecurityProfile profile =
     (if ToLower (TrimSpace profile) = ''production'' then ''production'' else ''development'')"

text \<open>\<^verbatim>\<open>applySecurityDefaults\<close>: the two branches of its switch, then the whole.\<close>

definition production_defaults :: "securityConfig \<Rightarrow> securityConfig" where
  "production_defaults sc =
     (let auth = secAuth sc; prox = secProxy sc; stor = secStorage sc;
          enabled = (if TrimSpace (acAPIKey auth) \<noteq> [] then True else acEnabled auth)
      in sc\<lparr>secAuth := auth\<lparr>acEnabled := enabled, acGRPCEnabled := enabled\<rparr>,
            secProxy := prox\<lparr>pcTrustForwardedFor := (pcTrustForwardedFor prox \<and> pcTrustedProxies prox \<noteq> [])\<rparr>,
            secStorage := stor\<lparr>stcStrict := True,
              stcDirMode := (if TrimSpace (stcDirMode stor) = [] \<or> stcDirMode stor = ''0755'' then ''0700'' else stcDirMode stor),
              stcFileMode := (if TrimSpace (stcFileMode stor) = [] \<or> stcFileMode stor = ''0644'' then ''0600'' else stcFileMode stor)\<rparr>\<rparr>)"

definition development_defaults :: "securityConfig \<Rightarrow> securityConfig" where
  "development_defaults sc =
     (let auth = secAuth sc; stor = secStorage sc
      in sc\<lparr>secAuth := (if \<not> acEnabled auth then auth\<lparr>acGRPCEnabled := False\<rparr> else auth),
            secStorage := stor\<lparr>
              stcDirMode := (if TrimSpace (stcDirMode stor) = [] then ''0755'' else stcDirMode stor),
              stcFileMode := (if TrimSpace (stcFileMode stor) = [] then ''0644'' else stcFileMode stor)\<rparr>\<rparr>)"

definition applySecurityDefaults :: "config \<Rightarrow> config" where
  "applySecurityDefaults cfg =
     (let profile = normalizeSecurityProfile (secProfile (cfgSecurity cfg));
          sc = (cfgSecurity cfg)\<lparr>secProfile := profile\<rparr>;
          key = scAPIKey (cfgServer cfg);
          sc = (if TrimSpace (acAPIKey (secAuth sc)) = [] \<and> TrimSpace key \<noteq> []
                then sc\<lparr>secAuth := (secAuth sc)\<lparr>acAPIKey := key\<rparr>\<rparr> else sc)
      in cfg\<lparr>cfgSecurity := (if profile = ''production'' then production_defaults sc else development_defaults sc)\<rparr>)"

definition overrideFromEnv :: "(string \<Rightarrow> string) \<Rightarrow> config \<Rightarrow> config" where
  "overrideFromEnv getenv cfg =
     applySecurityDefaults (applyANNProfileDefaults (applyTransportDefaults
       (env_storage getenv (env_proxies getenv (env_security getenv (env_search getenv (env_limits getenv
         (env_database getenv (env_server getenv cfg)))))))))"

text \<open>\<open>file\<close> is what \<^verbatim>\<open>os.ReadFile\<close> returns; a file that cannot be read leaves the defaults.\<close>

definition Load :: "(string \<Rightarrow> config \<Rightarrow> config result) \<Rightarrow> (string \<Rightarrow> string) \<Rightarrow> string result \<Rightarrow> config result" where
  "Load yaml getenv file =
     (case file of
        Inl _ \<Rightarrow> Inr (overrideFromEnv getenv defaultConfig)
      | Inr data \<Rightarrow>
          (case yaml data defaultConfig of Inl e \<Rightarrow> Inl e | Inr cfg \<Rightarrow> Inr (overrideFromEnv getenv cfg)))"

section \<open>Durations\<close>

text \<open>
  \<^verbatim>\<open>time.ParseDuration\<close>: a sign, then numbers with a decimal fraction and a unit each. The integer part is computed in 64 bits, the
  fraction in floating point.
\<close>

definition digit :: "char \<Rightarrow> bool" where
  "digit c \<longleftrightarrow> CHR ''0'' \<le> c \<and> c \<le> CHR ''9''"

fun leadingInt :: "nat \<Rightarrow> string \<Rightarrow> (nat \<times> string) option" where
  "leadingInt x [] = Some (x, [])"
| "leadingInt x (c # r) =
     (if \<not> digit c then Some (x, c # r)
      else if 2 ^ 63 div 10 < x then None
      else let y = 10 * x + (of_char c - 48) in if 2 ^ 63 < y then None else leadingInt y r)"

fun leadingFraction :: "nat \<Rightarrow> float64 \<Rightarrow> bool \<Rightarrow> string \<Rightarrow> nat \<times> float64 \<times> string" where
  "leadingFraction x scale overflow [] = (x, scale, [])"
| "leadingFraction x scale overflow (c # r) =
     (if \<not> digit c then (x, scale, c # r)
      else if overflow \<or> (2 ^ 63 - 1) div 10 < x then leadingFraction x scale True r
      else let y = 10 * x + (of_char c - 48)
           in if 2 ^ 63 < y then leadingFraction x scale True r
              else leadingFraction y (f64_mul scale (f64_of_int 10)) False r)"

definition duration_unit :: "string \<Rightarrow> nat option" where
  "duration_unit u =
     map_of [(''ns'', 1), (''us'', 1000), ([CHR 0xC2, CHR 0xB5, CHR ''s''], 1000), ([CHR 0xCE, CHR 0xBC, CHR ''s''], 1000),
             (''ms'', 1000000), (''s'', 1000000000), (''m'', 60000000000), (''h'', 3600000000000)] u"

text \<open>\<^verbatim>\<open>uint64(x)\<close> of a float that is not negative and below \<open>2\<^sup>6\<^sup>3\<close>.\<close>

definition f64_trunc :: "float64 \<Rightarrow> nat" where
  "f64_trunc x = (case fl_unpack F64 (fl_mag F64 (unat x)) of (m, e) \<Rightarrow> if 0 \<le> e then m * 2 ^ nat e else m div 2 ^ nat (- e))"

text \<open>One number with its unit: the value in nanoseconds and the rest of the text.\<close>

definition duration_item :: "string \<Rightarrow> (nat \<times> string) option" where
  "duration_item s =
     (if s = [] \<or> \<not> (hd s = CHR ''.'' \<or> digit (hd s)) then None
      else case leadingInt 0 s of None \<Rightarrow> None
      | Some (v, s1) \<Rightarrow>
          (let pre = length s1 \<noteq> length s;
               (f, scale, s2, post) =
                 (if s1 \<noteq> [] \<and> hd s1 = CHR ''.''
                  then case leadingFraction 0 (f64_of_int 1) False (tl s1) of (f, scale, s2) \<Rightarrow> (f, scale, s2, length s2 \<noteq> length (tl s1))
                  else (0, f64_of_int 1, s1, False));
               u = takeWhile (\<lambda>c. \<not> (c = CHR ''.'' \<or> digit c)) s2;
               rest = dropWhile (\<lambda>c. \<not> (c = CHR ''.'' \<or> digit c)) s2
           in if \<not> pre \<and> \<not> post then None
              else if u = [] then None
              else case duration_unit u of None \<Rightarrow> None
              | Some unit \<Rightarrow>
                  if 2 ^ 63 div unit < v then None
                  else let w = v * unit + (if 0 < f then f64_trunc (f64_mul (f64_of_int (int f)) (f64_div (f64_of_int (int unit)) scale)) else 0)
                       in if 2 ^ 63 < w then None else Some (w, rest)))"

lemma leadingInt_length: "leadingInt x s = Some (v, r) \<Longrightarrow> length r \<le> length s"
  by (induction x s rule: leadingInt.induct) (force simp: Let_def split: if_splits)+

lemma leadingFraction_length: "leadingFraction x scale ov s = (v, sc, r) \<Longrightarrow> length r \<le> length s"
  by (induction x scale ov s rule: leadingFraction.induct) (force simp: Let_def split: if_splits)+

lemma duration_item_length:
  assumes "duration_item s = Some (w, rest)"
  shows "length rest < length s"
proof -
  obtain v s1 where s1: "leadingInt 0 s = Some (v, s1)"
    using assms by (auto simp: duration_item_def split: if_splits option.splits)
  define s2 where "s2 = (if s1 \<noteq> [] \<and> hd s1 = CHR ''.'' then snd (snd (leadingFraction 0 (f64_of_int 1) False (tl s1))) else s1)"
  have "length s2 \<le> length s1"
    using leadingFraction_length [of 0 "f64_of_int 1" False "tl s1"]
    by (cases "leadingFraction 0 (f64_of_int 1) False (tl s1)") (auto simp: s2_def)
  moreover have "rest = dropWhile (\<lambda>c. \<not> (c = CHR ''.'' \<or> digit c)) s2" "takeWhile (\<lambda>c. \<not> (c = CHR ''.'' \<or> digit c)) s2 \<noteq> []"
    using assms s1 by (auto simp: duration_item_def s2_def Let_def split: if_splits option.splits prod.splits)
  moreover have "length (takeWhile P s2) + length (dropWhile P s2) = length s2" for P
    by (metis length_append takeWhile_dropWhile_id)
  then have "length (takeWhile (\<lambda>c. \<not> (c = CHR ''.'' \<or> digit c)) s2) + length rest = length s2" using calculation(2) by simp
  moreover have "0 < length (takeWhile (\<lambda>c. \<not> (c = CHR ''.'' \<or> digit c)) s2)" using calculation(3) by simp
  ultimately show ?thesis using leadingInt_length [OF s1] by linarith
qed

function duration_loop :: "nat \<Rightarrow> string \<Rightarrow> nat option" where
  "duration_loop d s =
     (if s = [] then Some d
      else case duration_item s of None \<Rightarrow> None
        | Some (v, rest) \<Rightarrow> if 2 ^ 63 < d + v then None else duration_loop (d + v) rest)"
  by pat_completeness auto
termination
  by (relation "measure (\<lambda>(_, s). length s)") (auto dest: duration_item_length)

declare duration_loop.simps [simp del]

definition time_ParseDuration :: "string \<Rightarrow> int option" where
  "time_ParseDuration orig =
     (let (neg, s) = (case orig of [] \<Rightarrow> (False, [])
            | c # r \<Rightarrow> if c = CHR ''-'' \<or> c = CHR ''+'' then (c = CHR ''-'', r) else (False, orig))
      in if s = ''0'' then Some 0
         else if s = [] then None
         else case duration_loop 0 s of None \<Rightarrow> None
           | Some d \<Rightarrow> if neg then Some (- int d) else if 2 ^ 63 - 1 < d then None else Some (int d))"

definition ParseDuration :: "string \<Rightarrow> int \<Rightarrow> int" where
  "ParseDuration raw0 fallback =
     (let raw = TrimSpace raw0
      in if raw = [] then fallback else case time_ParseDuration raw of None \<Rightarrow> fallback | Some d \<Rightarrow> d)"

section \<open>Properties\<close>

lemma parse_duration_examples:
  "time_ParseDuration ''10s'' = Some 10000000000" "time_ParseDuration ''15m'' = Some 900000000000" "time_ParseDuration ''10'' = None"
  by (simp_all add: time_ParseDuration_def duration_loop.simps [of _ "[]"] duration_loop.simps [of _ "c # r" for c r] duration_item_def digit_def
      duration_unit_def Let_def)

text \<open>Every value a blank variable leaves alone.\<close>

lemma env_unset:
  assumes "\<And>name. TrimSpace (getenv name) = []"
  shows "overrideFromEnv getenv cfg = applySecurityDefaults (applyANNProfileDefaults (applyTransportDefaults cfg))"
  by (simp add: overrideFromEnv_def env_server_def env_database_def env_limits_def env_search_def env_security_def env_proxies_def
      env_storage_def env_bool_def env_int_def env_string_def assms)

text \<open>What every loaded configuration satisfies.\<close>

definition config_typed :: "config \<Rightarrow> bool" where
  "config_typed cfg \<longleftrightarrow>
     scProtocol (cfgServer cfg) \<in> {''http'', ''grpc''} \<and> (gcEnabled (cfgGRPC cfg) \<longleftrightarrow> scProtocol (cfgServer cfg) = ''grpc'') \<and>
     srcANNProfile (cfgSearch cfg) \<in> {''fast'', ''balanced'', ''quality''} \<and>
     0 < srcANNM (cfgSearch cfg) \<and> 0 < srcANNEfConstruct (cfgSearch cfg) \<and> 0 < srcANNEfSearch (cfgSearch cfg) \<and>
     secProfile (cfgSecurity cfg) \<in> {''development'', ''production''} \<and>
     (acGRPCEnabled (secAuth (cfgSecurity cfg)) \<longrightarrow> acEnabled (secAuth (cfgSecurity cfg))) \<and>
     TrimSpace (stcDirMode (secStorage (cfgSecurity cfg))) \<noteq> [] \<and> TrimSpace (stcFileMode (secStorage (cfgSecurity cfg))) \<noteq> []"

text \<open>What the production profile adds.\<close>

definition config_hardened :: "config \<Rightarrow> bool" where
  "config_hardened cfg \<longleftrightarrow>
     (TrimSpace (acAPIKey (secAuth (cfgSecurity cfg))) \<noteq> [] \<longrightarrow> acEnabled (secAuth (cfgSecurity cfg))) \<and>
     (TrimSpace (scAPIKey (cfgServer cfg)) \<noteq> [] \<longrightarrow> TrimSpace (acAPIKey (secAuth (cfgSecurity cfg))) \<noteq> []) \<and>
     acGRPCEnabled (secAuth (cfgSecurity cfg)) = acEnabled (secAuth (cfgSecurity cfg)) \<and>
     (pcTrustForwardedFor (secProxy (cfgSecurity cfg)) \<longrightarrow> pcTrustedProxies (secProxy (cfgSecurity cfg)) \<noteq> []) \<and>
     stcStrict (secStorage (cfgSecurity cfg)) \<and> stcDirMode (secStorage (cfgSecurity cfg)) \<noteq> ''0755'' \<and>
     stcFileMode (secStorage (cfgSecurity cfg)) \<noteq> ''0644''"

lemma mode_literals: "TrimSpace ''0755'' \<noteq> []" "TrimSpace ''0644'' \<noteq> []" "TrimSpace ''0700'' \<noteq> []" "TrimSpace ''0600'' \<noteq> []"
  by (simp_all add: TrimSpace_untrimmed untrimmed_def strip_one_def space_encodings_def)

lemma annProfileDefaults_pos: "annProfileDefaults p = (m, c, s) \<Longrightarrow> 0 < m \<and> 0 < c \<and> 0 < s"
  by (auto simp: annProfileDefaults_def Let_def split: if_splits)

lemma transport_fields [simp]:
  "cfgSearch (applyTransportDefaults cfg) = cfgSearch cfg" "cfgSecurity (applyTransportDefaults cfg) = cfgSecurity cfg"
  "scProtocol (cfgServer (applyTransportDefaults cfg)) = normalizeProtocol (scProtocol (cfgServer cfg))"
  "scAPIKey (cfgServer (applyTransportDefaults cfg)) = scAPIKey (cfgServer cfg)"
  "gcEnabled (cfgGRPC (applyTransportDefaults cfg)) = (normalizeProtocol (scProtocol (cfgServer cfg)) = ''grpc'')"
  by (simp_all add: applyTransportDefaults_def Let_def)

lemma ann_fields [simp]:
  "cfgServer (applyANNProfileDefaults cfg) = cfgServer cfg" "cfgSecurity (applyANNProfileDefaults cfg) = cfgSecurity cfg"
  "cfgGRPC (applyANNProfileDefaults cfg) = cfgGRPC cfg"
  by (simp_all add: applyANNProfileDefaults_def Let_def split: prod.split)

lemma ann_fields_ok:
  "srcANNProfile (cfgSearch (applyANNProfileDefaults cfg)) \<in> {''fast'', ''balanced'', ''quality''} \<and>
   0 < srcANNM (cfgSearch (applyANNProfileDefaults cfg)) \<and> 0 < srcANNEfConstruct (cfgSearch (applyANNProfileDefaults cfg)) \<and>
   0 < srcANNEfSearch (cfgSearch (applyANNProfileDefaults cfg))"
  by (auto simp: applyANNProfileDefaults_def Let_def config_normalizeANNProfile_def split: prod.split dest!: annProfileDefaults_pos)

lemma security_fields [simp]:
  "cfgServer (applySecurityDefaults cfg) = cfgServer cfg" "cfgSearch (applySecurityDefaults cfg) = cfgSearch cfg"
  "cfgGRPC (applySecurityDefaults cfg) = cfgGRPC cfg"
  by (simp_all add: applySecurityDefaults_def Let_def)

lemma security_typed:
  "secProfile (cfgSecurity (applySecurityDefaults cfg)) \<in> {''development'', ''production''} \<and>
   (acGRPCEnabled (secAuth (cfgSecurity (applySecurityDefaults cfg))) \<longrightarrow> acEnabled (secAuth (cfgSecurity (applySecurityDefaults cfg)))) \<and>
   TrimSpace (stcDirMode (secStorage (cfgSecurity (applySecurityDefaults cfg)))) \<noteq> [] \<and>
   TrimSpace (stcFileMode (secStorage (cfgSecurity (applySecurityDefaults cfg)))) \<noteq> []"
  using mode_literals
  by (auto simp: applySecurityDefaults_def production_defaults_def development_defaults_def normalizeSecurityProfile_def Let_def)

lemma security_hardened:
  "secProfile (cfgSecurity (applySecurityDefaults cfg)) = ''production'' \<Longrightarrow> config_hardened (applySecurityDefaults cfg)"
  by (auto simp: applySecurityDefaults_def production_defaults_def development_defaults_def normalizeSecurityProfile_def Let_def config_hardened_def
      split: if_splits)

lemma override_typed:
  "config_typed (overrideFromEnv getenv cfg) \<and>
   (secProfile (cfgSecurity (overrideFromEnv getenv cfg)) = ''production'' \<longrightarrow> config_hardened (overrideFromEnv getenv cfg))"
  using ann_fields_ok security_typed security_hardened
  by (auto simp: overrideFromEnv_def config_typed_def normalizeProtocol_def)

text \<open>
  C24. Every configuration that loads is well typed, whatever the file and the environment contain: the protocol is one of two and decides
  whether gRPC is on, the profile of the approximate index is known and its parameters are positive, gRPC authentication
  implies authentication, file modes are not blank. Under the production profile it is also hardened: an API key turns authentication on for both
  transports, forwarded addresses are trusted only with a list of proxies, and the permissive default file modes do not survive.
\<close>

theorem load_typed:
  assumes "Load yaml getenv file = Inr cfg"
  shows "config_typed cfg \<and> (secProfile (cfgSecurity cfg) = ''production'' \<longrightarrow> config_hardened cfg)"
proof -
  obtain c where "cfg = overrideFromEnv getenv c" using assms by (auto simp: Load_def split: sum.splits)
  then show ?thesis using override_typed by blast
qed

theorem load_typed_witness:
  "\<exists>cfg. Load (\<lambda>_ c. Inr (c\<lparr>cfgSecurity := (cfgSecurity c)\<lparr>secProfile := ''production''\<rparr>\<rparr>)) (\<lambda>_. []) (Inr []) = Inr cfg \<and> config_hardened cfg"
proof -
  let ?c = "defaultConfig\<lparr>cfgSecurity := (cfgSecurity defaultConfig)\<lparr>secProfile := ''production''\<rparr>\<rparr>"
  have load: "Load (\<lambda>_ c. Inr (c\<lparr>cfgSecurity := (cfgSecurity c)\<lparr>secProfile := ''production''\<rparr>\<rparr>)) (\<lambda>_. []) (Inr []) =
      Inr (overrideFromEnv (\<lambda>_. []) ?c)" by (simp add: Load_def)
  have "normalizeSecurityProfile ''production'' = ''production''"
    by (simp add: normalizeSecurityProfile_def TrimSpace_untrimmed untrimmed_def strip_one_def space_encodings_def lower_char_def)
  then have "secProfile (cfgSecurity (overrideFromEnv (\<lambda>_. []) ?c)) = ''production''"
    by (simp add: env_unset applySecurityDefaults_def production_defaults_def Let_def)
  then show ?thesis using load_typed [OF load] load by blast
qed

end
