(* ===== verification/NetText.thy ===== *)
theory NetText
  imports GoStrings Config
begin

text \<open>
  The text functions of the standard library the HTTP layer uses: prefixes, case folding, percent decoding, path cleaning, host and
  port, addresses and address prefixes, hexadecimal. The parsers of package \<^verbatim>\<open>netip\<close> are parameters (\<open>netipOps\<close>); what the program does with their
  results is defined here.
\<close>

section \<open>Prefixes and folding\<close>

definition HasPrefix :: "string \<Rightarrow> string \<Rightarrow> bool" where
  "HasPrefix s p \<longleftrightarrow> take (length p) s = p"

definition TrimPrefix :: "string \<Rightarrow> string \<Rightarrow> string" where
  "TrimPrefix s p = (if HasPrefix s p then drop (length p) s else s)"

lemma HasPrefix_append [simp]: "HasPrefix (p @ s) p"
  by (simp add: HasPrefix_def)

lemma TrimPrefix_append [simp]: "TrimPrefix (p @ s) p = s"
  by (simp add: TrimPrefix_def)

lemma HasPrefix_iff: "HasPrefix s p \<longleftrightarrow> (\<exists>r. s = p @ r)"
  by (metis HasPrefix_append HasPrefix_def append_take_drop_id)

text \<open>
  \<^verbatim>\<open>strings.EqualFold\<close> with an ASCII word: besides the letters of either case, the Kelvin sign folds to k and the long s to s.
\<close>

function fold_case :: "string \<Rightarrow> string" where
  "fold_case [] = []"
| "fold_case (c # r) =
     (if c = CHR 0xC5 \<and> take 1 r = [CHR 0xBF] then CHR ''s'' # fold_case (drop 1 r)
      else if c = CHR 0xE2 \<and> take 2 r = [CHR 0x84, CHR 0xAA] then CHR ''k'' # fold_case (drop 2 r)
      else lower_char c # fold_case r)"
  by pat_completeness auto
termination
  by (relation "measure length") auto

definition EqualFold :: "string \<Rightarrow> string \<Rightarrow> bool" where
  "EqualFold s t \<longleftrightarrow> fold_case s = fold_case t"

section \<open>Hexadecimal\<close>

definition hex_val :: "char \<Rightarrow> nat option" where
  "hex_val c =
     (if CHR ''0'' \<le> c \<and> c \<le> CHR ''9'' then Some (of_char c - 48)
      else if CHR ''a'' \<le> c \<and> c \<le> CHR ''f'' then Some (of_char c - 87)
      else if CHR ''A'' \<le> c \<and> c \<le> CHR ''F'' then Some (of_char c - 55) else None)"

definition hex_char :: "nat \<Rightarrow> char" where
  "hex_char n = ''0123456789abcdef'' ! (n mod 16)"

definition hex_encode :: "char list \<Rightarrow> string" where
  "hex_encode bs = concat (map (\<lambda>b. [hex_char (of_char b div 16), hex_char (of_char b)]) bs)"

fun base36 :: "nat \<Rightarrow> string" where
  "base36 n = (if n < 36 then [''0123456789abcdefghijklmnopqrstuvwxyz'' ! n]
               else base36 (n div 36) @ [''0123456789abcdefghijklmnopqrstuvwxyz'' ! (n mod 36)])"

declare base36.simps [simp del]

text \<open>\<^verbatim>\<open>url.PathUnescape\<close>: \<open>None\<close> if a percent sign is not followed by two hexadecimal digits.\<close>

fun PathUnescape :: "string \<Rightarrow> string option" where
  "PathUnescape [] = Some []"
| "PathUnescape (c # r) =
     (if c = CHR ''%''
      then case r of
          a # b # r' \<Rightarrow>
            (case (hex_val a, hex_val b) of
               (Some h, Some l) \<Rightarrow> map_option ((#) (char_of (16 * h + l))) (PathUnescape r')
             | _ \<Rightarrow> None)
        | _ \<Rightarrow> None
      else map_option ((#) c) (PathUnescape r))"

section \<open>Paths\<close>

fun join_with :: "char \<Rightarrow> string list \<Rightarrow> string" where
  "join_with sep [] = []"
| "join_with sep [s] = s"
| "join_with sep (s # t # r) = s @ sep # join_with sep (t # r)"

definition clean_step :: "bool \<Rightarrow> string list \<Rightarrow> string \<Rightarrow> string list" where
  "clean_step rooted out seg =
     (if seg = [] \<or> seg = ''.'' then out
      else if seg = ''..'' then
        (if out \<noteq> [] \<and> last out \<noteq> ''..'' then butlast out else if rooted then out else out @ [''..''])
      else out @ [seg])"

text \<open>\<^verbatim>\<open>path.Clean\<close>, and \<^verbatim>\<open>filepath.Dir\<close> where the separator is a slash.\<close>

definition path_Clean :: "string \<Rightarrow> string" where
  "path_Clean p =
     (if p = [] then ''.''
      else let rooted = (hd p = CHR ''/'');
               out = join_with CHR ''/'' (foldl (clean_step rooted) [] (Split p CHR ''/''))
           in if rooted then CHR ''/'' # out else if out = [] then ''.'' else out)"

definition filepath_Dir :: "string \<Rightarrow> string" where
  "filepath_Dir p = path_Clean (rev (dropWhile (\<lambda>c. c \<noteq> CHR ''/'') (rev p)))"

text \<open>The cleaning of \<^verbatim>\<open>http.ServeMux\<close>: rooted, and a final slash survives.\<close>

definition cleanPath :: "string \<Rightarrow> string" where
  "cleanPath p0 =
     (if p0 = [] then ''/''
      else let p = (if hd p0 \<noteq> CHR ''/'' then CHR ''/'' # p0 else p0); np = path_Clean p
           in if last p = CHR ''/'' \<and> np \<noteq> ''/'' then np @ ''/'' else np)"

section \<open>Hosts\<close>

definition index_of :: "char \<Rightarrow> string \<Rightarrow> nat option" where
  "index_of c s = (if c \<in> set s then Some (length (takeWhile (\<lambda>x. x \<noteq> c) s)) else None)"

definition last_index_of :: "char \<Rightarrow> string \<Rightarrow> nat option" where
  "last_index_of c s = map_option (\<lambda>i. length s - 1 - i) (index_of c (rev s))"

text \<open>\<^verbatim>\<open>net.SplitHostPort\<close>, the host only; \<open>None\<close> is an error.\<close>

definition SplitHostPort :: "string \<Rightarrow> string option" where
  "SplitHostPort hp =
     (case last_index_of CHR '':'' hp of
        None \<Rightarrow> None
      | Some i \<Rightarrow>
          if hd hp = CHR ''['' then
            (case index_of CHR '']'' hp of
               None \<Rightarrow> None
             | Some end \<Rightarrow>
                 if end + 1 \<noteq> i then None
                 else if CHR ''['' \<in> set (drop 1 hp) \<or> CHR '']'' \<in> set (drop (end + 1) hp) then None
                 else Some (take (end - 1) (drop 1 hp)))
          else if CHR '':'' \<in> set (take i hp) then None
          else if CHR ''['' \<in> set hp \<or> CHR '']'' \<in> set hp then None
          else Some (take i hp))"

text \<open>An address is its bits, 32 or 128, and a zone; a prefix is an address without a zone and a length.\<close>

record ipAddr =
  ipBits :: "bool list"
  ipZone :: string

type_synonym ipPrefix = "ipAddr \<times> nat"

record netipOps =
  niParsePrefix :: "string \<Rightarrow> ipPrefix option"
  niParseAddr :: "string \<Rightarrow> ipAddr option"

definition prefix_Contains :: "ipPrefix \<Rightarrow> ipAddr \<Rightarrow> bool" where
  "prefix_Contains p ip \<longleftrightarrow>
     ipZone ip = [] \<and> length (ipBits (fst p)) = length (ipBits ip) \<and> take (snd p) (ipBits (fst p)) = take (snd p) (ipBits ip)"

definition PrefixFrom :: "ipAddr \<Rightarrow> ipPrefix" where
  "PrefixFrom addr = (addr\<lparr>ipZone := []\<rparr>, length (ipBits addr))"

section \<open>Facts\<close>

lemma PathUnescape_append:
  "PathUnescape s = Some s' \<Longrightarrow> PathUnescape t = Some t' \<Longrightarrow> PathUnescape (s @ t) = Some (s' @ t')"
  by (induction s arbitrary: s' rule: PathUnescape.induct) (auto split: if_splits list.splits option.splits)

lemma PathUnescape_plain: "CHR ''%'' \<notin> set s \<Longrightarrow> PathUnescape s = Some s"
  by (induction s) auto

lemma split_at_join: "join_with sep (split_at sep acc s) = rev acc @ s"
proof (induction s arbitrary: acc)
  case (Cons c s)
  have ne: "split_at sep a s \<noteq> []" for a by (induction s arbitrary: a) simp_all
  show ?case
  proof (cases "c = sep")
    case True
    then show ?thesis using ne [of "[]"] Cons.IH [of "[]"] by (cases "split_at sep [] s") simp_all
  qed (simp add: Cons.IH)
qed simp

lemma Split_join: "join_with sep (Split s sep) = s"
  by (simp add: Split_def split_at_join)

end
