(* ===== verification/Cursor.thy ===== *)
theory Cursor
  imports Prelude "HOL-Library.Char_ord"
begin

text \<open>
  The cursors of \<^verbatim>\<open>internal/api/server.go\<close>: \<^verbatim>\<open>encodeListVectorsCursor\<close> and \<^verbatim>\<open>decodeListVectorsCursor\<close> over the standard library's
  \<^verbatim>\<open>base64.RawURLEncoding\<close> and \<^verbatim>\<open>base64.URLEncoding\<close>. The decoders skip line breaks and do not check the unused bits of the last
  character, as the library's do by default.
\<close>

section \<open>The alphabet\<close>

definition b64_alphabet :: string where
  "b64_alphabet = ''ABCDEFGHIJKLMNOPQRSTUVWXYZabcdefghijklmnopqrstuvwxyz0123456789-_''"

definition b64_char :: "nat \<Rightarrow> char" where
  "b64_char n = b64_alphabet ! n"

definition b64_val :: "char \<Rightarrow> nat option" where
  "b64_val c = map_of (zip b64_alphabet [0..<64]) c"

section \<open>Encoding\<close>

text \<open>The bits of up to three bytes as characters of six bits; a final group of one or two bytes gives two or three characters.\<close>

fun b64_encode :: "string \<Rightarrow> string" where
  "b64_encode [] = []"
| "b64_encode [a] = [b64_char (of_char a div 4), b64_char (of_char a mod 4 * 16)]"
| "b64_encode [a, b] =
     [b64_char (of_char a div 4), b64_char (of_char a mod 4 * 16 + of_char b div 16), b64_char (of_char b mod 16 * 4)]"
| "b64_encode (a # b # c # r) =
     b64_char (of_char a div 4) # b64_char (of_char a mod 4 * 16 + of_char b div 16) #
     b64_char (of_char b mod 16 * 4 + of_char c div 64) # b64_char (of_char c mod 64) # b64_encode r"

section \<open>Decoding\<close>

definition b64_byte1 :: "nat \<Rightarrow> nat \<Rightarrow> char" where "b64_byte1 w x = char_of (w * 4 + x div 16)"
definition b64_byte2 :: "nat \<Rightarrow> nat \<Rightarrow> char" where "b64_byte2 x y = char_of (x mod 16 * 16 + y div 4)"
definition b64_byte3 :: "nat \<Rightarrow> nat \<Rightarrow> char" where "b64_byte3 y z = char_of (y mod 4 * 64 + z)"

text \<open>Without padding the last group has two to four characters; with padding four, of which the last one or two may be \<^verbatim>\<open>=\<close>.\<close>

fun b64_raw :: "string \<Rightarrow> string option" where
  "b64_raw [] = Some []"
| "b64_raw [w] = None"
| "b64_raw [w, x] = (case (b64_val w, b64_val x) of (Some w', Some x') \<Rightarrow> Some [b64_byte1 w' x'] | _ \<Rightarrow> None)"
| "b64_raw [w, x, y] =
     (case (b64_val w, b64_val x, b64_val y) of
        (Some w', Some x', Some y') \<Rightarrow> Some [b64_byte1 w' x', b64_byte2 x' y'] | _ \<Rightarrow> None)"
| "b64_raw (w # x # y # z # r) =
     (case (b64_val w, b64_val x, b64_val y, b64_val z) of
        (Some w', Some x', Some y', Some z') \<Rightarrow>
          map_option (\<lambda>bs. b64_byte1 w' x' # b64_byte2 x' y' # b64_byte3 y' z' # bs) (b64_raw r)
      | _ \<Rightarrow> None)"

fun b64_padded :: "string \<Rightarrow> string option" where
  "b64_padded [] = Some []"
| "b64_padded (w # x # y # z # r) =
     (if z = CHR ''='' then
        if r \<noteq> [] then None else b64_raw (if y = CHR ''='' then [w, x] else [w, x, y])
      else case (b64_val w, b64_val x, b64_val y, b64_val z) of
        (Some w', Some x', Some y', Some z') \<Rightarrow>
          map_option (\<lambda>bs. b64_byte1 w' x' # b64_byte2 x' y' # b64_byte3 y' z' # bs) (b64_padded r)
      | _ \<Rightarrow> None)"
| "b64_padded _ = None"

definition line_break :: "char \<Rightarrow> bool" where
  "line_break c \<longleftrightarrow> c = CHR 0x0A \<or> c = CHR 0x0D"

definition encodeListVectorsCursor :: "string \<Rightarrow> string" where
  "encodeListVectorsCursor vid = b64_encode vid"

definition decodeListVectorsCursor :: "string \<Rightarrow> string option" where
  "decodeListVectorsCursor cursor =
     (let text = filter (\<lambda>c. \<not> line_break c) cursor
      in case b64_raw text of Some decoded \<Rightarrow> Some decoded | None \<Rightarrow> b64_padded text)"

section \<open>The round trip\<close>

lemma b64_length: "length b64_alphabet = 64"
  by (simp add: b64_alphabet_def)

lemma b64_distinct: "distinct b64_alphabet"
  by (simp add: b64_alphabet_def)

lemma b64_val_char [simp]: "n < 64 \<Longrightarrow> b64_val (b64_char n) = Some n"
  using map_of_zip_nth [of b64_alphabet "[0..<64]" n] b64_length b64_distinct by (simp add: b64_val_def b64_char_def)

lemma b64_char_clean: "n < 64 \<Longrightarrow> b64_char n \<notin> {CHR 0x0A, CHR 0x0D, CHR '' '', CHR ''=''}"
proof -
  assume "n < 64"
  then have "b64_char n \<in> set b64_alphabet" unfolding b64_char_def by (intro nth_mem) (simp add: b64_length)
  then show ?thesis by (auto simp: b64_alphabet_def)
qed

lemma of_char_lt: "(of_char c :: nat) < 256"
  by (rule nat_of_char_less_256)

lemma of_char_parts: "(of_char c :: nat) div 4 < 64" "(of_char c :: nat) div 16 < 16" "(of_char c :: nat) div 64 < 4"
  using of_char_lt [of c] by (simp_all add: less_mult_imp_div_less)

lemma packed_lt: "q < k \<Longrightarrow> r < m \<Longrightarrow> q * m + r < k * (m :: nat)"
proof -
  assume "q < k" "r < m"
  then have "q * m + r < Suc q * m" "Suc q * m \<le> k * m" by (simp, intro mult_le_mono1) simp_all
  then show ?thesis by linarith
qed

lemma packed: "r < m \<Longrightarrow> (q * m + r) div m = q" "r < m \<Longrightarrow> (q * m + r) mod m = (r :: nat)"
  by simp_all

lemma b64_groups [simp]:
  "(of_char a :: nat) mod 4 * 16 < 64" "(of_char a :: nat) mod 4 * 16 + of_char b div 16 < 64"
  "(of_char b :: nat) mod 16 * 4 < 64" "(of_char b :: nat) mod 16 * 4 + of_char c div 64 < 64" "(of_char c :: nat) mod 64 < 64"
  using packed_lt [of "of_char a mod 4" 4 "of_char b div 16" 16] packed_lt [of "of_char a mod 4" 4 0 16]
    packed_lt [of "of_char b mod 16" 16 "of_char c div 64" 4] packed_lt [of "of_char b mod 16" 16 0 4]
  by (simp_all add: of_char_parts)

lemma b64_bytes [simp]:
  "b64_byte1 (of_char a div 4) (of_char a mod 4 * 16) = a"
  "b64_byte1 (of_char a div 4) (of_char a mod 4 * 16 + of_char b div 16) = a"
  "b64_byte2 (of_char a mod 4 * 16 + of_char b div 16) (of_char b mod 16 * 4) = b"
  "b64_byte2 (of_char a mod 4 * 16 + of_char b div 16) (of_char b mod 16 * 4 + of_char c div 64) = b"
  "b64_byte3 (of_char b mod 16 * 4 + of_char c div 64) (of_char c mod 64) = c"
  by (simp_all add: b64_byte1_def b64_byte2_def b64_byte3_def packed of_char_parts del: div_mult_self1 div_mult_self2 div_mult_self3 div_mult_self4
      mod_mult_self1 mod_mult_self2 mod_mult_self3 mod_mult_self4)

lemma b64_raw_encode: "b64_raw (b64_encode s) = Some s"
  by (induction s rule: b64_encode.induct) (simp_all add: of_char_parts)

lemma b64_encode_chars: "set (b64_encode s) \<subseteq> b64_char ` {..<64}"
  by (induction s rule: b64_encode.induct) (simp_all add: of_char_parts)

lemma b64_encode_clean: "c \<in> set (b64_encode s) \<Longrightarrow> c \<notin> {CHR 0x0A, CHR 0x0D, CHR '' '', CHR ''=''}"
proof -
  assume "c \<in> set (b64_encode s)"
  then obtain n where n: "n < 64" "c = b64_char n" using b64_encode_chars [of s] by blast
  show ?thesis unfolding n(2) by (rule b64_char_clean [OF n(1)])
qed

lemma decode_encode: "decodeListVectorsCursor (encodeListVectorsCursor vid) = Some vid"
proof -
  have "filter (\<lambda>c. \<not> line_break c) (b64_encode vid) = b64_encode vid"
    using b64_encode_clean by (auto simp: filter_id_conv line_break_def)
  then show ?thesis by (simp add: decodeListVectorsCursor_def encodeListVectorsCursor_def b64_raw_encode)
qed

lemma encode_Nil_iff [simp]: "encodeListVectorsCursor vid = [] \<longleftrightarrow> vid = []"
  by (cases vid rule: b64_encode.cases) (simp_all add: encodeListVectorsCursor_def)

lemma encode_inj: "encodeListVectorsCursor a = encodeListVectorsCursor b \<longleftrightarrow> a = b"
  by (metis decode_encode option.inject)

end
