(* ===== verification/FloatOrder.thy ===== *)
theory FloatOrder
  imports GoFloat
begin

text \<open>
  Rounding respects the order. A finite magnitude is an integer multiple of the smallest denormal, \<open>fl_units\<close>; sums, differences and
  products of non-negative floats are rounded integers of units, and rounding is monotone. On non-negative floats the order of the values is
  the order of the bit patterns. The rate limiter's arithmetic rests on this theory.
\<close>

section \<open>Rounding is monotone\<close>

definition rne :: "nat \<Rightarrow> nat \<Rightarrow> nat" where
  "rne m s = (let d = m div 2 ^ s; r = m mod 2 ^ s; h = 2 ^ (s - 1) in if h < r \<or> (r = h \<and> odd d) then d + 1 else d)"

lemma fl_round_rne:
  assumes "e \<le> qmin F" and "0 < m"
  shows "fl_round F m e =
    min (infb F) (nat (fl_quant F m e - qmin F) * 2 ^ fbits F + rne m (nat (fl_quant F m e - e)))"
proof -
  have q: "qmin F \<le> fl_quant F m e" by (simp add: fl_quant_def)
  show ?thesis
  proof (cases "fl_quant F m e \<le> e")
    case True
    then have "fl_quant F m e = e" using q assms(1) by simp
    then show ?thesis using assms(2) by (simp add: fl_round_def Let_def rne_def)
  next
    case False
    then show ?thesis using assms(2) by (simp add: fl_round_def Let_def rne_def)
  qed
qed

lemma rne_bounds: "m div 2 ^ s \<le> rne m s" "rne m s \<le> m div 2 ^ s + 1"
  by (simp_all add: rne_def Let_def)

lemma rne_mono: "m \<le> m' \<Longrightarrow> rne m s \<le> rne m' s"
proof -
  assume le: "m \<le> m'"
  then have d: "m div 2 ^ s \<le> m' div 2 ^ s" by (rule div_le_mono)
  show ?thesis
  proof (cases "m div 2 ^ s = m' div 2 ^ s")
    case True
    have "m mod 2 ^ s \<le> m' mod 2 ^ s"
      using le True div_mult_mod_eq [of m "2 ^ s"] div_mult_mod_eq [of m' "2 ^ s"] by (metis add_le_cancel_left)
    then show ?thesis using True by (auto simp: rne_def Let_def)
  next
    case False
    then have "m div 2 ^ s + 1 \<le> m' div 2 ^ s" using d by simp
    then show ?thesis using rne_bounds(2) [of m s] rne_bounds(1) [of m' s] by linarith
  qed
qed

lemma bitlen_mono: "m \<le> m' \<Longrightarrow> bitlen m \<le> bitlen m'"
proof (cases "m' = 0")
  case False
  assume "m \<le> m'"
  then have "m < 2 ^ bitlen m'" using bitlen_bounds [of m'] False by auto
  then show ?thesis by (rule bitlen_le)
qed simp

text \<open>Across binades: the smaller significand rounds up at most to the start of the next binade.\<close>

lemma rne_carry:
  assumes "0 < m" and "0 < m'" and "q = fl_quant F m e" and "q' = fl_quant F m' e" and "q < q'" and "e \<le> qmin F"
  shows "nat (q - qmin F) * 2 ^ fbits F + rne m (nat (q - e)) \<le> nat (q' - qmin F) * 2 ^ fbits F + rne m' (nat (q' - e))"
proof -
  have q: "qmin F \<le> q" "e + int (bitlen m) - int (fbits F + 1) \<le> q" using assms(3) by (simp_all add: fl_quant_def)
  have q': "q' = e + int (bitlen m') - int (fbits F + 1)" using assms(4,5) q(1) by (auto simp: fl_quant_def max_def split: if_splits)
  have "m < 2 ^ bitlen m" using assms(1) bitlen_bounds by blast
  also have "\<dots> \<le> 2 ^ (fbits F + 1 + nat (q - e))" using q assms(6) by (intro power_increasing) linarith+
  finally have "m div 2 ^ nat (q - e) < 2 ^ (fbits F + 1)" by (simp add: less_mult_imp_div_less power_add)
  then have up: "rne m (nat (q - e)) \<le> 2 * 2 ^ fbits F" using rne_bounds(2) [of m "nat (q - e)"] by simp
  have "fbits F + nat (q' - e) = bitlen m' - 1" using q' assms(5,6) q(1) bitlen_bounds [OF assms(2)] by linarith
  then have "2 ^ fbits F * 2 ^ nat (q' - e) \<le> m'" using bitlen_bounds [OF assms(2)] by (metis power_add)
  then have "2 ^ fbits F \<le> m' div 2 ^ nat (q' - e)" by (simp add: less_eq_div_iff_mult_less_eq)
  then have down: "2 ^ fbits F \<le> rne m' (nat (q' - e))" using rne_bounds(1) [of m' "nat (q' - e)"] by simp
  have "nat (q - qmin F) + 1 \<le> nat (q' - qmin F)" using assms(5) q(1) by linarith
  then have "(nat (q - qmin F) + 1) * 2 ^ fbits F \<le> nat (q' - qmin F) * 2 ^ fbits F" by (rule mult_le_mono1)
  then show ?thesis using up down by (simp add: algebra_simps)
qed

lemma fl_round_mono_low:
  assumes "m \<le> m'" and "e \<le> qmin F"
  shows "fl_round F m e \<le> fl_round F m' e"
proof (cases "m = 0")
  case False
  then have pos: "0 < m" "0 < m'" using assms(1) by simp_all
  have "fl_quant F m e \<le> fl_quant F m' e" using bitlen_mono [OF assms(1)] by (auto simp: fl_quant_def)
  then consider "fl_quant F m e = fl_quant F m' e" | "fl_quant F m e < fl_quant F m' e" by linarith
  then have "nat (fl_quant F m e - qmin F) * 2 ^ fbits F + rne m (nat (fl_quant F m e - e)) \<le>
      nat (fl_quant F m' e - qmin F) * 2 ^ fbits F + rne m' (nat (fl_quant F m' e - e))"
    using rne_carry [OF pos refl refl _ assms(2)] rne_mono [OF assms(1)] by cases auto
  then show ?thesis unfolding fl_round_rne [OF assms(2) pos(1)] fl_round_rne [OF assms(2) pos(2)] by simp
qed simp

lemma fl_round_mono: "m \<le> m' \<Longrightarrow> fl_round F m e \<le> fl_round F m' e"
  using fl_round_mono_low [of "m * 2 ^ nat (e - qmin F)" "m' * 2 ^ nat (e - qmin F)" "e - int (nat (e - qmin F))" F]
  by (simp only: fl_round_shift) (simp add: mult_le_mono1)

section \<open>Magnitudes as multiples of the smallest denormal\<close>

definition fl_units :: "flfmt \<Rightarrow> nat \<Rightarrow> nat" where
  "fl_units F mg = (case fl_unpack F mg of (m, e) \<Rightarrow> m * 2 ^ nat (e - qmin F))"

lemma fl_unpack_qmin: "fl_unpack F mg = (m, e) \<Longrightarrow> qmin F \<le> e"
  by (auto simp: fl_unpack_def Let_def split: if_splits)

lemma fl_round_units:
  assumes "mg < infb F"
  shows "fl_round F (fl_units F mg) (qmin F) = mg"
proof -
  obtain m e where u: "fl_unpack F mg = (m, e)" by force
  then have "e - int (nat (e - qmin F)) = qmin F" using fl_unpack_qmin [OF u] by simp
  then show ?thesis using fl_round_shift [of F m "nat (e - qmin F)" e] fl_round_unpack [OF assms u] by (simp add: fl_units_def u)
qed

lemma fl_units_mono:
  assumes "mg \<le> mg'" and "mg' < infb F"
  shows "fl_units F mg \<le> fl_units F mg'"
proof (rule ccontr)
  assume gt: "\<not> fl_units F mg \<le> fl_units F mg'"
  then have "fl_round F (fl_units F mg') (qmin F) \<le> fl_round F (fl_units F mg) (qmin F)" by (intro fl_round_mono) simp
  then have "mg' \<le> mg" using assms by (simp add: fl_round_units)
  then show False using gt assms(1) by simp
qed

lemma fl_round_scaled: "qmin F \<le> e \<Longrightarrow> fl_round F m e = fl_round F (m * 2 ^ nat (e - qmin F)) (qmin F)"
  using fl_round_shift [of F m "nat (e - qmin F)" e] by simp

lemma units_common:
  assumes "fl_unpack F mg = (m, e)" and "qmin F \<le> e0" and "e0 \<le> e"
  shows "m * 2 ^ nat (e - e0) * 2 ^ nat (e0 - qmin F) = fl_units F mg"
proof -
  have "nat (e - e0) + nat (e0 - qmin F) = nat (e - qmin F)" using assms(2,3) by linarith
  then show ?thesis by (simp add: fl_units_def assms(1) flip: power_add)
qed

section \<open>Non-negative floats\<close>

definition fnum :: "float64 \<Rightarrow> bool" where
  "fnum x \<longleftrightarrow> unat x < infb F64"

definition units :: "float64 \<Rightarrow> nat" where
  "units x = fl_units F64 (unat x)"

lemma fl_class: "n < infb F64 \<Longrightarrow> \<not> fl_sgn F64 n \<and> fl_mag F64 n = n \<and> \<not> fl_isnan F64 n \<and> \<not> fl_isinf F64 n"
  by (simp add: fl_sgn_def fl_mag_def fl_isnan_def fl_isinf_def)

lemma fnum_class:
  "fnum x \<Longrightarrow> \<not> fl_sgn F64 (unat x) \<and> fl_mag F64 (unat x) = unat x \<and> \<not> fl_isnan F64 (unat x) \<and> \<not> fl_isinf F64 (unat x)"
  unfolding fnum_def by (rule fl_class)

lemma fnum_order:
  assumes "fnum x" and "fnum y"
  shows "f64_lt x y \<longleftrightarrow> unat x < unat y" and "f64_le x y \<longleftrightarrow> unat x \<le> unat y"
  using fnum_class [OF assms(1)] fnum_class [OF assms(2)] by (simp_all add: f64_lt_def f64_le_def f64_isnan_def f64_key_def fl_signed_def del: of_nat_unat uint_nat)

lemma units_order:
  assumes "fnum x" and "fnum y"
  shows "units x \<le> units y \<longleftrightarrow> unat x \<le> unat y"
proof
  assume "units x \<le> units y"
  then have "fl_round F64 (units x) (qmin F64) \<le> fl_round F64 (units y) (qmin F64)" by (rule fl_round_mono)
  then show "unat x \<le> unat y" using assms fl_round_units [of _ F64] unfolding fnum_def units_def by metis
qed (use assms fl_units_mono [of "unat x" "unat y" F64] in \<open>simp add: units_def fnum_def del: F64_sel\<close>)

lemma fl_pack_nonneg: "(if int n = 0 then 0 else fl_pack F (int n < 0) (fl_round F (nat \<bar>int n\<bar>) e)) = fl_round F n e"
  by (simp add: fl_pack_def)

lemma fl_add_units:
  assumes "x < infb F64" and "y < infb F64"
  shows "fl_add F64 x y = fl_round F64 (fl_units F64 x + fl_units F64 y) (qmin F64)"
proof -
  obtain mx ex my ey where u: "fl_unpack F64 x = (mx, ex)" "fl_unpack F64 y = (my, ey)" by force
  let ?e = "min ex ey"
  have e: "qmin F64 \<le> ?e" using u fl_unpack_qmin by fastforce
  let ?v = "mx * 2 ^ nat (ex - ?e) + my * 2 ^ nat (ey - ?e)"
  have "?v * 2 ^ nat (?e - qmin F64) = fl_units F64 x + fl_units F64 y"
    using units_common [OF u(1) e] units_common [OF u(2) e] by (simp add: add_mult_distrib del: F64_sel)
  then have "fl_round F64 ?v ?e = fl_round F64 (fl_units F64 x + fl_units F64 y) (qmin F64)" using fl_round_scaled [OF e, of ?v] by simp
  moreover have "fl_add F64 x y = fl_round F64 ?v ?e"
  proof -
    have "fl_add F64 x y = (if int ?v = 0 then 0 else fl_pack F64 (int ?v < 0) (fl_round F64 (nat \<bar>int ?v\<bar>) ?e))"
      using fl_class [OF assms(1)] fl_class [OF assms(2)] by (simp add: fl_add_def u Let_def fl_signed_def fl_pack_def)
    also have "\<dots> = fl_round F64 ?v ?e" by (rule fl_pack_nonneg)
    finally show ?thesis .
  qed
  ultimately show ?thesis by simp
qed

lemma fl_sub_units:
  assumes "x < infb F64" and "y < infb F64" and "fl_units F64 y \<le> fl_units F64 x"
  shows "fl_sub F64 x y = fl_round F64 (fl_units F64 x - fl_units F64 y) (qmin F64)"
proof -
  obtain mx ex my ey where u: "fl_unpack F64 x = (mx, ex)" "fl_unpack F64 y = (my, ey)" by force
  let ?e = "min ex ey"
  have e: "qmin F64 \<le> ?e" using u fl_unpack_qmin by fastforce
  define a b where "a = mx * 2 ^ nat (ex - ?e)" and "b = my * 2 ^ nat (ey - ?e)"
  have ab: "a * 2 ^ nat (?e - qmin F64) = fl_units F64 x" "b * 2 ^ nat (?e - qmin F64) = fl_units F64 y"
    using units_common [OF u(1) e] units_common [OF u(2) e] by (simp_all add: a_def b_def del: F64_sel)
  have le: "b \<le> a" using assms(3) unfolding ab [symmetric] by simp
  have "(a - b) * 2 ^ nat (?e - qmin F64) = fl_units F64 x - fl_units F64 y" unfolding ab [symmetric] by (simp add: diff_mult_distrib)
  then have r: "fl_round F64 (a - b) ?e = fl_round F64 (fl_units F64 x - fl_units F64 y) (qmin F64)" using fl_round_scaled [OF e, of "a - b"] by simp
  have cy: "\<not> fl_isnan F64 (fl_neg F64 y)" "\<not> fl_isinf F64 (fl_neg F64 y)" "fl_sgn F64 (fl_neg F64 y)" "fl_mag F64 (fl_neg F64 y) = y"
    using fl_class [OF assms(2)] assms(2) by (simp_all add: fl_isnan_mag fl_isinf_mag)
  have "fl_sub F64 x y = (if int a - int b = 0 then 0 else fl_pack F64 (int a - int b < 0) (fl_round F64 (nat \<bar>int a - int b\<bar>) ?e))"
    using fl_class [OF assms(1)] by (simp add: fl_sub_def fl_add_def cy u Let_def fl_signed_def fl_pack_def a_def b_def)
  also have "\<dots> = fl_round F64 (a - b) ?e" using le by (auto simp: fl_pack_def nat_diff_distrib)
  finally show ?thesis using r by simp
qed

lemma unat_f64_sub: "unat (f64_sub x y) = fl_sub F64 (unat x) (unat y)"
proof -
  have "0 < sbit F64" by simp
  with unat_lt_fmt(1) have "fl_neg F64 (unat y) < 2 * sbit F64" by (rule fl_neg_lt)
  then show ?thesis unfolding f64_sub_def fl_sub_def by (intro unat_of_fl64 fl_add_lt) (simp_all del: F64_sel)
qed

section \<open>Integers\<close>

lemma units_int:
  assumes "0 \<le> n" and "n < 2 ^ 53"
  shows "fnum (f64_of_int n)" and "units (f64_of_int n) = nat n * 2 ^ 1074"
proof -
  have un: "unat (f64_of_int n) = fl_round F64 (nat n) 0"
    using assms(1) fl_round_lt_sbit [of F64 "nat n" 0] unat_of_fl64 [of "fl_round F64 (nat n) 0"] by (simp add: f64_of_int_def fl_pack_def)
  have goal: "fl_round F64 (nat n) 0 < infb F64 \<and> fl_units F64 (fl_round F64 (nat n) 0) = nat n * 2 ^ 1074"
  proof (cases "n = 0")
    case True
    then show ?thesis by (simp add: fl_units_def fl_unpack_def)
  next
    case False
    define m where "m = nat n"
    have m: "0 < m" "m < 2 ^ 53" using False assms by (simp_all add: m_def nat_less_iff)
    have len: "bitlen m \<le> 53" using bitlen_le [OF m(2)] .
    define q where "q = fl_quant F64 m 0"
    have q: "q \<le> 0" "-1074 \<le> q" "q = int (bitlen m) - 53"
      using len bitlen_bounds [OF m(1)] by (simp_all add: q_def fl_quant_def)
    have "m * 2 ^ nat (0 - q) < 2 ^ bitlen m * 2 ^ nat (0 - q)" using bitlen_bounds [OF m(1)] by simp
    also have "\<dots> = 2 ^ (bitlen m + nat (0 - q))" by (simp add: power_add)
    also have "bitlen m + nat (0 - q) = 53" using q(3) len by simp
    finally have sig: "m * 2 ^ nat (0 - q) < 2 ^ 53" .
    have "nat (q - qmin F64) \<le> 1074" using q(1) by simp
    then have "nat (q - qmin F64) * 2 ^ fbits F64 \<le> 1074 * 2 ^ fbits F64" by (rule mult_le_mono1)
    then have fin: "nat (q - qmin F64) * 2 ^ fbits F64 + m * 2 ^ nat (0 - q) < infb F64" using sig by simp
    have up: "fl_unpack F64 (fl_round F64 m 0) = (m * 2 ^ nat (0 - q), q)"
      by (rule fl_unpack_round [OF m(1) q_def q(1) fin])
    have "fl_round F64 m 0 = nat (q - qmin F64) * 2 ^ fbits F64 + m * 2 ^ nat (0 - q)"
      using m(1) q(1) fin by (simp add: fl_round_def flip: q_def)
    moreover have "nat (0 - q) + nat (q + 1074) = 1074" using q by linarith
    ultimately show ?thesis using fin up by (simp add: fl_units_def m_def flip: power_add)
  qed
  show "fnum (f64_of_int n)" "units (f64_of_int n) = nat n * 2 ^ 1074" using goal un by (simp_all add: fnum_def units_def del: F64_sel)
qed

lemma unat_of_int:
  assumes "0 \<le> n" and "n < 2 ^ 53"
  shows "unat (f64_of_int n) = fl_round F64 (nat n * 2 ^ 1074) (qmin F64)"
  using fl_round_units [of "unat (f64_of_int n)" F64] units_int [OF assms] by (simp add: fnum_def units_def del: F64_sel)

text \<open>A larger integer subtracted from a smaller bound: the difference stays below the difference of the bounds.\<close>

lemma f64_sub_int_bound:
  assumes "fnum x" and "0 \<le> j" and "j \<le> k" and "k < 2 ^ 53" and "units (f64_of_int j) \<le> units x" and "units x \<le> units (f64_of_int k)"
  shows "fnum (f64_sub x (f64_of_int j))" and "units (f64_sub x (f64_of_int j)) \<le> units (f64_of_int (k - j))"
proof -
  have j: "fnum (f64_of_int j)" "units (f64_of_int j) = nat j * 2 ^ 1074" using units_int [of j] assms(2-4) by auto
  have k: "units (f64_of_int k) = nat k * 2 ^ 1074" using units_int [of k] assms(2-4) by auto
  have kj: "0 \<le> k - j" "k - j < 2 ^ 53" using assms(2-4) by auto
  have "units x - units (f64_of_int j) \<le> nat (k - j) * 2 ^ 1074"
    using assms(2,3,6) unfolding j(2) k by (simp add: nat_diff_distrib diff_mult_distrib)
  then have "fl_round F64 (units x - units (f64_of_int j)) (qmin F64) \<le> unat (f64_of_int (k - j))"
    unfolding unat_of_int [OF kj] by (rule fl_round_mono)
  then have le: "unat (f64_sub x (f64_of_int j)) \<le> unat (f64_of_int (k - j))"
    using fl_sub_units [of "unat x" "unat (f64_of_int j)"] assms(1,5) j(1) by (simp add: unat_f64_sub fnum_def units_def del: F64_sel)
  then show n: "fnum (f64_sub x (f64_of_int j))" using units_int(1) [OF kj] by (simp add: fnum_def)
  show "units (f64_sub x (f64_of_int j)) \<le> units (f64_of_int (k - j))" using le units_order [OF n units_int(1) [OF kj]] by simp
qed

end
