(* ===== verification/RateLimit.thy ===== *)
theory RateLimit
  imports FloatOrder Prelude
begin

text \<open>
  The rate limiter of \<^verbatim>\<open>internal/api/middleware.go\<close>: one token bucket per client, refilled by the elapsed time in \<^verbatim>\<open>float64\<close> arithmetic. The
  clock is an argument, in nanoseconds; \<^verbatim>\<open>time.Time.Sub\<close> saturates. The mutex makes \<^verbatim>\<open>allow\<close> one step.
\<close>

section \<open>The limiter\<close>

record tokenBucket =
  tbTokens :: float64
  tbLast :: int

record rateLimiter =
  rlBuckets :: "(string, tokenBucket) gomap"
  rlLimit :: float64
  rlWindow :: int
  rlBurst :: float64

definition second :: int where "second = 1000000000"

definition Time_Sub :: "int \<Rightarrow> int \<Rightarrow> int" where
  "Time_Sub t u = max (- (2 ^ 63)) (min (2 ^ 63 - 1) (t - u))"

text \<open>\<^verbatim>\<open>Duration.Seconds\<close>; the integer division truncates.\<close>

definition Seconds :: "int \<Rightarrow> float64" where
  "Seconds d =
     (let sec = sgn d * (\<bar>d\<bar> div second); nsec = sgn d * (\<bar>d\<bar> mod second)
      in f64_add (f64_of_int sec) (f64_div (f64_of_int nsec) (f64_of_int second)))"

definition newRateLimiter :: "int \<Rightarrow> int \<Rightarrow> rateLimiter option" where
  "newRateLimiter limit window =
     (if limit \<le> 0 then None
      else Some \<lparr>rlBuckets = [], rlLimit = f64_of_int limit, rlWindow = window, rlBurst = f64_of_int limit\<rparr>)"

definition refill :: "rateLimiter \<Rightarrow> int \<Rightarrow> tokenBucket \<Rightarrow> tokenBucket" where
  "refill rl now bucket =
     (let elapsed = Time_Sub now (tbLast bucket)
      in if elapsed > 0
         then let tokens = f64_add (tbTokens bucket) (f64_mul (Seconds elapsed) (f64_div (rlLimit rl) (Seconds (rlWindow rl))))
              in \<lparr>tbTokens = (if f64_lt (rlBurst rl) tokens then rlBurst rl else tokens), tbLast = now\<rparr>
         else bucket)"

definition allow :: "rateLimiter \<Rightarrow> int \<Rightarrow> string \<Rightarrow> bool \<times> rateLimiter" where
  "allow rl now key =
     (case gm_get (rlBuckets rl) key of
        None \<Rightarrow> (True, rl\<lparr>rlBuckets := gm_put key \<lparr>tbTokens = f64_sub (rlBurst rl) (f64_of_int 1), tbLast = now\<rparr> (rlBuckets rl)\<rparr>)
      | Some bucket \<Rightarrow>
          (let b = refill rl now bucket
           in if f64_lt (tbTokens b) (f64_of_int 1) then (False, rl\<lparr>rlBuckets := gm_put key b (rlBuckets rl)\<rparr>)
              else (True, rl\<lparr>rlBuckets := gm_put key (b\<lparr>tbTokens := f64_sub (tbTokens b) (f64_of_int 1)\<rparr>) (rlBuckets rl)\<rparr>)))"

section \<open>Arithmetic of the refill\<close>

lemma nonneg_class: "n \<le> infb F64 \<Longrightarrow> \<not> fl_sgn F64 n \<and> fl_mag F64 n = n \<and> \<not> fl_isnan F64 n"
  by (simp add: fl_sgn_def fl_mag_def fl_isnan_def)

lemma nonneg_lt:
  assumes "unat x \<le> infb F64" and "unat y \<le> infb F64"
  shows "f64_lt x y \<longleftrightarrow> unat x < unat y"
  using nonneg_class [OF assms(1)] nonneg_class [OF assms(2)]
  by (simp add: f64_lt_def f64_isnan_def f64_key_def fl_signed_def del: of_nat_unat F64_sel)

lemma add_nonneg:
  assumes "unat x \<le> infb F64" and "unat y \<le> infb F64"
  shows "unat (f64_add x y) \<le> infb F64" and "unat y \<le> unat (f64_add x y)" and "unat x \<le> unat (f64_add x y)"
proof -
  have all: "unat (f64_add x y) \<le> infb F64 \<and> unat y \<le> unat (f64_add x y) \<and> unat x \<le> unat (f64_add x y)"
  proof (cases "unat x < infb F64 \<and> unat y < infb F64")
    case True
    then have eq: "unat (f64_add x y) = fl_round F64 (units x + units y) (qmin F64)" by (simp add: fl_add_units units_def del: F64_sel)
    have "fl_round F64 (units x) (qmin F64) = unat x" "fl_round F64 (units y) (qmin F64) = unat y"
      using True fl_round_units [of _ F64] by (simp_all add: units_def del: F64_sel)
    then show ?thesis
      unfolding eq using fl_round_mono [of "units y" "units x + units y" F64 "qmin F64"]
        fl_round_mono [of "units x" "units x + units y" F64 "qmin F64"] fl_round_le_inf [of F64] by simp
  next
    case False
    then have "unat (f64_add x y) = infb F64"
      using assms nonneg_class [OF assms(1)] nonneg_class [OF assms(2)] by (auto simp: fl_add_def fl_isinf_mag)
    then show ?thesis using assms by simp
  qed
  then show "unat (f64_add x y) \<le> infb F64" "unat y \<le> unat (f64_add x y)" "unat x \<le> unat (f64_add x y)" by simp_all
qed

text \<open>The product of non-negative floats of which the second is finite and not zero.\<close>

lemma fl_mul_units:
  assumes "x < infb F64" and "y < infb F64"
  shows "fl_mul F64 x y = fl_round F64 (fl_units F64 x * fl_units F64 y) (2 * qmin F64)"
proof -
  obtain mx ex my ey where u: "fl_unpack F64 x = (mx, ex)" "fl_unpack F64 y = (my, ey)" by force
  let ?s = "nat (ex - qmin F64) + nat (ey - qmin F64)"
  have e: "qmin F64 \<le> ex" "qmin F64 \<le> ey" using u fl_unpack_qmin by blast+
  then have "ex + ey - int ?s = 2 * qmin F64" by (simp del: F64_sel)
  then have "fl_round F64 (mx * my) (ex + ey) = fl_round F64 (mx * my * 2 ^ ?s) (2 * qmin F64)"
    using fl_round_shift [of F64 "mx * my" ?s "ex + ey"] by (simp del: F64_sel)
  also have "mx * my * 2 ^ ?s = fl_units F64 x * fl_units F64 y" by (simp add: fl_units_def u power_add mult_ac del: F64_sel)
  finally show ?thesis using fl_class [OF assms(1)] fl_class [OF assms(2)] by (simp add: fl_mul_def u fl_pack_def Let_def)
qed

lemma mul_nonneg:
  assumes "unat x \<le> infb F64" and "fnum y" and "unat y \<noteq> 0"
  shows "unat (f64_mul x y) \<le> infb F64" and "units (f64_of_int 1) \<le> units x \<or> unat x = infb F64 \<Longrightarrow> unat y \<le> unat (f64_mul x y)"
proof -
  have y: "unat y < infb F64" using assms(2) by (simp add: fnum_def)
  have one: "units (f64_of_int 1) = 2 ^ 1074" using units_int(2) [of 1] by simp
  show "unat (f64_mul x y) \<le> infb F64"
  proof (cases "unat x < infb F64")
    case True
    then show ?thesis using fl_round_le_inf [of F64] by (simp add: fl_mul_units [OF True y] del: F64_sel)
  next
    case False
    then show ?thesis using assms(1,3) y nonneg_class [of "unat x"] fl_class [OF y]
      by (simp add: fl_mul_def fl_isinf_mag fl_iszero_def fl_pack_def)
  qed
  assume big: "units (f64_of_int 1) \<le> units x \<or> unat x = infb F64"
  show "unat y \<le> unat (f64_mul x y)"
  proof (cases "unat x < infb F64")
    case True
    then have "2 ^ 1074 * units y \<le> units x * units y" using big one by (intro mult_le_mono1) auto
    then have "fl_round F64 (units y * 2 ^ 1074) (qmin F64 - int 1074) \<le> fl_round F64 (units x * units y) (2 * qmin F64)"
      using fl_round_mono [of "2 ^ 1074 * units y" "units x * units y" F64 "2 * qmin F64"] by (simp add: mult.commute)
    then show ?thesis
      using fl_round_units [OF y] unfolding fl_round_shift by (simp add: fl_mul_units [OF True y] units_def del: F64_sel)
  next
    case False
    then have "unat x = infb F64" using assms(1) by simp
    then show ?thesis using assms(3) y nonneg_class [of "unat x"] fl_class [OF y]
      by (simp add: fl_mul_def fl_isinf_mag fl_iszero_def fl_pack_def)
  qed
qed

lemma fl_div_lt: "fmt_ok F \<Longrightarrow> fl_div F x y < 2 * sbit F"
  using fl_round_lt_sbit [of F] by (auto simp: fl_div_def Let_def fmt_ok_def intro!: fl_pack_lt split: prod.splits)

lemma unat_f64_div: "unat (f64_div x y) = fl_div F64 (unat x) (unat y)"
  unfolding f64_div_def by (intro unat_of_fl64 fl_div_lt) simp

lemma one_pattern: "unat (f64_of_int 1) = 0x3FF0000000000000"
  by (simp add: f64_of_int_def fl_pack_def fl_round_def fl_quant_def Let_def unat_of_fl64 unsigned_of_nat take_bit_nat_eq_self)

lemma div_one:
  assumes "fnum x"
  shows "f64_div x (f64_of_int 1) = x"
proof -
  have x: "unat x < infb F64" using assms by (simp add: fnum_def)
  obtain m e where u: "fl_unpack F64 (unat x) = (m, e)" by force
  have o1: "\<not> fl_sgn F64 0x3FF0000000000000" "fl_mag F64 0x3FF0000000000000 = 0x3FF0000000000000" "\<not> fl_isnan F64 0x3FF0000000000000"
    "\<not> fl_isinf F64 0x3FF0000000000000" "\<not> fl_iszero F64 0x3FF0000000000000" "fl_unpack F64 0x3FF0000000000000 = (2 ^ 52, -52)"
    by (simp_all add: fl_sgn_def fl_mag_def fl_isnan_def fl_isinf_def fl_iszero_def fl_unpack_def)
  have "fl_round F64 (m * 2 ^ 59) (e - int 59) = fl_round F64 m e" by (rule fl_round_shift)
  then have r: "fl_round F64 (m * 2 ^ 59) (e - 59) = unat x" using fl_round_unpack [OF x u] by simp
  have q: "m * 2 ^ 110 div 2 ^ 52 = m * 2 ^ (58 :: nat)" "m * 2 ^ 110 mod 2 ^ 52 = (0 :: nat)"
  proof -
    have "m * 2 ^ 110 = (m * 2 ^ 58) * 2 ^ (52 :: nat)" by simp
    then show "m * 2 ^ 110 div 2 ^ 52 = m * 2 ^ (58 :: nat)" "m * 2 ^ 110 mod 2 ^ 52 = (0 :: nat)" by (simp_all only: nonzero_mult_div_cancel_right mod_mult_self2_is_0) simp
  qed
  have "fl_div F64 (unat x) 0x3FF0000000000000 = fl_round F64 (2 * (m * 2 ^ 58)) (e + 52 - 110 - 1)"
    using fl_class [OF x] q by (simp add: fl_div_def o1 u Let_def fl_pack_def del: power_numeral)
  also have "\<dots> = unat x" using r by (simp add: mult.commute)
  finally show ?thesis by (metis one_pattern unat_f64_div unsigned_word_eqI)
qed

section \<open>The invariant\<close>

text \<open>The limiter of the server: one second, the same limit and burst, and every bucket between nothing and the burst.\<close>

definition rl_ok :: "int \<Rightarrow> rateLimiter \<Rightarrow> bool" where
  "rl_ok n rl \<longleftrightarrow> 0 < n \<and> n < 2 ^ 53 \<and> rlLimit rl = f64_of_int n \<and> rlBurst rl = f64_of_int n \<and> rlWindow rl = second \<and>
     (\<forall>key b. gm_get (rlBuckets rl) key = Some b \<longrightarrow> fnum (tbTokens b) \<and> units (tbTokens b) \<le> units (f64_of_int n))"

lemma new_rl_ok: "newRateLimiter n second = Some rl \<Longrightarrow> n < 2 ^ 53 \<Longrightarrow> rl_ok n rl"
  by (auto simp: newRateLimiter_def rl_ok_def split: if_splits)

lemma div_nonneg: "fnum x \<Longrightarrow> fnum y \<Longrightarrow> unat y \<noteq> 0 \<Longrightarrow> unat (f64_div x y) \<le> infb F64"
  using fnum_class [of x] fnum_class [of y] fl_round_le_inf [of F64]
  by (simp add: unat_f64_div fl_div_def fl_iszero_def fl_pack_def Let_def split: prod.split)

lemma unat_of_int_pos: "0 < n \<Longrightarrow> n < 2 ^ 53 \<Longrightarrow> unat (f64_of_int n) \<noteq> 0"
proof
  assume n: "0 < n" "n < 2 ^ 53" and z: "unat (f64_of_int n) = 0"
  have "units (f64_of_int n) = 0" by (simp only: units_def z) (simp add: fl_units_def fl_unpack_def)
  then show False using units_int(2) [of n] n by simp
qed

lemma div_zero:
  assumes "fnum y" and "unat y \<noteq> 0"
  shows "f64_div 0 y = 0"
proof -
  have "fl_unpack F64 0 = (0, -1074)" by (simp add: fl_unpack_def)
  then have "unat (f64_div 0 y) = 0"
    using fnum_class [OF assms(1)] assms(2) fl_class [of 0] by (simp add: unat_f64_div fl_div_def fl_iszero_def fl_pack_def Let_def split: prod.split)
  then show ?thesis by (simp add: unat_eq_zero)
qed

lemma Seconds_second: "Seconds second = f64_of_int 1"
proof -
  have "fnum (f64_of_int second)" "unat (f64_of_int second) \<noteq> 0" by (intro units_int(1) unat_of_int_pos; simp add: second_def)+
  then have "Seconds second = f64_add (f64_of_int 1) 0" by (simp add: Seconds_def Let_def div_zero f64_of_int_def [of 0] fl_pack_def) (simp add: second_def)
  moreover have "unat (f64_add (f64_of_int 1) 0) = unat (f64_of_int 1)"
  proof -
    have "fl_units F64 0 = 0" by (simp add: fl_units_def fl_unpack_def)
    then show ?thesis
      using fl_add_units [of "unat (f64_of_int 1)" 0] fl_round_units [of "unat (f64_of_int 1)" F64] units_int(1) [of 1] by (simp add: fnum_def)
  qed
  ultimately show ?thesis by (metis unsigned_word_eqI)
qed

lemma Seconds_nonneg:
  assumes "0 \<le> d" and "d < 2 ^ 63"
  shows "unat (Seconds d) \<le> infb F64" and "second \<le> d \<Longrightarrow> unat (f64_of_int 1) \<le> unat (Seconds d)"
proof -
  let ?sec = "d div second" and ?nsec = "d mod second"
  have r: "0 \<le> ?sec" "?sec < 2 ^ 53" "0 \<le> ?nsec" "?nsec < 2 ^ 53"
    using assms by (simp_all add: second_def pos_imp_zdiv_nonneg_iff)
  have eq: "Seconds d = f64_add (f64_of_int ?sec) (f64_div (f64_of_int ?nsec) (f64_of_int second))"
    using assms(1) by (cases "d = 0") (simp_all add: Seconds_def)
  have q: "unat (f64_div (f64_of_int ?nsec) (f64_of_int second)) \<le> infb F64"
    using r by (intro div_nonneg units_int(1) unat_of_int_pos) (simp_all add: second_def)
  have s: "unat (f64_of_int ?sec) \<le> infb F64" using units_int(1) [OF r(1,2)] by (simp add: fnum_def)
  show "unat (Seconds d) \<le> infb F64" unfolding eq by (rule add_nonneg(1) [OF s q])
  assume "second \<le> d"
  then have "1 \<le> ?sec" using assms(1) by (simp add: second_def)
  then have "units (f64_of_int 1) \<le> units (f64_of_int ?sec)" using units_int(2) [OF r(1,2)] units_int(2) [of 1] by simp
  then have "unat (f64_of_int 1) \<le> unat (f64_of_int ?sec)"
    using units_order [OF units_int(1) units_int(1), of 1 ?sec] r by simp
  then show "unat (f64_of_int 1) \<le> unat (Seconds d)" unfolding eq using add_nonneg(3) [OF s q] by linarith
qed

text \<open>A refill stays within the burst; after a second the bucket is full.\<close>

lemma refill_ok:
  assumes "rl_ok n rl" and "gm_get (rlBuckets rl) key = Some b"
  shows "fnum (tbTokens (refill rl now b))" and "units (tbTokens (refill rl now b)) \<le> units (f64_of_int n)"
    and "tbLast b + second \<le> now \<Longrightarrow> tbTokens (refill rl now b) = f64_of_int n"
    and "now \<le> tbLast b \<Longrightarrow> refill rl now b = b" and "now \<le> tbLast (refill rl now b)"
proof -
  let ?L = "f64_of_int n" and ?el = "Time_Sub now (tbLast b)"
  let ?tok = "f64_add (tbTokens b) (f64_mul (Seconds ?el) ?L)"
  have n: "0 < n" "n < 2 ^ 53" and b: "fnum (tbTokens b)" "units (tbTokens b) \<le> units ?L"
    and rl: "rlLimit rl = ?L" "rlBurst rl = ?L" "rlWindow rl = second" using assms by (auto simp: rl_ok_def)
  have L: "fnum ?L" "unat ?L \<noteq> 0" "unat ?L \<le> infb F64" using units_int(1) [of n] unat_of_int_pos [of n] n by (auto simp: fnum_def)
  have eq: "refill rl now b = (if ?el > 0 then \<lparr>tbTokens = (if f64_lt ?L ?tok then ?L else ?tok), tbLast = now\<rparr> else b)"
    by (simp add: refill_def Let_def rl Seconds_second div_one [OF L(1)])
  have el: "?el < 2 ^ 63" "0 < ?el \<longleftrightarrow> tbLast b < now" "second \<le> ?el \<longleftrightarrow> tbLast b + second \<le> now"
    by (auto simp: Time_Sub_def second_def)
  have tb: "unat (tbTokens b) \<le> infb F64" using b(1) by (simp add: fnum_def)
  have t: "unat ?tok \<le> infb F64 \<and> (second \<le> ?el \<longrightarrow> unat ?L \<le> unat ?tok)" if pos: "0 < ?el"
  proof -
    have S: "unat (Seconds ?el) \<le> infb F64" "second \<le> ?el \<longrightarrow> unat (f64_of_int 1) \<le> unat (Seconds ?el)"
      using Seconds_nonneg [of ?el] pos el(1) by auto
    have "units (f64_of_int 1) \<le> units (Seconds ?el) \<or> unat (Seconds ?el) = infb F64" if "second \<le> ?el"
      using S that units_order [OF units_int(1) [of 1], of "Seconds ?el"] by (auto simp: fnum_def)
    then show ?thesis using mul_nonneg [OF S(1) L(1,2)] add_nonneg [OF tb mul_nonneg(1) [OF S(1) L(1,2)]] by fastforce
  qed
  have lt: "f64_lt ?L ?tok \<longleftrightarrow> unat ?L < unat ?tok" if "0 < ?el" using nonneg_lt [OF L(3)] t [OF that] by simp
  have small: "fnum ?tok \<and> units ?tok \<le> units ?L" if "0 < ?el" "\<not> f64_lt ?L ?tok"
  proof -
    have le: "unat ?tok \<le> unat ?L" using lt that by simp
    then have "fnum ?tok" using L(1) by (simp add: fnum_def)
    then show ?thesis using le units_order [OF _ L(1)] by blast
  qed
  show "fnum (tbTokens (refill rl now b))" "units (tbTokens (refill rl now b)) \<le> units ?L"
    using small b L(1) unfolding eq by auto
  show "now \<le> tbLast b \<Longrightarrow> refill rl now b = b" "now \<le> tbLast (refill rl now b)" using el(2) unfolding eq by auto
  assume "tbLast b + second \<le> now"
  then have long: "second \<le> ?el" "0 < ?el" using el by (auto simp: second_def)
  show "tbTokens (refill rl now b) = ?L"
  proof (cases "f64_lt ?L ?tok")
    case False
    then have "unat ?tok = unat ?L" using lt t long by fastforce
    then have "?tok = ?L" by (rule unsigned_word_eqI)
    then show ?thesis using long unfolding eq by simp
  qed (use long in \<open>simp add: eq\<close>)
qed

section \<open>Requests\<close>

lemma fnum_one: "fnum (f64_of_int 1)" "f64_lt x (f64_of_int 1) \<longleftrightarrow> units x < units (f64_of_int 1)" if "fnum x"
  using units_int(1) [of 1] that units_order [OF units_int(1) [of 1] that] fnum_order(1) [OF that units_int(1) [of 1]] by auto

lemma bucket_spent:
  assumes "fnum x" and "units x \<le> units (f64_of_int k)" and "0 < k" and "k < 2 ^ 53" and "\<not> f64_lt x (f64_of_int 1)"
  shows "fnum (f64_sub x (f64_of_int 1)) \<and> units (f64_sub x (f64_of_int 1)) \<le> units (f64_of_int (k - 1))"
  using f64_sub_int_bound [OF assms(1), of 1 k] assms fnum_one(2) [OF assms(1)] by auto

lemma units_int_mono: "0 \<le> j \<Longrightarrow> j \<le> k \<Longrightarrow> k < 2 ^ 53 \<Longrightarrow> units (f64_of_int j) \<le> units (f64_of_int k)"
  using units_int(2) [of j] units_int(2) [of k] by simp

text \<open>One request of a client whose bucket holds at most \<open>k\<close> tokens after its refill.\<close>

lemma allow_other: "key' \<noteq> key \<Longrightarrow> gm_get (rlBuckets (snd (allow rl now key'))) key = gm_get (rlBuckets rl) key"
  by (simp add: allow_def Let_def split: option.split)

lemma allow_spends:
  assumes "rl_ok n rl" and "allow rl now key = (ok, rl')"
    and "\<And>b. gm_get (rlBuckets rl) key = Some b \<Longrightarrow> units (tbTokens (refill rl now b)) \<le> units (f64_of_int k)"
    and "gm_get (rlBuckets rl) key = None \<Longrightarrow> k = n" and "0 \<le> k" and "k \<le> n"
  shows "\<exists>b'. gm_get (rlBuckets rl') key = Some b' \<and> now \<le> tbLast b' \<and> fnum (tbTokens b') \<and>
    (if ok then 0 < k \<and> units (tbTokens b') \<le> units (f64_of_int (k - 1)) else units (tbTokens b') \<le> units (f64_of_int k))"
proof (cases "gm_get (rlBuckets rl) key")
  case None
  have n: "0 < n" "n < 2 ^ 53" "rlBurst rl = f64_of_int n" using assms(1) by (auto simp: rl_ok_def)
  have "\<not> f64_lt (f64_of_int n) (f64_of_int 1)" using fnum_one(2) units_int [of n] units_int_mono [of 1 n] n by simp
  then show ?thesis using bucket_spent [of "f64_of_int n" n] units_int(1) [of n] n None assms(2,4) by (auto simp: allow_def)
next
  case (Some b)
  let ?b = "refill rl now b"
  have n: "n < 2 ^ 53" using assms(1) by (auto simp: rl_ok_def)
  note r = refill_ok(1,5) [OF assms(1) Some, of now] assms(3) [OF Some]
  show ?thesis
  proof (cases "f64_lt (tbTokens ?b) (f64_of_int 1)")
    case True
    then show ?thesis using Some assms(2) r by (auto simp: allow_def)
  next
    case False
    then have "units (f64_of_int 1) \<le> units (tbTokens ?b)" using fnum_one(2) [OF r(1)] by simp
    then have k: "0 < k" using r(3) units_int(2) [of 0] units_int(2) [of 1] assms(5) by (cases "k = 0") auto
    show ?thesis using bucket_spent [OF r(1,3) k _ False] n assms(6) False Some assms(2) k r(2) by (auto simp: allow_def Let_def)
  qed
qed

lemma allow_rl_ok:
  assumes "rl_ok n rl" and "allow rl now key = (ok, rl')"
  shows "rl_ok n rl'"
proof -
  have n: "0 < n" "n < 2 ^ 53" using assms(1) by (auto simp: rl_ok_def)
  obtain b' where b': "gm_get (rlBuckets rl') key = Some b'" "fnum (tbTokens b')"
    "if ok then units (tbTokens b') \<le> units (f64_of_int (n - 1)) else units (tbTokens b') \<le> units (f64_of_int n)"
    using allow_spends [OF assms, of n] refill_ok(2) [OF assms(1)] n by (metis less_le order_refl)
  then have "units (tbTokens b') \<le> units (f64_of_int n)" using units_int_mono [of "n - 1" n] n by (auto split: if_splits)
  moreover have "gm_get (rlBuckets rl') k = gm_get (rlBuckets rl) k" if "k \<noteq> key" for k
    using allow_other [of key k rl now] that assms(2) by simp
  moreover have "rlLimit rl' = rlLimit rl \<and> rlBurst rl' = rlBurst rl \<and> rlWindow rl' = rlWindow rl"
    using assms(2) by (auto simp: allow_def Let_def split: option.splits if_splits)
  ultimately show ?thesis using assms(1) b'(1,2) unfolding rl_ok_def by (metis option.inject)
qed

text \<open>The grants of one client in a burst of requests that arrive at one instant, from any clients in any order.\<close>

fun grants :: "rateLimiter \<Rightarrow> int \<Rightarrow> string \<Rightarrow> string list \<Rightarrow> nat" where
  "grants rl now key [] = 0"
| "grants rl now key (k # ks) =
     (case allow rl now k of (ok, rl') \<Rightarrow> (if ok \<and> k = key then 1 else 0) + grants rl' now key ks)"

lemma grants_spent:
  assumes "rl_ok n rl" and "gm_get (rlBuckets rl) key = Some b" and "now \<le> tbLast b" and "units (tbTokens b) \<le> units (f64_of_int k)"
    and "0 \<le> k" and "k \<le> n"
  shows "int (grants rl now key ks) \<le> k"
  using assms
proof (induction ks arbitrary: rl b k)
  case (Cons c ks)
  obtain ok rl' where a: "allow rl now c = (ok, rl')" by force
  have rl': "rl_ok n rl'" using allow_rl_ok [OF Cons.prems(1) a] .
  show ?case
  proof (cases "c = key")
    case False
    then have "gm_get (rlBuckets rl') key = Some b" using allow_other [of c key rl now] a Cons.prems(2) by simp
    then show ?thesis using Cons.IH [OF rl' _ Cons.prems(3-6)] a False by simp
  next
    case True
    have "refill rl now b = b" using refill_ok(4) [OF Cons.prems(1,2,3)] .
    then obtain b' where b': "gm_get (rlBuckets rl') key = Some b'" "now \<le> tbLast b'"
      "if ok then 0 < k \<and> units (tbTokens b') \<le> units (f64_of_int (k - 1)) else units (tbTokens b') \<le> units (f64_of_int k)"
      using allow_spends [OF Cons.prems(1) a [unfolded True], of k] Cons.prems by auto
    then show ?thesis
      using Cons.IH [OF rl' b'(1,2), of k] Cons.IH [OF rl' b'(1,2), of "k - 1"] Cons.prems(5,6) a True by (auto split: if_splits)
  qed
qed simp

lemma grants_burst: "rl_ok n rl \<Longrightarrow> int (grants rl now key ks) \<le> n"
proof (induction ks arbitrary: rl)
  case (Cons c ks)
  obtain ok rl' where a: "allow rl now c = (ok, rl')" by force
  have rl': "rl_ok n rl'" using allow_rl_ok [OF Cons.prems a] .
  have n: "0 < n" using Cons.prems by (simp add: rl_ok_def)
  show ?case
  proof (cases "c = key \<and> ok")
    case False
    then show ?thesis using Cons.IH [OF rl'] a by auto
  next
    case True
    then obtain b' where "gm_get (rlBuckets rl') key = Some b'" "now \<le> tbLast b'" "units (tbTokens b') \<le> units (f64_of_int (n - 1))"
      using allow_spends [OF Cons.prems a, of n] refill_ok(2) [OF Cons.prems] n by auto
    then show ?thesis using grants_spent [OF rl', of key b' now "n - 1" ks] n a True by simp
  qed
qed (simp add: rl_ok_def)

inductive limiter_reach :: "int \<Rightarrow> rateLimiter \<Rightarrow> bool" for n where
  new: "newRateLimiter n second = Some rl \<Longrightarrow> limiter_reach n rl"
| request: "limiter_reach n rl \<Longrightarrow> allow rl now key = (ok, rl') \<Longrightarrow> limiter_reach n rl'"

lemma limiter_reach_ok: "limiter_reach n rl \<Longrightarrow> n < 2 ^ 53 \<Longrightarrow> rl_ok n rl"
  by (induction rule: limiter_reach.induct) (blast intro: new_rl_ok allow_rl_ok)+

text \<open>
  C23. The rate limiter, in floating point. After any history of requests under any clock: of a burst of requests at one instant a client
  gets at most \<open>limit\<close> granted, however the requests of other clients are interleaved; the requests of a client leave the buckets of the
  others alone; and a client that is new, or has been idle for a second, is served.
\<close>

theorem rate_limit_bounds:
  assumes "limiter_reach n rl" and "n < 2 ^ 53"
  shows "int (grants rl now key ks) \<le> n \<and>
    (\<forall>key'. key' \<noteq> key \<longrightarrow> gm_get (rlBuckets (snd (allow rl now key'))) key = gm_get (rlBuckets rl) key) \<and>
    ((\<forall>b. gm_get (rlBuckets rl) key = Some b \<longrightarrow> tbLast b + second \<le> now) \<longrightarrow> fst (allow rl now key))"
proof -
  have rl: "rl_ok n rl" using limiter_reach_ok [OF assms] .
  then have n: "0 < n" by (simp add: rl_ok_def)
  have "fst (allow rl now key)" if "\<forall>b. gm_get (rlBuckets rl) key = Some b \<longrightarrow> tbLast b + second \<le> now"
  proof (cases "gm_get (rlBuckets rl) key")
    case None
    then show ?thesis by (simp add: allow_def)
  next
    case (Some b)
    have "\<not> f64_lt (f64_of_int n) (f64_of_int 1)"
      using fnum_one(2) [OF units_int(1) [of n]] units_int_mono [of 1 n] n assms(2) by simp
    then show ?thesis using refill_ok(3) [OF rl Some, of now] that Some by (simp add: allow_def)
  qed
  then show ?thesis using grants_burst [OF rl] allow_other by blast
qed

theorem rate_limit_bounds_witness:
  "\<exists>rl. limiter_reach 2 rl \<and> grants rl 0 ''c'' [''c'', ''d'', ''c'', ''c''] \<le> 2 \<and> fst (allow rl second ''c'')"
proof -
  let ?rl = "\<lparr>rlBuckets = [], rlLimit = f64_of_int 2, rlWindow = second, rlBurst = f64_of_int 2\<rparr>"
  obtain ok rl where a: "allow ?rl 0 ''c'' = (ok, rl)" by force
  have r: "limiter_reach 2 rl" by (rule limiter_reach.request [OF limiter_reach.new a]) (simp add: newRateLimiter_def)
  have "tbLast b = 0" if "gm_get (rlBuckets rl) ''c'' = Some b" for b using a that by (auto simp: allow_def)
  then have idle: "\<forall>b. gm_get (rlBuckets rl) ''c'' = Some b \<longrightarrow> tbLast b + second \<le> second" by simp
  have small: "(2 :: int) < 2 ^ 53" by simp
  have "int (grants rl 0 ''c'' [''c'', ''d'', ''c'', ''c'']) \<le> 2" using rate_limit_bounds [OF r small] by blast
  then have "grants rl 0 ''c'' [''c'', ''d'', ''c'', ''c''] \<le> 2" by linarith
  moreover have "fst (allow rl second ''c'')" using rate_limit_bounds [OF r small, of second "''c''" "[]"] idle by blast
  ultimately show ?thesis using r by blast
qed

end
