(* ===== verification/HttpServer.thy ===== *)
theory HttpServer
  imports ServiceLife NetText Cursor RateLimit
begin

text \<open>
  \<^verbatim>\<open>internal/api/server.go\<close> and \<^verbatim>\<open>internal/api/middleware.go\<close>: the HTTP server. A request carries its path twice, as the server of
  the standard library hands it over: decoded (\<^verbatim>\<open>r.URL.Path\<close>), which the middleware and the handlers read, and escaped
  (\<^verbatim>\<open>r.URL.EscapedPath()\<close>), which the router matches. A response is its status, its request identifier and what is written to the
  body; a body whose JSON encoding fails is not written. A handler is \<open>None\<close> if the service panics.
  Parameters: the JSON decoders, the clock, the random source, the file system probes, the rendering of the metrics page and the
  status of a redirect.
\<close>

section \<open>Requests and responses\<close>

record httpRequest =
  rqMethod :: string
  rqPath :: string
  rqEscaped :: string
  rqQuery :: "string \<Rightarrow> string"
  rqHeader :: "string \<Rightarrow> string"
  rqBody :: string
  rqRemoteAddr :: string

datatype errText = Text string | ErrorOf goerror | Prefixed string errText

datatype httpBody =
    NoBody
  | PlainText errText
  | ErrorJSON string errText
  | VectorJSON vector
  | PageJSON "vector list" string
  | IdsJSON "string list" string
  | ResultsJSON "searchResult list"
  | BatchJSON "batchSearchResult list"
  | MetricsText string
  | RedirectTo string

record httpResponse =
  rsStatus :: nat
  rsRequestID :: string
  rsBody :: httpBody

definition respond :: "nat \<Rightarrow> httpBody \<Rightarrow> httpResponse" where
  "respond status body = \<lparr>rsStatus = status, rsRequestID = [], rsBody = body\<rparr>"

text \<open>\<^verbatim>\<open>encoding/json\<close> refuses NaN and infinities; the encoder writes nothing then and \<^verbatim>\<open>writeJSON\<close> ignores the error.\<close>

fun encodable :: "httpBody \<Rightarrow> bool" where
  "encodable (VectorJSON v) = list_all finite64 (vValues v)"
| "encodable (PageJSON vs _) = list_all (\<lambda>v. list_all finite64 (vValues v)) vs"
| "encodable (ResultsJSON rs) = list_all (\<lambda>r. finite64 (srDistance r)) rs"
| "encodable (BatchJSON bs) = list_all (\<lambda>b. list_all (\<lambda>r. finite64 (srDistance r)) (bsResults b)) bs"
| "encodable _ = True"

definition writeJSON :: "nat \<Rightarrow> httpBody \<Rightarrow> httpResponse" where
  "writeJSON status v = respond (if status \<noteq> 0 then status else 200) (if encodable v then v else NoBody)"

section \<open>Environment and state\<close>

text \<open>A decoder gets the bytes the body limit lets through, and whether the limit cut the body off.\<close>

record httpCodec =
  hcVector :: "string \<Rightarrow> bool \<Rightarrow> vector option"
  hcVectors :: "string \<Rightarrow> bool \<Rightarrow> vector list option"
  hcSearch :: "string \<Rightarrow> bool \<Rightarrow> (float64 list \<times> int) option"
  hcSearchBatch :: "string \<Rightarrow> bool \<Rightarrow> batchSearchQuery list option"

record fsProbe =
  fsMkdirAll :: "string \<Rightarrow> goerror option"
  fsStat :: "string \<Rightarrow> bool result"

text \<open>A sample of the metrics page: name, whether it is a counter, labels and value.\<close>

record metric =
  meName :: string
  meCounter :: bool
  meLabels :: "(string \<times> string) list"
  meValue :: float64

record accessEntry =
  leRequestID :: string
  leMethod :: string
  lePath :: string
  leStatus :: nat
  leDurationMS :: int
  leClientAddr :: string

record httpServer =
  hsProtocol :: string
  hsPort :: string
  hsGrpcPort :: string
  hsGrpcEnabled :: bool
  hsReadTimeout :: int
  hsWriteTimeout :: int
  hsMaxBodyBytes :: int
  hsApiKey :: string
  hsAuthEnabled :: bool
  hsGrpcAuth :: bool
  hsTlsEnabled :: bool
  hsTlsCertFile :: string
  hsTlsKeyFile :: string
  hsAccessLog :: bool
  hsMetrics :: bool
  hsSnapshotPath :: string
  hsWalPath :: string
  hsVectorStore :: string
  hsVectorPath :: string
  hsTrustXFF :: bool
  hsTrustedCIDRs :: "ipPrefix list"

type_synonym metricsKey = "string \<times> string \<times> string"

record 'v httpState =
  xsService :: "'v service"
  xsLimiter :: "rateLimiter option"
  xsRequestTotal :: "(metricsKey, nat) gomap"
  xsDurations :: "(string \<times> string \<times> float64) list"
  xsLog :: "accessEntry list"

record 'v httpEnv =
  heService :: "'v serviceEnv"
  heCodec :: httpCodec
  heNow :: int
  heElapsed :: int
  heRandom :: "string option"
  heNetip :: netipOps
  heFs :: fsProbe
  heRender :: "(metricsKey, nat) gomap \<Rightarrow> (string \<times> string \<times> float64) list \<Rightarrow> metric list \<Rightarrow> string"
  heRedirect :: nat

section \<open>Errors\<close>

definition errorCodeFromStatus :: "nat \<Rightarrow> string" where
  "errorCodeFromStatus status =
     (if status = 400 then ''invalid_argument'' else if status = 401 then ''unauthorized'' else if status = 404 then ''not_found''
      else if status = 409 then ''already_exists'' else if status = 405 then ''method_not_allowed''
      else if status = 429 then ''rate_limited'' else ''internal'')"

definition statusFromServiceError :: "goerror \<Rightarrow> nat" where
  "statusFromServiceError e =
     (case e of ErrInvalidID \<Rightarrow> 400 | ErrInvalidValues \<Rightarrow> 400 | ErrInvalidK \<Rightarrow> 400 | ErrVectorDimTooHigh _ \<Rightarrow> 400
      | ErrKTooHigh _ \<Rightarrow> 400 | _ \<Rightarrow> 500)"

definition isV1Request :: "httpRequest \<Rightarrow> bool" where
  "isV1Request r \<longleftrightarrow> rqPath r = ''/v1'' \<or> HasPrefix (rqPath r) ''/v1/''"

definition writeError :: "httpRequest \<Rightarrow> nat \<Rightarrow> string \<Rightarrow> errText \<Rightarrow> httpResponse" where
  "writeError r status code message =
     (if \<not> isV1Request r then respond status (PlainText message)
      else writeJSON status (ErrorJSON (if TrimSpace code = [] then errorCodeFromStatus status else code) message))"

definition writeServiceError :: "httpRequest \<Rightarrow> goerror \<Rightarrow> httpResponse" where
  "writeServiceError r e =
     writeError r (statusFromServiceError e) (errorCodeFromStatus (statusFromServiceError e)) (ErrorOf e)"

definition methodNotAllowed :: "httpRequest \<Rightarrow> httpResponse" where
  "methodNotAllowed r = writeError r 405 ''method_not_allowed'' (Text ''method not allowed'')"

definition vectorIDFromPath :: "string \<Rightarrow> string" where
  "vectorIDFromPath path = TrimPrefix (TrimPrefix path ''/v1'') ''/vectors/''"

text \<open>\<^verbatim>\<open>readJSON\<close>: the decoded value or the response that refuses the body.\<close>

definition readJSON :: "(string \<Rightarrow> bool \<Rightarrow> 'a option) \<Rightarrow> httpServer \<Rightarrow> httpRequest \<Rightarrow> httpResponse + 'a" where
  "readJSON decode srv r =
     (let limit = nat (hsMaxBodyBytes srv)
      in case decode (take limit (rqBody r)) (limit < length (rqBody r)) of
           None \<Rightarrow> Inl (writeError r 400 ''invalid_json'' (Text ''invalid JSON payload''))
         | Some v \<Rightarrow> Inr v)"

section \<open>Readiness\<close>

definition ensureWritableDir :: "fsProbe \<Rightarrow> string \<Rightarrow> errText option" where
  "ensureWritableDir fs path =
     (if TrimSpace path = [] then Some (Text ''directory is empty'')
      else case fsMkdirAll fs path of Some e \<Rightarrow> Some (ErrorOf e)
      | None \<Rightarrow>
          (case fsStat fs path of Inl e \<Rightarrow> Some (ErrorOf e)
           | Inr isDir \<Rightarrow> if \<not> isDir then Some (Text (path @ '' is not a directory'')) else None))"

definition ensureWritableParent :: "fsProbe \<Rightarrow> string \<Rightarrow> errText option" where
  "ensureWritableParent fs path =
     (if TrimSpace path = [] then Some (Text ''path is empty'') else ensureWritableDir fs (filepath_Dir path))"

definition readinessCheck :: "fsProbe \<Rightarrow> httpServer \<Rightarrow> errText option" where
  "readinessCheck fs srv =
     (if EqualFold (TrimSpace (hsVectorStore srv)) ''disk'' then
        map_option (Prefixed ''vector path is not writable: '') (ensureWritableDir fs (hsVectorPath srv))
      else case ensureWritableParent fs (hsSnapshotPath srv) of
          Some e \<Rightarrow> Some (Prefixed ''snapshot path is not writable: '' e)
        | None \<Rightarrow> map_option (Prefixed ''wal path is not writable: '') (ensureWritableParent fs (hsWalPath srv)))"

definition HealthHandler :: httpResponse where
  "HealthHandler = respond 200 (PlainText (Text ''ok''))"

definition LivenessHandler :: httpResponse where
  "LivenessHandler = respond 200 (PlainText (Text ''ok''))"

definition ReadinessHandler :: "fsProbe \<Rightarrow> httpServer \<Rightarrow> httpRequest \<Rightarrow> httpResponse" where
  "ReadinessHandler fs srv r =
     (case readinessCheck fs srv of
        Some e \<Rightarrow> writeError r 503 ''not_ready'' e
      | None \<Rightarrow> respond 200 (PlainText (Text ''ready'')))"

section \<open>Vectors\<close>

definition defaultListVectorsLimit :: int where "defaultListVectorsLimit = 100"
definition maxListVectorsLimit :: int where "maxListVectorsLimit = 1000"

definition parseListVectorsLimit :: "(string \<Rightarrow> string) \<Rightarrow> int option" where
  "parseListVectorsLimit query =
     (let raw = TrimSpace (query ''limit'')
      in if raw = [] then Some defaultListVectorsLimit
         else case ParseInt raw of
             None \<Rightarrow> None
           | Some limit \<Rightarrow> if limit \<le> 0 then None else Some (if limit > maxListVectorsLimit then maxListVectorsLimit else limit))"

definition ListVectorsHandler :: "'v serviceEnv \<Rightarrow> httpRequest \<Rightarrow> 'v service \<Rightarrow> httpResponse \<times> 'v service" where
  "ListVectorsHandler env r s =
     (case parseListVectorsLimit (rqQuery r) of
        None \<Rightarrow> (writeError r 400 ''invalid_argument'' (Text ''limit must be a positive integer''), s)
      | Some limit \<Rightarrow>
          (let cursorVal = TrimSpace (rqQuery r ''cursor'')
           in case (if cursorVal = [] then Some (TrimSpace (rqQuery r ''after'')) else decodeListVectorsCursor cursorVal) of
                None \<Rightarrow> (writeError r 400 ''invalid_argument'' (Text ''cursor must be a valid list cursor''), s)
              | Some afterID \<Rightarrow>
                  (let v = TrimSpace (rqQuery r ''ids_only'');
                       idsOnly = (v = ''1'' \<or> EqualFold v ''true'' \<or> EqualFold v ''yes'')
                   in case ListVectorsPage env s \<lparr>loAfterID = afterID, loLimit = limit, loIDsOnly = idsOnly\<rparr> of
                        (page, s') \<Rightarrow>
                          (let nextCursor = (if lpNextCursor page \<noteq> [] then encodeListVectorsCursor (lpNextCursor page) else [])
                           in (writeJSON 0 (if idsOnly then IdsJSON (map vID (lpVectors page)) nextCursor
                                            else PageJSON (lpVectors page) nextCursor), s')))))"

definition add_response :: "httpRequest \<Rightarrow> goerror option \<Rightarrow> httpResponse" where
  "add_response r err =
     (case err of
        None \<Rightarrow> respond 201 NoBody
      | Some e \<Rightarrow> if e = ErrVectorExists then writeError r 409 ''already_exists'' (ErrorOf e) else writeServiceError r e)"

definition AddVectorHandler :: "'v httpEnv \<Rightarrow> httpServer \<Rightarrow> httpRequest \<Rightarrow> 'v service \<Rightarrow> (httpResponse \<times> 'v service) option" where
  "AddVectorHandler env srv r s =
     (case readJSON (hcVector (heCodec env)) srv r of
        Inl resp \<Rightarrow> Some (resp, s)
      | Inr payload \<Rightarrow>
          if vID payload = [] then Some (writeError r 400 ''invalid_argument'' (Text ''id is required''), s)
          else map_option (apfst (add_response r)) (AddVector (heService env) s (vID payload) (vValues payload)))"

definition AddVectorsBatchHandler :: "'v httpEnv \<Rightarrow> httpServer \<Rightarrow> httpRequest \<Rightarrow> 'v service \<Rightarrow> (httpResponse \<times> 'v service) option" where
  "AddVectorsBatchHandler env srv r s =
     (case readJSON (hcVectors (heCodec env)) srv r of
        Inl resp \<Rightarrow> Some (resp, s)
      | Inr vectors \<Rightarrow> map_option (apfst (add_response r)) (AddVectors (heService env) s vectors))"

definition GetVectorHandler :: "'v serviceEnv \<Rightarrow> httpRequest \<Rightarrow> 'v service \<Rightarrow> httpResponse \<times> 'v service" where
  "GetVectorHandler env r s =
     (case Service_GetVector env s (vectorIDFromPath (rqPath r)) of
        (Inl e, s') \<Rightarrow> (if e = ErrVectorNotFound then writeError r 404 ''not_found'' (ErrorOf e) else writeServiceError r e, s')
      | (Inr vec, s') \<Rightarrow> (writeJSON 0 (VectorJSON vec), s'))"

definition delete_response :: "httpRequest \<Rightarrow> goerror option \<Rightarrow> httpResponse" where
  "delete_response r err =
     (case err of
        None \<Rightarrow> respond 204 NoBody
      | Some e \<Rightarrow> if e = ErrVectorNotFound then writeError r 404 ''not_found'' (ErrorOf e) else writeServiceError r e)"

definition DeleteVectorHandler :: "'v serviceEnv \<Rightarrow> httpRequest \<Rightarrow> 'v service \<Rightarrow> (httpResponse \<times> 'v service) option" where
  "DeleteVectorHandler env r s = map_option (apfst (delete_response r)) (DeleteVector env s (vectorIDFromPath (rqPath r)))"

definition result_response :: "httpRequest \<Rightarrow> ('a \<Rightarrow> httpBody) \<Rightarrow> 'a result \<Rightarrow> httpResponse" where
  "result_response r body res = (case res of Inl e \<Rightarrow> writeServiceError r e | Inr x \<Rightarrow> writeJSON 0 (body x))"

definition SearchVectorsHandler :: "'v httpEnv \<Rightarrow> httpServer \<Rightarrow> httpRequest \<Rightarrow> 'v service \<Rightarrow> (httpResponse \<times> 'v service) option" where
  "SearchVectorsHandler env srv r s =
     (case readJSON (hcSearch (heCodec env)) srv r of
        Inl resp \<Rightarrow> Some (resp, s)
      | Inr (vals, k) \<Rightarrow> map_option (apfst (result_response r ResultsJSON)) (Search (heService env) s vals k))"

definition SearchVectorsBatchHandler :: "'v httpEnv \<Rightarrow> httpServer \<Rightarrow> httpRequest \<Rightarrow> 'v service \<Rightarrow> (httpResponse \<times> 'v service) option" where
  "SearchVectorsBatchHandler env srv r s =
     (case readJSON (hcSearchBatch (heCodec env)) srv r of
        Inl resp \<Rightarrow> Some (resp, s)
      | Inr queries \<Rightarrow> map_option (apfst (result_response r BatchJSON)) (SearchBatch (heService env) s queries))"

definition vectorByIDHandler :: "'v serviceEnv \<Rightarrow> httpRequest \<Rightarrow> 'v service \<Rightarrow> (httpResponse \<times> 'v service) option" where
  "vectorByIDHandler env r s =
     (if vectorIDFromPath (rqPath r) = [] then Some (writeError r 404 ''not_found'' (Text ''vector not found''), s)
      else if rqMethod r = ''GET'' then Some (GetVectorHandler env r s)
      else if rqMethod r = ''DELETE'' then DeleteVectorHandler env r s
      else Some (methodNotAllowed r, s))"

section \<open>Metrics\<close>

definition itoa :: "int \<Rightarrow> string" where
  "itoa n = (if n < 0 then CHR ''-'' # decimal (nat (- n)) else decimal (nat n))"

definition counter :: "string \<Rightarrow> int \<Rightarrow> metric" where
  "counter name value = \<lparr>meName = name, meCounter = True, meLabels = [], meValue = f64_of_int value\<rparr>"

definition gauge :: "string \<Rightarrow> int \<Rightarrow> metric" where
  "gauge name value = \<lparr>meName = name, meCounter = False, meLabels = [], meValue = f64_of_int value\<rparr>"

text \<open>\<^verbatim>\<open>coreMetricsCollector.Collect\<close> with the names of \<^verbatim>\<open>newCoreMetricsCollector\<close>.\<close>

definition Collect_metrics :: "serviceStatsView \<Rightarrow> metric list" where
  "Collect_metrics stats =
     (let c = ssCounters stats
      in [counter ''lumenvec_core_search_requests_total'' (uint (searchRequestsTotal c)),
          counter ''lumenvec_core_exact_searches_total'' (uint (exactSearchesTotal c)),
          counter ''lumenvec_core_ann_searches_total'' (uint (annSearchesTotal c)),
          counter ''lumenvec_core_ann_search_hits_total'' (uint (annSearchHitsTotal c)),
          counter ''lumenvec_core_ann_fallbacks_total'' (uint (annSearchFallbacks c)),
          counter ''lumenvec_core_ann_errors_total'' (uint (annSearchErrorsTotal c)),
          counter ''lumenvec_core_ann_candidates_returned_total'' (uint (annCandidatesReturned c)),
          counter ''lumenvec_core_ann_eval_samples_total'' (uint (annEvalSamplesTotal c)),
          counter ''lumenvec_core_ann_eval_top1_matches_total'' (uint (annEvalTop1Matches c)),
          counter ''lumenvec_core_ann_eval_overlap_results_total'' (uint (annEvalOverlapResults c)),
          counter ''lumenvec_core_ann_eval_compared_results_total'' (uint (annEvalComparedResults c)),
          counter ''lumenvec_core_cache_hits_total'' (uint (cstHits (ssCache stats))),
          counter ''lumenvec_core_cache_misses_total'' (uint (cstMisses (ssCache stats))),
          counter ''lumenvec_core_cache_evictions_total'' (uint (cstEvictions (ssCache stats))),
          gauge ''lumenvec_core_cache_items'' (cstItems (ssCache stats)),
          gauge ''lumenvec_core_cache_bytes'' (cstBytes (ssCache stats)),
          gauge ''lumenvec_core_disk_file_bytes'' (dsFileBytes (ssDisk stats)),
          gauge ''lumenvec_core_disk_records'' (dsRecords (ssDisk stats)),
          gauge ''lumenvec_core_disk_stale_records'' (dsStaleRecords (ssDisk stats)),
          counter ''lumenvec_core_disk_compactions_total'' (dsCompactions (ssDisk stats)),
          \<lparr>meName = ''lumenvec_core_ann_config_info'', meCounter = False,
           meLabels = [(''profile'', ssANNProfile stats), (''m'', itoa (ssANNM stats)),
             (''ef_construction'', itoa (ssANNEfConstruction stats)), (''ef_search'', itoa (ssANNEfSearch stats))],
           meValue = f64_of_int 1\<rparr>])"

definition MetricsHandler :: "'v httpEnv \<Rightarrow> 'v httpState \<Rightarrow> httpResponse" where
  "MetricsHandler env st =
     respond 200 (MetricsText (heRender env (xsRequestTotal st) (xsDurations st) (Collect_metrics (Service_Stats (heService env) (xsService st)))))"

definition StatusText :: "nat \<Rightarrow> string" where
  "StatusText code =
     (case map_of [(200, ''OK''), (201, ''Created''), (204, ''No Content''), (301, ''Moved Permanently''), (307, ''Temporary Redirect''),
        (400, ''Bad Request''), (401, ''Unauthorized''), (404, ''Not Found''), (405, ''Method Not Allowed''), (409, ''Conflict''),
        (429, ''Too Many Requests''), (500, ''Internal Server Error''), (503, ''Service Unavailable'')] code of
        None \<Rightarrow> [] | Some t \<Rightarrow> t)"

section \<open>Routes\<close>

datatype route = RHealth | RLive | RReady | RMetrics | RVectors | RBatch | RSearch | RSearchBatch | RByID

definition api_route :: "string list \<Rightarrow> route option" where
  "api_route segs =
     (if segs = [''vectors''] then Some RVectors
      else if segs = [''vectors'', ''batch''] then Some RBatch
      else if segs = [''vectors'', ''search''] then Some RSearch
      else if segs = [''vectors'', ''search'', ''batch''] then Some RSearchBatch
      else if length segs > 1 \<and> hd segs = ''vectors'' then Some RByID
      else None)"

definition operational_route :: "string list \<Rightarrow> route option" where
  "operational_route segs =
     (if segs = [''health''] then Some RHealth else if segs = [''livez''] then Some RLive else if segs = [''readyz''] then Some RReady
      else None)"

definition mux_route :: "bool \<Rightarrow> string list \<Rightarrow> route option" where
  "mux_route metrics segs =
     (if metrics \<and> segs = [''metrics''] then Some RMetrics
      else let rest = (if segs \<noteq> [] \<and> hd segs = ''v1'' then tl segs else segs)
           in case operational_route rest of Some route \<Rightarrow> Some route | None \<Rightarrow> api_route rest)"

text \<open>\<^verbatim>\<open>http.ServeMux\<close> matches the segments of the escaped path one by one, each after percent decoding.\<close>

definition unescape_segment :: "string \<Rightarrow> string" where
  "unescape_segment seg = (case PathUnescape seg of Some s \<Rightarrow> s | None \<Rightarrow> seg)"

definition mux_segments :: "string \<Rightarrow> string list" where
  "mux_segments path = (if path = [] then [] else map unescape_segment (Split (tl path) CHR ''/''))"

definition on_service :: "('v service \<Rightarrow> (httpResponse \<times> 'v service) option) \<Rightarrow> 'v httpState \<Rightarrow> (httpResponse \<times> 'v httpState) option" where
  "on_service h st = map_option (apsnd (\<lambda>s. st\<lparr>xsService := s\<rparr>)) (h (xsService st))"

definition methodHandler :: "string \<Rightarrow> (httpRequest \<Rightarrow> 'v httpState \<Rightarrow> (httpResponse \<times> 'v httpState) option) \<Rightarrow>
    httpRequest \<Rightarrow> 'v httpState \<Rightarrow> (httpResponse \<times> 'v httpState) option" where
  "methodHandler method handler r st =
     (if rqMethod r \<noteq> method then Some (methodNotAllowed r, st) else handler r st)"

definition vectorsHandler :: "'v httpEnv \<Rightarrow> httpServer \<Rightarrow> httpRequest \<Rightarrow> 'v httpState \<Rightarrow> (httpResponse \<times> 'v httpState) option" where
  "vectorsHandler env srv r st =
     (if rqMethod r = ''GET'' then on_service (\<lambda>s. Some (ListVectorsHandler (heService env) r s)) st
      else if rqMethod r = ''POST'' then on_service (AddVectorHandler env srv r) st
      else Some (methodNotAllowed r, st))"

definition dispatch :: "'v httpEnv \<Rightarrow> httpServer \<Rightarrow> route \<Rightarrow> httpRequest \<Rightarrow> 'v httpState \<Rightarrow> (httpResponse \<times> 'v httpState) option" where
  "dispatch env srv route =
     (case route of
        RHealth \<Rightarrow> methodHandler ''GET'' (\<lambda>r st. Some (HealthHandler, st))
      | RLive \<Rightarrow> methodHandler ''GET'' (\<lambda>r st. Some (LivenessHandler, st))
      | RReady \<Rightarrow> methodHandler ''GET'' (\<lambda>r st. Some (ReadinessHandler (heFs env) srv r, st))
      | RMetrics \<Rightarrow> methodHandler ''GET'' (\<lambda>r st. Some (MetricsHandler env st, st))
      | RVectors \<Rightarrow> vectorsHandler env srv
      | RBatch \<Rightarrow> methodHandler ''POST'' (\<lambda>r. on_service (AddVectorsBatchHandler env srv r))
      | RSearch \<Rightarrow> methodHandler ''POST'' (\<lambda>r. on_service (SearchVectorsHandler env srv r))
      | RSearchBatch \<Rightarrow> methodHandler ''POST'' (\<lambda>r. on_service (SearchVectorsBatchHandler env srv r))
      | RByID \<Rightarrow> (\<lambda>r. on_service (vectorByIDHandler (heService env) r)))"

text \<open>A path that is not clean is redirected to the clean one, except for the method CONNECT.\<close>

definition mux_serve :: "'v httpEnv \<Rightarrow> httpServer \<Rightarrow> httpRequest \<Rightarrow> 'v httpState \<Rightarrow> (httpResponse \<times> 'v httpState) option" where
  "mux_serve env srv r st =
     (if rqEscaped r = ''*'' then Some (respond 400 NoBody, st)
      else let path = (if rqMethod r = ''CONNECT'' then rqEscaped r else cleanPath (rqEscaped r))
           in if path \<noteq> rqEscaped r then Some (respond (heRedirect env) (RedirectTo path), st)
              else case mux_route (hsMetrics srv) (mux_segments path) of
                  None \<Rightarrow> Some (respond 404 (PlainText (Text ''404 page not found'')), st)
                | Some route \<Rightarrow> dispatch env srv route r st)"

section \<open>Middleware\<close>

definition isTrustedProxy :: "netipOps \<Rightarrow> httpServer \<Rightarrow> string \<Rightarrow> bool" where
  "isTrustedProxy ni srv remoteAddr =
     (let host = (case SplitHostPort remoteAddr of Some h \<Rightarrow> h | None \<Rightarrow> remoteAddr)
      in case niParseAddr ni (TrimSpace host) of
           None \<Rightarrow> False
         | Some addr \<Rightarrow> list_ex (\<lambda>p. prefix_Contains p addr) (hsTrustedCIDRs srv))"

definition remote_host :: "httpRequest \<Rightarrow> string" where
  "remote_host r = (case SplitHostPort (rqRemoteAddr r) of Some h \<Rightarrow> h | None \<Rightarrow> rqRemoteAddr r)"

definition forwarded_for :: "httpRequest \<Rightarrow> string option" where
  "forwarded_for r =
     (let xff = TrimSpace (rqHeader r ''X-Forwarded-For'')
      in if xff \<noteq> [] then Some (TrimSpace (hd (Split xff CHR '',''))) else None)"

definition Server_getClientIP :: "netipOps \<Rightarrow> httpServer \<Rightarrow> httpRequest \<Rightarrow> string" where
  "Server_getClientIP ni srv r =
     (if hsTrustXFF srv \<and> hsTrustedCIDRs srv \<noteq> [] \<and> isTrustedProxy ni srv (rqRemoteAddr r)
      then case forwarded_for r of Some ip \<Rightarrow> ip | None \<Rightarrow> remote_host r
      else remote_host r)"

definition getClientIP :: "httpRequest \<Rightarrow> string" where
  "getClientIP r = (case forwarded_for r of Some ip \<Rightarrow> ip | None \<Rightarrow> remote_host r)"

definition validateAPIKey :: "string \<Rightarrow> string \<Rightarrow> bool" where
  "validateAPIKey provided expected =
     (let p = TrimSpace provided; e = TrimSpace expected in if p = [] \<or> e = [] then False else p = e)"

definition bearer_token :: "string \<Rightarrow> string" where
  "bearer_token auth = (if HasPrefix (ToLower auth) ''bearer '' then TrimSpace (drop 7 auth) else [])"

definition authKeyFromHTTPRequest :: "httpRequest \<Rightarrow> string" where
  "authKeyFromHTTPRequest r =
     (let key = TrimSpace (rqHeader r ''X-Api-Key'')
      in if key \<noteq> [] then key else bearer_token (TrimSpace (rqHeader r ''Authorization'')))"

definition isPublicOperationalPath :: "string \<Rightarrow> bool" where
  "isPublicOperationalPath path \<longleftrightarrow>
     path \<in> {''/health'', ''/livez'', ''/readyz'', ''/v1/health'', ''/v1/livez'', ''/v1/readyz'', ''/metrics''}"

type_synonym 'v handler = "httpRequest \<Rightarrow> 'v httpState \<Rightarrow> (httpResponse \<times> 'v httpState) option"

definition authMiddleware :: "httpServer \<Rightarrow> 'v handler \<Rightarrow> 'v handler" where
  "authMiddleware srv next_h r st =
     (if \<not> hsAuthEnabled srv \<or> hsApiKey srv = [] \<or> isPublicOperationalPath (rqPath r) then next_h r st
      else if \<not> validateAPIKey (authKeyFromHTTPRequest r) (hsApiKey srv)
           then Some (writeError r 401 ''unauthorized'' (Text ''unauthorized''), st)
           else next_h r st)"

definition rateLimitMiddleware :: "'v httpEnv \<Rightarrow> httpServer \<Rightarrow> 'v handler \<Rightarrow> 'v handler" where
  "rateLimitMiddleware env srv next_h r st =
     (case xsLimiter st of
        None \<Rightarrow> next_h r st
      | Some rl \<Rightarrow>
          if isPublicOperationalPath (rqPath r) then next_h r st
          else case allow rl (heNow env) (Server_getClientIP (heNetip env) srv r) of
              (False, rl') \<Rightarrow> Some (writeError r 429 ''rate_limited'' (Text ''rate limit exceeded''), st\<lparr>xsLimiter := Some rl'\<rparr>)
            | (True, rl') \<Rightarrow> next_h r (st\<lparr>xsLimiter := Some rl'\<rparr>))"

definition id_char :: "char \<Rightarrow> bool" where
  "id_char ch \<longleftrightarrow> CHR ''a'' \<le> ch \<and> ch \<le> CHR ''z'' \<or> CHR ''A'' \<le> ch \<and> ch \<le> CHR ''Z'' \<or> CHR ''0'' \<le> ch \<and> ch \<le> CHR ''9'' \<or>
     ch \<in> {CHR ''-'', CHR ''_'', CHR ''.'', CHR '':'', CHR ''/''}"

definition requestIDFromRequest :: "httpRequest \<Rightarrow> string" where
  "requestIDFromRequest r =
     (let rid = TrimSpace (rqHeader r ''X-Request-Id'')
      in if rid = [] \<or> length rid > 128 then [] else if list_all id_char rid then rid else [])"

definition newRequestID :: "string option \<Rightarrow> int \<Rightarrow> string" where
  "newRequestID random now =
     (case random of
        None \<Rightarrow> (if now < 0 then CHR ''-'' # base36 (nat (- now)) else base36 (nat now))
      | Some b \<Rightarrow> hex_encode b)"

definition metricsMiddleware :: "'v httpEnv \<Rightarrow> 'v handler \<Rightarrow> 'v handler" where
  "metricsMiddleware env next_h r st =
     map_option (\<lambda>(resp, st').
        (let key = (rqMethod r, rqPath r, StatusText (rsStatus resp));
             n = (case gm_get (xsRequestTotal st') key of None \<Rightarrow> 0 | Some n \<Rightarrow> n)
         in (resp, st'\<lparr>xsRequestTotal := gm_put key (n + 1) (xsRequestTotal st'),
                      xsDurations := (rqMethod r, rqPath r, Seconds (heElapsed env)) # xsDurations st'\<rparr>))) (next_h r st)"

definition writeAccessLog :: "string \<Rightarrow> httpRequest \<Rightarrow> nat \<Rightarrow> int \<Rightarrow> accessEntry" where
  "writeAccessLog requestID r status duration =
     \<lparr>leRequestID = requestID, leMethod = rqMethod r, lePath = rqPath r, leStatus = status,
      leDurationMS = sgn duration * (\<bar>duration\<bar> div 1000000), leClientAddr = getClientIP r\<rparr>"

definition accessLogMiddleware :: "'v httpEnv \<Rightarrow> httpServer \<Rightarrow> string \<Rightarrow> 'v handler \<Rightarrow> 'v handler" where
  "accessLogMiddleware env srv requestID next_h r st =
     (if \<not> hsAccessLog srv then next_h r st
      else map_option (\<lambda>(resp, st'). (resp, st'\<lparr>xsLog := writeAccessLog requestID r (rsStatus resp) (heElapsed env) # xsLog st'\<rparr>)) (next_h r st))"

definition requestIDMiddleware :: "'v httpEnv \<Rightarrow> (string \<Rightarrow> 'v handler) \<Rightarrow> 'v handler" where
  "requestIDMiddleware env next_h r st =
     (let rid0 = requestIDFromRequest r;
          rid = (if rid0 = [] then newRequestID (heRandom env) (heNow env) else rid0)
      in map_option (apfst (\<lambda>resp. resp\<lparr>rsRequestID := rid\<rparr>)) (next_h rid r st))"

text \<open>\<^verbatim>\<open>routes\<close>: the order in which the middleware wraps the router.\<close>

definition serve_http :: "'v httpEnv \<Rightarrow> httpServer \<Rightarrow> 'v handler" where
  "serve_http env srv =
     requestIDMiddleware env (\<lambda>rid.
       (let h0 = accessLogMiddleware env srv rid (mux_serve env srv);
            h1 = (if hsMetrics srv then metricsMiddleware env h0 else h0);
            h2 = (if hsAuthEnabled srv \<and> hsApiKey srv \<noteq> [] then authMiddleware srv h1 else h1)
        in rateLimitMiddleware env srv h2))"

end
