(* ===== verification/ServerSetup.thy ===== *)
theory ServerSetup
  imports HttpServer
begin

text \<open>
  How a server comes to be and ends: \<^verbatim>\<open>ServerOptions\<close>, \<^verbatim>\<open>applyDefaults\<close> and \<^verbatim>\<open>NewServerWithOptions\<close> of \<^verbatim>\<open>internal/api/server.go\<close>, \<^verbatim>\<open>Run\<close> and
  \<^verbatim>\<open>Close\<close>, and \<^verbatim>\<open>cmd/server/main.go\<close>, which turns a configuration into options. File modes are passed on to the file system and are not
  part of the model's state.
\<close>

section \<open>Options\<close>

record serverOptions =
  soProtocol :: string
  soPort :: string
  soReadTimeout :: int
  soWriteTimeout :: int
  soMaxBodyBytes :: int
  soMaxVectorDim :: int
  soMaxK :: int
  soSnapshotPath :: string
  soWALPath :: string
  soSnapshotEvery :: int
  soVectorStore :: string
  soVectorPath :: string
  soSyncEvery :: int
  soAPIKey :: string
  soMetricsEnabled :: bool
  soDisableRateLimit :: bool
  soRateLimitRPS :: int
  soSearchMode :: string
  soANNProfile :: string
  soANNM :: int
  soANNEfConstruct :: int
  soANNEfSearch :: int
  soANNEvalSampleRate :: int
  soCacheEnabled :: bool
  soCacheMaxBytes :: int
  soCacheMaxItems :: int
  soCacheTTL :: int
  soGRPCEnabled :: bool
  soGRPCPort :: string
  soSecurityProfile :: string
  soAuthEnabled :: bool
  soAuthAPIKey :: string
  soGRPCAuthEnabled :: bool
  soTLSEnabled :: bool
  soTLSCertFile :: string
  soTLSKeyFile :: string
  soAccessLogEnabled :: bool
  soTrustForwardedFor :: bool
  soTrustedProxies :: "string list"
  soStrictFilePerms :: bool
  soStorageDirMode :: string
  soStorageFileMode :: string

definition defaultServerOptions :: serverOptions where
  "defaultServerOptions =
     \<lparr>soProtocol = ''http'', soPort = '':19190'', soReadTimeout = 10 * second, soWriteTimeout = 10 * second, soMaxBodyBytes = 2 ^ 20,
      soMaxVectorDim = 4096, soMaxK = 100, soSnapshotPath = ''./data/snapshot.json'', soWALPath = ''./data/wal.log'', soSnapshotEvery = 25,
      soVectorStore = ''memory'', soVectorPath = ''./data/vectors'', soSyncEvery = 1, soAPIKey = [], soMetricsEnabled = True,
      soDisableRateLimit = False, soRateLimitRPS = 100, soSearchMode = ''exact'', soANNProfile = ''balanced'', soANNM = 16,
      soANNEfConstruct = 64, soANNEfSearch = 64, soANNEvalSampleRate = 0, soCacheEnabled = False, soCacheMaxBytes = 8 * 2 ^ 20,
      soCacheMaxItems = 1024, soCacheTTL = 15 * 60 * second, soGRPCEnabled = False, soGRPCPort = '':19191'', soSecurityProfile = [],
      soAuthEnabled = False, soAuthAPIKey = [], soGRPCAuthEnabled = False, soTLSEnabled = False, soTLSCertFile = [], soTLSKeyFile = [],
      soAccessLogEnabled = False, soTrustForwardedFor = False, soTrustedProxies = [], soStrictFilePerms = False, soStorageDirMode = [],
      soStorageFileMode = []\<rparr>"

definition normalizeServerProtocol :: "string \<Rightarrow> string" where
  "normalizeServerProtocol protocol = (if ToLower (TrimSpace protocol) = ''grpc'' then ''grpc'' else ''http'')"

definition pos_or :: "int \<Rightarrow> int \<Rightarrow> int" where
  "pos_or v def = (if v \<le> 0 then def else v)"

definition text_or :: "string \<Rightarrow> string \<Rightarrow> string" where
  "text_or s def = (if TrimSpace s = [] then def else s)"

definition colon_port :: "string \<Rightarrow> string" where
  "colon_port port = (if \<not> HasPrefix port '':'' then CHR '':'' # port else port)"

definition applyDefaults :: "serverOptions \<Rightarrow> serverOptions" where
  "applyDefaults o0 =
     (let d = defaultServerOptions; protocol = normalizeServerProtocol (soProtocol o0);
          mode = ToLower (TrimSpace (text_or (soSearchMode o0) (soSearchMode d)))
      in o0\<lparr>soProtocol := protocol,
           soPort := colon_port (text_or (soPort o0) (soPort d)),
           soGRPCPort := colon_port (text_or (soGRPCPort o0) (soGRPCPort d)),
           soReadTimeout := pos_or (soReadTimeout o0) (soReadTimeout d),
           soWriteTimeout := pos_or (soWriteTimeout o0) (soWriteTimeout d),
           soMaxBodyBytes := pos_or (soMaxBodyBytes o0) (soMaxBodyBytes d),
           soMaxVectorDim := pos_or (soMaxVectorDim o0) (soMaxVectorDim d),
           soMaxK := pos_or (soMaxK o0) (soMaxK d),
           soSnapshotPath := text_or (soSnapshotPath o0) (soSnapshotPath d),
           soWALPath := text_or (soWALPath o0) (soWALPath d),
           soVectorStore := text_or (soVectorStore o0) (soVectorStore d),
           soVectorPath := text_or (soVectorPath o0) (soVectorPath d),
           soSnapshotEvery := pos_or (soSnapshotEvery o0) (soSnapshotEvery d),
           soSyncEvery := pos_or (soSyncEvery o0) (soSyncEvery d),
           soRateLimitRPS := (if soDisableRateLimit o0 then 0 else pos_or (soRateLimitRPS o0) (soRateLimitRPS d)),
           soSearchMode := (if mode \<noteq> ''ann'' then ''exact'' else mode),
           soANNProfile := text_or (soANNProfile o0) (soANNProfile d),
           soANNM := pos_or (soANNM o0) (soANNM d),
           soANNEfConstruct := pos_or (soANNEfConstruct o0) (soANNEfConstruct d),
           soANNEfSearch := pos_or (soANNEfSearch o0) (soANNEfSearch d),
           soANNEvalSampleRate := (if soANNEvalSampleRate o0 < 0 then soANNEvalSampleRate d else soANNEvalSampleRate o0),
           soCacheMaxItems := pos_or (soCacheMaxItems o0) (soCacheMaxItems d),
           soCacheMaxBytes := pos_or (soCacheMaxBytes o0) (soCacheMaxBytes d),
           soCacheTTL := pos_or (soCacheTTL o0) (soCacheTTL d),
           soGRPCEnabled := (protocol = ''grpc'')\<rparr>)"

fun firstNonEmpty :: "string list \<Rightarrow> string" where
  "firstNonEmpty [] = []"
| "firstNonEmpty (v # vs) = (if TrimSpace v \<noteq> [] then v else firstNonEmpty vs)"

fun parseTrustedProxies :: "netipOps \<Rightarrow> string list \<Rightarrow> ipPrefix list" where
  "parseTrustedProxies ni [] = []"
| "parseTrustedProxies ni (v # vs) =
     (let value = TrimSpace v; rest = parseTrustedProxies ni vs
      in if value = [] then rest
         else case niParsePrefix ni value of
             Some prefix \<Rightarrow> prefix # rest
           | None \<Rightarrow> (case niParseAddr ni value of Some addr \<Rightarrow> PrefixFrom addr # rest | None \<Rightarrow> rest))"

section \<open>Construction\<close>

definition service_options :: "serverOptions \<Rightarrow> serviceOptions" where
  "service_options opts =
     \<lparr>opMaxVectorDim = soMaxVectorDim opts, opMaxK = soMaxK opts, opSnapshotEvery = soSnapshotEvery opts, opSearchMode = soSearchMode opts,
      opANNProfile = soANNProfile opts,
      opANNOptions = \<lparr>aoM = soANNM opts, aoEfConstruction = soANNEfConstruct opts, aoEfSearch = soANNEfSearch opts, aoSeed = 0\<rparr>,
      opANNEvalSampleRate = soANNEvalSampleRate opts, opVectorStore = soVectorStore opts,
      opCache = \<lparr>coEnabled = soCacheEnabled opts, coMaxBytes = soCacheMaxBytes opts, coMaxItems = soCacheMaxItems opts, coTTL = soCacheTTL opts\<rparr>,
      opSyncEvery = soSyncEvery opts\<rparr>"

definition server_of :: "netipOps \<Rightarrow> serverOptions \<Rightarrow> httpServer" where
  "server_of ni opts =
     \<lparr>hsProtocol = soProtocol opts, hsPort = soPort opts, hsGrpcPort = soGRPCPort opts, hsGrpcEnabled = soGRPCEnabled opts,
      hsReadTimeout = soReadTimeout opts, hsWriteTimeout = soWriteTimeout opts, hsMaxBodyBytes = soMaxBodyBytes opts,
      hsApiKey = firstNonEmpty [soAuthAPIKey opts, soAPIKey opts], hsAuthEnabled = soAuthEnabled opts, hsGrpcAuth = soGRPCAuthEnabled opts,
      hsTlsEnabled = soTLSEnabled opts, hsTlsCertFile = soTLSCertFile opts, hsTlsKeyFile = soTLSKeyFile opts,
      hsAccessLog = soAccessLogEnabled opts, hsMetrics = soMetricsEnabled opts, hsSnapshotPath = soSnapshotPath opts,
      hsWalPath = soWALPath opts, hsVectorStore = soVectorStore opts, hsVectorPath = soVectorPath opts,
      hsTrustXFF = soTrustForwardedFor opts, hsTrustedCIDRs = parseTrustedProxies ni (soTrustedProxies opts)\<rparr>"

definition NewServerWithOptions :: "netipOps \<Rightarrow> 't storeEnv \<Rightarrow> iofault \<Rightarrow> 't anyStore serviceEnv \<Rightarrow> serverOptions \<Rightarrow> byte list \<Rightarrow>
    snapshotWALBackend \<Rightarrow> (httpServer \<times> 't anyStore httpState) option" where
  "NewServerWithOptions ni senv flt env opts0 disk files =
     (let opts = applyDefaults opts0
      in map_option (\<lambda>s. (server_of ni opts,
             \<lparr>xsService = s, xsLimiter = newRateLimiter (soRateLimitRPS opts) second, xsRequestTotal = [], xsDurations = [], xsLog = []\<rparr>))
           (NewService senv flt env (service_options opts) disk files))"

section \<open>The command\<close>

definition options_of_config :: "config \<Rightarrow> serverOptions" where
  "options_of_config cfg =
     (let sv = cfgServer cfg; db = cfgDatabase cfg; lim = cfgLimits cfg; se = cfgSearch cfg; sec = cfgSecurity cfg
      in \<lparr>soProtocol = scProtocol sv, soPort = scPort sv, soReadTimeout = ParseDuration (scReadTimeout sv) (10 * second),
          soWriteTimeout = ParseDuration (scWriteTimeout sv) (10 * second), soMaxBodyBytes = lcMaxBodyBytes lim,
          soMaxVectorDim = lcMaxVectorDim lim, soMaxK = lcMaxK lim, soSnapshotPath = dcSnapshotPath db, soWALPath = dcWALPath db,
          soSnapshotEvery = dcSnapshotEvery db, soVectorStore = dcVectorStore db, soVectorPath = dcVectorPath db, soSyncEvery = dcSyncEvery db,
          soAPIKey = scAPIKey sv, soMetricsEnabled = scMetrics sv, soDisableRateLimit = (scRateLimitRPS sv = 0),
          soRateLimitRPS = scRateLimitRPS sv, soSearchMode = srcMode se, soANNProfile = srcANNProfile se, soANNM = srcANNM se,
          soANNEfConstruct = srcANNEfConstruct se, soANNEfSearch = srcANNEfSearch se, soANNEvalSampleRate = srcANNEvalSampleRate se,
          soCacheEnabled = dcCacheEnabled db, soCacheMaxBytes = dcCacheMaxBytes db, soCacheMaxItems = dcCacheMaxItems db,
          soCacheTTL = ParseDuration (dcCacheTTL db) (15 * 60 * second), soGRPCEnabled = gcEnabled (cfgGRPC cfg), soGRPCPort = gcPort (cfgGRPC cfg),
          soSecurityProfile = secProfile sec, soAuthEnabled = acEnabled (secAuth sec), soAuthAPIKey = acAPIKey (secAuth sec),
          soGRPCAuthEnabled = acGRPCEnabled (secAuth sec), soTLSEnabled = tcTLSEnabled (secTransport sec),
          soTLSCertFile = tcCertFile (secTransport sec), soTLSKeyFile = tcKeyFile (secTransport sec), soAccessLogEnabled = scAccessLog sv,
          soTrustForwardedFor = pcTrustForwardedFor (secProxy sec), soTrustedProxies = pcTrustedProxies (secProxy sec),
          soStrictFilePerms = stcStrict (secStorage sec), soStorageDirMode = stcDirMode (secStorage sec),
          soStorageFileMode = stcFileMode (secStorage sec)\<rparr>)"

text \<open>\<open>Inl\<close> is the error of \<^verbatim>\<open>buildServer\<close>; inside, \<open>None\<close> is the panic of the file store's constructor.\<close>

definition buildServer :: "(string \<Rightarrow> config \<Rightarrow> config result) \<Rightarrow> (string \<Rightarrow> string) \<Rightarrow> string result \<Rightarrow> netipOps \<Rightarrow> 't storeEnv \<Rightarrow>
    iofault \<Rightarrow> 't anyStore serviceEnv \<Rightarrow> byte list \<Rightarrow> snapshotWALBackend \<Rightarrow> (httpServer \<times> 't anyStore httpState) option result" where
  "buildServer yaml getenv file ni senv flt env disk files =
     (case Load yaml getenv file of
        Inl e \<Rightarrow> Inl e
      | Inr cfg \<Rightarrow> Inr (NewServerWithOptions ni senv flt env (options_of_config cfg) disk files))"

definition serverAddr :: "config \<Rightarrow> string" where
  "serverAddr cfg =
     (let port = (if scPort (cfgServer cfg) = [] then ''19190'' else scPort (cfgServer cfg))
      in if hd port \<noteq> CHR '':'' then CHR '':'' # port else port)"

section \<open>Run and close\<close>

text \<open>
  The goroutine of \<^verbatim>\<open>runHTTP\<close> and \<^verbatim>\<open>runGRPC\<close> delivers the error of the serve call; the \<^verbatim>\<open>select\<close> sees it, or the end of the context. \<open>Closed\<close> is the
  error a listener gives after a shutdown.
\<close>

datatype serveEnd = ServeNil | Closed | ServeError goerror

datatype runEvent =
    Served serveEnd
  | ContextDone "goerror option" serveEnd

definition serve_error :: "serveEnd \<Rightarrow> goerror option" where
  "serve_error e = (case e of ServeError x \<Rightarrow> Some x | _ \<Rightarrow> None)"

definition runHTTP :: "runEvent \<Rightarrow> goerror option" where
  "runHTTP ev =
     (case ev of
        Served e \<Rightarrow> serve_error e
      | ContextDone shutdownErr e \<Rightarrow> (case shutdownErr of Some x \<Rightarrow> Some x | None \<Rightarrow> serve_error e))"

text \<open>A failure to load the certificate closes the listener and ends the run; a graceful stop has no error.\<close>

definition runGRPC :: "goerror option \<Rightarrow> runEvent \<Rightarrow> goerror option" where
  "runGRPC tlsErr ev =
     (case tlsErr of Some x \<Rightarrow> Some x
      | None \<Rightarrow> (case ev of Served e \<Rightarrow> serve_error e | ContextDone _ e \<Rightarrow> serve_error e))"

definition Server_Close :: "'v serviceEnv \<Rightarrow> 'v httpState \<Rightarrow> goerror option \<times> 'v httpState" where
  "Server_Close env st = apsnd (\<lambda>s. st\<lparr>xsService := s\<rparr>) (Service_Close env (xsService st))"

text \<open>\<^verbatim>\<open>Run\<close>, from the state the last request left: the deferred close runs whatever ends the server.\<close>

definition Server_Run :: "'v serviceEnv \<Rightarrow> httpServer \<Rightarrow> goerror option \<Rightarrow> goerror option \<Rightarrow> runEvent \<Rightarrow> 'v httpState \<Rightarrow> goerror option \<times> 'v httpState" where
  "Server_Run env srv listenErr tlsErr ev st =
     (let err = (if hsGrpcEnabled srv
                 then case listenErr of Some x \<Rightarrow> Some x | None \<Rightarrow> runGRPC (if hsTlsEnabled srv then tlsErr else None) ev
                 else runHTTP ev)
      in (err, snd (Server_Close env st)))"

section \<open>The process\<close>

text \<open>
  \<^verbatim>\<open>flag.FlagSet.Parse\<close> with the one string flag \<^verbatim>\<open>config\<close>: it stops at the first argument that is not a flag, at \<^verbatim>\<open>--\<close> and at an error, and what was set
  before stays set; \<^verbatim>\<open>resolveConfigPath\<close> drops the error.
\<close>

definition flag_name :: "string \<Rightarrow> string option" where
  "flag_name arg =
     (if length arg < 2 \<or> hd arg \<noteq> CHR ''-'' then None
      else let name = (if arg ! 1 = CHR ''-'' then drop 2 arg else drop 1 arg)
           in if name = [] \<or> hd name = CHR ''-'' \<or> hd name = CHR ''='' then None else Some name)"

fun parse_flags :: "string \<Rightarrow> string list \<Rightarrow> string" where
  "parse_flags configPath [] = configPath"
| "parse_flags configPath (arg # args) =
     (case flag_name arg of
        None \<Rightarrow> configPath
      | Some name \<Rightarrow>
          if HasPrefix name ''config='' then parse_flags (drop 7 name) args
          else if name = ''config'' then (case args of [] \<Rightarrow> configPath | v # args' \<Rightarrow> parse_flags v args')
          else configPath)"

definition resolveConfigPath :: "(string \<Rightarrow> string) \<Rightarrow> string list \<Rightarrow> string" where
  "resolveConfigPath getenv args =
     (let envPath = TrimSpace (getenv ''VECTOR_DB_CONFIG'')
      in parse_flags (if envPath \<noteq> [] then envPath else ''./configs/config.yaml'') args)"

lemma parse_flags_config:
  assumes "hd v \<noteq> CHR ''-'' \<or> length v < 2"
  shows "parse_flags p [''-config'', v] = v" "parse_flags p [''--config'', v] = v" "parse_flags p [''-config='' @ v] = v"
    "parse_flags p (v # args) = p"
  using assms by (auto simp: flag_name_def HasPrefix_def)

text \<open>
  How the process ends: with a panic of the file store's constructor, through \<^verbatim>\<open>log.Fatalf\<close>, or after the message that the server stopped.
  \<open>serve\<close> is what happens while the server runs: the state its requests leave and how the run ends.
\<close>

datatype processEnd = ProcessPanic | Fatal string goerror | ServerStopped

definition runServer :: "'v serviceEnv \<Rightarrow> (httpServer \<Rightarrow> 'v httpState \<Rightarrow> 'v httpState \<times> goerror option \<times> goerror option \<times> runEvent) \<Rightarrow>
    httpServer \<times> 'v httpState \<Rightarrow> processEnd \<times> 'v httpState" where
  "runServer env serve x =
     (case x of (srv, st) \<Rightarrow>
        (case serve srv st of (st', listenErr, tlsErr, ev) \<Rightarrow>
           (case Server_Run env srv listenErr tlsErr ev st' of
              (Some e, st2) \<Rightarrow> (Fatal ''server stopped with error: '' e, st2)
            | (None, st2) \<Rightarrow> (ServerStopped, st2))))"

definition execute :: "(httpServer \<times> 'v httpState) option result \<Rightarrow> (httpServer \<times> 'v httpState \<Rightarrow> processEnd \<times> 'v httpState) \<Rightarrow>
    (processEnd \<times> 'v httpState option) result" where
  "execute built runner =
     (case built of
        Inl e \<Rightarrow> Inl e
      | Inr None \<Rightarrow> Inr (ProcessPanic, None)
      | Inr (Some x) \<Rightarrow> Inr (apsnd Some (runner x)))"

definition mustExecute :: "(processEnd \<times> 'v httpState option) result \<Rightarrow> processEnd \<times> 'v httpState option" where
  "mustExecute r = (case r of Inl e \<Rightarrow> (Fatal ''failed to initialize server: '' e, None) | Inr x \<Rightarrow> x)"

text \<open>Whatever ends a server that has been built, its service has been closed: what was acknowledged is synced.\<close>

lemma process_closes:
  assumes "mustExecute (execute (Inr (Some (srv, st))) (runServer env serve)) = (ended, st2)"
  shows "st2 = Some (snd (Server_Close env (fst (serve srv st))))" and "ended \<noteq> ProcessPanic"
  using assms by (auto simp: mustExecute_def execute_def runServer_def Server_Run_def Let_def split: prod.splits option.splits)

end
