(* ===== verification/HttpApi.thy ===== *)
theory HttpApi
  imports ServerSetup
begin

text \<open>
  What the HTTP server guarantees: the middleware admits a request or refuses it without touching the service, an admitted request is answered by the
  router, every request is at most one operation of the service, and what is written can be read.
\<close>

section \<open>Middleware\<close>

fun reveals :: "httpBody \<Rightarrow> bool" where
  "reveals (VectorJSON _) = True"
| "reveals (PageJSON _ _) = True"
| "reveals (IdsJSON _ _) = True"
| "reveals (ResultsJSON _) = True"
| "reveals (BatchJSON _) = True"
| "reveals _ = False"

text \<open>The same status, body, service and limiter; the rest is bookkeeping.\<close>

definition same_answer :: "(httpResponse \<times> 'v httpState) option \<Rightarrow> (httpResponse \<times> 'v httpState) option \<Rightarrow> bool" where
  "same_answer = rel_option (\<lambda>(x, s) (y, t). rsStatus x = rsStatus y \<and> rsBody x = rsBody y \<and> xsService s = xsService t \<and> xsLimiter s = xsLimiter t)"

lemma same_refl: "same_answer a a"
  unfolding same_answer_def by (rule option.rel_refl) auto

lemma same_accessLog: "same_answer (accessLogMiddleware env srv rid h r st) (h r st)"
  by (cases "h r st") (auto simp: accessLogMiddleware_def same_answer_def)

lemma same_metrics: "same_answer (metricsMiddleware env h r st) (h r st)"
  by (cases "h r st") (auto simp: metricsMiddleware_def same_answer_def Let_def)

lemma same_trans: "same_answer a b \<Longrightarrow> same_answer b c \<Longrightarrow> same_answer a c"
  unfolding same_answer_def by (cases a; cases b; cases c) auto

lemma same_requestID: "same_answer (requestIDMiddleware env h r st) b" if "\<And>rid. same_answer (h rid r st) b"
proof -
  let ?rid = "if requestIDFromRequest r = [] then newRequestID (heRandom env) (heNow env) else requestIDFromRequest r"
  have "same_answer (requestIDMiddleware env h r st) (h ?rid r st)"
    by (cases "h ?rid r st") (auto simp: requestIDMiddleware_def same_answer_def Let_def)
  then show ?thesis using that same_trans by blast
qed

text \<open>Whether the limiter and the key let a request pass, and the state the router then sees.\<close>

definition authorized :: "httpServer \<Rightarrow> httpRequest \<Rightarrow> bool" where
  "authorized srv r \<longleftrightarrow> \<not> hsAuthEnabled srv \<or> hsApiKey srv = [] \<or> isPublicOperationalPath (rqPath r) \<or>
     validateAPIKey (authKeyFromHTTPRequest r) (hsApiKey srv)"

definition granted :: "'v httpEnv \<Rightarrow> httpServer \<Rightarrow> httpRequest \<Rightarrow> 'v httpState \<Rightarrow> bool" where
  "granted env srv r st \<longleftrightarrow> (case xsLimiter st of None \<Rightarrow> True
     | Some rl \<Rightarrow> isPublicOperationalPath (rqPath r) \<or> fst (allow rl (heNow env) (Server_getClientIP (heNetip env) srv r)))"

definition after_limit :: "'v httpEnv \<Rightarrow> httpServer \<Rightarrow> httpRequest \<Rightarrow> 'v httpState \<Rightarrow> 'v httpState" where
  "after_limit env srv r st =
     (case xsLimiter st of None \<Rightarrow> st
      | Some rl \<Rightarrow> if isPublicOperationalPath (rqPath r) then st
                  else st\<lparr>xsLimiter := Some (snd (allow rl (heNow env) (Server_getClientIP (heNetip env) srv r)))\<rparr>)"

lemma after_limit_service [simp]: "xsService (after_limit env srv r st) = xsService st"
  by (simp add: after_limit_def split: option.split)

definition refusal :: "'v httpEnv \<Rightarrow> httpServer \<Rightarrow> httpRequest \<Rightarrow> 'v httpState \<Rightarrow> httpResponse" where
  "refusal env srv r st =
     (if granted env srv r st then writeError r 401 ''unauthorized'' (Text ''unauthorized'')
      else writeError r 429 ''rate_limited'' (Text ''rate limit exceeded''))"

lemma serve_answer:
  "same_answer (serve_http env srv r st)
     (if granted env srv r st \<and> authorized srv r then mux_serve env srv r (after_limit env srv r st)
      else Some (refusal env srv r st, after_limit env srv r st))"
proof -
  define h1 where "h1 rid = (let h0 = accessLogMiddleware env srv rid (mux_serve env srv) in if hsMetrics srv then metricsMiddleware env h0 else h0)" for rid
  define h2 where "h2 rid = (if hsAuthEnabled srv \<and> hsApiKey srv \<noteq> [] then authMiddleware srv (h1 rid) else h1 rid)" for rid
  let ?st = "after_limit env srv r st"
  have h1: "same_answer (h1 rid r ?st) (mux_serve env srv r ?st)" for rid
    using same_accessLog [of env srv rid "mux_serve env srv" r ?st]
      same_trans [OF same_metrics [of env "accessLogMiddleware env srv rid (mux_serve env srv)" r ?st] same_accessLog] by (simp add: h1_def Let_def)
  have h2: "same_answer (h2 rid r ?st) (if authorized srv r then mux_serve env srv r ?st
      else Some (writeError r 401 ''unauthorized'' (Text ''unauthorized''), ?st))" for rid
    using h1 [of rid] same_refl by (auto simp: h2_def authMiddleware_def authorized_def)
  have lim: "rateLimitMiddleware env srv (h2 rid) r st =
      (if granted env srv r st then h2 rid r ?st else Some (writeError r 429 ''rate_limited'' (Text ''rate limit exceeded''), ?st))" for rid
    by (auto simp: rateLimitMiddleware_def granted_def after_limit_def split: option.split prod.split bool.split)
  have "same_answer (rateLimitMiddleware env srv (h2 rid) r st)
     (if granted env srv r st \<and> authorized srv r then mux_serve env srv r ?st else Some (refusal env srv r st, ?st))" for rid
    using h2 [of rid] same_refl by (auto simp: lim refusal_def)
  moreover have "serve_http env srv = requestIDMiddleware env (\<lambda>rid. rateLimitMiddleware env srv (h2 rid))"
    unfolding serve_http_def h2_def h1_def Let_def by (rule refl)
  ultimately show ?thesis by (simp add: same_requestID)
qed

lemma error_status: "rsStatus (writeError r status code m) = (if status = 0 \<and> isV1Request r then 200 else status)"
  and error_reveals: "\<not> reveals (rsBody (writeError r status code m))"
  by (simp_all add: writeError_def writeJSON_def respond_def)

lemma refusal_facts: "rsStatus (refusal env srv r st) = (if granted env srv r st then 401 else 429)" "\<not> reveals (rsBody (refusal env srv r st))"
  by (simp_all add: refusal_def error_status error_reveals)

section \<open>Public paths\<close>

definition wf_url :: "httpRequest \<Rightarrow> bool" where
  "wf_url r \<longleftrightarrow> HasPrefix (rqEscaped r) ''/'' \<and> PathUnescape (rqEscaped r) = Some (rqPath r)"

lemma PathUnescape_slash:
  "PathUnescape (s @ CHR ''/'' # t) = Some u \<Longrightarrow> \<exists>s' t'. PathUnescape s = Some s' \<and> PathUnescape t = Some t' \<and> u = s' @ CHR ''/'' # t'"
proof (induction s arbitrary: u rule: length_induct)
  case (1 s)
  note IH = 1(1) [rule_format] and prem = 1(2)
  show ?case
  proof (cases s)
    case (Cons c r)
    show ?thesis
    proof (cases "c = CHR ''%''")
      case False
      then obtain v where "PathUnescape (r @ CHR ''/'' # t) = Some v" "u = c # v" using prem Cons by auto
      then show ?thesis using IH [of r v] Cons False by auto
    next
      case True
      consider "r = []" | a where "r = [a]" | a b r' where "r = a # b # r'" by (metis list.exhaust)
      then show ?thesis
      proof cases
        case (3 a b r')
        then obtain h l v where v: "hex_val a = Some h" "hex_val b = Some l" "PathUnescape (r' @ CHR ''/'' # t) = Some v" "u = char_of (16 * h + l) # v"
          using prem Cons True by (auto split: option.splits)
        then show ?thesis using IH [of r' v] Cons True 3 by auto
      qed (use prem Cons True in \<open>auto simp: hex_val_def split: list.splits option.splits\<close>)
    qed
  qed (use prem in auto)
qed

lemma unescape_join: "PathUnescape (join_with CHR ''/'' segs) = Some u \<Longrightarrow> u = join_with CHR ''/'' (map unescape_segment segs)"
proof (induction "CHR ''/''" segs arbitrary: u rule: join_with.induct)
  case (3 s t r)
  then have "PathUnescape (s @ CHR ''/'' # join_with CHR ''/'' (t # r)) = Some u" by simp
  from PathUnescape_slash [OF this] obtain s' t' where "PathUnescape s = Some s'" "PathUnescape (join_with CHR ''/'' (t # r)) = Some t'"
    "u = s' @ CHR ''/'' # t'" by blast
  then show ?case using 3(1) by (simp add: unescape_segment_def)
qed (auto simp: unescape_segment_def)

lemma wf_url_path: "wf_url r \<Longrightarrow> rqPath r = CHR ''/'' # join_with CHR ''/'' (mux_segments (rqEscaped r))"
proof -
  assume wf: "wf_url r"
  then obtain p where p: "rqEscaped r = CHR ''/'' # p" by (auto simp: wf_url_def HasPrefix_iff)
  then obtain u where u: "PathUnescape p = Some u" "rqPath r = CHR ''/'' # u" using wf by (auto simp: wf_url_def)
  then show ?thesis using unescape_join [of "Split p CHR ''/''" u] by (simp add: Split_join mux_segments_def p)
qed

text \<open>A route to vectors means a path that begins with \<^verbatim>\<open>/vectors\<close>, possibly after \<^verbatim>\<open>/v1\<close>.\<close>

lemma join_prefix: "segs \<noteq> [] \<Longrightarrow> HasPrefix (join_with c segs) (hd segs)"
  by (cases segs; cases "tl segs") (auto simp: HasPrefix_iff)

lemma api_route_prefix: "api_route segs = Some route \<Longrightarrow> HasPrefix (join_with CHR ''/'' segs) ''vectors''"
  using join_prefix [of segs "CHR ''/''"] by (cases segs) (auto simp: api_route_def split: if_splits)

lemma vector_routes:
  assumes "mux_route m segs = Some route" and "route \<notin> {RHealth, RLive, RReady, RMetrics}"
  shows "HasPrefix (join_with CHR ''/'' segs) ''vectors'' \<or> HasPrefix (join_with CHR ''/'' segs) ''v1/vectors''"
proof (cases "segs \<noteq> [] \<and> hd segs = ''v1''")
  case True
  then have "api_route (tl segs) = Some route" using assms by (auto simp: mux_route_def operational_route_def Let_def split: if_splits option.splits)
  then have "HasPrefix (join_with CHR ''/'' (tl segs)) ''vectors''" "tl segs \<noteq> []" using api_route_prefix by (blast, auto simp: api_route_def)
  then show ?thesis using True by (cases segs; cases "tl segs") (auto simp: HasPrefix_iff)
next
  case False
  then have "api_route segs = Some route" using assms by (auto simp: mux_route_def operational_route_def Let_def split: if_splits option.splits)
  then show ?thesis by (auto dest: api_route_prefix)
qed

lemma public_not_vectors: "isPublicOperationalPath (CHR ''/'' # p) \<Longrightarrow> \<not> HasPrefix p ''vectors'' \<and> \<not> HasPrefix p ''v1/vectors''"
  by (auto simp: isPublicOperationalPath_def HasPrefix_def)

lemma mux_public:
  assumes "wf_url r" and "isPublicOperationalPath (rqPath r)"
  shows "\<exists>resp. mux_serve env srv r st = Some (resp, st) \<and> \<not> reveals (rsBody resp)"
proof -
  have op: "route \<in> {RHealth, RLive, RReady, RMetrics}" if "mux_route m (mux_segments (rqEscaped r)) = Some route" for m route
    using vector_routes [OF that] public_not_vectors assms(2) wf_url_path [OF assms(1)] by fastforce
  have d: "\<exists>resp. dispatch env srv route r st = Some (resp, st) \<and> \<not> reveals (rsBody resp)"
    if "mux_route m (mux_segments (rqEscaped r)) = Some route" for m route
    using op [OF that]
    by (auto simp: dispatch_def methodHandler_def methodNotAllowed_def error_reveals HealthHandler_def LivenessHandler_def ReadinessHandler_def
        MetricsHandler_def respond_def split: option.split)
  show ?thesis
    using d by (auto simp: mux_serve_def Let_def respond_def split: option.split)
qed

section \<open>One request is at most one operation of the service\<close>

text \<open>The decoders give values that are at most four times as long as their text: a number has a digit and a separator, an invalid byte three.\<close>

definition codec_small :: "httpCodec \<Rightarrow> bool" where
  "codec_small c \<longleftrightarrow>
     (\<forall>b cut v. hcVector c b cut = Some v \<longrightarrow> length (vID v) + 4 * length (vValues v) \<le> 4 * length b) \<and>
     (\<forall>b cut vs v. hcVectors c b cut = Some vs \<longrightarrow> v \<in> set vs \<longrightarrow> length (vID v) + 4 * length (vValues v) \<le> 4 * length b)"

definition http_env_ok :: "'t storeEnv \<Rightarrow> 't anyStore httpEnv \<Rightarrow> bool" where
  "http_env_ok senv env \<longleftrightarrow> runs_on senv (heService env) \<and> codec_small (heCodec env)"

definition small_bodies :: "httpServer \<Rightarrow> bool" where
  "small_bodies srv \<longleftrightarrow> hsMaxBodyBytes srv \<le> 2 ^ 29"

lemma small_fits:
  assumes "small_bodies srv" and "length (vID v) + 4 * length (vValues v) \<le> 4 * length (take (nat (hsMaxBodyBytes srv)) b)"
  shows "fits v"
proof -
  have "length (take (nat (hsMaxBodyBytes srv)) b) \<le> 2 ^ 29" using assms(1) by (simp add: small_bodies_def min_le_iff_disj nat_le_iff)
  then show ?thesis using assms(2) by (simp add: rec_fits_def)
qed

lemma readJSON_Inr:
  assumes "readJSON dec srv r = Inr v"
  shows "dec (take (nat (hsMaxBodyBytes srv)) (rqBody r)) (nat (hsMaxBodyBytes srv) < length (rqBody r)) = Some v"
  using assms by (simp add: readJSON_def Let_def split: option.splits)

definition service_step :: "'t storeEnv \<Rightarrow> 't anyStore service \<Rightarrow> 't anyStore service \<Rightarrow> bool" where
  "service_step senv s s' \<longleftrightarrow> (\<forall>opts. svc_reach senv opts s \<longrightarrow> svc_reach senv opts s')"

lemma step_refl [simp]: "service_step senv s s"
  by (simp add: service_step_def)

lemma handler_steps:
  assumes "http_env_ok senv env" and "small_bodies srv"
  shows "AddVectorHandler env srv r s = Some (resp, s') \<Longrightarrow> service_step senv s s'"
    and "AddVectorsBatchHandler env srv r s = Some (resp, s') \<Longrightarrow> service_step senv s s'"
    and "SearchVectorsHandler env srv r s = Some (resp, s') \<Longrightarrow> service_step senv s s'"
    and "SearchVectorsBatchHandler env srv r s = Some (resp, s') \<Longrightarrow> service_step senv s s'"
    and "vectorByIDHandler (heService env) r s = Some (resp, s') \<Longrightarrow> service_step senv s s'"
    and "ListVectorsHandler (heService env) r s = (resp, s') \<Longrightarrow> service_step senv s s'"
proof -
  have on: "runs_on senv (heService env)" and small: "codec_small (heCodec env)" using assms(1) by (simp_all add: http_env_ok_def)
  show "service_step senv s s'" if a: "AddVectorHandler env srv r s = Some (resp, s')"
  proof (cases "readJSON (hcVector (heCodec env)) srv r")
    case (Inr v)
    have "fits v" using small_fits [OF assms(2)] readJSON_Inr [OF Inr] small unfolding codec_small_def by blast
    then show ?thesis using a Inr svc_reach.add [OF _ on, of _ _ "[\<lparr>vID = vID v, vValues = vValues v\<rparr>]"] by (auto simp: AddVectorHandler_def AddVector_def service_step_def split: if_splits)
  qed (use a in \<open>simp add: AddVectorHandler_def\<close>)
  show "service_step senv s s'" if a: "AddVectorsBatchHandler env srv r s = Some (resp, s')"
  proof (cases "readJSON (hcVectors (heCodec env)) srv r")
    case (Inr vs)
    have "\<forall>v \<in> set vs. fits v" using small_fits [OF assms(2)] readJSON_Inr [OF Inr] small unfolding codec_small_def by blast
    then show ?thesis using a Inr svc_reach.add [OF _ on, of _ _ vs] by (auto simp: AddVectorsBatchHandler_def service_step_def)
  qed (use a in \<open>simp add: AddVectorsBatchHandler_def\<close>)
  show "service_step senv s s'" if "SearchVectorsHandler env srv r s = Some (resp, s')"
    using that svc_reach.search [of senv _ s "heService env"] by (auto simp: SearchVectorsHandler_def service_step_def split: sum.splits)
  show "service_step senv s s'" if "SearchVectorsBatchHandler env srv r s = Some (resp, s')"
    using that svc_reach.batch [of senv _ s "heService env"] by (auto simp: SearchVectorsBatchHandler_def service_step_def split: sum.splits)
  show "service_step senv s s'" if h: "vectorByIDHandler (heService env) r s = Some (resp, s')"
  proof -
    let ?id = "vectorIDFromPath (rqPath r)"
    obtain gr gs where g: "Service_GetVector (heService env) s ?id = (gr, gs)" by force
    have "service_step senv s gs" unfolding service_step_def using svc_reach.get [OF _ on g] by blast
    moreover have "service_step senv s ds" if "DeleteVector (heService env) s ?id = Some (e, ds)" for e ds
      unfolding service_step_def using svc_reach.delete [OF _ on that] by blast
    ultimately show ?thesis using h g
      by (auto simp: vectorByIDHandler_def GetVectorHandler_def DeleteVectorHandler_def split: if_splits sum.splits)
  qed
  show "service_step senv s s'" if "ListVectorsHandler (heService env) r s = (resp, s')"
    using that svc_reach.page [OF _ on] by (auto simp: ListVectorsHandler_def Let_def service_step_def split: option.splits if_splits prod.splits)
qed

lemma on_service_Some: "on_service h st = Some (resp, st') \<Longrightarrow> h (xsService st) = Some (resp, xsService st') \<and> xsLimiter st' = xsLimiter st"
  by (auto simp: on_service_def)

lemma mux_step:
  assumes "http_env_ok senv env" and "small_bodies srv" and "mux_serve env srv r st = Some (resp, st')"
  shows "service_step senv (xsService st) (xsService st') \<and> xsLimiter st' = xsLimiter st"
proof -
  have d: "service_step senv (xsService st) (xsService st') \<and> xsLimiter st' = xsLimiter st" if d: "dispatch env srv route r st = Some (resp, st')" for route
  proof (cases "st' = st")
    case False
    then have "\<exists>h. on_service h st = Some (resp, st') \<and> h \<in> {AddVectorHandler env srv r, AddVectorsBatchHandler env srv r, SearchVectorsHandler env srv r,
        SearchVectorsBatchHandler env srv r, vectorByIDHandler (heService env) r, \<lambda>s. Some (ListVectorsHandler (heService env) r s)}"
      using d by (auto simp: dispatch_def methodHandler_def vectorsHandler_def split: route.splits if_splits)
    then show ?thesis using on_service_Some handler_steps [OF assms(1,2)] by fastforce
  qed simp
  show ?thesis using assms(3) d by (auto simp: mux_serve_def Let_def split: if_splits option.splits)
qed

lemma serve_step:
  assumes "http_env_ok senv env" and "small_bodies srv" and "serve_http env srv r st = Some (resp, st')"
  shows "service_step senv (xsService st) (xsService st') \<and> xsLimiter st' = xsLimiter (after_limit env srv r st)"
  using serve_answer [of env srv r st] assms(3) mux_step [OF assms(1,2), of r "after_limit env srv r st"]
  by (auto simp: same_answer_def option_rel_Some1 split: if_splits)

text \<open>The life of a server; a request that makes the service panic ends it, as far as the model goes.\<close>

inductive http_reach :: "netipOps \<Rightarrow> 't storeEnv \<Rightarrow> serverOptions \<Rightarrow> httpServer \<Rightarrow> 't anyStore httpState \<Rightarrow> bool" for ni senv opts where
  start: "runs_on senv env \<Longrightarrow> json_ok (seCodec env) \<Longrightarrow> seFault env = no_fault \<Longrightarrow>
    NewServerWithOptions ni senv no_fault env opts [] no_files = Some (srv, st) \<Longrightarrow> http_reach ni senv opts srv st"
| request: "http_reach ni senv opts srv st \<Longrightarrow> http_env_ok senv env \<Longrightarrow> serve_http env srv r st = Some (resp, st') \<Longrightarrow>
    http_reach ni senv opts srv st'"

lemma http_reach_srv: "http_reach ni senv opts srv st \<Longrightarrow> srv = server_of ni (applyDefaults opts)"
  by (induction rule: http_reach.induct) (auto simp: NewServerWithOptions_def Let_def)

lemma http_reach_service:
  assumes "http_reach ni senv opts srv st" and "soMaxBodyBytes (applyDefaults opts) \<le> 2 ^ 29"
  shows "svc_reach senv (service_options (applyDefaults opts)) (xsService st) \<and>
    (case xsLimiter st of None \<Rightarrow> soRateLimitRPS (applyDefaults opts) \<le> 0 | Some rl \<Rightarrow> limiter_reach (soRateLimitRPS (applyDefaults opts)) rl)"
  using assms
proof (induction rule: http_reach.induct)
  case (start env srv st)
  then have s: "NewService senv no_fault env (service_options (applyDefaults opts)) [] no_files = Some (xsService st)"
    "xsLimiter st = newRateLimiter (soRateLimitRPS (applyDefaults opts)) second" by (auto simp: NewServerWithOptions_def Let_def)
  have "limiter_reach n rl" if "newRateLimiter n second = Some rl" for n rl using that by (rule limiter_reach.new)
  then show ?case using svc_reach.start [OF start(1-3) s(1)] s(2) by (auto simp: newRateLimiter_def split: option.split if_splits)
next
  case (request srv st env r resp st')
  have "small_bodies srv" using http_reach_srv [OF request(1)] request.prems by (simp add: small_bodies_def server_of_def)
  from serve_step [OF request(2) this request(3)] request.IH [OF request.prems]
  have s: "svc_reach senv (service_options (applyDefaults opts)) (xsService st')" "xsLimiter st' = xsLimiter (after_limit env srv r st)"
    by (auto simp: service_step_def)
  have "case xsLimiter (after_limit env srv r st) of None \<Rightarrow> soRateLimitRPS (applyDefaults opts) \<le> 0
      | Some rl \<Rightarrow> limiter_reach (soRateLimitRPS (applyDefaults opts)) rl"
    using request.IH [OF request.prems] limiter_reach.request [OF _ prod.collapse [symmetric]] by (auto simp: after_limit_def split: option.splits)
  then show ?case using s by simp
qed

section \<open>Properties\<close>

lemma http_guarded:
  assumes "hsAuthEnabled srv" and "hsApiKey srv \<noteq> []" and "wf_url r" and "\<not> validateAPIKey (authKeyFromHTTPRequest r) (hsApiKey srv)"
  shows "\<exists>resp st'. serve_http env srv r st = Some (resp, st') \<and> xsService st' = xsService st \<and> \<not> reveals (rsBody resp) \<and>
    (\<not> isPublicOperationalPath (rqPath r) \<longrightarrow> rsStatus resp \<in> {401, 429})"
proof (cases "isPublicOperationalPath (rqPath r)")
  case True
  then have "granted env srv r st" "authorized srv r" by (simp_all add: granted_def authorized_def split: option.split)
  moreover obtain resp where "mux_serve env srv r (after_limit env srv r st) = Some (resp, after_limit env srv r st)" "\<not> reveals (rsBody resp)"
    using mux_public [OF assms(3) True] by blast
  ultimately show ?thesis using serve_answer [of env srv r st] True by (auto simp: same_answer_def option_rel_Some2)
next
  case False
  then have "\<not> authorized srv r" using assms(1,2,4) by (simp add: authorized_def)
  then show ?thesis
    using serve_answer [of env srv r st] refusal_facts [of env srv r st] by (auto simp: same_answer_def option_rel_Some2 split: if_splits)
qed


definition sample_server :: httpServer where
  "sample_server =
     server_of \<lparr>niParsePrefix = (\<lambda>_. None), niParseAddr = (\<lambda>_. None)\<rparr>
       (applyDefaults (defaultServerOptions\<lparr>soAuthEnabled := True, soAuthAPIKey := ''a'', soMaxVectorDim := 4\<rparr>))"

definition sample_codec :: httpCodec where
  "sample_codec =
     \<lparr>hcVector = (\<lambda>b cut. if b = ''vector'' then Some sample_vector else None),
      hcVectors = (\<lambda>b cut. if b = ''vector'' then Some [sample_vector] else None), hcSearch = (\<lambda>b cut. None), hcSearchBatch = (\<lambda>b cut. None)\<rparr>"

definition sample_http :: "int \<Rightarrow> string fset anyStore httpEnv" where
  "sample_http now =
     \<lparr>heService = sample_env no_fault, heCodec = sample_codec, heNow = now, heElapsed = 0, heRandom = None,
      heNetip = \<lparr>niParsePrefix = (\<lambda>_. None), niParseAddr = (\<lambda>_. None)\<rparr>, heFs = \<lparr>fsMkdirAll = (\<lambda>_. None), fsStat = (\<lambda>_. Inr True)\<rparr>,
      heRender = (\<lambda>_ _ _. []), heRedirect = 307\<rparr>"

definition sample_request :: "string \<Rightarrow> string \<Rightarrow> string \<Rightarrow> httpRequest" where
  "sample_request method path key =
     \<lparr>rqMethod = method, rqPath = path, rqEscaped = path, rqQuery = (\<lambda>_. []), rqHeader = (\<lambda>h. if h = ''X-Api-Key'' then key else []),
      rqBody = ''vector'', rqRemoteAddr = ''10.0.0.1:4000''\<rparr>"

lemma sample_server_key [simp]: "hsAuthEnabled sample_server" "hsApiKey sample_server = ''a''"
  by (simp_all add: sample_server_def server_of_def applyDefaults_def Let_def trim_a)

lemma trim_z: "TrimSpace ''z'' = ''z''"
  by (rule TrimSpace_untrimmed) (simp add: untrimmed_def strip_one_def space_encodings_def)



lemma sample_http_ok: "http_env_ok set_env (sample_http now)"
  using sample_runs_on [of no_fault] by (simp add: http_env_ok_def sample_http_def codec_small_def sample_codec_def sample_vector_def)

lemma trim_memory: "TrimSpace ''memory'' = ''memory''"
  by (rule TrimSpace_untrimmed) (simp add: untrimmed_def strip_one_def space_encodings_def)


lemma GetVector_outcome:
  assumes "runs_on senv env" and "svc_inv (any_inv senv) any_abs s" and "TrimSpace vid \<noteq> []"
  shows "\<exists>s'. Service_GetVector env s vid = (vget (any_abs (svStore s)) vid, s') \<and> any_abs (svStore s') = any_abs (svStore s)"
proof -
  obtain now where now: "seStore env = any_ops senv no_fault now" using runs_on_E [OF assms(1)] .
  obtain r v where g: "stGetVector (any_ops senv no_fault now) (svStore s) vid = (r, v)" by force
  have "any_inv senv (svStore s)" using assms(2) by (simp add: svc_inv_def)
  from any_svc.vs.getv [OF this g] show ?thesis using assms(3) now g by (simp add: Service_GetVector_def)
qed

lemma add_created:
  assumes "runs_on senv env" and "svc_inv (any_inv senv) any_abs s" and "fits \<lparr>vID = vid, vValues = vals\<rparr>" and "AddVector env s vid vals = Some (None, s')"
  shows "svc_inv (any_inv senv) any_abs s' \<and> any_abs (svStore s') = (any_abs (svStore s))(vid \<mapsto> ToFloat32 vals) \<and> TrimSpace vid \<noteq> []"
proof -
  obtain now where now: "seStore env = any_ops senv no_fault now" "iter_ok (seIter env)" using runs_on_E [OF assms(1)] .
  let ?v = "\<lparr>vID = vid, vValues = vals\<rparr>"
  have f: "\<forall>v \<in> set [?v]. fits v" using assms(3) by simp
  have e: "add_error s [?v] = None" "fst (appendWALBatch env s (map upsert_op [?v])) = None"
    using AddVectors_outcome [OF now assms(2) f] assms(4) by (auto simp: AddVector_def split: option.splits)
  have "TrimSpace vid \<noteq> []" using e(1) by (auto simp: add_error_def check_vector_def split: if_splits)
  then show ?thesis using AddVectors_outcome [OF now assms(2) f] assms(4) e by (auto simp: AddVector_def vput_def)
qed

lemma status_created: "rsStatus (add_response r e) = 201 \<Longrightarrow> e = None"
  by (auto simp: add_response_def writeServiceError_def error_status statusFromServiceError_def split: option.splits if_splits goerror.splits)

lemma clean_vectors: "cleanPath ''/vectors'' = ''/vectors''" "cleanPath ''/v1/vectors'' = ''/v1/vectors''"
  by (simp_all add: cleanPath_def path_Clean_def Split_def clean_step_def Let_def)

lemma route_vectors: "mux_route m (mux_segments ''/vectors'') = Some RVectors" "mux_route m (mux_segments ''/v1/vectors'') = Some RVectors"
  by (simp_all add: mux_route_def mux_segments_def Split_def unescape_segment_def operational_route_def api_route_def Let_def)

lemma vectorIDFromPath_id: "vectorIDFromPath (''/vectors/'' @ vid) = vid" "vectorIDFromPath (''/v1/vectors/'' @ vid) = vid"
  by (simp_all add: vectorIDFromPath_def TrimPrefix_def HasPrefix_def)

text \<open>A request that was answered with a status other than the two refusals was admitted.\<close>

lemma serve_admitted:
  assumes "serve_http env srv r st = Some (resp, st')" and "rsStatus resp \<notin> {401, 429}"
  shows "\<exists>resp0 st0. mux_serve env srv r (after_limit env srv r st) = Some (resp0, st0) \<and> rsStatus resp0 = rsStatus resp \<and> xsService st' = xsService st0"
  using serve_answer [of env srv r st] assms refusal_facts [of env srv r st]
  by (auto simp: same_answer_def option_rel_Some1 split: if_splits)

lemma mux_post:
  assumes "rqMethod r = ''POST''" and "rqEscaped r \<in> {''/vectors'', ''/v1/vectors''}"
  shows "mux_serve env srv r st = on_service (AddVectorHandler env srv r) st"
  using assms clean_vectors route_vectors by (auto simp: mux_serve_def Let_def dispatch_def vectorsHandler_def)

text \<open>
  C20. What was created over HTTP can be read over HTTP. If a POST to \<^verbatim>\<open>/vectors\<close> or \<^verbatim>\<open>/v1/vectors\<close> is answered with 201, then a later admitted
  GET of the identifier, with either prefix and any escaping that routes to it, is answered with 200 and the identifier with the values as rounded
  to single precision; only if a value overflows single precision the body is empty. Nothing else has changed in the stored map.
\<close>

theorem http_put_get:
  assumes "http_env_ok senv env" and "http_env_ok senv env'" and "small_bodies srv" and "svc_inv (any_inv senv) any_abs (xsService st)"
    and "rqMethod r = ''POST''" and "rqEscaped r \<in> {''/vectors'', ''/v1/vectors''}" and "readJSON (hcVector (heCodec env)) srv r = Inr vec"
    and "serve_http env srv r st = Some (resp, st')" and "rsStatus resp = 201"
    and "rqMethod r' = ''GET''" and "rqPath r' \<in> {''/vectors/'' @ vID vec, ''/v1/vectors/'' @ vID vec}" and "cleanPath (rqEscaped r') = rqEscaped r'"
    and "mux_route (hsMetrics srv) (mux_segments (rqEscaped r')) = Some RByID" and "granted env' srv r' st'" and "authorized srv r'"
  shows "\<exists>resp' st''. serve_http env' srv r' st' = Some (resp', st'') \<and> rsStatus resp' = 200 \<and>
    rsBody resp' = (let vals = ToFloat64 (ToFloat32 (vValues vec)) in if list_all finite64 vals then VectorJSON \<lparr>vID = vID vec, vValues = vals\<rparr> else NoBody) \<and>
    any_abs (svStore (xsService st'')) = (any_abs (svStore (xsService st)))(vID vec \<mapsto> ToFloat32 (vValues vec))"
proof -
  let ?m = "(any_abs (svStore (xsService st)))(vID vec \<mapsto> ToFloat32 (vValues vec))"
  have on: "runs_on senv (heService env)" "runs_on senv (heService env')" "codec_small (heCodec env)" using assms(1,2) by (simp_all add: http_env_ok_def)
  have fit: "fits vec" using small_fits [OF assms(3)] readJSON_Inr [OF assms(7)] on(3) unfolding codec_small_def by blast
  obtain resp0 st0 where p: "on_service (AddVectorHandler env srv r) (after_limit env srv r st) = Some (resp0, st0)" "rsStatus resp0 = 201"
    "xsService st' = xsService st0"
    using serve_admitted [OF assms(8)] assms(9) unfolding mux_post [OF assms(5,6)] by auto
  have "AddVectorHandler env srv r (xsService st) = Some (resp0, xsService st')" using on_service_Some [OF p(1)] p(3) by simp
  then obtain e where add: "AddVector (heService env) (xsService st) (vID vec) (vValues vec) = Some (e, xsService st')" "resp0 = add_response r e"
    using p(2) by (auto simp: AddVectorHandler_def assms(7) error_status split: if_splits)
  then have s': "svc_inv (any_inv senv) any_abs (xsService st')" "any_abs (svStore (xsService st')) = ?m" "TrimSpace (vID vec) \<noteq> []"
    using add_created [OF on(1) assms(4)] fit status_created p(2) by auto
  have vid: "vectorIDFromPath (rqPath r') = vID vec" "vID vec \<noteq> []" using assms(11) vectorIDFromPath_id s'(3) by auto
  let ?st = "after_limit env' srv r' st'"
  obtain s'' where g: "Service_GetVector (heService env') (xsService st') (vID vec) = (vget ?m (vID vec), s'')" "any_abs (svStore s'') = ?m"
    using GetVector_outcome [OF on(2) s'(1,3)] s'(2) by auto
  have ne: "rqEscaped r' \<noteq> ''*''" using assms(13) by (auto simp: mux_segments_def Split_def mux_route_def operational_route_def api_route_def unescape_segment_def)
  have "mux_serve env' srv r' ?st = Some (writeJSON 0 (VectorJSON \<lparr>vID = vID vec, vValues = ToFloat64 (ToFloat32 (vValues vec))\<rparr>), ?st\<lparr>xsService := s''\<rparr>)"
    using ne assms(10,12,13) vid g by (simp add: mux_serve_def Let_def dispatch_def on_service_def vectorByIDHandler_def GetVectorHandler_def vget_def)
  then show ?thesis
    using serve_answer [of env' srv r' st'] assms(14,15) g(2) by (auto simp: same_answer_def option_rel_Some2 writeJSON_def respond_def Let_def)
qed

lemma sample_add: "\<exists>s'. AddVectors (sample_env no_fault) (sample_service mode) [sample_vector] = Some (None, s')"
proof -
  have f: "\<forall>v \<in> set [sample_vector]. fits v" using sample_vector_ok(1) by simp
  obtain sw where w: "appendWALBatch (sample_env no_fault) (sample_service mode) (map upsert_op [sample_vector]) = (None, sw)"
    using sample_append by (metis prod.collapse)
  obtain s1 m p where s1: "AddVectors (sample_env no_fault) (sample_service mode) [sample_vector] = Some (maybeSnapshot (sample_env no_fault) s1)"
    "any_svc.sv_next set_env (sample_service mode) m p s1"
    using any_svc.AddVectors_logged [OF sample_env_ok sample_service_inv f sample_vector_ok(2) w] by auto
  have "svPersistOps s1 = 0" "svSnapshotEvery s1 = 100"
    using s1(2) by (simp_all add: any_svc.sv_next_def svc_frame_def sample_service_def service_initial_def sample_opts_def)
  then show ?thesis using s1(1) by (simp add: maybeSnapshot_def)
qed

theorem http_put_get_witness:
  "\<exists>resp' st''. rsStatus resp' = 200 \<and> any_abs (svStore (xsService (st'' :: string fset anyStore httpState))) ''a'' = Some (ToFloat32 [0]) \<and>
     (\<exists>st'. serve_http (sample_http 1) sample_server (sample_request ''GET'' ''/v1/vectors/a'' ''a'') st' = Some (resp', st''))"
proof -
  let ?st = "\<lparr>xsService = sample_service [], xsLimiter = None, xsRequestTotal = [], xsDurations = [], xsLog = []\<rparr> :: string fset anyStore httpState"
  let ?r = "sample_request ''POST'' ''/vectors'' ''a''" and ?r' = "sample_request ''GET'' ''/v1/vectors/a'' ''a''"
  have key: "authorized sample_server (sample_request m p ''a'')" for m p
    by (simp add: authorized_def validateAPIKey_def authKeyFromHTTPRequest_def sample_request_def trim_a)
  have body: "nat (hsMaxBodyBytes sample_server) = 2 ^ 20" "small_bodies sample_server"
    by (simp_all add: sample_server_def server_of_def applyDefaults_def defaultServerOptions_def Let_def pos_or_def small_bodies_def)
  have dec: "readJSON (hcVector (heCodec (sample_http 0))) sample_server ?r = Inr sample_vector"
    by (simp add: readJSON_def body sample_http_def sample_codec_def sample_request_def)
  obtain s' where add: "AddVectors (sample_env no_fault) (sample_service []) [sample_vector] = Some (None, s')" using sample_add by blast
  have "AddVectorHandler (sample_http 0) sample_server ?r (sample_service []) = Some (respond 201 NoBody, s')"
    using dec add by (simp add: AddVectorHandler_def AddVector_def sample_vector_def add_response_def) (simp add: sample_http_def)
  then have mux: "mux_serve (sample_http 0) sample_server ?r ?st = Some (respond 201 NoBody, ?st\<lparr>xsService := s'\<rparr>)"
    using mux_post [of ?r "sample_http 0" sample_server ?st] by (simp add: sample_request_def on_service_def)
  have lim: "granted env srv r st" "after_limit env srv r st = st" if "xsLimiter st = None" for env srv r and st :: "string fset anyStore httpState"
    using that by (simp_all add: granted_def after_limit_def)
  obtain resp st' where p: "serve_http (sample_http 0) sample_server ?r ?st = Some (resp, st')" "rsStatus resp = 201" "xsLimiter st' = None"
    using serve_answer [of "sample_http 0" sample_server ?r ?st] key [of "''POST''" "''/vectors''"] lim [of ?st "sample_http 0" sample_server ?r] mux
    by (auto simp: same_answer_def option_rel_Some2 respond_def)
  have g: "rqMethod ?r = ''POST''" "rqEscaped ?r \<in> {''/vectors'', ''/v1/vectors''}" "rqMethod ?r' = ''GET''"
    "rqPath ?r' \<in> {''/vectors/'' @ vID sample_vector, ''/v1/vectors/'' @ vID sample_vector}" "cleanPath (rqEscaped ?r') = rqEscaped ?r'"
    "mux_route (hsMetrics sample_server) (mux_segments (rqEscaped ?r')) = Some RByID"
    by (simp_all add: sample_request_def sample_vector_def cleanPath_def path_Clean_def Split_def clean_step_def Let_def mux_route_def mux_segments_def
        unescape_segment_def operational_route_def api_route_def)
  have inv: "svc_inv (any_inv set_env) any_abs (xsService ?st)" using sample_service_inv by simp
  obtain resp' st'' where "serve_http (sample_http 1) sample_server ?r' st' = Some (resp', st'')" "rsStatus resp' = 200"
    "any_abs (svStore (xsService st'')) = (any_abs (svStore (xsService ?st)))(vID sample_vector \<mapsto> ToFloat32 (vValues sample_vector))"
    using http_put_get [OF sample_http_ok sample_http_ok body(2) inv g(1,2) dec p(1,2) g(3-6) lim(1) [OF p(3)] key, of 1] by blast
  then show ?thesis by (intro exI [of _ resp'] exI [of _ st''] conjI exI [of _ st']) (simp_all add: sample_vector_def)
qed

end
