(* ===== verification/Client.thy ===== *)
theory Client
  imports HttpApi
begin

text \<open>
  \<^verbatim>\<open>pkg/client/client.go\<close>: the HTTP client of the program. The JSON codec and \<^verbatim>\<open>http.Client.Do\<close> are parameters: a request goes out in a state of the
  world and an error or a status with a body comes in another. The pool of request buffers is modelled beside the operations and shown to make no difference.
  The client sends no API key.
\<close>

section \<open>The client\<close>

record wireRequest =
  wqMethod :: string
  wqURL :: string
  wqContentType :: string
  wqBody :: string

record clientCodec =
  ccVectors :: "vector list \<Rightarrow> string option"
  ccSearch :: "float64 list \<times> int \<Rightarrow> string option"
  ccQueries :: "batchSearchQuery list \<Rightarrow> string option"
  ccResults :: "string \<Rightarrow> searchResult list option"
  ccBatchResults :: "string \<Rightarrow> batchSearchResult list option"
  ccValidURL :: "string \<Rightarrow> bool"

datatype httpClientError = Transport goerror | BadStatus string nat

type_synonym 'w httpDo = "'w \<Rightarrow> wireRequest \<Rightarrow> (nat \<times> string) result \<times> 'w"

definition postJSON :: "clientCodec \<Rightarrow> 'w httpDo \<Rightarrow> string \<Rightarrow> 'w \<Rightarrow> string \<Rightarrow> string option \<Rightarrow> (nat \<times> string) result \<times> 'w" where
  "postJSON cc httpDo baseURL w path payload =
     (case payload of
        None \<Rightarrow> (Inl ErrJSON, w)
      | Some body \<Rightarrow>
          if \<not> ccValidURL cc (baseURL @ path) then (Inl (ErrIO ''parse URL''), w)
          else httpDo w \<lparr>wqMethod = ''POST'', wqURL = baseURL @ path, wqContentType = ''application/json'', wqBody = body\<rparr>)"

definition VectorClient_AddVectors :: "clientCodec \<Rightarrow> 'w httpDo \<Rightarrow> string \<Rightarrow> 'w \<Rightarrow> vector list \<Rightarrow> httpClientError option \<times> 'w" where
  "VectorClient_AddVectors cc httpDo baseURL w vectors =
     (case postJSON cc httpDo baseURL w ''/vectors/batch'' (ccVectors cc vectors) of
        (Inl e, w') \<Rightarrow> (Some (Transport e), w')
      | (Inr (status, _), w') \<Rightarrow> (if status \<noteq> 201 then Some (BadStatus ''failed to add vectors: '' status) else None, w'))"

definition VectorClient_AddVectorWithID :: "clientCodec \<Rightarrow> 'w httpDo \<Rightarrow> string \<Rightarrow> 'w \<Rightarrow> string \<Rightarrow> float64 list \<Rightarrow> httpClientError option \<times> 'w" where
  "VectorClient_AddVectorWithID cc httpDo baseURL w vid vals = VectorClient_AddVectors cc httpDo baseURL w [\<lparr>vID = vid, vValues = vals\<rparr>]"

definition VectorClient_AddVector :: "clientCodec \<Rightarrow> 'w httpDo \<Rightarrow> string \<Rightarrow> int \<Rightarrow> 'w \<Rightarrow> float64 list \<Rightarrow> httpClientError option \<times> 'w" where
  "VectorClient_AddVector cc httpDo baseURL now w vals = VectorClient_AddVectorWithID cc httpDo baseURL w (''vec-'' @ itoa now) vals"

definition decoded_results :: "string \<Rightarrow> (string \<Rightarrow> 'a option) \<Rightarrow> (nat \<times> string) result \<times> 'w \<Rightarrow> (httpClientError + 'a) \<times> 'w" where
  "decoded_results failure decode r =
     (case r of
        (Inl e, w) \<Rightarrow> (Inl (Transport e), w)
      | (Inr (status, body), w) \<Rightarrow>
          (if status \<noteq> 200 then Inl (BadStatus failure status)
           else case decode body of None \<Rightarrow> Inl (Transport ErrJSON) | Some x \<Rightarrow> Inr x, w))"

definition VectorClient_SearchVector :: "clientCodec \<Rightarrow> 'w httpDo \<Rightarrow> string \<Rightarrow> 'w \<Rightarrow> float64 list \<Rightarrow> int \<Rightarrow> (httpClientError + searchResult list) \<times> 'w" where
  "VectorClient_SearchVector cc httpDo baseURL w vals k =
     decoded_results ''failed to search vector: '' (ccResults cc) (postJSON cc httpDo baseURL w ''/vectors/search'' (ccSearch cc (vals, k)))"

definition VectorClient_SearchVectors :: "clientCodec \<Rightarrow> 'w httpDo \<Rightarrow> string \<Rightarrow> 'w \<Rightarrow> batchSearchQuery list \<Rightarrow>
    (httpClientError + batchSearchResult list) \<times> 'w" where
  "VectorClient_SearchVectors cc httpDo baseURL w queries =
     decoded_results ''failed to search vectors: '' (ccBatchResults cc) (postJSON cc httpDo baseURL w ''/vectors/search/batch'' (ccQueries cc queries))"

definition VectorClient_DeleteVector :: "clientCodec \<Rightarrow> 'w httpDo \<Rightarrow> string \<Rightarrow> 'w \<Rightarrow> string \<Rightarrow> httpClientError option \<times> 'w" where
  "VectorClient_DeleteVector cc httpDo baseURL w vid =
     (let url = baseURL @ ''/vectors/'' @ vid
      in if \<not> ccValidURL cc url then (Some (Transport (ErrIO ''parse URL'')), w)
         else case httpDo w \<lparr>wqMethod = ''DELETE'', wqURL = url, wqContentType = [], wqBody = []\<rparr> of
             (Inl e, w') \<Rightarrow> (Some (Transport e), w')
           | (Inr (status, _), w') \<Rightarrow> (if status \<noteq> 204 then Some (BadStatus ''failed to delete vector: '' status) else None, w'))"

section \<open>Request buffers\<close>

text \<open>
  The bodies are encoded into pooled buffers. A buffer is reset when it is taken, and when it is given back; one that has grown over a mebibyte is replaced.
  \<open>grow\<close> is the capacity that appending leaves.
\<close>

record bodyBuffer =
  bbBytes :: string
  bbCap :: nat

definition getRequestBodyBuffer :: "bodyBuffer option \<Rightarrow> bodyBuffer" where
  "getRequestBodyBuffer pooled = (case pooled of None \<Rightarrow> \<lparr>bbBytes = [], bbCap = 4096\<rparr> | Some buf \<Rightarrow> buf\<lparr>bbBytes := []\<rparr>)"

definition putRequestBodyBuffer :: "bodyBuffer \<Rightarrow> bodyBuffer" where
  "putRequestBodyBuffer buf = (if bbCap buf > 2 ^ 20 then \<lparr>bbBytes = [], bbCap = 4096\<rparr> else buf\<lparr>bbBytes := []\<rparr>)"

definition encode_into :: "(nat \<Rightarrow> nat \<Rightarrow> nat) \<Rightarrow> bodyBuffer \<Rightarrow> string \<Rightarrow> bodyBuffer" where
  "encode_into grow buf text = buf\<lparr>bbBytes := bbBytes buf @ text, bbCap := grow (bbCap buf) (length (bbBytes buf @ text))\<rparr>"

text \<open>The request with a buffer from the pool, and the buffer that goes back once the response is read or the request has failed.\<close>

definition pooled_postJSON :: "(nat \<Rightarrow> nat \<Rightarrow> nat) \<Rightarrow> bodyBuffer option \<Rightarrow> clientCodec \<Rightarrow> 'w httpDo \<Rightarrow> string \<Rightarrow> 'w \<Rightarrow> string \<Rightarrow> string option \<Rightarrow>
    ((nat \<times> string) result \<times> 'w) \<times> bodyBuffer" where
  "pooled_postJSON grow pooled cc httpDo baseURL w path payload =
     (let bodyBuf = getRequestBodyBuffer pooled
      in case payload of
           None \<Rightarrow> ((Inl ErrJSON, w), putRequestBodyBuffer bodyBuf)
         | Some text \<Rightarrow>
             (let buf = encode_into grow bodyBuf text
              in if \<not> ccValidURL cc (baseURL @ path) then ((Inl (ErrIO ''parse URL''), w), putRequestBodyBuffer buf)
                 else (httpDo w \<lparr>wqMethod = ''POST'', wqURL = baseURL @ path, wqContentType = ''application/json'', wqBody = bbBytes buf\<rparr>,
                   putRequestBodyBuffer buf)))"

text \<open>Whatever earlier requests left in the pool, the request is that of a new buffer, and no buffer of more than a mebibyte goes back.\<close>

theorem pooled_request_transparent:
  "fst (pooled_postJSON grow pooled cc httpDo baseURL w path payload) = postJSON cc httpDo baseURL w path payload \<and>
   bbCap (snd (pooled_postJSON grow pooled cc httpDo baseURL w path payload)) \<le> 2 ^ 20 \<and>
   bbBytes (snd (pooled_postJSON grow pooled cc httpDo baseURL w path payload)) = []"
  by (cases pooled; cases payload)
    (simp_all add: pooled_postJSON_def postJSON_def getRequestBodyBuffer_def putRequestBodyBuffer_def encode_into_def Let_def)

section \<open>The client against the server\<close>

text \<open>
  A connection to the server: the part of the URL after the base is the escaped path; \<open>render\<close> writes a body as text. A panic of the service closes
  the connection.
\<close>

definition connection :: "'v httpEnv \<Rightarrow> httpServer \<Rightarrow> string \<Rightarrow> string \<Rightarrow> (httpBody \<Rightarrow> string) \<Rightarrow> 'v httpState httpDo" where
  "connection env srv baseURL remote render st wq =
     (let path = drop (length baseURL) (wqURL wq)
      in case PathUnescape path of
           None \<Rightarrow> (Inr (400, []), st)
         | Some p \<Rightarrow>
             (case serve_http env srv \<lparr>rqMethod = wqMethod wq, rqPath = p, rqEscaped = path, rqQuery = (\<lambda>_. []),
                rqHeader = (\<lambda>h. if h = ''Content-Type'' then wqContentType wq else []), rqBody = wqBody wq, rqRemoteAddr = remote\<rparr> st of
                None \<Rightarrow> (Inl ErrEOF, st)
              | Some (resp, st') \<Rightarrow> (Inr (rsStatus resp, render (rsBody resp)), st')))"

text \<open>What the server decodes from an encoded batch, however the body limit cuts it: the batch or nothing.\<close>

definition codecs_agree :: "clientCodec \<Rightarrow> httpCodec \<Rightarrow> vector list \<Rightarrow> bool" where
  "codecs_agree cc c vs \<longleftrightarrow> (\<forall>b n cut. ccVectors cc vs = Some b \<longrightarrow> hcVectors c (take n b) cut \<in> {None, Some vs})"

lemma mux_batch:
  assumes "rqMethod r = ''POST''" and "rqEscaped r = ''/vectors/batch''"
  shows "mux_serve env srv r st = on_service (AddVectorsBatchHandler env srv r) st"
proof -
  have "cleanPath ''/vectors/batch'' = ''/vectors/batch''" "mux_route m (mux_segments ''/vectors/batch'') = Some RBatch" for m
    by (simp_all add: cleanPath_def path_Clean_def Split_def clean_step_def Let_def mux_route_def mux_segments_def unescape_segment_def
        operational_route_def api_route_def)
  then show ?thesis using assms by (simp add: mux_serve_def dispatch_def methodHandler_def)
qed

lemma batch_handler_outcome:
  assumes "http_env_ok senv env" and "small_bodies srv" and "svc_inv (any_inv senv) any_abs s"
    and "readJSON (hcVectors (heCodec env)) srv r = Inl resp \<or> readJSON (hcVectors (heCodec env)) srv r = Inr vs"
    and "\<And>resp. readJSON (hcVectors (heCodec env)) srv r = Inl resp \<Longrightarrow> rsStatus resp \<noteq> 201"
  shows "\<exists>resp s'. AddVectorsBatchHandler env srv r s = Some (resp, s') \<and> svc_inv (any_inv senv) any_abs s' \<and>
    (rsStatus resp = 201 \<longrightarrow> any_abs (svStore s') = foldl vput (any_abs (svStore s)) vs) \<and>
    any_abs (svStore s') \<in> {any_abs (svStore s), foldl vput (any_abs (svStore s)) vs}"
  using assms(4)
proof
  assume "readJSON (hcVectors (heCodec env)) srv r = Inl resp"
  then show ?thesis using assms(3,5) by (simp add: AddVectorsBatchHandler_def)
next
  assume r: "readJSON (hcVectors (heCodec env)) srv r = Inr vs"
  have on: "runs_on senv (heService env)" "codec_small (heCodec env)" using assms(1) by (simp_all add: http_env_ok_def)
  have f: "\<forall>v \<in> set vs. fits v" using small_fits [OF assms(2)] readJSON_Inr [OF r] on(2) unfolding codec_small_def by blast
  obtain now where now: "seStore (heService env) = any_ops senv no_fault now" "iter_ok (seIter (heService env))" using runs_on_E [OF on(1)] .
  obtain e s' where s': "AddVectors (heService env) s vs = Some (e, s')" "svc_inv (any_inv senv) any_abs s'"
    "case add_error s vs of
       Some x \<Rightarrow> e = Some x \<and> any_abs (svStore s') = any_abs (svStore s)
     | None \<Rightarrow> (case fst (appendWALBatch (heService env) s (map upsert_op vs)) of
         Some x \<Rightarrow> e = Some x \<and> any_abs (svStore s') = any_abs (svStore s)
       | None \<Rightarrow> any_abs (svStore s') = foldl vput (any_abs (svStore s)) vs)"
    using AddVectors_outcome [OF now assms(3) f] by blast
  have "any_abs (svStore s') \<in> {any_abs (svStore s), foldl vput (any_abs (svStore s)) vs}" using s'(3) by (auto split: option.splits)
  moreover have "any_abs (svStore s') = foldl vput (any_abs (svStore s)) vs" if "rsStatus (add_response r e) = 201"
    using s'(3) status_created [OF that] by (auto split: option.splits)
  ultimately show ?thesis using r s'(1,2) by (simp add: AddVectorsBatchHandler_def)
qed

lemma client_add:
  assumes "http_env_ok senv env" and "small_bodies srv" and "svc_inv (any_inv senv) any_abs (xsService st)" and "codecs_agree cc (heCodec env) vs"
    and "VectorClient_AddVectors cc (connection env srv baseURL remote render) baseURL st vs = (err, st')"
  shows "svc_inv (any_inv senv) any_abs (xsService st') \<and>
    (err = None \<longrightarrow> any_abs (svStore (xsService st')) = foldl vput (any_abs (svStore (xsService st))) vs) \<and>
    any_abs (svStore (xsService st')) \<in> {any_abs (svStore (xsService st)), foldl vput (any_abs (svStore (xsService st))) vs}"
proof (cases "ccVectors cc vs")
  case None
  then show ?thesis using assms(3,5) by (auto simp: VectorClient_AddVectors_def postJSON_def)
next
  case (Some b)
  let ?r = "\<lparr>rqMethod = ''POST'', rqPath = ''/vectors/batch'', rqEscaped = ''/vectors/batch'', rqQuery = (\<lambda>_. []),
     rqHeader = (\<lambda>h. if h = ''Content-Type'' then ''application/json'' else []), rqBody = b, rqRemoteAddr = remote\<rparr>"
  let ?st = "after_limit env srv ?r st" and ?vs = "foldl vput (any_abs (svStore (xsService st))) vs"
  have dec: "readJSON (hcVectors (heCodec env)) srv ?r = Inl (writeError ?r 400 ''invalid_json'' (Text ''invalid JSON payload'')) \<or>
      readJSON (hcVectors (heCodec env)) srv ?r = Inr vs"
    using assms(4) Some unfolding codecs_agree_def readJSON_def Let_def by (fastforce split: option.split)
  have bad: "rsStatus x \<noteq> 201" if "readJSON (hcVectors (heCodec env)) srv ?r = Inl x" for x using dec that by (auto simp: error_status)
  obtain resp s' where h: "AddVectorsBatchHandler env srv ?r (xsService st) = Some (resp, s')" "svc_inv (any_inv senv) any_abs s'"
    "rsStatus resp = 201 \<longrightarrow> any_abs (svStore s') = ?vs" "any_abs (svStore s') \<in> {any_abs (svStore (xsService st)), ?vs}"
    using batch_handler_outcome [OF assms(1-3) dec bad] by blast
  have mux: "mux_serve env srv ?r ?st = Some (resp, ?st\<lparr>xsService := s'\<rparr>)" using mux_batch [of ?r env srv ?st] h(1) by (simp add: on_service_def)
  obtain resp1 st1 where sv: "serve_http env srv ?r st = Some (resp1, st1)" "svc_inv (any_inv senv) any_abs (xsService st1)"
    "rsStatus resp1 = 201 \<longrightarrow> any_abs (svStore (xsService st1)) = ?vs" "any_abs (svStore (xsService st1)) \<in> {any_abs (svStore (xsService st)), ?vs}"
  proof (cases "granted env srv ?r st \<and> authorized srv ?r")
    case True
    then show ?thesis using that serve_answer [of env srv ?r st] mux h(2-4) by (auto simp: same_answer_def option_rel_Some2)
  next
    case False
    then obtain resp1 st1 where "serve_http env srv ?r st = Some (resp1, st1)" "xsService st1 = xsService st" "rsStatus resp1 \<noteq> 201"
      using serve_answer [of env srv ?r st] refusal_facts(1) [of env srv ?r st] by (auto simp: same_answer_def option_rel_Some2 split: if_splits)
    then show ?thesis using that assms(3) by simp
  qed
  have "connection env srv baseURL remote render st
      \<lparr>wqMethod = ''POST'', wqURL = baseURL @ ''/vectors/batch'', wqContentType = ''application/json'', wqBody = b\<rparr> =
      (Inr (rsStatus resp1, render (rsBody resp1)), st1)"
    using sv(1) by (simp add: connection_def Let_def cong: if_cong)
  then show ?thesis
    using assms(3,5) Some sv(2-4) by (cases "ccValidURL cc (baseURL @ ''/vectors/batch'')") (auto simp: VectorClient_AddVectors_def postJSON_def)
qed


definition sample_client :: clientCodec where
  "sample_client =
     \<lparr>ccVectors = (\<lambda>vs. if vs = [sample_vector] then Some ''vector'' else None), ccSearch = (\<lambda>_. None), ccQueries = (\<lambda>_. None),
      ccResults = (\<lambda>_. None), ccBatchResults = (\<lambda>_. None), ccValidURL = (\<lambda>_. True)\<rparr>"


end
