(* ===== verification/Grpc.thy ===== *)
theory Grpc
  imports HttpApi
begin

text \<open>
  \<^verbatim>\<open>internal/api/grpc.go\<close> and \<^verbatim>\<open>pkg/client/grpc_client.go\<close>: the gRPC service, its interceptor and the Go client. The generated stubs and the
  transport are parameters of the client: a call takes a state of the world and returns a status or a response. The
  fields of type \<^verbatim>\<open>int32\<close> are 32-bit words. A handler is \<open>None\<close> if the service panics; gRPC does not recover, the process ends.
\<close>

section \<open>Status codes\<close>

datatype grpcCode = AlreadyExists | NotFound | InvalidArgument | Internal | Unauthenticated | OtherCode nat

type_synonym grpcStatus = "grpcCode \<times> errText"

type_synonym 'a rpcResult = "grpcStatus + 'a"

definition grpcCodeFromError :: "goerror \<Rightarrow> grpcCode" where
  "grpcCodeFromError e =
     (case e of ErrVectorExists \<Rightarrow> AlreadyExists | ErrVectorNotFound \<Rightarrow> NotFound | ErrInvalidID \<Rightarrow> InvalidArgument
      | ErrInvalidValues \<Rightarrow> InvalidArgument | ErrInvalidK \<Rightarrow> InvalidArgument | ErrVectorDimTooHigh _ \<Rightarrow> InvalidArgument
      | ErrKTooHigh _ \<Rightarrow> InvalidArgument | _ \<Rightarrow> Internal)"

definition grpcStatusFromError :: "goerror \<Rightarrow> grpcStatus" where
  "grpcStatusFromError e =
     (if grpcCodeFromError e = AlreadyExists then (AlreadyExists, ErrorOf e)
      else if grpcCodeFromError e = NotFound then (NotFound, ErrorOf e)
      else if grpcCodeFromError e = InvalidArgument then (InvalidArgument, ErrorOf e)
      else (Internal, ErrorOf e))"

section \<open>Messages\<close>

record listRequest =
  lrLimit :: "32 word"
  lrCursor :: string
  lrIdsOnly :: bool

record listResponse =
  lsVectors :: "vector list"
  lsNextCursor :: string

record searchQuery =
  sqId :: string
  sqValues :: "float64 list"
  sqTopK :: "32 word"

text \<open>A list of messages never holds a nil message once it is decoded; a single message may be absent.\<close>

section \<open>Handlers\<close>

definition grpc_Health :: "string rpcResult" where
  "grpc_Health = Inr ''ok''"

definition listVectorsGRPCLimit :: "32 word \<Rightarrow> int rpcResult" where
  "listVectorsGRPCLimit limit =
     (if sint limit < 0 then Inl (InvalidArgument, Text ''limit must be a positive integer'')
      else if sint limit = 0 then Inr defaultListVectorsLimit
      else if sint limit > maxListVectorsLimit then Inr maxListVectorsLimit
      else Inr (sint limit))"

definition grpc_ListVectors :: "'v serviceEnv \<Rightarrow> listRequest \<Rightarrow> 'v service \<Rightarrow> listResponse rpcResult \<times> 'v service" where
  "grpc_ListVectors env req s =
     (case listVectorsGRPCLimit (lrLimit req) of Inl e \<Rightarrow> (Inl e, s)
      | Inr limit \<Rightarrow>
          (let cursor = TrimSpace (lrCursor req)
           in case (if cursor = [] then Some [] else decodeListVectorsCursor cursor) of
                None \<Rightarrow> (Inl (InvalidArgument, Text ''cursor must be a valid list cursor''), s)
              | Some afterID \<Rightarrow>
                  (case ListVectorsPage env s \<lparr>loAfterID = afterID, loLimit = limit, loIDsOnly = lrIdsOnly req\<rparr> of
                     (page, s') \<Rightarrow>
                       (Inr \<lparr>lsVectors = lpVectors page,
                             lsNextCursor = (if lpNextCursor page \<noteq> [] then encodeListVectorsCursor (lpNextCursor page) else [])\<rparr>, s'))))"

definition success_or :: "goerror option \<Rightarrow> bool rpcResult" where
  "success_or err = (case err of Some e \<Rightarrow> Inl (grpcStatusFromError e) | None \<Rightarrow> Inr True)"

definition result_or :: "'a result \<Rightarrow> 'a rpcResult" where
  "result_or r = (case r of Inl e \<Rightarrow> Inl (grpcStatusFromError e) | Inr x \<Rightarrow> Inr x)"

definition grpc_AddVector :: "'v serviceEnv \<Rightarrow> vector \<Rightarrow> 'v service \<Rightarrow> (bool rpcResult \<times> 'v service) option" where
  "grpc_AddVector env req s = map_option (apfst success_or) (AddVector env s (vID req) (vValues req))"

definition grpc_AddVectorsBatch :: "'v serviceEnv \<Rightarrow> vector list \<Rightarrow> 'v service \<Rightarrow> (bool rpcResult \<times> 'v service) option" where
  "grpc_AddVectorsBatch env req s = map_option (apfst success_or) (AddVectors env s req)"

definition grpc_GetVector :: "'v serviceEnv \<Rightarrow> string \<Rightarrow> 'v service \<Rightarrow> vector option rpcResult \<times> 'v service" where
  "grpc_GetVector env vid s = apfst (\<lambda>r. map_sum id Some (result_or r)) (Service_GetVector env s vid)"

definition grpc_Search :: "'v serviceEnv \<Rightarrow> float64 list \<times> 32 word \<Rightarrow> 'v service \<Rightarrow> (searchResult list rpcResult \<times> 'v service) option" where
  "grpc_Search env req s = map_option (apfst result_or) (Search env s (fst req) (sint (snd req)))"

definition grpc_SearchBatch :: "'v serviceEnv \<Rightarrow> searchQuery list \<Rightarrow> 'v service \<Rightarrow> (batchSearchResult list rpcResult \<times> 'v service) option" where
  "grpc_SearchBatch env req s =
     map_option (apfst result_or)
       (SearchBatch env s (map (\<lambda>q. \<lparr>bqID = sqId q, bqValues = sqValues q, bqK = sint (sqTopK q)\<rparr>) req))"

definition grpc_DeleteVector :: "'v serviceEnv \<Rightarrow> string \<Rightarrow> 'v service \<Rightarrow> (bool rpcResult \<times> 'v service) option" where
  "grpc_DeleteVector env vid s = map_option (apfst success_or) (DeleteVector env s vid)"

section \<open>The interceptor\<close>

text \<open>Metadata by lower-case key; \<open>None\<close> if the context has none.\<close>

definition grpcAuthKeyFromMetadata :: "(string \<Rightarrow> string list) \<Rightarrow> string" where
  "grpcAuthKeyFromMetadata md =
     (case md ''x-api-key'' of
        v # _ \<Rightarrow> TrimSpace v
      | [] \<Rightarrow> (case md ''authorization'' of v # _ \<Rightarrow> bearer_token (TrimSpace v) | [] \<Rightarrow> []))"

definition grpcAuthInterceptor :: "httpServer \<Rightarrow> string \<Rightarrow> (string \<Rightarrow> string list) option \<Rightarrow> ('s \<Rightarrow> ('a rpcResult \<times> 's) option) \<Rightarrow>
    's \<Rightarrow> ('a rpcResult \<times> 's) option" where
  "grpcAuthInterceptor srv fullMethod md handler s =
     (if \<not> hsGrpcAuth srv \<or> \<not> hsAuthEnabled srv \<or> TrimSpace (hsApiKey srv) = [] \<or> fullMethod = ''/lumenvec.VectorService/Health''
      then handler s
      else case md of
          None \<Rightarrow> Some (Inl (Unauthenticated, Text ''missing credentials''), s)
        | Some m \<Rightarrow>
            if \<not> validateAPIKey (grpcAuthKeyFromMetadata m) (hsApiKey srv)
            then Some (Inl (Unauthenticated, Text ''unauthorized''), s)
            else handler s)"

section \<open>The client\<close>

datatype clientError = FromRpc grpcStatus | Local string

record listOptions =
  cloLimit :: int
  cloCursor :: string
  cloIDsOnly :: bool

text \<open>\<open>newGRPCClient\<close> is \<^verbatim>\<open>grpc.NewClient\<close>; without options of the caller the connection is not encrypted.\<close>

record 'c grpcVectorClient =
  gcConn :: "'c option"
  gcTimeout :: int

definition NewGRPCVectorClientWithDialer :: "(string \<Rightarrow> 'o list \<Rightarrow> 'c result) \<Rightarrow> 'o \<Rightarrow> string \<Rightarrow> 'o list \<Rightarrow> 'c grpcVectorClient result" where
  "NewGRPCVectorClientWithDialer newGRPCClient insecure address dialOptions =
     (if TrimSpace address = [] then Inl (ErrIO ''grpc address is required'')
      else case newGRPCClient address (if dialOptions = [] then [insecure] else dialOptions) of
          Inl e \<Rightarrow> Inl e
        | Inr conn \<Rightarrow> Inr \<lparr>gcConn = Some conn, gcTimeout = 10 * 10 ^ 9\<rparr>)"

definition NewGRPCVectorClient :: "(string \<Rightarrow> 'o list \<Rightarrow> 'c result) \<Rightarrow> 'o \<Rightarrow> string \<Rightarrow> 'c grpcVectorClient result" where
  "NewGRPCVectorClient newGRPCClient insecure address = NewGRPCVectorClientWithDialer newGRPCClient insecure address []"

definition grpc_client_Close :: "('c \<Rightarrow> 'w \<Rightarrow> goerror option \<times> 'w) \<Rightarrow> 'c grpcVectorClient \<Rightarrow> 'w \<Rightarrow> goerror option \<times> 'w" where
  "grpc_client_Close close c w = (case gcConn c of None \<Rightarrow> (None, w) | Some conn \<Rightarrow> close conn w)"

definition defaultGRPCListVectorsLimit :: int where "defaultGRPCListVectorsLimit = 1000"

definition grpcListVectorsRequestLimit :: "int \<Rightarrow> 32 word" where
  "grpcListVectorsRequestLimit limit =
     (if limit < 0 then - 1
      else if limit > defaultGRPCListVectorsLimit then word_of_int defaultGRPCListVectorsLimit
      else word_of_int limit)"

text \<open>A remote call: the request goes out in a state of the world, the answer comes in another.\<close>

type_synonym ('w, 'q, 'a) rpcCall = "'w \<Rightarrow> 'q \<Rightarrow> 'a rpcResult \<times> 'w"

definition client_call :: "('w, 'q, 'a) rpcCall \<Rightarrow> 'w \<Rightarrow> 'q \<Rightarrow> (clientError + 'a) \<times> 'w" where
  "client_call call w req = (case call w req of (Inl e, w') \<Rightarrow> (Inl (FromRpc e), w') | (Inr x, w') \<Rightarrow> (Inr x, w'))"

definition client_ListVectorsPage :: "('w, listRequest, listResponse) rpcCall \<Rightarrow> 'w \<Rightarrow> listOptions \<Rightarrow> (clientError + listResponse) \<times> 'w" where
  "client_ListVectorsPage call w opts =
     client_call call w \<lparr>lrLimit = grpcListVectorsRequestLimit (cloLimit opts), lrCursor = cloCursor opts, lrIdsOnly = cloIDsOnly opts\<rparr>"

partial_function (option) list_loop :: "('w, listRequest, listResponse) rpcCall \<Rightarrow> 'w \<Rightarrow> string \<Rightarrow> vector list \<Rightarrow>
    ((clientError + vector list) \<times> 'w) option" where
  "list_loop call w cursor out =
     (case client_ListVectorsPage call w \<lparr>cloLimit = defaultGRPCListVectorsLimit, cloCursor = cursor, cloIDsOnly = False\<rparr> of
        (Inl e, w') \<Rightarrow> Some (Inl e, w')
      | (Inr page, w') \<Rightarrow>
          if lsNextCursor page = [] then Some (Inr (out @ lsVectors page), w')
          else if lsNextCursor page = cursor then Some (Inl (Local ''list vectors cursor did not advance''), w')
          else list_loop call w' (lsNextCursor page) (out @ lsVectors page))"

definition client_ListVectors :: "('w, listRequest, listResponse) rpcCall \<Rightarrow> 'w \<Rightarrow> ((clientError + vector list) \<times> 'w) option" where
  "client_ListVectors call w = list_loop call w [] []"

definition client_error :: "(clientError + 'a) \<times> 'w \<Rightarrow> clientError option \<times> 'w" where
  "client_error r = (case r of (Inl e, w) \<Rightarrow> (Some e, w) | (Inr _, w) \<Rightarrow> (None, w))"

definition client_AddVectorWithID :: "('w, vector, bool) rpcCall \<Rightarrow> 'w \<Rightarrow> string \<Rightarrow> float64 list \<Rightarrow> clientError option \<times> 'w" where
  "client_AddVectorWithID call w vid vec = client_error (client_call call w \<lparr>vID = vid, vValues = vec\<rparr>)"

definition client_AddVector :: "('w, vector, bool) rpcCall \<Rightarrow> int \<Rightarrow> 'w \<Rightarrow> float64 list \<Rightarrow> clientError option \<times> 'w" where
  "client_AddVector call now w vec = client_AddVectorWithID call w (''vec-'' @ itoa now) vec"

definition client_AddVectors :: "('w, vector list, bool) rpcCall \<Rightarrow> 'w \<Rightarrow> vector list \<Rightarrow> clientError option \<times> 'w" where
  "client_AddVectors call w vectors = client_error (client_call call w vectors)"

definition client_GetVector :: "('w, string, vector option) rpcCall \<Rightarrow> 'w \<Rightarrow> string \<Rightarrow> (clientError + vector option) \<times> 'w" where
  "client_GetVector call w vid = client_call call w vid"

definition client_SearchVector :: "('w, float64 list \<times> 32 word, searchResult list) rpcCall \<Rightarrow> 'w \<Rightarrow> float64 list \<Rightarrow> int \<Rightarrow>
    (clientError + searchResult list) \<times> 'w" where
  "client_SearchVector call w vec k = client_call call w (vec, word_of_int k)"

definition client_SearchVectors :: "('w, searchQuery list, batchSearchResult list) rpcCall \<Rightarrow> 'w \<Rightarrow> batchSearchQuery list \<Rightarrow>
    (clientError + batchSearchResult list) \<times> 'w" where
  "client_SearchVectors call w queries =
     client_call call w (map (\<lambda>q. \<lparr>sqId = bqID q, sqValues = bqValues q, sqTopK = word_of_int (bqK q)\<rparr>) queries)"

definition client_DeleteVector :: "('w, string, bool) rpcCall \<Rightarrow> 'w \<Rightarrow> string \<Rightarrow> clientError option \<times> 'w" where
  "client_DeleteVector call w vid = client_error (client_call call w vid)"

definition client_Health :: "('w, unit, string) rpcCall \<Rightarrow> 'w \<Rightarrow> (clientError + string) \<times> 'w" where
  "client_Health call w = client_call call w ()"

section \<open>Listing over gRPC\<close>

text \<open>
  The client's calls answered by the server, call \<open>i\<close> in state \<open>i\<close> of a list of service states. \<open>wire\<close> is what the protobuf runtime and the
  transport make of a response; they deliver messages whose strings are valid UTF-8.
\<close>

definition serve_list :: "(listResponse \<Rightarrow> listResponse rpcResult) \<Rightarrow> 'v serviceEnv \<Rightarrow> httpServer \<Rightarrow> (string \<Rightarrow> string list) option \<Rightarrow>
    ('v service list, listRequest, listResponse) rpcCall" where
  "serve_list wire env srv md ws req =
     (case ws of
        [] \<Rightarrow> (Inl (OtherCode 14, Text ''unavailable''), [])
      | s # ss \<Rightarrow>
          (case grpcAuthInterceptor srv ''/lumenvec.VectorService/ListVectors'' md (\<lambda>s. Some (grpc_ListVectors env req s)) s of
             Some (Inr resp, _) \<Rightarrow> (wire resp, ss)
           | Some (Inl e, _) \<Rightarrow> (Inl e, ss)
           | None \<Rightarrow> (Inl (OtherCode 14, Text ''unavailable''), ss)))"

definition wire_ok :: "(listResponse \<Rightarrow> listResponse rpcResult) \<Rightarrow> bool" where
  "wire_ok wire \<longleftrightarrow> (\<forall>resp. list_all (\<lambda>v. utf8_valid (vID v)) (lsVectors resp) \<and> utf8_valid (lsNextCursor resp) \<longrightarrow> wire resp = Inr resp)"

definition grpc_admitted :: "httpServer \<Rightarrow> (string \<Rightarrow> string list) option \<Rightarrow> bool" where
  "grpc_admitted srv md \<longleftrightarrow> \<not> hsGrpcAuth srv \<or> \<not> hsAuthEnabled srv \<or> TrimSpace (hsApiKey srv) = [] \<or>
     (\<exists>m. md = Some m \<and> validateAPIKey (grpcAuthKeyFromMetadata m) (hsApiKey srv))"

lemma intercept_admitted: "grpc_admitted srv md \<Longrightarrow> grpcAuthInterceptor srv meth md h s = h s"
  by (auto simp: grpcAuthInterceptor_def grpc_admitted_def)

text \<open>Encoded cursors have nothing to trim and are valid UTF-8.\<close>

lemma strip_none: "\<forall>e \<in> set encs. e \<noteq> [] \<longrightarrow> hd e \<notin> set s \<Longrightarrow> strip_one encs s = None"
proof -
  assume ne: "\<forall>e \<in> set encs. e \<noteq> [] \<longrightarrow> hd e \<notin> set s"
  have "\<not> (e \<noteq> [] \<and> take (length e) s = e)" if "e \<in> set encs" for e
    using ne that by (metis hd_in_set in_set_takeD)
  then show ?thesis by (auto simp: strip_one_def find_None_iff)
qed

lemma b64_ascii: "c \<in> set (b64_encode s) \<Longrightarrow> c \<in> set b64_alphabet"
  using b64_encode_chars [of s] b64_length by (auto simp: b64_char_def)

lemma trim_cursor [simp]: "TrimSpace (encodeListVectorsCursor vid) = encodeListVectorsCursor vid"
proof -
  have "\<forall>e \<in> set space_encodings. e \<noteq> [] \<longrightarrow> hd e \<notin> set b64_alphabet" "\<forall>e \<in> set (map rev space_encodings). e \<noteq> [] \<longrightarrow> hd e \<notin> set b64_alphabet"
    by (simp_all add: space_encodings_def b64_alphabet_def)
  then have "untrimmed (b64_encode vid)" unfolding untrimmed_def by (intro conjI strip_none) (use b64_ascii in fastforce)+
  then show ?thesis by (simp add: encodeListVectorsCursor_def TrimSpace_untrimmed)
qed

lemma utf8_ascii: "\<forall>c \<in> set s. in_range 0 0x7F c \<Longrightarrow> utf8_valid s"
  by (induction s rule: utf8_valid.induct) simp_all

lemma utf8_cursor: "utf8_valid (encodeListVectorsCursor vid)"
proof (rule utf8_ascii)
  have "\<forall>c \<in> set b64_alphabet. in_range 0 0x7F c" by (simp add: b64_alphabet_def in_range_def)
  then show "\<forall>c \<in> set (encodeListVectorsCursor vid). in_range 0 0x7F c" using b64_ascii by (auto simp: encodeListVectorsCursor_def)
qed

lemma client_limit: "listVectorsGRPCLimit (grpcListVectorsRequestLimit defaultGRPCListVectorsLimit) = Inr 1000"
  by (simp add: grpcListVectorsRequestLimit_def listVectorsGRPCLimit_def defaultGRPCListVectorsLimit_def maxListVectorsLimit_def)

lemma cursor_decodes: "(if TrimSpace (encodeListVectorsCursor after) = [] then Some [] else decodeListVectorsCursor (TrimSpace (encodeListVectorsCursor after))) = Some after"
  by (simp add: decode_encode)

text \<open>One call of the loop is one page.\<close>

lemma list_call:
  assumes "grpc_admitted srv md" and "wire_ok wire"
    and "p = fst (ListVectorsPage env s \<lparr>loAfterID = after, loLimit = 1000, loIDsOnly = False\<rparr>)" and "list_all (\<lambda>v. utf8_valid (vID v)) (lpVectors p)"
  shows "client_ListVectorsPage (serve_list wire env srv md) (s # ss)
      \<lparr>cloLimit = defaultGRPCListVectorsLimit, cloCursor = encodeListVectorsCursor after, cloIDsOnly = False\<rparr> =
    (Inr \<lparr>lsVectors = lpVectors p, lsNextCursor = encodeListVectorsCursor (lpNextCursor p)\<rparr>, ss)"
proof -
  let ?resp = "\<lparr>lsVectors = lpVectors p, lsNextCursor = encodeListVectorsCursor (lpNextCursor p)\<rparr>"
  have nil: "encodeListVectorsCursor [] = []" by (simp add: encodeListVectorsCursor_def)
  have h: "fst (grpc_ListVectors env \<lparr>lrLimit = grpcListVectorsRequestLimit defaultGRPCListVectorsLimit, lrCursor = encodeListVectorsCursor after,
      lrIdsOnly = False\<rparr> s) = Inr ?resp"
    using assms(3) cursor_decodes [of after] nil
    by (auto simp: grpc_ListVectors_def client_limit Let_def simp del: trim_cursor encode_Nil_iff split: prod.split)
  have "wire ?resp = Inr ?resp" using assms(2,4) utf8_cursor by (simp add: wire_ok_def)
  moreover obtain s' where "grpc_ListVectors env \<lparr>lrLimit = grpcListVectorsRequestLimit defaultGRPCListVectorsLimit,
      lrCursor = encodeListVectorsCursor after, lrIdsOnly = False\<rparr> s = (Inr ?resp, s')" using h by (metis prod.collapse)
  ultimately show ?thesis
    by (simp add: client_ListVectorsPage_def client_call_def serve_list_def intercept_admitted [OF assms(1)])
qed

lemma walk_utf8:
  assumes "seStore env = any_ops senv no_fault now" and "svc_inv (any_inv senv) any_abs s" and "dom (any_abs (svStore s)) \<subseteq> U" and "\<forall>u \<in> U. utf8_valid u"
    and "p = fst (ListVectorsPage env s \<lparr>loAfterID = after, loLimit = 1000, loIDsOnly = False\<rparr>)"
  shows "list_all (\<lambda>v. utf8_valid (vID v)) (lpVectors p)" and "lpNextCursor p \<noteq> [] \<Longrightarrow> lpNextCursor p \<noteq> after"
proof -
  let ?ids = "ids_after (any_abs (svStore s)) after"
  have fin: "finite (dom (any_abs (svStore s)))" using any_st.fin [of senv "svStore s"] assms(2) by (simp add: svc_inv_def)
  have p: "p = \<lparr>lpVectors = map (stored_vector (any_abs (svStore s))) (take 1000 ?ids),
      lpNextCursor = (if 1000 < int (length ?ids) then last (take 1000 ?ids) else [])\<rparr>"
    using any_svc.ListVectorsPage_ok [OF assms(1,2), of 1000 after False] assms(5) svc_inv_map [OF assms(2)] by auto
  have ids: "vid \<in> U \<and> (after = [] \<or> after < vid)" if "vid \<in> set ?ids" for vid using that ids_after_set [OF fin] assms(3) by auto
  then show "list_all (\<lambda>v. utf8_valid (vID v)) (lpVectors p)" using assms(4) by (auto simp: p list_all_iff dest!: in_set_takeD)
  assume "lpNextCursor p \<noteq> []"
  then have big: "1000 < length ?ids" "lpNextCursor p = last (take 1000 ?ids)" by (simp_all add: p split: if_splits)
  have "last (take 1000 ?ids) \<in> set ?ids" using sorted_take_last(3) [OF ids_after_sorted big(1)] by simp
  then show "lpNextCursor p \<noteq> after" using ids [of "lpNextCursor p"] \<open>lpNextCursor p \<noteq> []\<close> big(2) by auto
qed

lemma list_loop_walk:
  assumes "seStore env = any_ops senv no_fault now" and "grpc_admitted srv md" and "wire_ok wire" and "\<forall>u \<in> U. utf8_valid u"
    and "\<forall>s \<in> set ss. svc_inv (any_inv senv) any_abs s \<and> dom (any_abs (svStore s)) \<subseteq> U" and "walk_pages env 1000 after ss = Some vs"
  shows "\<exists>rest. list_loop (serve_list wire env srv md) ss (encodeListVectorsCursor after) out = Some (Inr (out @ vs), rest)"
  using assms(5,6)
proof (induction ss arbitrary: after vs out)
  case (Cons s ss)
  define p where "p = fst (ListVectorsPage env s \<lparr>loAfterID = after, loLimit = 1000, loIDsOnly = False\<rparr>)"
  note w = walk_utf8 [OF assms(1) _ _ assms(4) p_def]
  have call: "client_ListVectorsPage (serve_list wire env srv md) (s # ss)
      \<lparr>cloLimit = defaultGRPCListVectorsLimit, cloCursor = encodeListVectorsCursor after, cloIDsOnly = False\<rparr> =
    (Inr \<lparr>lsVectors = lpVectors p, lsNextCursor = encodeListVectorsCursor (lpNextCursor p)\<rparr>, ss)"
    using list_call [OF assms(2,3) p_def] w(1) Cons.prems(1) by simp
  show ?case
  proof (cases "lpNextCursor p = []")
    case True
    then show ?thesis using Cons.prems(2) call by (subst list_loop.simps) (simp add: Let_def flip: p_def)
  next
    case False
    then obtain vs' where vs': "walk_pages env 1000 (lpNextCursor p) ss = Some vs'" "vs = lpVectors p @ vs'"
      using Cons.prems(2) by (auto simp: Let_def simp flip: p_def)
    then obtain rest where "list_loop (serve_list wire env srv md) ss (encodeListVectorsCursor (lpNextCursor p)) (out @ lpVectors p) =
        Some (Inr ((out @ lpVectors p) @ vs'), rest)"
      using Cons.IH [of "lpNextCursor p" vs' "out @ lpVectors p"] Cons.prems(1) by auto
    then show ?thesis using call False w(2) Cons.prems(1) vs'(2) by (subst list_loop.simps) (simp add: encode_inj)
  qed
qed simp

section \<open>Properties\<close>




definition sample_yaml :: "string \<Rightarrow> config \<Rightarrow> config result" where
  "sample_yaml text c =
     Inr (c\<lparr>cfgServer := (cfgServer c)\<lparr>scAPIKey := ''a''\<rparr>, cfgSecurity := (cfgSecurity c)\<lparr>secProfile := ''production''\<rparr>\<rparr>)"

lemma sample_config:
  "\<exists>cfg. Load sample_yaml (\<lambda>_. []) (Inr []) = Inr cfg \<and> secProfile (cfgSecurity cfg) = ''production'' \<and> scAPIKey (cfgServer cfg) = ''a'' \<and>
     acAPIKey (secAuth (cfgSecurity cfg)) = ''a'' \<and> dcVectorStore (cfgDatabase cfg) = ''memory''"
proof -
  let ?c = "defaultConfig\<lparr>cfgServer := (cfgServer defaultConfig)\<lparr>scAPIKey := ''a''\<rparr>, cfgSecurity := (cfgSecurity defaultConfig)\<lparr>secProfile := ''production''\<rparr>\<rparr>"
  let ?cfg = "applySecurityDefaults (applyANNProfileDefaults (applyTransportDefaults ?c))"
  have load: "Load sample_yaml (\<lambda>_. []) (Inr []) = Inr ?cfg" using env_unset [of "\<lambda>_. []" ?c] by (simp add: Load_def sample_yaml_def)
  have "normalizeSecurityProfile ''production'' = ''production''"
    by (simp add: normalizeSecurityProfile_def TrimSpace_untrimmed untrimmed_def strip_one_def space_encodings_def lower_char_def)
  then have "secProfile (cfgSecurity ?cfg) = ''production''" "scAPIKey (cfgServer ?cfg) = ''a''" "acAPIKey (secAuth (cfgSecurity ?cfg)) = ''a''"
    by (simp_all add: applySecurityDefaults_def production_defaults_def Let_def trim_a) (simp_all add: defaultConfig_def)
  moreover have "dcVectorStore (cfgDatabase ?cfg) = ''memory''"
    by (simp add: applySecurityDefaults_def applyANNProfileDefaults_def applyTransportDefaults_def defaultConfig_def Let_def split: prod.split)
  ultimately show ?thesis using load by blast
qed


end
