(* ===== verification/LoadGen.thy ===== *)
theory LoadGen
  imports Client Grpc
begin

text \<open>
  \<^verbatim>\<open>tools/loadgen/main.go\<close>: the load generator, which fills a server with generated vectors through one of the two clients and then runs searches with
  several workers. The clients are a locale with the law they share, interpreted on the HTTP client and on the gRPC client against the server.
  \<^verbatim>\<open>math.Sin\<close> and \<^verbatim>\<open>math.Cos\<close> are arguments, since their last bits depend on the platform. The workers are a step relation: they share
  the counter, the latencies, the error channel and the sample, and their calls may interleave in any order.
\<close>

section \<open>Generated data\<close>

text \<open>The code points of a string as \<^verbatim>\<open>range\<close> reads them: a byte that starts no encoded character is U+FFFD.\<close>

definition rune_length :: "string \<Rightarrow> nat option" where
  "rune_length s = find (\<lambda>n. n \<le> length s \<and> utf8_valid (take n s)) [1, 2, 3, 4]"

definition rune_value :: "string \<Rightarrow> nat" where
  "rune_value s =
     (case map of_char s of
        [a] \<Rightarrow> a
      | [a, b] \<Rightarrow> (a - 0xC0) * 64 + (b - 0x80)
      | [a, b, c] \<Rightarrow> (a - 0xE0) * 4096 + (b - 0x80) * 64 + (c - 0x80)
      | [a, b, c, d] \<Rightarrow> (a - 0xF0) * 262144 + (b - 0x80) * 4096 + (c - 0x80) * 64 + (d - 0x80)
      | _ \<Rightarrow> 0)"

lemma rune_length_pos: "rune_length s = Some n \<Longrightarrow> 0 < n"
  by (auto simp: rune_length_def split: if_splits)

function runes :: "string \<Rightarrow> nat list" where
  "runes s =
     (if s = [] then []
      else case rune_length s of
          None \<Rightarrow> 0xFFFD # runes (drop 1 s)
        | Some n \<Rightarrow> rune_value (take n s) # runes (drop n s))"
  by auto
termination
  by (relation "measure length") (auto dest: rune_length_pos)

declare runes.simps [simp del]

definition namespaceOffset :: "string \<Rightarrow> float64" where
  "namespaceOffset prefix = f64_mul (f64_of_int (int (sum_list (runes prefix)) mod 1000)) (f64_of_int 100)"

text \<open>The constants 0.25 and 0.01 as the compiler rounds them.\<close>

definition quarter :: float64 where "quarter = 0x3FD0000000000000"
definition hundredth :: float64 where "hundredth = 0x3F847AE147AE147B"

definition generatedVector :: "(float64 \<Rightarrow> float64) \<Rightarrow> float64 \<Rightarrow> int \<Rightarrow> int \<Rightarrow> float64 list" where
  "generatedVector sin namespace seed dim =
     (let base = f64_add namespace (f64_mul (f64_of_int (seed mod 10)) (f64_of_int 10))
      in map (\<lambda>i. f64_add (f64_add base (f64_mul (sin (f64_of_int (seed + i))) quarter)) (f64_div (f64_of_int ((seed + i) mod 7)) (f64_of_int 100)))
           [0..dim - 1])"

definition perturbVector :: "(float64 \<Rightarrow> float64) \<Rightarrow> float64 list \<Rightarrow> int \<Rightarrow> float64 list" where
  "perturbVector cos vals seed =
     map (\<lambda>(x, i). f64_add x (f64_mul (cos (f64_of_int (seed + i))) hundredth)) (zip vals [0..int (length vals) - 1])"

text \<open>\<^verbatim>\<open>fmt.Sprintf("%06d", i)\<close> for an index.\<close>

definition pad06 :: "int \<Rightarrow> string" where
  "pad06 i = (let d = itoa i in replicate (6 - length d) CHR ''0'' @ d)"

definition payload :: "(float64 \<Rightarrow> float64) \<Rightarrow> string \<Rightarrow> float64 \<Rightarrow> int \<Rightarrow> int \<Rightarrow> vector" where
  "payload sin prefix namespace dim i = \<lparr>vID = prefix @ ''-'' @ pad06 i, vValues = generatedVector sin namespace i dim\<rparr>"

lemma zeros_value: "digits_value 0 (replicate k CHR ''0'' @ d) = digits_value 0 d"
  by (induction k) simp_all

lemma pad06_inj:
  assumes "0 \<le> i" and "0 \<le> j" and "pad06 i = pad06 j"
  shows "i = j"
proof -
  have v: "digits_value 0 (pad06 n) = Some (nat n)" if "0 \<le> n" for n
    using that by (simp add: pad06_def Let_def zeros_value itoa_def digits_value_decimal)
  show ?thesis using v [OF assms(1)] v [OF assms(2)] assms by simp
qed

lemma generatedVector_length [simp]: "length (generatedVector sin namespace seed dim) = nat dim"
  by (simp add: generatedVector_def Let_def)

lemma perturbVector_length [simp]: "length (perturbVector cos vals seed) = length vals"
  by (simp add: perturbVector_def)

section \<open>Filling the server\<close>

text \<open>The law both clients keep: a batch is added completely when no error is reported, and otherwise completely or not at all.\<close>

locale vector_client =
  fixes add :: "'w \<Rightarrow> vector list \<Rightarrow> 'e option \<times> 'w" and ready :: "'w \<Rightarrow> bool" and held :: "'w \<Rightarrow> vmap"
  assumes add_ok: "ready w \<Longrightarrow> add w vs = (e, w') \<Longrightarrow>
    ready w' \<and> (e = None \<longrightarrow> held w' = foldl vput (held w) vs) \<and> held w' \<in> {held w, foldl vput (held w) vs}"

text \<open>The error of a batch, with its bounds.\<close>

type_synonym 'e ingestError = "int \<times> int \<times> 'e"

partial_function (option) ingest_from :: "('w \<Rightarrow> vector list \<Rightarrow> 'e option \<times> 'w) \<Rightarrow> (int \<Rightarrow> vector) \<Rightarrow> int \<Rightarrow> int \<Rightarrow> int \<Rightarrow> 'w \<Rightarrow>
    ('e ingestError option \<times> 'w) option" where
  "ingest_from add item amount batchSize start w =
     (if start < amount
      then let stop = min (start + batchSize) amount
           in case add w (map item [start..stop - 1]) of
                (Some e, w') \<Rightarrow> Some (Some (start, stop, e), w')
              | (None, w') \<Rightarrow> ingest_from add item amount batchSize (start + batchSize) w'
      else Some (None, w))"

definition ingestVectors :: "(float64 \<Rightarrow> float64) \<Rightarrow> ('w \<Rightarrow> vector list \<Rightarrow> 'e option \<times> 'w) \<Rightarrow> string \<Rightarrow> float64 \<Rightarrow> int \<Rightarrow> int \<Rightarrow> int \<Rightarrow> 'w \<Rightarrow>
    ('e ingestError option \<times> 'w) option" where
  "ingestVectors sin add prefix namespace amount dim batchSize w = ingest_from add (payload sin prefix namespace dim) amount batchSize 0 w"

text \<open>What an ingestion comes to: everything, or the batches before the one that failed, and that one or not.\<close>

definition ingested :: "(int \<Rightarrow> vector) \<Rightarrow> int \<Rightarrow> vmap \<Rightarrow> 'e ingestError option \<Rightarrow> vmap \<Rightarrow> bool" where
  "ingested item amount m err m' \<longleftrightarrow>
     (case err of
        None \<Rightarrow> m' = foldl vput m (map item [0..amount - 1])
      | Some (a, b, e) \<Rightarrow> 0 \<le> a \<and> a < b \<and> b \<le> amount \<and>
          m' \<in> {foldl vput m (map item [0..a - 1]), foldl vput m (map item [0..b - 1])})"

lemma foldl_vput_get: "distinct (map vID vs) \<Longrightarrow> v \<in> set vs \<Longrightarrow> foldl vput m vs (vID v) = Some (ToFloat32 (vValues v))"
proof (induction vs arbitrary: m)
  case (Cons x vs)
  show ?case
  proof (cases "v = x")
    case True
    then have "foldl vput (vput m x) vs (vID v) = vput m x (vID v)" using Cons.prems by (intro foldl_vput_other) simp
    then show ?thesis using True by (simp del: vput_apply) (simp add: vput_apply)
  qed (use Cons in auto)
qed simp

lemma upto_join: "0 \<le> a \<Longrightarrow> a \<le> b \<Longrightarrow> [0..b - 1] = [0..a - 1] @ [a..b - 1]"
  using upto_split1 [of 0 a "b - 1"] by (cases "a = b") auto

context vector_client
begin

lemma ingest_from_ok:
  assumes "0 < batchSize" and "0 \<le> start" and "ready w" and "held w = foldl vput m (map item [0..min start amount - 1])"
  shows "\<exists>err w'. ingest_from add item amount batchSize start w = Some (err, w') \<and> ready w' \<and> ingested item amount m err (held w')"
  using assms(2-4)
proof (induction "nat (amount - start)" arbitrary: start w rule: less_induct)
  case less
  show ?case
  proof (cases "start < amount")
    case False
    then show ?thesis using less.prems by (subst ingest_from.simps) (simp add: ingested_def min_def split: if_splits)
  next
    case True
    let ?e = "min (start + batchSize) amount"
    obtain e w1 where a: "add w (map item [start..?e - 1]) = (e, w1)" by force
    have le: "start \<le> ?e" "start < ?e" using True assms(1) by auto
    have m: "held w = foldl vput m (map item [0..start - 1])" using less.prems(3) True by (simp add: min_def)
    have up: "foldl vput (held w) (map item [start..?e - 1]) = foldl vput m (map item [0..?e - 1])"
      unfolding m upto_join [OF less.prems(1) le(1)] by simp
    from add_ok [OF less.prems(2) a] have w1: "ready w1" "e = None \<longrightarrow> held w1 = foldl vput m (map item [0..?e - 1])"
        "held w1 \<in> {held w, foldl vput m (map item [0..?e - 1])}"
      unfolding up by auto
    show ?thesis
    proof (cases e)
      case None
      have "\<exists>err w'. ingest_from add item amount batchSize (start + batchSize) w1 = Some (err, w') \<and> ready w' \<and> ingested item amount m err (held w')"
        by (rule less.hyps) (use True assms(1) less.prems(1) w1 None in auto)
      then show ?thesis using True a None by (subst ingest_from.simps) (simp add: Let_def)
    next
      case (Some x)
      have "ingest_from add item amount batchSize start w = Some (Some (start, ?e, x), w1)"
        using True a Some by (subst ingest_from.simps) (simp add: Let_def)
      then show ?thesis using w1 le less.prems(1) m by (auto simp: ingested_def)
    qed
  qed
qed

end

section \<open>The two clients\<close>

text \<open>The HTTP client against the server, while the codecs agree and the service keeps its invariant.\<close>

definition http_ready :: "'t storeEnv \<Rightarrow> 't anyStore httpEnv \<Rightarrow> httpServer \<Rightarrow> clientCodec \<Rightarrow> 't anyStore httpState \<Rightarrow> bool" where
  "http_ready senv env srv cc st \<longleftrightarrow> http_env_ok senv env \<and> small_bodies srv \<and> (\<forall>vs. codecs_agree cc (heCodec env) vs) \<and>
     svc_inv (any_inv senv) any_abs (xsService st)"

lemma http_add_ok:
  assumes "http_ready senv env srv cc st" and "VectorClient_AddVectors cc (connection env srv baseURL remote render) baseURL st vs = (e, st')"
  shows "http_ready senv env srv cc st' \<and> (e = None \<longrightarrow> any_abs (svStore (xsService st')) = foldl vput (any_abs (svStore (xsService st))) vs) \<and>
    any_abs (svStore (xsService st')) \<in> {any_abs (svStore (xsService st)), foldl vput (any_abs (svStore (xsService st))) vs}"
  using client_add [of senv env srv st cc vs baseURL remote render e st'] assms by (simp add: http_ready_def)

interpretation http_load: vector_client "VectorClient_AddVectors cc (connection env srv baseURL remote render) baseURL" "http_ready senv env srv cc"
    "\<lambda>st. any_abs (svStore (xsService st))"
  for cc env srv baseURL remote render senv
  by unfold_locales (rule http_add_ok)

text \<open>
  The gRPC client against the server: the interceptor, then the handler. \<open>accepts\<close> is what the protobuf runtime and the transport let through; a panic of a
  handler ends the server.
\<close>

definition serve_add :: "(vector list \<Rightarrow> bool) \<Rightarrow> 'v serviceEnv \<Rightarrow> httpServer \<Rightarrow> (string \<Rightarrow> string list) option \<Rightarrow> ('v service, vector list, bool) rpcCall" where
  "serve_add accepts env srv md s vectors =
     (if \<not> accepts vectors then (Inl (OtherCode 8, Text ''message refused''), s)
      else case grpcAuthInterceptor srv ''/lumenvec.VectorService/AddVectorsBatch'' md (grpc_AddVectorsBatch env vectors) s of
          None \<Rightarrow> (Inl (OtherCode 14, Text ''unavailable''), s)
        | Some r \<Rightarrow> r)"

definition grpc_ready :: "'t storeEnv \<Rightarrow> (vector list \<Rightarrow> bool) \<Rightarrow> 't anyStore serviceEnv \<Rightarrow> 't anyStore service \<Rightarrow> bool" where
  "grpc_ready senv accepts env s \<longleftrightarrow> runs_on senv env \<and> (\<forall>vs. accepts vs \<longrightarrow> (\<forall>v \<in> set vs. fits v)) \<and> svc_inv (any_inv senv) any_abs s"

lemma serve_add_ok:
  assumes "grpc_ready senv accepts env s" and "client_AddVectors (serve_add accepts env srv md) s vs = (e, s')"
  shows "grpc_ready senv accepts env s' \<and> (e = None \<longrightarrow> any_abs (svStore s') = foldl vput (any_abs (svStore s)) vs) \<and>
    any_abs (svStore s') \<in> {any_abs (svStore s), foldl vput (any_abs (svStore s)) vs}"
proof (cases "accepts vs \<and> grpcAuthInterceptor srv ''/lumenvec.VectorService/AddVectorsBatch'' md (grpc_AddVectorsBatch env vs) s = grpc_AddVectorsBatch env vs s")
  case True
  have r: "runs_on senv env" "svc_inv (any_inv senv) any_abs s" "\<forall>v \<in> set vs. fits v" using assms(1) True by (auto simp: grpc_ready_def)
  obtain now where now: "seStore env = any_ops senv no_fault now" "iter_ok (seIter env)" using runs_on_E [OF r(1)] .
  obtain x t where t: "AddVectors env s vs = Some (x, t)" "svc_inv (any_inv senv) any_abs t"
    "case add_error s vs of
       Some x' \<Rightarrow> x = Some x' \<and> any_abs (svStore t) = any_abs (svStore s)
     | None \<Rightarrow> (case fst (appendWALBatch env s (map upsert_op vs)) of
         Some x' \<Rightarrow> x = Some x' \<and> any_abs (svStore t) = any_abs (svStore s)
       | None \<Rightarrow> any_abs (svStore t) = foldl vput (any_abs (svStore s)) vs)"
    using AddVectors_outcome [OF now r(2,3)] by blast
  have "client_AddVectors (serve_add accepts env srv md) s vs = (map_option (\<lambda>x. FromRpc (grpcStatusFromError x)) x, t)"
    using True t(1) by (auto simp: client_AddVectors_def client_error_def client_call_def serve_add_def grpc_AddVectorsBatch_def success_or_def split: option.split)
  then have "s' = t" "e = None \<longleftrightarrow> x = None" using assms(2) by auto
  then show ?thesis using assms(1) t(2,3) by (auto simp: grpc_ready_def split: option.splits)
next
  case False
  then have "s' = s" "e \<noteq> None" using assms(2)
    by (auto simp: client_AddVectors_def client_error_def client_call_def serve_add_def grpcAuthInterceptor_def split: if_splits option.splits)
  then show ?thesis using assms(1) by auto
qed

interpretation grpc_load: vector_client "client_AddVectors (serve_add accepts env srv md)" "grpc_ready senv accepts env" "\<lambda>s. any_abs (svStore s)"
  for accepts env srv md senv
  by unfold_locales (rule serve_add_ok)

section \<open>The searches\<close>

record loadArgs =
  laVectors :: int
  laSearches :: int
  laDim :: int
  laBatchSize :: int
  laTopK :: int
  laConcurrency :: int

definition args_ok :: "loadArgs \<Rightarrow> bool" where
  "args_ok a \<longleftrightarrow> \<not> (laVectors a \<le> 0 \<or> laSearches a < 0 \<or> laDim a \<le> 0 \<or> laBatchSize a \<le> 0 \<or> laTopK a \<le> 0 \<or> laConcurrency a \<le> 0)"

text \<open>Where a worker stands, and what the workers share.\<close>

datatype worker = Claiming | Querying int | Returned

record ('w, 'e) searchRun =
  rnNext :: int
  rnWorkers :: "worker list"
  rnLatencies :: "int list"
  rnErr :: "(int \<times> 'e) option"
  rnSample :: "string option"
  rnWorld :: 'w

record searchStats =
  stCount :: int
  stTotal :: int
  stMax :: int
  stP50 :: int
  stP95 :: int
  stP99 :: int
  stSampleTop1 :: string

definition search_query :: "(float64 \<Rightarrow> float64) \<Rightarrow> (float64 \<Rightarrow> float64) \<Rightarrow> float64 \<Rightarrow> loadArgs \<Rightarrow> int \<Rightarrow> float64 list" where
  "search_query sin cos namespace a i = perturbVector cos (generatedVector sin namespace (i mod laVectors a) (laDim a)) i"

definition run_start :: "loadArgs \<Rightarrow> 'w \<Rightarrow> ('w, 'e) searchRun" where
  "run_start a w = \<lparr>rnNext = 0, rnWorkers = replicate (nat (laConcurrency a)) Claiming, rnLatencies = replicate (nat (laSearches a)) 0,
     rnErr = None, rnSample = None, rnWorld = w\<rparr>"

text \<open>A worker takes the next index, or returns when none is left.\<close>

definition claim :: "loadArgs \<Rightarrow> nat \<Rightarrow> ('w, 'e) searchRun \<Rightarrow> ('w, 'e) searchRun" where
  "claim a n st = st\<lparr>rnNext := rnNext st + 1, rnWorkers := (rnWorkers st)[n := if rnNext st \<ge> laSearches a then Returned else Querying (rnNext st)]\<rparr>"

text \<open>The answer to its search. The error channel has room for one error, later ones are dropped.\<close>

definition answered :: "nat \<Rightarrow> int \<Rightarrow> ('e + searchResult list) \<Rightarrow> 'w \<Rightarrow> int \<Rightarrow> ('w, 'e) searchRun \<Rightarrow> ('w, 'e) searchRun" where
  "answered n i r w elapsed st =
     (case r of
        Inl e \<Rightarrow> st\<lparr>rnErr := (case rnErr st of None \<Rightarrow> Some (i, e) | Some x \<Rightarrow> Some x), rnWorkers := (rnWorkers st)[n := Returned], rnWorld := w\<rparr>
      | Inr results \<Rightarrow> st\<lparr>rnLatencies := (rnLatencies st)[nat i := elapsed], rnWorkers := (rnWorkers st)[n := Claiming], rnWorld := w,
          rnSample := (if i = 0 \<and> results \<noteq> [] then Some (srID (hd results)) else rnSample st)\<rparr>)"

text \<open>Steps of the workers, with the calls made so far: index, answer and duration.\<close>

type_synonym 'e searchCall = "int \<times> ('e + searchResult list) \<times> int"

inductive search_step :: "('w \<Rightarrow> float64 list \<Rightarrow> int \<Rightarrow> ('e + searchResult list) \<times> 'w) \<Rightarrow> (int \<Rightarrow> float64 list) \<Rightarrow> loadArgs \<Rightarrow>
    'e searchCall list \<Rightarrow> ('w, 'e) searchRun \<Rightarrow> 'e searchCall list \<Rightarrow> ('w, 'e) searchRun \<Rightarrow> bool"
  for search :: "'w \<Rightarrow> float64 list \<Rightarrow> int \<Rightarrow> ('e + searchResult list) \<times> 'w" and query :: "int \<Rightarrow> float64 list" and a :: loadArgs where
  claim_next: "n < length (rnWorkers st) \<Longrightarrow> rnWorkers st ! n = Claiming \<Longrightarrow> search_step search query a cs st cs (claim a n st)"
| answer: "n < length (rnWorkers st) \<Longrightarrow> rnWorkers st ! n = Querying i \<Longrightarrow> search (rnWorld st) (query i) (laTopK a) = (r, w) \<Longrightarrow> 0 \<le> elapsed \<Longrightarrow>
    search_step search query a cs st (cs @ [(i, r, elapsed)]) (answered n i r w elapsed st)"

inductive searching :: "('w \<Rightarrow> float64 list \<Rightarrow> int \<Rightarrow> ('e + searchResult list) \<times> 'w) \<Rightarrow> (int \<Rightarrow> float64 list) \<Rightarrow> loadArgs \<Rightarrow> 'w \<Rightarrow>
    'e searchCall list \<Rightarrow> ('w, 'e) searchRun \<Rightarrow> bool"
  for search :: "'w \<Rightarrow> float64 list \<Rightarrow> int \<Rightarrow> ('e + searchResult list) \<times> 'w" and query :: "int \<Rightarrow> float64 list" and a :: loadArgs and w0 :: 'w where
  begin_run: "args_ok a \<Longrightarrow> searching search query a w0 [] (run_start a w0)"
| run_step: "searching search query a w0 cs st \<Longrightarrow> search_step search query a cs st cs' st' \<Longrightarrow> searching search query a w0 cs' st'"

definition percentileDuration :: "int list \<Rightarrow> int \<Rightarrow> int" where
  "percentileDuration vals percentile =
     (if vals = [] then 0
      else if percentile \<le> 0 then hd vals
      else if percentile \<ge> 100 then last vals
      else let i = (int (length vals) * percentile + 99) div 100; i = (if i < 1 then 1 else i) in vals ! nat (i - 1))"

text \<open>After \<^verbatim>\<open>wg.Wait\<close>. The order of durations is total, so the sorted slice is determined.\<close>

definition run_result :: "loadArgs \<Rightarrow> ('w, 'e) searchRun \<Rightarrow> (int \<times> 'e) + searchStats" where
  "run_result a st =
     (case rnErr st of
        Some e \<Rightarrow> Inl e
      | None \<Rightarrow>
          (let ls = rnLatencies st;
               (sum, most) = foldl (\<lambda>(sum, most) elapsed. (sum + elapsed, if elapsed > most then elapsed else most)) (0, 0) ls;
               sorted = sort ls
           in Inr \<lparr>stCount = laSearches a, stTotal = sum, stMax = most, stP50 = percentileDuration sorted 50, stP95 = percentileDuration sorted 95,
                stP99 = percentileDuration sorted 99, stSampleTop1 = (case rnSample st of None \<Rightarrow> [] | Some x \<Rightarrow> x)\<rparr>))"

section \<open>The workers serve every index once\<close>

fun in_flight :: "worker \<Rightarrow> int list" where
  "in_flight (Querying i) = [i]"
| "in_flight Claiming = []"
| "in_flight Returned = []"

definition flights :: "worker list \<Rightarrow> int list" where
  "flights ws = concat (map in_flight ws)"

lemma flights_update: "n < length ws \<Longrightarrow> mset (flights (ws[n := x])) + mset (in_flight (ws ! n)) = mset (flights ws) + mset (in_flight x)"
proof (induction ws arbitrary: n)
  case (Cons w ws)
  then show ?case by (cases n) (auto simp: flights_def ac_simps)
qed simp

lemma flights_replicate: "flights (replicate n Claiming) = []"
  by (induction n) (simp_all add: flights_def)

lemma flights_mem: "n < length ws \<Longrightarrow> ws ! n = Querying i \<Longrightarrow> i \<in> set (flights ws)"
  by (force simp: flights_def in_set_conv_nth)

text \<open>The failed calls in order, and the measure of what is left to do.\<close>

definition failures :: "(int \<times> ('e + searchResult list) \<times> int) list \<Rightarrow> (int \<times> 'e) list" where
  "failures cs = concat (map (\<lambda>(i, r, d). case r of Inl e \<Rightarrow> [(i, e)] | Inr x \<Rightarrow> []) cs)"

lemma failures_snoc [simp]:
  "failures (cs @ [(i, Inl e, d)]) = failures cs @ [(i, e)]" "failures (cs @ [(i, Inr x, d)]) = failures cs"
  by (simp_all add: failures_def)

text \<open>The nearest identifier of the first query, if it was found.\<close>

definition samples :: "(int \<times> ('e + searchResult list) \<times> int) list \<Rightarrow> string list" where
  "samples cs = concat (map (\<lambda>(i, r, d). if i = 0 then (case r of Inr (x # xs) \<Rightarrow> [srID x] | _ \<Rightarrow> []) else []) cs)"

lemma samples_snoc [simp]:
  "samples (cs @ [(i, r, d)]) = samples cs @ (if i = 0 then (case r of Inr (x # xs) \<Rightarrow> [srID x] | _ \<Rightarrow> []) else [])"
  by (simp add: samples_def)

lemma samples_none: "0 \<notin> set (map fst cs) \<Longrightarrow> samples cs = []"
  by (induction cs) (auto simp: samples_def)

fun worker_rank :: "worker \<Rightarrow> nat" where
  "worker_rank Claiming = 1"
| "worker_rank (Querying i) = 2"
| "worker_rank Returned = 0"

definition run_rank :: "loadArgs \<Rightarrow> ('w, 'e) searchRun \<Rightarrow> nat" where
  "run_rank a st = 2 * nat (laSearches a - rnNext st) + sum_list (map worker_rank (rnWorkers st))"

lemma rank_update: "n < length ws \<Longrightarrow> sum_list (map worker_rank (ws[n := x])) + worker_rank (ws ! n) = sum_list (map worker_rank ws) + worker_rank x"
proof (induction ws arbitrary: n)
  case (Cons w ws)
  then show ?case by (cases n) auto
qed simp

lemma claim_rank: "n < length (rnWorkers st) \<Longrightarrow> rnWorkers st ! n = Claiming \<Longrightarrow> run_rank a (claim a n st) < run_rank a st"
  using rank_update [of n "rnWorkers st" "if rnNext st \<ge> laSearches a then Returned else Querying (rnNext st)"]
  by (auto simp: run_rank_def claim_def split: if_splits)

lemma answered_rank: "n < length (rnWorkers st) \<Longrightarrow> rnWorkers st ! n = Querying i \<Longrightarrow> run_rank a (answered n i r w elapsed st) < run_rank a st"
  using rank_update [of n "rnWorkers st" Claiming] rank_update [of n "rnWorkers st" Returned]
  by (auto simp: run_rank_def answered_def split: sum.split)

definition run_inv :: "loadArgs \<Rightarrow> (int \<times> ('e + searchResult list) \<times> int) list \<Rightarrow> ('w, 'e) searchRun \<Rightarrow> bool" where
  "run_inv a cs st \<longleftrightarrow> args_ok a \<and> length (rnWorkers st) = nat (laConcurrency a) \<and> length (rnLatencies st) = nat (laSearches a) \<and> 0 \<le> rnNext st \<and>
     mset (map fst cs) + mset (flights (rnWorkers st)) = mset [0..min (rnNext st) (laSearches a) - 1] \<and>
     (\<forall>(i, r, d) \<in> set cs. 0 \<le> d \<and> (\<forall>x. r = Inr x \<longrightarrow> rnLatencies st ! nat i = d)) \<and>
     rnErr st = (case failures cs of [] \<Rightarrow> None | x # xs \<Rightarrow> Some x) \<and>
     (Returned \<in> set (rnWorkers st) \<longrightarrow> laSearches a \<le> rnNext st \<or> failures cs \<noteq> []) \<and>
     rnSample st = (case samples cs of [] \<Rightarrow> None | x # xs \<Rightarrow> Some x)"

lemma run_inv_start: "args_ok a \<Longrightarrow> run_inv a [] (run_start a w)"
  by (simp add: run_inv_def run_start_def flights_replicate failures_def samples_def args_ok_def)

lemma run_inv_indices:
  assumes "run_inv a cs st"
  shows "distinct (map fst cs @ flights (rnWorkers st))" and "\<forall>i \<in> set (map fst cs @ flights (rnWorkers st)). 0 \<le> i \<and> i < laSearches a"
proof -
  have m: "mset (map fst cs @ flights (rnWorkers st)) = mset [0..min (rnNext st) (laSearches a) - 1]" using assms by (simp add: run_inv_def)
  show "distinct (map fst cs @ flights (rnWorkers st))" using mset_eq_imp_distinct_iff [OF m] by simp
  show "\<forall>i \<in> set (map fst cs @ flights (rnWorkers st)). 0 \<le> i \<and> i < laSearches a" using mset_eq_setD [OF m] by auto
qed

lemma upto_extend: "0 \<le> i \<Longrightarrow> [0..i] = [0..i - 1] @ [i]"
  by (simp add: upto_rec2)

lemma run_inv_claim:
  assumes "run_inv a cs st" and n: "n < length (rnWorkers st)" "rnWorkers st ! n = Claiming"
  shows "run_inv a cs (claim a n st)"
proof -
  let ?x = "if rnNext st \<ge> laSearches a then Returned else Querying (rnNext st)"
  have inv: "0 \<le> rnNext st" "mset (map fst cs) + mset (flights (rnWorkers st)) = mset [0..min (rnNext st) (laSearches a) - 1]"
    using assms(1) by (simp_all add: run_inv_def)
  have "mset (flights ((rnWorkers st)[n := ?x])) = mset (flights (rnWorkers st)) + mset (in_flight ?x)"
    using flights_update [OF n(1), of ?x] n(2) by simp
  moreover have "mset [0..min (rnNext st) (laSearches a) - 1] + mset (in_flight ?x) = mset [0..min (rnNext st + 1) (laSearches a) - 1]"
    using upto_extend [OF inv(1)] by (cases "rnNext st < laSearches a") (simp_all add: min_absorb1 min_absorb2)
  ultimately have "mset (map fst cs) + mset (flights ((rnWorkers st)[n := ?x])) = mset [0..min (rnNext st + 1) (laSearches a) - 1]"
    using inv(2) by (metis (no_types, lifting) add.assoc)
  moreover have "Returned \<in> set ((rnWorkers st)[n := ?x]) \<longrightarrow> laSearches a \<le> rnNext st + 1 \<or> failures cs \<noteq> []"
    using assms(1) set_update_subset_insert [of "rnWorkers st" n ?x] by (auto simp: run_inv_def split: if_splits)
  ultimately show ?thesis using assms(1) by (simp add: run_inv_def claim_def)
qed

lemma run_inv_answer:
  assumes "run_inv a cs st" and n: "n < length (rnWorkers st)" "rnWorkers st ! n = Querying i" and "0 \<le> d"
  shows "run_inv a (cs @ [(i, r, d)]) (answered n i r w d st)"
proof -
  have i: "i \<in> set (flights (rnWorkers st))" using flights_mem [OF n] .
  have new: "i \<notin> set (map fst cs)" "0 \<le> i" "i < laSearches a" using run_inv_indices [OF assms(1)] i by auto
  have at: "nat j \<noteq> nat i" if "(j, r', d') \<in> set cs" for j r' d' using bspec [OF run_inv_indices(2) [OF assms(1)], of j] new that by (force simp: eq_nat_nat_iff)
  have len: "nat i < length (rnLatencies st)" using assms(1) new by (auto simp: run_inv_def)
  have cover: "mset (map fst cs) + mset (flights (rnWorkers st)) = mset [0..min (rnNext st) (laSearches a) - 1]" using assms(1) by (simp add: run_inv_def)
  have fl: "mset (map fst (cs @ [(i, r, d)])) + mset (flights ((rnWorkers st)[n := x])) = mset [0..min (rnNext st) (laSearches a) - 1]"
    if "in_flight x = []" for x using flights_update [OF n(1), of x] n(2) that unfolding cover [symmetric] by simp
  show ?thesis
  proof (cases r)
    case (Inl e)
    then show ?thesis using assms fl [of Returned] by (auto simp: run_inv_def answered_def split: list.splits option.splits)
  next
    case (Inr x)
    have ret: "Returned \<in> set ((rnWorkers st)[n := Claiming]) \<Longrightarrow> Returned \<in> set (rnWorkers st)"
      using set_update_subset_insert [of "rnWorkers st" n Claiming] by auto
    have lat: "\<forall>(j, r', d') \<in> set (cs @ [(i, r, d)]). 0 \<le> d' \<and> (\<forall>x. r' = Inr x \<longrightarrow> (rnLatencies st)[nat i := d] ! nat j = d')"
      using assms(1,4) at len by (fastforce simp: run_inv_def)
    have "samples cs = []" if "i = 0" using samples_none new that by blast
    then have "(if i = 0 \<and> x \<noteq> [] then Some (srID (hd x)) else rnSample st) = (case samples (cs @ [(i, r, d)]) of [] \<Rightarrow> None | y # ys \<Rightarrow> Some y)"
      using assms(1) Inr by (auto simp: run_inv_def split: list.split)
    then show ?thesis using assms fl [of Claiming] Inr ret lat by (simp add: run_inv_def answered_def)
  qed
qed

lemma step_inv: "search_step search query a cs st cs' st' \<Longrightarrow> run_inv a cs st \<Longrightarrow> run_inv a cs' st'"
  by (induction rule: search_step.induct) (auto intro: run_inv_claim run_inv_answer)

lemma step_rank: "search_step search query a cs st cs' st' \<Longrightarrow> run_rank a st' < run_rank a st"
  by (induction rule: search_step.induct) (auto intro: claim_rank answered_rank)

lemma step_enabled:
  assumes "n < length (rnWorkers st)" and "rnWorkers st ! n \<noteq> Returned"
  shows "\<exists>cs' st'. search_step search query a cs st cs' st'"
proof (cases "rnWorkers st ! n")
  case (Querying i)
  obtain r w where "search (rnWorld st) (query i) (laTopK a) = (r, w)" by force
  from search_step.answer [of n st i search query a r w 0, OF assms(1) Querying this] show ?thesis by auto
qed (use search_step.claim_next [OF assms(1)] assms(2) in blast)+

inductive_cases search_stepE: "search_step search query a cs st cs' st'"

lemma returned_ends: "set (rnWorkers st) = {Returned} \<Longrightarrow> \<not> search_step search query a cs st cs' st'"
  by (erule contrapos_pn, erule search_stepE) (metis nth_mem singletonD worker.distinct(3), metis nth_mem singletonD worker.distinct(5))

lemma searching_inv: "searching search query a w0 cs st \<Longrightarrow> run_inv a cs st"
  by (induction rule: searching.induct) (auto intro: run_inv_start step_inv)

text \<open>The nearest rank: at least the given share of the values is not larger, and less than it is smaller.\<close>

definition nearest_rank :: "int list \<Rightarrow> int \<Rightarrow> int \<Rightarrow> bool" where
  "nearest_rank ls p v \<longleftrightarrow> v \<in> set ls \<and> p * int (length ls) \<le> 100 * int (length (filter (\<lambda>x. x \<le> v) ls)) \<and>
     100 * int (length (filter (\<lambda>x. x < v) ls)) < p * int (length ls)"

lemma sorted_rank:
  assumes "sorted xs" and "k < length xs"
  shows "Suc k \<le> length (filter (\<lambda>x. x \<le> xs ! k) xs)" and "length (filter (\<lambda>x. x < xs ! k) xs) \<le> k"
proof -
  have "{0..k} \<subseteq> {i. i < length xs \<and> xs ! i \<le> xs ! k}" using assms sorted_nth_mono by fastforce
  from card_mono [OF _ this] show "Suc k \<le> length (filter (\<lambda>x. x \<le> xs ! k) xs)" by (simp add: length_filter_conv_card)
  have "{i. i < length xs \<and> xs ! i < xs ! k} \<subseteq> {0..<k}" using assms sorted_nth_mono by (fastforce simp: not_le [symmetric])
  from card_mono [OF _ this] show "length (filter (\<lambda>x. x < xs ! k) xs) \<le> k" by (simp add: length_filter_conv_card)
qed

lemma percentile_rank:
  assumes "ls \<noteq> []" and "0 < p" and "p < 100"
  shows "nearest_rank ls p (percentileDuration (sort ls) p)"
proof -
  let ?n = "int (length ls)"
  define i where "i = (?n * p + 99) div 100"
  have n: "0 < ?n" "sort ls \<noteq> []" using assms(1) by (simp, metis set_empty set_sort)
  have "1 \<le> ?n * p" using n(1) assms(2) by (simp add: int_one_le_iff_zero_less)
  then have i: "1 \<le> i" "p * ?n \<le> 100 * i" "100 * (i - 1) < p * ?n" by (simp_all add: i_def mult.commute)
  have "?n * p \<le> ?n * 100" using assms(3) by (intro mult_left_mono) auto
  then have k: "nat (i - 1) < length (sort ls)" using i(1) by (auto simp: i_def)
  have v: "percentileDuration (sort ls) p = sort ls ! nat (i - 1)"
    using assms i(1) n(2) by (simp add: percentileDuration_def Let_def i_def)
  have f: "length (filter P (sort ls)) = length (filter P ls)" for P by (simp flip: size_mset)
  have "int (length (filter (\<lambda>x. x \<le> sort ls ! nat (i - 1)) ls)) \<ge> i" "int (length (filter (\<lambda>x. x < sort ls ! nat (i - 1)) ls)) \<le> i - 1"
    using sorted_rank [OF sorted_sort k] i(1) unfolding f by linarith+
  moreover have "sort ls ! nat (i - 1) \<in> set ls" using nth_mem [OF k] by simp
  moreover have "q \<le> 100 * c \<and> 100 * l < q" if "i \<le> c" "l \<le> i - 1" "q \<le> 100 * i" "100 * (i - 1) < q" for c l q :: int using that by auto
  ultimately show ?thesis unfolding nearest_rank_def v using i(2,3) by blast
qed

lemma nearest_rank_mset: "mset ls = mset ls' \<Longrightarrow> nearest_rank ls p v = nearest_rank ls' p v"
  by (metis (no_types, lifting) mset_eq_length mset_eq_setD mset_filter nearest_rank_def)

lemma stats_fold:
  "foldl (\<lambda>(sum, most) elapsed. (sum + elapsed, if elapsed > most then elapsed else most)) (s, m :: int) ls = (s + sum_list ls, Max (insert m (set ls)))"
proof (induction ls arbitrary: s m)
  case (Cons x ls)
  have "Max (insert m (insert x (set ls))) = Max (insert (max m x) (set ls))" by (cases "ls = []") (simp_all add: max.assoc)
  then show ?case using Cons by (auto simp: max_def)
qed simp

text \<open>When all workers have returned without an error, the latencies are the durations of the calls.\<close>

lemma latencies_calls:
  assumes "run_inv a cs st" and "set (rnWorkers st) = {Returned}" and "failures cs = []"
  shows "mset (map fst cs) = mset [0..laSearches a - 1]" and "mset (rnLatencies st) = mset (map (\<lambda>(i, r, d). d) cs)"
proof -
  have "flights (rnWorkers st) = []" using assms(2) by (auto simp: flights_def)
  then show m: "mset (map fst cs) = mset [0..laSearches a - 1]" using assms by (auto simp: run_inv_def min_absorb2)
  have ok: "\<exists>x. r = Inr x" if "(i, r, d) \<in> set cs" for i r d using assms(3) that by (cases r) (force simp: failures_def)+
  have "map (\<lambda>(i, r, d). d) cs = map (\<lambda>i. rnLatencies st ! nat i) (map fst cs)"
    using assms(1) ok by (force simp: run_inv_def)
  then have "mset (map (\<lambda>(i, r, d). d) cs) = image_mset (\<lambda>i. rnLatencies st ! nat i) (mset (map fst cs))" by (metis mset_map)
  also have "\<dots> = mset (map (\<lambda>i. rnLatencies st ! nat i) [0..laSearches a - 1])" unfolding m by simp
  also have "map (\<lambda>i. rnLatencies st ! nat i) [0..laSearches a - 1] = rnLatencies st"
    using assms(1) by (intro nth_equalityI) (auto simp: run_inv_def)
  finally show "mset (rnLatencies st) = mset (map (\<lambda>(i, r, d). d) cs)" by simp
qed

section \<open>The command\<close>

datatype 'c loadClient = HttpLoad string | GrpcLoad "'c grpcVectorClient"

text \<open>\<open>dial\<close> is \<^verbatim>\<open>grpc.NewClient\<close>, which may refuse an address.\<close>

definition newLoadClient :: "(string \<Rightarrow> 'o list \<Rightarrow> 'c result) \<Rightarrow> 'o \<Rightarrow> string \<Rightarrow> string \<Rightarrow> string \<Rightarrow> ('c loadClient \<times> string) result" where
  "newLoadClient dial insecure transport baseURL grpcAddr =
     (if transport = ''http'' then let base = rev (dropWhile (\<lambda>c. c = CHR ''/'') (rev baseURL)) in Inr (HttpLoad base, base)
      else if transport = ''grpc'' then
        (case NewGRPCVectorClient dial insecure grpcAddr of Inl e \<Rightarrow> Inl e | Inr c \<Rightarrow> Inr (GrpcLoad c, grpcAddr))
      else Inl (ErrIO (''unsupported transport '' @ transport)))"

text \<open>
  The exit code of the command, for the operations of the client it made: \<open>add\<close> adds a batch, and \<open>run\<close> is the result of the searches, for some interleaving of the
  workers. \<open>None\<close> is a run that does not end.
\<close>

definition loadgen_main :: "(float64 \<Rightarrow> float64) \<Rightarrow> (string \<Rightarrow> 'o list \<Rightarrow> 'c result) \<Rightarrow> 'o \<Rightarrow> ('c loadClient \<Rightarrow> 'w \<Rightarrow> vector list \<Rightarrow> 'e option \<times> 'w) \<Rightarrow>
    ('c loadClient \<Rightarrow> float64 \<Rightarrow> 'w \<Rightarrow> ((int \<times> 'e) + searchStats) \<times> 'w) \<Rightarrow> loadArgs \<Rightarrow> string \<Rightarrow> string \<Rightarrow> string \<Rightarrow> string \<Rightarrow> 'w \<Rightarrow> (int \<times> 'w) option" where
  "loadgen_main sin dial insecure add run a transport baseURL grpcAddr prefix w =
     (if \<not> args_ok a then Some (1, w)
      else case newLoadClient dial insecure (ToLower (TrimSpace transport)) baseURL grpcAddr of
          Inl e \<Rightarrow> Some (1, w)
        | Inr (client, target) \<Rightarrow>
            (case ingestVectors sin (add client) prefix (namespaceOffset prefix) (laVectors a) (laDim a) (laBatchSize a) w of
               None \<Rightarrow> None
             | Some (Some e, w1) \<Rightarrow> Some (1, w1)
             | Some (None, w1) \<Rightarrow>
                 (if laSearches a > 0
                  then case run client (namespaceOffset prefix) w1 of (Inl e, w2) \<Rightarrow> Some (1, w2) | (Inr stats, w2) \<Rightarrow> Some (0, w2)
                  else Some (0, w1))))"

context vector_client
begin

text \<open>The command ends, and when it exits with zero every generated vector has been added before the searches.\<close>

lemma loadgen_main_ok:
  assumes "ready w" and "\<And>c. cadd c = add"
  shows "\<exists>code w'. loadgen_main sin dial insecure cadd run a transport baseURL grpcAddr prefix w = Some (code, w') \<and> code \<in> {0, 1} \<and>
    (code = 0 \<longrightarrow> (\<exists>w1. held w1 = foldl vput (held w) (map (payload sin prefix (namespaceOffset prefix) (laDim a)) [0..laVectors a - 1]) \<and>
      (w' = w1 \<or> (\<exists>c. w' = snd (run c (namespaceOffset prefix) w1)))))"
proof (cases "args_ok a \<and> isl (newLoadClient dial insecure (ToLower (TrimSpace transport)) baseURL grpcAddr) = False")
  case True
  obtain c t where c: "newLoadClient dial insecure (ToLower (TrimSpace transport)) baseURL grpcAddr = Inr (c, t)" using True by (cases "newLoadClient dial insecure (ToLower (TrimSpace transport)) baseURL grpcAddr") auto
  have "0 < laBatchSize a" using True by (simp add: args_ok_def)
  then obtain err w1 where i: "ingestVectors sin add prefix (namespaceOffset prefix) (laVectors a) (laDim a) (laBatchSize a) w = Some (err, w1)"
      "ingested (payload sin prefix (namespaceOffset prefix) (laDim a)) (laVectors a) (held w) err (held w1)"
    using ingest_from_ok [OF _ order_refl assms(1), of "laBatchSize a" "held w"] unfolding ingestVectors_def by (fastforce simp: min_def)
  show ?thesis
  proof (cases err)
    case None
    then have m: "held w1 = foldl vput (held w) (map (payload sin prefix (namespaceOffset prefix) (laDim a)) [0..laVectors a - 1])" using i(2) by (simp add: ingested_def)
    obtain r w2 where r: "run c (namespaceOffset prefix) w1 = (r, w2)" by force
    show ?thesis using True c i(1) None m r assms(2) by (cases r) (auto simp: loadgen_main_def intro!: exI [of _ w1] exI [of _ c])
  next
    case (Some x)
    then show ?thesis using True c i(1) assms(2) by (auto simp: loadgen_main_def)
  qed
next
  case False
  then show ?thesis by (auto simp: loadgen_main_def isl_def split: sum.split)
qed

end

text \<open>What a successful run has done and reports.\<close>

definition summarizes :: "loadArgs \<Rightarrow> 'e searchCall list \<Rightarrow> searchStats \<Rightarrow> bool" where
  "summarizes a cs stats \<longleftrightarrow> mset (map fst cs) = mset [0..laSearches a - 1] \<and> (\<forall>(i, r, d) \<in> set cs. \<exists>x. r = Inr x) \<and>
           (let ds = map (\<lambda>(i, r, d). d) cs
            in stCount stats = int (length cs) \<and> stTotal stats = sum_list ds \<and> stMax stats = Max (insert 0 (set ds)) \<and>
               (cs \<noteq> [] \<longrightarrow> nearest_rank ds 50 (stP50 stats) \<and> nearest_rank ds 95 (stP95 stats) \<and> nearest_rank ds 99 (stP99 stats)))"

section \<open>Properties\<close>



text \<open>
  C22. The searches of a load run, for any number of workers and any interleaving of their steps. While a worker has not returned, some worker can take a step, and every
  step brings the run nearer to its end. When all have returned, the run reports an error that one of the calls gave, or no call failed, every index was searched exactly once, and
  the summary is that of the durations of these calls: their number, sum and maximum, and their percentiles by nearest rank.
\<close>

theorem search_load_complete:
  assumes "searching search query a w0 cs st"
  shows "(\<forall>cs' st'. search_step search query a cs st cs' st' \<longrightarrow> run_rank a st' < run_rank a st) \<and>
    (if set (rnWorkers st) \<noteq> {Returned} then \<exists>cs' st'. search_step search query a cs st cs' st'
     else (\<nexists>cs' st'. search_step search query a cs st cs' st') \<and>
       (case run_result a st of
          Inl (i, e) \<Rightarrow> \<exists>d. (i, Inl e, d) \<in> set cs
        | Inr stats \<Rightarrow> summarizes a cs stats))"
proof -
  note inv = searching_inv [OF assms]
  have ne: "rnWorkers st \<noteq> []" using inv by (auto simp: run_inv_def args_ok_def)
  have busy: "\<exists>cs' st'. search_step search query a cs st cs' st'" if "set (rnWorkers st) \<noteq> {Returned}"
    using that ne step_enabled by (metis in_set_conv_nth insert_iff set_empty subset_singletonD subsetI)
  have err: "\<exists>d. (i, Inl e, d) \<in> set cs" if "rnErr st = Some (i, e)" for i e
  proof -
    have "(i, e) \<in> set (failures cs)" using inv that by (auto simp: run_inv_def split: list.splits)
    then show ?thesis by (auto simp: failures_def split: sum.splits)
  qed
  have ok: "\<exists>stats. run_result a st = Inr stats \<and> summarizes a cs stats"
    if "set (rnWorkers st) = {Returned}" "rnErr st = None"
  proof -
    have f: "failures cs = []" using inv that(2) by (simp add: run_inv_def split: list.splits)
    note calls = latencies_calls [OF inv that(1) f]
    let ?ds = "map (\<lambda>(i, r, d). d) cs"
    have all: "\<forall>(i, r, d) \<in> set cs. \<exists>x. r = Inr x" using f by (force simp: failures_def split: sum.splits)
    have "rnLatencies st \<noteq> []" if "cs \<noteq> []" using calls(2) that by auto
    then have "cs \<noteq> [] \<longrightarrow> nearest_rank ?ds p (percentileDuration (sort (rnLatencies st)) p)" if "0 < p" "p < 100" for p
      using percentile_rank [OF _ that, of "rnLatencies st"] nearest_rank_mset [OF calls(2)] by simp
    moreover have "int (length cs) = laSearches a" using mset_eq_length [OF calls(1)] inv by (simp add: run_inv_def args_ok_def)
    moreover have "sum_list (rnLatencies st) = sum_list ?ds" "set (rnLatencies st) = set ?ds"
      using calls(2) by (metis sum_mset_sum_list, metis mset_eq_setD)
    ultimately show ?thesis using that(2) calls(1) all by (simp add: run_result_def summarizes_def Let_def stats_fold)
  qed
  have "case run_result a st of Inl (i, e) \<Rightarrow> \<exists>d. (i, Inl e, d) \<in> set cs | Inr stats \<Rightarrow> summarizes a cs stats" if "set (rnWorkers st) = {Returned}"
  proof (cases "rnErr st")
    case None
    then show ?thesis using ok [OF that] by auto
  next
    case (Some x)
    then show ?thesis using err by (cases x) (simp add: run_result_def)
  qed
  then show ?thesis using step_rank [of search query a cs st] busy returned_ends [of st search query a cs] by simp
qed

definition sample_args :: loadArgs where
  "sample_args = \<lparr>laVectors = 1, laSearches = 1, laDim = 1, laBatchSize = 1, laTopK = 1, laConcurrency = 1\<rparr>"

theorem search_load_complete_witness:
  "\<exists>(st :: (unit, unit) searchRun) stats. searching (\<lambda>w q k. (Inr [], w)) (\<lambda>i. [0]) sample_args () [(0, Inr [], 7)] st \<and>
     run_result sample_args st = Inr stats \<and> nearest_rank [7] 95 (stP95 stats)"
proof -
  let ?search = "\<lambda>(w :: unit) (q :: float64 list) (k :: int). (Inr [] :: unit + searchResult list, w)"
  let ?s0 = "run_start sample_args () :: (unit, unit) searchRun"
  let ?s1 = "claim sample_args 0 ?s0" let ?s2 = "answered 0 0 (Inr []) () 7 ?s1" let ?s3 = "claim sample_args 0 ?s2"
  note d = sample_args_def run_start_def claim_def answered_def
  have "searching ?search (\<lambda>i. [0]) sample_args () [] ?s0" by (rule searching.begin_run) (simp add: args_ok_def sample_args_def)
  moreover have "search_step ?search (\<lambda>i. [0]) sample_args [] ?s0 [] ?s1" by (rule search_step.claim_next) (simp_all add: d)
  moreover have "search_step ?search (\<lambda>i. [0]) sample_args [] ?s1 ([] @ [(0, Inr [], 7)]) ?s2" by (rule search_step.answer) (simp_all add: d)
  moreover have "search_step ?search (\<lambda>i. [0]) sample_args [(0, Inr [], 7)] ?s2 [(0, Inr [], 7)] ?s3" by (rule search_step.claim_next) (simp_all add: d)
  ultimately have r: "searching ?search (\<lambda>i. [0]) sample_args () [(0, Inr [], 7)] ?s3"
    using searching.run_step [of ?search "\<lambda>i. [0]" sample_args "()"] by (metis append_Nil)
  have "set (rnWorkers ?s3) = {Returned}" "run_result sample_args ?s3 = Inr (projr (run_result sample_args ?s3))"
    by (simp_all add: d run_result_def Let_def)
  then show ?thesis using search_load_complete [OF r] r
    by (intro exI [of _ ?s3] exI [of _ "projr (run_result sample_args ?s3)"]) (auto simp: summarizes_def Let_def split: sum.splits)
qed

end
