(* ===== verification/Handlers.thy ===== *)
theory Handlers
  imports HttpApi
begin

text \<open>
  \<^verbatim>\<open>api/http/handlers.go\<close>: the routes for programs that mount the handlers of a server on a router of their own. The router of package
  \<^verbatim>\<open>gorilla/mux\<close> is a parameter: it picks a route of the table or answers with a status of its own. No program of the repository uses these routes.
\<close>

datatype handlersRoute = HHealth | HListVectors | HAddVector | HSearchVectors | HGetVector | HDeleteVector

definition RegisterRoutes :: "(string \<times> string \<times> handlersRoute) list" where
  "RegisterRoutes =
     [(''/health'', ''GET'', HHealth), (''/vectors'', ''GET'', HListVectors), (''/vectors'', ''POST'', HAddVector),
      (''/vectors/search'', ''POST'', HSearchVectors), (''/vectors/{id}'', ''GET'', HGetVector), (''/vectors/{id}'', ''DELETE'', HDeleteVector)]"

fun handlers_call :: "'v httpEnv \<Rightarrow> httpServer \<Rightarrow> handlersRoute \<Rightarrow> httpRequest \<Rightarrow> 'v httpState \<Rightarrow> (httpResponse \<times> 'v httpState) option" where
  "handlers_call env srv HHealth r st = Some (HealthHandler, st)"
| "handlers_call env srv HListVectors r st = on_service (\<lambda>s. Some (ListVectorsHandler (heService env) r s)) st"
| "handlers_call env srv HAddVector r st = on_service (AddVectorHandler env srv r) st"
| "handlers_call env srv HSearchVectors r st = on_service (SearchVectorsHandler env srv r) st"
| "handlers_call env srv HGetVector r st = on_service (\<lambda>s. Some (GetVectorHandler (heService env) r s)) st"
| "handlers_call env srv HDeleteVector r st = on_service (DeleteVectorHandler (heService env) r) st"

definition handlers_serve :: "((string \<times> string \<times> handlersRoute) list \<Rightarrow> httpRequest \<Rightarrow> nat + handlersRoute) \<Rightarrow> 'v httpEnv \<Rightarrow> httpServer \<Rightarrow>
    httpRequest \<Rightarrow> 'v httpState \<Rightarrow> (httpResponse \<times> 'v httpState) option" where
  "handlers_serve router env srv r st =
     (case router RegisterRoutes r of
        Inl status \<Rightarrow> Some (respond status NoBody, st)
      | Inr route \<Rightarrow> handlers_call env srv route r st)"

section \<open>What the routes do\<close>

lemma get_delete_steps:
  assumes "http_env_ok senv env"
  shows "GetVectorHandler (heService env) r s = (resp, s') \<Longrightarrow> service_step senv s s'"
    and "DeleteVectorHandler (heService env) r s = Some (resp, s') \<Longrightarrow> service_step senv s s'"
proof -
  have on: "runs_on senv (heService env)" using assms by (simp add: http_env_ok_def)
  show "service_step senv s s'" if "GetVectorHandler (heService env) r s = (resp, s')"
    using that svc_reach.get [OF _ on] by (auto simp: GetVectorHandler_def service_step_def split: prod.splits sum.splits)
  show "service_step senv s s'" if "DeleteVectorHandler (heService env) r s = Some (resp, s')"
    using that svc_reach.delete [OF _ on] by (auto simp: DeleteVectorHandler_def service_step_def)
qed

text \<open>A request is at most one operation of the service, whatever route the router takes.\<close>

theorem handlers_refine_service:
  assumes "http_env_ok senv env" and "small_bodies srv" and "handlers_serve router env srv r st = Some (resp, st')"
  shows "service_step senv (xsService st) (xsService st') \<and> xsLimiter st' = xsLimiter st"
proof (cases "router RegisterRoutes r")
  case (Inl status)
  then show ?thesis using assms(3) by (auto simp: handlers_serve_def)
next
  case (Inr route)
  then have "handlers_call env srv route r st = Some (resp, st')" using assms(3) by (simp add: handlers_serve_def)
  note c = this
  show ?thesis
  proof (cases "route = HHealth")
    case False
    then have "\<exists>h. on_service h st = Some (resp, st') \<and> h \<in> {AddVectorHandler env srv r, SearchVectorsHandler env srv r,
        \<lambda>s. Some (ListVectorsHandler (heService env) r s), \<lambda>s. Some (GetVectorHandler (heService env) r s), DeleteVectorHandler (heService env) r}"
      using c by (cases route) auto
    then show ?thesis using on_service_Some handler_steps [OF assms(1,2)] get_delete_steps [OF assms(1)] by fastforce
  qed (use c in simp)
qed

text \<open>The routes lead past the middleware of the server: neither the key nor the limits make a difference.\<close>

theorem handlers_ignore_auth:
  "handlers_serve router env (srv\<lparr>hsAuthEnabled := b, hsApiKey := key\<rparr>) r st = handlers_serve router env srv r st"
proof (cases "router RegisterRoutes r")
  case (Inr route)
  have "AddVectorHandler env (srv\<lparr>hsAuthEnabled := b, hsApiKey := key\<rparr>) r = AddVectorHandler env srv r"
    "SearchVectorsHandler env (srv\<lparr>hsAuthEnabled := b, hsApiKey := key\<rparr>) r = SearchVectorsHandler env srv r"
    by (rule ext, simp add: AddVectorHandler_def SearchVectorsHandler_def readJSON_def)+
  then show ?thesis using Inr by (cases route) (simp_all add: handlers_serve_def)
qed (simp add: handlers_serve_def)

end
