(* ===== verification/CheckCoverage.thy ===== *)
theory CheckCoverage
  imports NetText GoFloat
begin

text \<open>
  \<^verbatim>\<open>tools/checkcoverage/main.go\<close>: the command that fails the build when a package is covered too little. The commands it starts act on a state of the
  world; \<^verbatim>\<open>strconv.ParseFloat\<close>, the file system and the environment are arguments. Paths have slashes as separators.
\<close>

section \<open>The module root\<close>

definition filepath_Join :: "string \<Rightarrow> string \<Rightarrow> string" where
  "filepath_Join dir name = path_Clean (if dir = [] then name else dir @ CHR ''/'' # name)"

partial_function (option) root_loop :: "(string \<Rightarrow> bool) \<Rightarrow> string \<Rightarrow> (string + string) option" where
  "root_loop exists dir =
     (if exists (filepath_Join dir ''go.mod'') then Some (Inr dir)
      else let parent = filepath_Dir dir
           in if parent = dir then Some (Inl (''go.mod not found from '' @ dir)) else root_loop exists parent)"

definition findModuleRoot :: "(string \<Rightarrow> bool) \<Rightarrow> string result \<Rightarrow> (string + string) option" where
  "findModuleRoot exists getwd = (case getwd of Inl e \<Rightarrow> Some (Inl ''getwd'') | Inr dir \<Rightarrow> root_loop exists dir)"

text \<open>Absolute paths by their segments.\<close>

definition seg_ok :: "string \<Rightarrow> bool" where
  "seg_ok seg \<longleftrightarrow> seg \<noteq> [] \<and> CHR ''/'' \<notin> set seg \<and> seg \<noteq> ''.'' \<and> seg \<noteq> ''..''"

definition abs_path :: "string list \<Rightarrow> string" where
  "abs_path segs = CHR ''/'' # join_with CHR ''/'' segs"

lemma split_at_no_sep: "sep \<notin> set s \<Longrightarrow> split_at sep acc s = [rev acc @ s]"
  by (induction s arbitrary: acc) auto

lemma split_at_append: "sep \<notin> set s \<Longrightarrow> split_at sep acc (s @ sep # r) = (rev acc @ s) # split_at sep [] r"
  by (induction s arbitrary: acc) auto

lemma Split_cons: "sep \<notin> set s \<Longrightarrow> Split (s @ sep # r) sep = s # Split r sep"
  by (simp add: Split_def split_at_append)

lemma join_snoc: "join_with sep (segs @ [x]) = (if segs = [] then x else join_with sep segs @ sep # x)"
proof (induction segs)
  case (Cons a segs)
  then show ?case by (cases segs) auto
qed simp

lemma Split_join_with: "segs \<noteq> [] \<Longrightarrow> \<forall>s \<in> set segs. sep \<notin> set s \<Longrightarrow> Split (join_with sep segs) sep = segs"
proof (induction segs rule: induct_list012)
  case (2 x)
  then show ?case by (simp add: Split_def split_at_no_sep)
next
  case (3 x y segs)
  then show ?case by (simp add: Split_cons)
qed simp

lemma clean_ok: "\<forall>s \<in> set segs. seg_ok s \<Longrightarrow> foldl (clean_step True) out segs = out @ segs"
  by (induction segs arbitrary: out) (auto simp: clean_step_def seg_ok_def)

text \<open>Cleaning drops empty segments and leaves the others of an absolute path.\<close>

lemma Clean_abs:
  assumes "\<forall>s \<in> set segs. seg_ok s"
  shows "path_Clean (abs_path (segs @ [])) = abs_path segs" and "path_Clean (abs_path (segs @ [[]])) = abs_path segs"
proof -
  have e: "CHR ''/'' \<notin> set s" if "s \<in> set segs" for s using assms that by (auto simp: seg_ok_def)
  have s: "Split (CHR ''/'' # r) CHR ''/'' = [] # Split r CHR ''/''" for r by (simp add: Split_def)
  have "Split (join_with CHR ''/'' (segs @ [[]])) CHR ''/'' = segs @ [[]]" by (rule Split_join_with) (use e in auto)
  then show "path_Clean (abs_path (segs @ [[]])) = abs_path segs"
    using clean_ok [OF assms, of "[]"] by (simp add: path_Clean_def abs_path_def s Let_def clean_step_def)
  show "path_Clean (abs_path (segs @ [])) = abs_path segs"
  proof (cases "segs = []")
    case True
    then show ?thesis by (simp add: path_Clean_def abs_path_def Split_def clean_step_def)
  next
    case False
    then have "Split (join_with CHR ''/'' segs) CHR ''/'' = segs" using e by (intro Split_join_with) auto
    then show ?thesis using clean_ok [OF assms, of "[]"] by (simp add: path_Clean_def abs_path_def s Let_def clean_step_def)
  qed
qed

lemma Dir_abs:
  assumes "\<forall>s \<in> set segs. seg_ok s"
  shows "filepath_Dir (abs_path segs) = abs_path (butlast segs)"
proof (cases segs rule: rev_cases)
  case Nil
  then show ?thesis using Clean_abs(1) [of "[]"] by (simp add: filepath_Dir_def abs_path_def)
next
  case (snoc ys x)
  have ok: "\<forall>s \<in> set ys. seg_ok s" "CHR ''/'' \<notin> set x" using assms snoc by (auto simp: seg_ok_def)
  have d: "rev (dropWhile (\<lambda>c. c \<noteq> CHR ''/'') (rev (p @ CHR ''/'' # x))) = p @ ''/''" for p
    using ok(2) by (simp add: dropWhile_append3) (metis (mono_tags, lifting) dropWhile.simps(2) dropWhile_append2 rev.simps rev_rev_ident set_rev)
  show ?thesis
  proof (cases "ys = []")
    case True
    then show ?thesis using d [of "[]"] Clean_abs(1) [of "[]"] snoc by (simp add: filepath_Dir_def abs_path_def)
  next
    case False
    then have "abs_path segs = (CHR ''/'' # join_with CHR ''/'' ys) @ CHR ''/'' # x" using snoc by (simp add: abs_path_def join_snoc)
    moreover have "abs_path (ys @ [[]]) = (CHR ''/'' # join_with CHR ''/'' ys) @ ''/''" using False by (simp add: abs_path_def join_snoc)
    ultimately show ?thesis unfolding filepath_Dir_def using d Clean_abs(2) [OF ok(1)] snoc by (metis butlast_snoc)
  qed
qed

lemma seg_go_mod: "seg_ok ''go.mod''"
  by (simp add: seg_ok_def)

lemma Join_abs:
  assumes "\<forall>s \<in> set segs. seg_ok s" and "seg_ok name"
  shows "filepath_Join (abs_path segs) name = abs_path (segs @ [name])"
proof (cases "segs = []")
  case True
  have "Split name CHR ''/'' = [name]" using assms(2) by (simp add: Split_def split_at_no_sep seg_ok_def)
  then show ?thesis using True assms(2) by (simp add: filepath_Join_def abs_path_def path_Clean_def Split_def clean_step_def seg_ok_def)
next
  case False
  then have "abs_path segs @ CHR ''/'' # name = abs_path ((segs @ [name]) @ [])" by (simp add: abs_path_def join_snoc)
  moreover have "\<forall>s \<in> set (segs @ [name]). seg_ok s" using assms by simp
  ultimately show ?thesis unfolding filepath_Join_def using Clean_abs(1) [of "segs @ [name]"] by (simp add: abs_path_def)
qed

lemma abs_butlast: "\<forall>s \<in> set segs. seg_ok s \<Longrightarrow> segs \<noteq> [] \<Longrightarrow> abs_path (butlast segs) \<noteq> abs_path segs"
proof (cases segs rule: rev_cases)
  case (snoc ys x)
  assume "\<forall>s \<in> set segs. seg_ok s"
  then have "x \<noteq> []" using snoc by (simp add: seg_ok_def)
  then show ?thesis using snoc by (simp add: abs_path_def join_snoc)
qed simp

text \<open>The file that marks the module root, below the first \<open>n\<close> segments.\<close>

definition marked :: "(string \<Rightarrow> bool) \<Rightarrow> string list \<Rightarrow> nat \<Rightarrow> bool" where
  "marked exists segs n \<longleftrightarrow> exists (abs_path (take n segs @ [''go.mod'']))"

lemma root_loop_nearest:
  assumes "\<forall>s \<in> set segs. seg_ok s" and "n \<le> length segs"
  shows "(\<exists>k \<le> n. root_loop exists (abs_path (take n segs)) = Some (Inr (abs_path (take k segs))) \<and> marked exists segs k \<and>
      (\<forall>m. k < m \<longrightarrow> m \<le> n \<longrightarrow> \<not> marked exists segs m)) \<or>
    (root_loop exists (abs_path (take n segs)) = Some (Inl ''go.mod not found from /'') \<and> (\<forall>m \<le> n. \<not> marked exists segs m))"
  using assms(2)
proof (induction n)
  case 0
  have "filepath_Dir (abs_path []) = abs_path []" using Dir_abs [of "[]"] by simp
  moreover have "filepath_Join (abs_path []) ''go.mod'' = abs_path [''go.mod'']" using Join_abs [of "[]"] seg_go_mod by simp
  ultimately show ?case by (simp add: root_loop.simps [of exists "abs_path []"] marked_def Let_def) (simp add: abs_path_def)
next
  case (Suc n)
  let ?p = "take (Suc n) segs"
  have ok: "\<forall>s \<in> set ?p. seg_ok s" using assms(1) by (auto dest: in_set_takeD)
  have b: "butlast ?p = take n segs" "?p \<noteq> []" using Suc.prems by (auto simp: butlast_take)
  have d: "filepath_Dir (abs_path ?p) = abs_path (take n segs)" "filepath_Dir (abs_path ?p) \<noteq> abs_path ?p"
    using Dir_abs [OF ok] abs_butlast [OF ok b(2)] b(1) by simp_all
  have j: "exists (filepath_Join (abs_path ?p) ''go.mod'') = marked exists segs (Suc n)" using Join_abs [OF ok seg_go_mod] by (simp add: marked_def)
  show ?case
  proof (cases "marked exists segs (Suc n)")
    case True
    then have "root_loop exists (abs_path ?p) = Some (Inr (abs_path ?p))" using j by (subst root_loop.simps) simp
    then show ?thesis using True by (intro disjI1 exI [of _ "Suc n"]) auto
  next
    case False
    then have "root_loop exists (abs_path ?p) = root_loop exists (abs_path (take n segs))"
      using j d by (subst root_loop.simps) (simp add: Let_def)
    then show ?thesis using Suc False by (auto simp: le_Suc_eq)
  qed
qed

section \<open>The total of a package\<close>

text \<open>\<^verbatim>\<open>strings.Fields\<close>: the runs of characters that are not white space.\<close>

fun word_end :: "string \<Rightarrow> string \<times> string" where
  "word_end [] = ([], [])"
| "word_end (c # r) = (if strip_one space_encodings (c # r) \<noteq> None then ([], c # r) else apfst (Cons c) (word_end r))"

lemma word_end_length: "length (snd (word_end s)) \<le> length s"
  by (induction s) (auto simp: le_SucI)

function Fields :: "string \<Rightarrow> string list" where
  "Fields s = (let t = strip_all space_encodings s in if t = [] then [] else fst (word_end t) # Fields (snd (word_end t)))"
  by auto
termination
proof (relation "measure length")
  fix s t assume t: "t = strip_all space_encodings s" "t \<noteq> []"
  obtain c r where c: "t = c # r" using t(2) by (cases t) auto
  have "strip_one space_encodings t = None" using strip_one_strip_all t(1) by simp
  then have "length (snd (word_end t)) < length t" using word_end_length [of r] c by simp
  also have "length t \<le> length s" using strip_all_suffix [of s space_encodings] t(1) by (metis length_append le_add2)
  finally show "(snd (word_end t), s) \<in> measure length" by simp
qed simp

declare Fields.simps [simp del]

definition TrimSuffix :: "string \<Rightarrow> string \<Rightarrow> string" where
  "TrimSuffix s suffix = (if length suffix \<le> length s \<and> drop (length s - length suffix) s = suffix then take (length s - length suffix) s else s)"

fun total_line :: "(string \<Rightarrow> float64 option) \<Rightarrow> string list \<Rightarrow> string + float64" where
  "total_line parse [] = Inl ''missing total line''"
| "total_line parse (line # ls) =
     (if \<not> HasPrefix line ''total:'' then total_line parse ls
      else let fields = Fields line
           in if length fields < 3 then Inl ''unexpected total line''
              else case parse (TrimSuffix (last fields) ''%'') of None \<Rightarrow> Inl ''invalid syntax'' | Some v \<Rightarrow> Inr v)"

text \<open>The commands: \<open>test\<close> runs the tests of a package and writes its profile, \<open>cover\<close> prints the profile.\<close>

record 'w coverTools =
  ctTest :: "'w \<Rightarrow> string \<Rightarrow> string \<Rightarrow> bool \<times> 'w"
  ctCover :: "'w \<Rightarrow> string \<Rightarrow> string option \<times> 'w"
  ctParseFloat :: "string \<Rightarrow> float64 option"

definition coverageTotal :: "'w coverTools \<Rightarrow> 'w \<Rightarrow> string \<Rightarrow> (string + float64) \<times> 'w" where
  "coverageTotal ct w coverFile =
     (case ctCover ct w coverFile of
        (None, w') \<Rightarrow> (Inl ''go tool cover'', w')
      | (Some out, w') \<Rightarrow> (total_line (ctParseFloat ct) (Split (TrimSpace out) (CHR 0x0A)), w'))"

section \<open>The check\<close>

definition packages :: "string list" where
  "packages = [''./api/http'', ''./cmd/server'', ''./internal/api'', ''./internal/config'', ''./internal/core'', ''./internal/index'',
     ''./internal/index/ann'', ''./internal/storage'', ''./internal/util'', ''./internal/vector'', ''./pkg/client'']"

definition cover_file :: "string \<Rightarrow> string \<Rightarrow> string" where
  "cover_file tmpDir pkg = filepath_Join tmpDir (map (\<lambda>c. if c = CHR ''/'' \<or> c = CHR ''.'' then CHR ''_'' else c) pkg @ ''.out'')"

fun check_packages :: "'w coverTools \<Rightarrow> string \<Rightarrow> float64 \<Rightarrow> bool \<Rightarrow> string list \<Rightarrow> 'w \<Rightarrow> int \<times> 'w" where
  "check_packages ct tmpDir threshold failed [] w = (if failed then 1 else 0, w)"
| "check_packages ct tmpDir threshold failed (pkg # pkgs) w =
     (case ctTest ct w (cover_file tmpDir pkg) pkg of
        (False, w1) \<Rightarrow> (1, w1)
      | (True, w1) \<Rightarrow>
          (case coverageTotal ct w1 (cover_file tmpDir pkg) of
             (Inl e, w2) \<Rightarrow> (1, w2)
           | (Inr pct, w2) \<Rightarrow> check_packages ct tmpDir threshold (failed \<or> f64_lt pct threshold) pkgs w2))"

text \<open>The default threshold is 90.\<close>

definition coverage_threshold :: "(string \<Rightarrow> float64 option) \<Rightarrow> string \<Rightarrow> float64 option" where
  "coverage_threshold parse var = (let raw = TrimSpace var in if raw \<noteq> [] then parse raw else Some (f64_of_int 90))"

definition coverage_main :: "'w coverTools \<Rightarrow> (string + string) \<Rightarrow> string \<Rightarrow> string option \<Rightarrow> 'w \<Rightarrow> int \<times> 'w" where
  "coverage_main ct root var tmp w =
     (case root of
        Inl e \<Rightarrow> (1, w)
      | Inr rootDir \<Rightarrow>
          (case coverage_threshold (ctParseFloat ct) var of
             None \<Rightarrow> (1, w)
           | Some threshold \<Rightarrow>
               (case tmp of
                  None \<Rightarrow> (1, w)
                | Some tmpDir \<Rightarrow> check_packages ct tmpDir threshold False packages w)))"

section \<open>What the check comes to\<close>

text \<open>The search for the module root ends, with the nearest directory above that has a \<^verbatim>\<open>go.mod\<close>, or an error that names the root of the file system.\<close>

theorem module_root_nearest:
  assumes "\<forall>s \<in> set segs. seg_ok s"
  shows "(\<exists>k \<le> length segs. findModuleRoot exists (Inr (abs_path segs)) = Some (Inr (abs_path (take k segs))) \<and> marked exists segs k \<and>
      (\<forall>m. k < m \<longrightarrow> m \<le> length segs \<longrightarrow> \<not> marked exists segs m)) \<or>
    (findModuleRoot exists (Inr (abs_path segs)) = Some (Inl ''go.mod not found from /'') \<and> (\<forall>m \<le> length segs. \<not> marked exists segs m))"
  using root_loop_nearest [OF assms order_refl, of exists] by (simp add: findModuleRoot_def)

text \<open>Every package has a profile of its own.\<close>

lemma profiles_distinct: "distinct (map (cover_file ''/tmp/cover'') packages)"
  by (simp add: packages_def cover_file_def filepath_Join_def path_Clean_def Split_def clean_step_def Let_def)

text \<open>A package passes in a state of the world, and all do in sequence.\<close>

fun all_pass :: "'w coverTools \<Rightarrow> string \<Rightarrow> float64 \<Rightarrow> string list \<Rightarrow> 'w \<Rightarrow> bool" where
  "all_pass ct tmpDir threshold [] w = True"
| "all_pass ct tmpDir threshold (pkg # pkgs) w =
     (case ctTest ct w (cover_file tmpDir pkg) pkg of (ok, w1) \<Rightarrow>
        ok \<and> (case coverageTotal ct w1 (cover_file tmpDir pkg) of
               (Inl e, w2) \<Rightarrow> False
             | (Inr pct, w2) \<Rightarrow> \<not> f64_lt pct threshold \<and> all_pass ct tmpDir threshold pkgs w2))"

lemma check_packages_exact: "fst (check_packages ct tmpDir threshold failed pkgs w) = 0 \<longleftrightarrow> \<not> failed \<and> all_pass ct tmpDir threshold pkgs w"
  by (induction ct tmpDir threshold failed pkgs w rule: check_packages.induct) (auto split: prod.splits bool.splits sum.splits)

text \<open>The command exits with zero exactly when it finds the module, reads the threshold, and every package passes its tests and is not below the threshold.\<close>

theorem coverage_check_exact:
  "fst (coverage_main ct root var tmp w) = 0 \<longleftrightarrow>
     (\<exists>rootDir threshold tmpDir. root = Inr rootDir \<and> coverage_threshold (ctParseFloat ct) var = Some threshold \<and> tmp = Some tmpDir \<and>
        all_pass ct tmpDir threshold packages w)"
  by (auto simp: coverage_main_def check_packages_exact split: sum.split option.split)

text \<open>A threshold that is not a number lets every total pass: the comparison is false.\<close>

lemma nan_threshold: "f64_isnan threshold \<Longrightarrow> \<not> f64_lt pct threshold"
  by (simp add: f64_lt_def)

end
