(* ===== verification/Pools.thy ===== *)
theory Pools
  imports Service
begin

text \<open>
  The pooled buffers of \<^verbatim>\<open>internal/core/service.go\<close>. A slice is a backing array and a length, so a buffer from a \<^verbatim>\<open>sync.Pool\<close> comes with the
  contents an earlier request left in it; the queries of a batch are windows of one shared array. A pool may hand out any buffer it was given
  or a new one, so the buffer is an argument. The theorem says that the searches on pooled buffers compute what the definitions of \<^verbatim>\<open>Service\<close>
  and \<^verbatim>\<open>ExactSearch\<close> compute without them.
\<close>

section \<open>Slices\<close>

record 'a goslice =
  slArray :: "'a list"
  slLen :: nat

definition sl_vals :: "'a goslice \<Rightarrow> 'a list" where
  "sl_vals b = take (slLen b) (slArray b)"

definition go_make :: "'a \<Rightarrow> nat \<Rightarrow> nat \<Rightarrow> 'a goslice" where
  "go_make zero len c = \<lparr>slArray = replicate c zero, slLen = len\<rparr>"

text \<open>\<^verbatim>\<open>append\<close> writes into the array if it has room and moves to a larger one otherwise.\<close>

definition go_append :: "'a goslice \<Rightarrow> 'a \<Rightarrow> 'a goslice" where
  "go_append b x =
     (if slLen b < length (slArray b) then b\<lparr>slArray := (slArray b)[slLen b := x], slLen := slLen b + 1\<rparr>
      else \<lparr>slArray = sl_vals b @ [x], slLen = slLen b + 1\<rparr>)"

lemma sl_vals_append: "slLen b \<le> length (slArray b) \<Longrightarrow> sl_vals (go_append b x) = sl_vals b @ [x] \<and> slLen (go_append b x) \<le> length (slArray (go_append b x))"
  by (auto simp: go_append_def sl_vals_def take_Suc_conv_app_nth)

section \<open>Query buffers\<close>

definition maxIntOrOne :: "int \<Rightarrow> int" where
  "maxIntOrOne value = (if value < 1 then 1 else value)"

text \<open>\<^verbatim>\<open>fillQuery32Buffer\<close> on the window from \<open>i\<close> to \<open>hi\<close> of an array; a write outside the window is a panic.\<close>

fun fillQuery32Buffer :: "float32 list \<Rightarrow> nat \<Rightarrow> nat \<Rightarrow> float64 list \<Rightarrow> float32 list option" where
  "fillQuery32Buffer dst i hi [] = Some dst"
| "fillQuery32Buffer dst i hi (value # values) =
     (if i < hi \<and> i < length dst then fillQuery32Buffer (dst[i := f64_to_f32 value]) (i + 1) hi values else None)"

definition getBatchQuery32Buffer :: "float32 goslice option \<Rightarrow> nat \<Rightarrow> float32 goslice" where
  "getBatchQuery32Buffer got sz =
     (case got of
        None \<Rightarrow> go_make 0 sz sz
      | Some buf \<Rightarrow> if length (slArray buf) < sz then go_make 0 sz sz else buf\<lparr>slLen := sz\<rparr>)"

definition putBatchQuery32Buffer :: "float32 goslice \<Rightarrow> float32 goslice" where
  "putBatchQuery32Buffer buf = buf\<lparr>slLen := 0\<rparr>"

definition getQuery32Buffer :: "float32 goslice option \<Rightarrow> float64 list \<Rightarrow> float32 goslice option" where
  "getQuery32Buffer got values =
     (let buf = (case got of
                   None \<Rightarrow> go_make 0 (length values) (length values)
                 | Some buf \<Rightarrow> if length (slArray buf) < length values then go_make 0 (length values) (length values)
                              else buf\<lparr>slLen := length values\<rparr>)
      in map_option (\<lambda>a. buf\<lparr>slArray := a\<rparr>) (fillQuery32Buffer (slArray buf) 0 (slLen buf) values))"

definition putQuery32Buffer :: "float32 goslice \<Rightarrow> float32 goslice" where
  "putQuery32Buffer buf = buf\<lparr>slLen := 0\<rparr>"

lemma fillQuery32Buffer_window:
  "i + length vs \<le> hi \<Longrightarrow> i + length vs \<le> length dst \<Longrightarrow>
   fillQuery32Buffer dst i hi vs = Some (take i dst @ ToFloat32 vs @ drop (i + length vs) dst)"
proof (induction vs arbitrary: dst i)
  case Nil
  then show ?case by (simp add: ToFloat32_def)
next
  case (Cons v vs)
  have "take (Suc i) (dst[i := x]) = take i dst @ [x]" "drop (Suc i + n) (dst[i := x]) = drop (Suc i + n) dst" for x n
    using Cons.prems by (simp_all add: take_Suc_conv_app_nth)
  then show ?case using Cons.IH [of "Suc i" "dst[i := f64_to_f32 v]"] Cons.prems by (simp add: ToFloat32_def)
qed

lemma getQuery32Buffer_vals: "\<exists>b. getQuery32Buffer got vs = Some b \<and> sl_vals b = ToFloat32 vs"
  by (cases got) (auto simp: getQuery32Buffer_def go_make_def fillQuery32Buffer_window sl_vals_def ToFloat32_def Let_def)

lemma getBatchQuery32Buffer_room: "n \<le> length (slArray (getBatchQuery32Buffer got n))"
  by (cases got) (auto simp: getBatchQuery32Buffer_def go_make_def)

section \<open>The result buffer of the approximate search\<close>

definition getANNResultBuffer :: "int \<Rightarrow> annResult goslice option \<Rightarrow> annResult goslice" where
  "getANNResultBuffer maxK got =
     (case got of
        None \<Rightarrow> go_make \<lparr>arID = 0, arDistance = 0\<rparr> 0 (nat (minInt (maxIntOrOne maxK) 64))
      | Some buf \<Rightarrow> buf\<lparr>slLen := 0\<rparr>)"

definition putANNResultBuffer :: "annResult goslice \<Rightarrow> annResult goslice" where
  "putANNResultBuffer results = results\<lparr>slLen := 0\<rparr>"

text \<open>\<^verbatim>\<open>nearestResults\<close> with the destination it appends to.\<close>

fun append_results :: "annIndex \<Rightarrow> distancePair list \<Rightarrow> annResult goslice \<Rightarrow> annResult goslice option" where
  "append_results a [] out = Some out"
| "append_results a (c # cs) out =
     (case idx (anNodes a) (dpID c) of None \<Rightarrow> None
      | Some n \<Rightarrow> append_results a cs (go_append out \<lparr>arID = ndID n, arDistance = dpDistance c\<rparr>))"

definition nearestResultsInto :: "annIndex \<Rightarrow> distancePair list \<Rightarrow> int \<Rightarrow> annResult goslice \<Rightarrow> annResult goslice option" where
  "nearestResultsInto a cands k0 dst =
     (let k = clampK k0 cands; out = dst\<lparr>slLen := 0\<rparr>
      in if k \<le> 0 then Some out
         else append_results a (take (nat k) (selectNearest cands (nat k)))
                (if int (length (slArray out)) < k then go_make \<lparr>arID = 0, arDistance = 0\<rparr> 0 (nat k) else out))"

lemma append_results_vals:
  "slLen out \<le> length (slArray out) \<Longrightarrow>
   map_option sl_vals (append_results a cs out) =
     map_option ((@) (sl_vals out)) (those (map (\<lambda>c. map_option (\<lambda>n. \<lparr>arID = ndID n, arDistance = dpDistance c\<rparr>) (idx (anNodes a) (dpID c))) cs))"
proof (induction cs arbitrary: out)
  case Nil
  then show ?case by simp
next
  case (Cons c cs)
  then show ?case using sl_vals_append [OF Cons.prems] by (auto split: option.split simp: option.map_comp comp_def)
qed

lemma map_option_append_Nil: "map_option ((@) []) x = x"
  by (cases x) simp_all

lemma nearestResultsInto_vals: "map_option sl_vals (nearestResultsInto a cands k dst) = nearestResults a cands k"
  by (simp add: nearestResultsInto_def nearestResults_def Let_def append_results_vals go_make_def sl_vals_def map_option_append_Nil)

section \<open>Prepared batches\<close>

text \<open>A prepared query of a batch refers to a window of the shared array.\<close>

record pooledQuery =
  plID :: string
  plVals :: "float64 list"
  plOff :: nat
  plLen :: nat
  plAcc :: topKAccumulator

definition read_query :: "float32 list \<Rightarrow> pooledQuery \<Rightarrow> preparedBatchQuery" where
  "read_query block q = \<lparr>pqID = plID q, pqVals = plVals q, pqVals32 = take (plLen q) (drop (plOff q) block), pqAcc = plAcc q\<rparr>"

definition getPreparedBatchBuffer :: "pooledQuery goslice option \<Rightarrow> nat \<Rightarrow> pooledQuery goslice" where
  "getPreparedBatchBuffer got sz =
     (let zero = \<lparr>plID = [], plVals = [], plOff = 0, plLen = 0, plAcc = newTopKAccumulator 0\<rparr>
      in case got of
           None \<Rightarrow> go_make zero 0 sz
         | Some buf \<Rightarrow> if length (slArray buf) < sz then go_make zero 0 sz else buf\<lparr>slLen := 0\<rparr>)"

definition putPreparedBatchBuffer :: "pooledQuery \<Rightarrow> pooledQuery goslice \<Rightarrow> pooledQuery goslice" where
  "putPreparedBatchBuffer zero buf = buf\<lparr>slArray := replicate (slLen buf) zero @ drop (slLen buf) (slArray buf), slLen := 0\<rparr>"

fun prepare_pooled :: "'v service \<Rightarrow> nat \<Rightarrow> float32 list \<Rightarrow> nat \<Rightarrow> pooledQuery goslice \<Rightarrow> batchSearchQuery list \<Rightarrow>
    (pooledQuery goslice result \<times> float32 list) option" where
  "prepare_pooled s i block off prepared [] = Some (Inr prepared, block)"
| "prepare_pooled s i block off prepared (query # queries) =
     (case validateSearchRequest s (bqValues query) (bqK query) of Some e \<Rightarrow> Some (Inl e, block)
      | None \<Rightarrow>
          (let queryID = (if TrimSpace (bqID query) = [] then ''query-'' @ decimal i else TrimSpace (bqID query));
               hi = off + length (bqValues query)
           in if svSearchMode s \<noteq> ''ann'' then
                (if length block < hi then None
                 else case fillQuery32Buffer block off hi (bqValues query) of None \<Rightarrow> None
                   | Some block' \<Rightarrow>
                       prepare_pooled s (i + 1) block' hi
                         (go_append prepared \<lparr>plID = queryID, plVals = bqValues query, plOff = off, plLen = length (bqValues query),
                            plAcc = newTopKAccumulator (bqK query)\<rparr>) queries)
              else prepare_pooled s (i + 1) block off
                     (go_append prepared \<lparr>plID = queryID, plVals = bqValues query, plOff = 0, plLen = 0, plAcc = newTopKAccumulator (bqK query)\<rparr>)
                     queries))"

definition total_values :: "batchSearchQuery list \<Rightarrow> nat" where
  "total_values queries = sum_list (map (\<lambda>q. length (bqValues q)) queries)"

text \<open>What the loop leaves: the prefix of the array before the offset is unchanged, and the windows read as the converted queries.\<close>

definition prepared_as :: "goerror + preparedBatchQuery list \<Rightarrow> float32 list \<Rightarrow> nat \<Rightarrow> pooledQuery goslice \<Rightarrow>
    (pooledQuery goslice result \<times> float32 list) option \<Rightarrow> bool" where
  "prepared_as spec block off prepared r \<longleftrightarrow>
     (case spec of
        Inl e \<Rightarrow> (\<exists>b. r = Some (Inl e, b))
      | Inr ps \<Rightarrow> \<exists>p b. r = Some (Inr p, b) \<and> take off b = take off block \<and> length b = length block \<and>
          map (read_query b) (sl_vals p) = map (read_query b) (sl_vals prepared) @ ps)"

lemma prepared_as_cons:
  assumes "off + length vs \<le> length block" and "slLen prepared \<le> length (slArray prepared)" and w: "plOff w = off" "plLen w = length vs"
    and r: "prepared_as spec (take off block @ ToFloat32 vs @ drop (off + length vs) block) (off + length vs) (go_append prepared w) r"
  shows "prepared_as (map_sum id ((#) \<lparr>pqID = plID w, pqVals = plVals w, pqVals32 = ToFloat32 vs, pqAcc = plAcc w\<rparr>) spec) block off prepared r"
proof (cases spec)
  case (Inl e)
  then show ?thesis using r by (simp add: prepared_as_def)
next
  case (Inr ps)
  let ?b = "take off block @ ToFloat32 vs @ drop (off + length vs) block"
  obtain p b where p: "r = Some (Inr p, b)" "take (off + length vs) b = take (off + length vs) ?b" "length b = length ?b"
    "map (read_query b) (sl_vals p) = map (read_query b) (sl_vals (go_append prepared w)) @ ps"
    using r Inr unfolding prepared_as_def by auto
  have "take (off + length vs) b = take off block @ ToFloat32 vs" using p(2) assms(1) by (simp add: ToFloat32_def)
  then have "take off (take (off + length vs) b) = take off block" "drop off (take (off + length vs) b) = ToFloat32 vs" using assms(1) by simp_all
  then have "take off b = take off block" "take (length vs) (drop off b) = ToFloat32 vs" by (simp_all add: drop_take)
  moreover have "length b = length block" using p(3) assms(1) by (simp add: ToFloat32_def)
  ultimately show ?thesis using Inr p(1,4) sl_vals_append [OF assms(2)] w by (simp add: prepared_as_def read_query_def)
qed

lemma prepare_pooled_ok:
  assumes "svSearchMode s \<noteq> ''ann'' \<Longrightarrow> off + total_values queries \<le> length block" and "slLen prepared \<le> length (slArray prepared)"
  shows "prepared_as (prepare_queries s i queries) block off prepared (prepare_pooled s i block off prepared queries)"
  using assms
proof (induction queries arbitrary: i block off prepared)
  case Nil
  then show ?case by (simp add: prepared_as_def)
next
  case (Cons q qs)
  let ?n = "length (bqValues q)" and ?id = "if TrimSpace (bqID q) = [] then ''query-'' @ decimal i else TrimSpace (bqID q)"
  let ?w = "\<lambda>off n. \<lparr>plID = ?id, plVals = bqValues q, plOff = off, plLen = n, plAcc = newTopKAccumulator (bqK q)\<rparr>"
  note app = sl_vals_append [OF Cons.prems(2)]
  consider e where "validateSearchRequest s (bqValues q) (bqK q) = Some e"
    | (ann) "validateSearchRequest s (bqValues q) (bqK q) = None" "svSearchMode s = ''ann''"
    | (exact) "validateSearchRequest s (bqValues q) (bqK q) = None" "svSearchMode s \<noteq> ''ann''" by blast
  then show ?case
  proof cases
    case 1
    then show ?thesis by (simp add: prepared_as_def)
  next
    case ann
    have "prepared_as (prepare_queries s (i + 1) qs) block off (go_append prepared (?w 0 0))
        (prepare_pooled s (i + 1) block off (go_append prepared (?w 0 0)) qs)"
      using Cons.IH app ann by blast
    then show ?thesis using ann app by (auto simp: prepared_as_def Let_def read_query_def split: sum.splits)
  next
    case exact
    then have room: "off + ?n + total_values qs \<le> length block" using Cons.prems(1) by (simp add: total_values_def)
    let ?b = "take off block @ ToFloat32 (bqValues q) @ drop (off + ?n) block"
    have fill: "fillQuery32Buffer block off (off + ?n) (bqValues q) = Some ?b" using room by (intro fillQuery32Buffer_window) auto
    have "prepared_as (prepare_queries s (i + 1) qs) ?b (off + ?n) (go_append prepared (?w off ?n))
        (prepare_pooled s (i + 1) ?b (off + ?n) (go_append prepared (?w off ?n)) qs)"
      using Cons.IH [of "off + ?n" ?b] app room by (simp add: ToFloat32_def)
    from prepared_as_cons [OF _ Cons.prems(2) _ _ this] show ?thesis using exact fill room
      by (cases "prepare_queries s (i + 1) qs") (simp_all add: Let_def)
  qed
qed

section \<open>Searches on pooled buffers\<close>

text \<open>The result with the buffer that goes to the pool.\<close>

definition searchExact_pooled :: "float32 goslice option \<Rightarrow> (string list \<Rightarrow> string list) \<Rightarrow> (searchResult list \<Rightarrow> searchResult list) \<Rightarrow>
    index \<Rightarrow> float64 list \<Rightarrow> int \<Rightarrow> (searchResult list \<times> float32 goslice) option" where
  "searchExact_pooled got iter srt i values k =
     (case getQuery32Buffer got values of None \<Rightarrow> None
      | Some query32 \<Rightarrow>
          map_option (\<lambda>acc. (acc_Results srt acc, putQuery32Buffer query32))
            (Index_RangeVectors32 iter i (exact_visit (sl_vals query32)) (Some (newTopKAccumulator k))))"

definition SearchBatch_pooled :: "float32 goslice option \<Rightarrow> pooledQuery goslice option \<Rightarrow> 'v serviceEnv \<Rightarrow> 'v service \<Rightarrow> batchSearchQuery list \<Rightarrow>
    (batchSearchResult list result \<times> 'v service) option" where
  "SearchBatch_pooled gotQuery gotPrepared env s queries =
     (if queries = [] then Some (Inl ErrInvalidValues, s)
      else let preparedBuf = getPreparedBatchBuffer gotPrepared (length queries);
               total = (if svSearchMode s \<noteq> ''ann'' then total_values queries else 0);
               block = (if 0 < total then slArray (getBatchQuery32Buffer gotQuery total) else [])
           in case prepare_pooled s 0 block 0 (preparedBuf\<lparr>slLen := 0\<rparr>) queries of
                None \<Rightarrow> None
              | Some (Inl e, _) \<Rightarrow> Some (Inl e, s)
              | Some (Inr buf, block') \<Rightarrow>
                  (let prepared = map (read_query block') (sl_vals buf)
                   in if svSearchMode s = ''ann'' then searchBatchANN env s prepared
                      else map_option (\<lambda>rs. (Inr rs, s))
                             (if 8 \<le> length prepared \<and> 1 < seProcs env
                              then searchBatchExactParallel (seProcs env) (seIters env) (seSort env) (svIndex s) prepared
                              else searchBatchExactSerial (seIters env 0) (seSort env) (svIndex s) prepared)))"

lemma SearchBatch_pooled_eq: "SearchBatch_pooled gotQuery gotPrepared env s queries = SearchBatch env s queries"
proof -
  define total where "total = (if svSearchMode s \<noteq> ''ann'' then total_values queries else 0)"
  define block where "block = (if 0 < total then slArray (getBatchQuery32Buffer gotQuery total) else [])"
  let ?buf = "(getPreparedBatchBuffer gotPrepared (length queries))\<lparr>slLen := 0\<rparr>"
  have "svSearchMode s \<noteq> ''ann'' \<Longrightarrow> 0 + total_values queries \<le> length block"
    using getBatchQuery32Buffer_room [of total gotQuery] by (simp add: block_def total_def)
  note step = prepare_pooled_ok [where i = 0 and prepared = ?buf, OF this]
  have ok: "prepared_as (prepare_queries s 0 queries) block 0 ?buf (prepare_pooled s 0 block 0 ?buf queries)" using step by simp
  have "SearchBatch_pooled gotQuery gotPrepared env s queries =
     (if queries = [] then Some (Inl ErrInvalidValues, s)
      else case prepare_pooled s 0 block 0 ?buf queries of
          None \<Rightarrow> None
        | Some (Inl e, _) \<Rightarrow> Some (Inl e, s)
        | Some (Inr buf, block') \<Rightarrow>
            (let prepared = map (read_query block') (sl_vals buf)
             in if svSearchMode s = ''ann'' then searchBatchANN env s prepared
                else map_option (\<lambda>rs. (Inr rs, s))
                       (if 8 \<le> length prepared \<and> 1 < seProcs env
                        then searchBatchExactParallel (seProcs env) (seIters env) (seSort env) (svIndex s) prepared
                        else searchBatchExactSerial (seIters env 0) (seSort env) (svIndex s) prepared)))"
    unfolding SearchBatch_pooled_def Let_def total_def block_def by (rule refl)
  then show ?thesis using ok
    by (cases "prepare_queries s 0 queries") (auto simp: prepared_as_def SearchBatch_def Let_def sl_vals_def)
qed

lemma searchExact_pooled_eq: "map_option fst (searchExact_pooled got iter srt i values k) = searchExact iter srt i values k"
  using getQuery32Buffer_vals [of got "values"] by (auto simp: searchExact_pooled_def searchExact_def option.map_comp comp_def)

text \<open>
  The buffer of prepared queries goes to the pool with length zero, so clearing it clears nothing: the array keeps the queries of the last batch.
\<close>

lemma putPreparedBatchBuffer_keeps: "slLen buf = 0 \<Longrightarrow> putPreparedBatchBuffer zero buf = buf"
  by (simp add: putPreparedBatchBuffer_def)

text \<open>
  C32. Pooled buffers cannot be observed. Whatever earlier requests left in the buffers the pools hand out, however small or large these are, the batch
  search that converts its queries into windows of one shared array, the single search on a pooled query buffer and the
  approximate search that appends to a pooled result buffer neither panic on them nor return anything but what they return without them.
\<close>

theorem pooled_buffers_transparent:
  "SearchBatch_pooled gotQuery gotPrepared env s queries = SearchBatch env s queries \<and>
   map_option fst (searchExact_pooled gotQuery iter srt i values k) = searchExact iter srt i values k \<and>
   map_option sl_vals (nearestResultsInto a cands k' (getANNResultBuffer maxK gotResults)) = nearestResults a cands k'"
  using SearchBatch_pooled_eq searchExact_pooled_eq nearestResultsInto_vals by blast

end
