(* ===== verification/KeyValue.thy ===== *)
theory KeyValue
  imports NetText
begin

text \<open>
  \<^verbatim>\<open>internal/storage/leveldb_store.go\<close>: a map from keys to JSON texts under one lock. The JSON package is a parameter: encoding a value, decoding a text
  over a destination, and decoding it as a value of any type.
\<close>

section \<open>Operations\<close>

type_synonym levelDBStore = "(string, string) gomap"

definition NewLevelDBStore :: levelDBStore where
  "NewLevelDBStore = []"

definition kv_Put :: "('a \<Rightarrow> string option) \<Rightarrow> levelDBStore \<Rightarrow> string \<Rightarrow> 'a \<Rightarrow> goerror option \<times> levelDBStore" where
  "kv_Put marshal s key v =
     (case marshal v of
        None \<Rightarrow> (Some ErrJSON, s)
      | Some data \<Rightarrow> (None, gm_put key data s))"

text \<open>\<^verbatim>\<open>Get\<close> returns its error and what the destination holds afterwards; for a missing key it returns nil and leaves the destination alone.\<close>

definition kv_Get :: "(string \<Rightarrow> 'a \<Rightarrow> goerror option \<times> 'a) \<Rightarrow> levelDBStore \<Rightarrow> string \<Rightarrow> 'a \<Rightarrow> goerror option \<times> 'a" where
  "kv_Get unmarshal s key dest = (case gm_get s key of None \<Rightarrow> (None, dest) | Some data \<Rightarrow> unmarshal data dest)"

definition kv_Delete :: "levelDBStore \<Rightarrow> string \<Rightarrow> goerror option \<times> levelDBStore" where
  "kv_Delete s key = (None, gm_del key s)"

definition kv_Close :: "levelDBStore \<Rightarrow> goerror option" where
  "kv_Close s = None"

text \<open>\<^verbatim>\<open>Iterate\<close> skips values that do not decode and stops when the handler says so.\<close>

definition kv_Iterate :: "(string \<Rightarrow> 'a option) \<Rightarrow> (string list \<Rightarrow> string list) \<Rightarrow> levelDBStore \<Rightarrow> string \<Rightarrow> ('s \<Rightarrow> string \<Rightarrow> 'a \<Rightarrow> 's \<times> bool) \<Rightarrow> 's \<Rightarrow> 's" where
  "kv_Iterate decode iter s prefix handler =
     (\<lambda>w. range_while
        (\<lambda>w (k, v). if length prefix \<le> length k \<and> take (length prefix) k = prefix
                   then (case decode v of None \<Rightarrow> (w, True) | Some x \<Rightarrow> handler w k x)
                   else (w, True))
        w (gm_range iter s))"

section \<open>What a caller sees\<close>

text \<open>A codec that decodes what it has encoded, whatever the destination holds.\<close>

definition kv_codec_ok :: "('a \<Rightarrow> string option) \<Rightarrow> (string \<Rightarrow> 'a \<Rightarrow> goerror option \<times> 'a) \<Rightarrow> bool" where
  "kv_codec_ok marshal unmarshal \<longleftrightarrow> (\<forall>v data dest. marshal v = Some data \<longrightarrow> unmarshal data dest = (None, v))"

lemma kv_get_put:
  assumes "kv_codec_ok marshal unmarshal" and "kv_Put marshal s key v = (None, s')"
  shows "kv_Get unmarshal s' key dest = (None, v)" and "key' \<noteq> key \<Longrightarrow> kv_Get unmarshal s' key' dest = kv_Get unmarshal s key' dest"
  using assms by (auto simp: kv_Put_def kv_Get_def kv_codec_ok_def split: option.splits)

lemma kv_get_delete: "kv_Delete s key = (None, s') \<Longrightarrow> kv_Get unmarshal s' key dest = (None, dest)"
  by (auto simp: kv_Delete_def kv_Get_def)

lemma range_while_collect:
  "range_while (\<lambda>w x. case f x of None \<Rightarrow> (w, True) | Some y \<Rightarrow> (w @ [y], True)) w xs = w @ List.map_filter f xs"
  by (induction xs arbitrary: w) (auto simp: List.map_filter_simps split: option.split)

text \<open>A handler that never stops is called on exactly the decodable entries with the prefix, each once.\<close>

lemma kv_iterate_all:
  assumes "gm_wf s" and "iter_ok iter" and seen_def: "seen = kv_Iterate decode iter s prefix (\<lambda>w k x. (w @ [(k, x)], True)) []"
  shows "set seen = {(k, x). \<exists>data. gm_get s k = Some data \<and> decode data = Some x \<and> HasPrefix k prefix}" and "distinct (map fst seen)"
proof -
  let ?f = "\<lambda>(k, v). if HasPrefix k prefix then map_option (Pair k) (decode v) else None"
  have hp: "length prefix \<le> length k \<and> take (length prefix) k = prefix \<longleftrightarrow> HasPrefix k prefix" for k :: string
    unfolding HasPrefix_def by (metis length_take min.cobounded1)
  have "(\<lambda>w (k, v). if length prefix \<le> length k \<and> take (length prefix) k = prefix
           then (case decode v of None \<Rightarrow> (w, True) | Some x \<Rightarrow> (w @ [(k, x)], True)) else (w, True)) =
        (\<lambda>w x. case ?f x of None \<Rightarrow> (w, True) | Some y \<Rightarrow> (w @ [y], True))"
    unfolding hp by (intro ext) (auto split: option.split if_splits)
  then have seen: "seen = List.map_filter ?f (gm_range iter s)" unfolding seen_def kv_Iterate_def by (simp add: range_while_collect)
  show "set seen = {(k, x). \<exists>data. gm_get s k = Some data \<and> decode data = Some x \<and> HasPrefix k prefix}"
    using gm_range_mem [OF assms(2), of _ _ s]
    unfolding seen List.map_filter_def by (force split: if_splits)
  have "map fst (List.map_filter ?f xs) = map fst (filter (\<lambda>x. ?f x \<noteq> None) xs)" for xs
    by (induction xs) (auto simp: List.map_filter_simps split: option.split if_splits)
  moreover have "distinct (map fst (gm_range iter s))" using assms(1,2) by simp
  ultimately show "distinct (map fst seen)" unfolding seen by (simp add: distinct_map_filter)
qed

end
