(* ===== verification/Spec2Isabelle.thy ===== *)
theory Spec2Isabelle
  imports Concurrent ConcurrentDelete LoadGen Handlers CheckCoverage Pools KeyValue
begin

text \<open>
  LumenVec, a vector database in Go: a verification development of its server, its storage and its clients.

  \<^bold>\<open>The program.\<close> A server (\<^verbatim>\<open>cmd/server/main.go\<close>) loads a configuration (\<^verbatim>\<open>internal/config\<close>) and builds from it the API server
  (\<^verbatim>\<open>internal/api\<close>), which owns one \<^verbatim>\<open>core.Service\<close> (\<^verbatim>\<open>internal/core/service.go\<close>) and offers it over HTTP and gRPC. The service keeps five parts in step: the
  exact index (\<^verbatim>\<open>internal/index\<close>), the vector store (memory or file, perhaps behind a cache), the approximate index (\<^verbatim>\<open>internal/index/ann\<close>) with the
  resolver of its numbers, and the persistence backend (snapshot and write-ahead log). The clients are in \<^verbatim>\<open>pkg/client\<close>; the load generator in \<^verbatim>\<open>tools/loadgen\<close> uses them.

  \<^bold>\<open>Theories and sources.\<close>
  \<^item> \<^verbatim>\<open>Prelude\<close>: errors, Go maps as association lists with distinct keys, the order of map iteration and of \<^verbatim>\<open>sort.Slice\<close> on equal elements as
    arguments, index reads that may panic. \<^verbatim>\<open>GoFloat\<close>, \<^verbatim>\<open>FloatOrder\<close>: IEEE binary32 and binary64 on bit patterns, and that rounding is monotone. \<^verbatim>\<open>GoStrings\<close>,
    \<^verbatim>\<open>NetText\<close>: what the program uses of the packages \<^verbatim>\<open>strings\<close>, \<^verbatim>\<open>path\<close>, \<^verbatim>\<open>net\<close>, \<^verbatim>\<open>net/url\<close>. \<^verbatim>\<open>ArrayHeap\<close>: the array heaps, which occur four times
    in the sources, as one locale interpreted on each.
  \<^item> \<^verbatim>\<open>Distance\<close> (\<^verbatim>\<open>internal/vector\<close>): vector arithmetic and the unrolled kernels.
  \<^item> \<^verbatim>\<open>ExactIndex\<close> (\<^verbatim>\<open>internal/index/index.go\<close>, \<^verbatim>\<open>core/id_resolver.go\<close>), \<^verbatim>\<open>OrderedIds\<close> (\<^verbatim>\<open>core/ordered_id_index.go\<close>, the page selection of
    \<^verbatim>\<open>core/list_vectors.go\<close>), \<^verbatim>\<open>ExactSearch\<close> (the scans and the top-\<open>k\<close> accumulator of \<^verbatim>\<open>core/service.go\<close>).
  \<^item> \<^verbatim>\<open>AnnSearch\<close>, \<^verbatim>\<open>AnnIndex\<close> (\<^verbatim>\<open>internal/index/ann/ann_index.go\<close>): the read and the write side of the graph.
  \<^item> \<^verbatim>\<open>VectorStore\<close> (\<^verbatim>\<open>core/vector_store.go\<close>): the interface as the locale \<open>vector_store\<close>, and the memory store. \<^verbatim>\<open>FileRecord\<close>, \<^verbatim>\<open>FileStore\<close>
    (\<^verbatim>\<open>core/file_vector_store.go\<close>) and \<^verbatim>\<open>CachedStore\<close> (\<^verbatim>\<open>core/cached_vector_store.go\<close>): the other implementations. \<^verbatim>\<open>Stores\<close>: the store a
    configuration chooses, and \<^verbatim>\<open>core/storage_security.go\<close>.
  \<^item> \<^verbatim>\<open>Persistence\<close> (\<^verbatim>\<open>core/persistence.go\<close>).
  \<^item> \<^verbatim>\<open>Service\<close> (\<^verbatim>\<open>core/service.go\<close>, \<^verbatim>\<open>ListVectorsPage\<close>): the definitions; \<^verbatim>\<open>ServiceWrites\<close>, \<^verbatim>\<open>ServiceReads\<close>, \<^verbatim>\<open>Durability\<close>, \<^verbatim>\<open>ServiceLife\<close>: what is proved of them; \<^verbatim>\<open>Pools\<close>: its pooled buffers;
    \<^verbatim>\<open>Interleaving\<close>: executions of a write, given by its critical sections, with reads in between, and the locale \<open>observed\<close> of writes that keep what reads see; \<^verbatim>\<open>Concurrent\<close> and
    \<^verbatim>\<open>ConcurrentDelete\<close>: \<^verbatim>\<open>AddVectors\<close> and \<^verbatim>\<open>DeleteVector\<close> as such machines, each an interpretation of it.
  \<^item> \<^verbatim>\<open>Config\<close> (\<^verbatim>\<open>config/config.go\<close>), \<^verbatim>\<open>Cursor\<close> (the cursors of \<^verbatim>\<open>api/server.go\<close>), \<^verbatim>\<open>RateLimit\<close> and \<^verbatim>\<open>HttpServer\<close> (\<^verbatim>\<open>api/middleware.go\<close>, \<^verbatim>\<open>api/server.go\<close>), \<^verbatim>\<open>ServerSetup\<close>
    (options, construction, run, close, the process of \<^verbatim>\<open>cmd/server\<close>), \<^verbatim>\<open>HttpApi\<close> (what is proved of the HTTP server), \<^verbatim>\<open>Grpc\<close> (\<^verbatim>\<open>api/grpc.go\<close>, \<^verbatim>\<open>pkg/client/grpc_client.go\<close>), \<^verbatim>\<open>Client\<close> (\<^verbatim>\<open>pkg/client/client.go\<close>).
  \<^item> \<^verbatim>\<open>LoadGen\<close> (\<^verbatim>\<open>tools/loadgen/main.go\<close>), on the locale \<open>vector_client\<close> that both clients satisfy against the server; \<^verbatim>\<open>CheckCoverage\<close> (\<^verbatim>\<open>tools/checkcoverage/main.go\<close>).
  \<^item> \<^verbatim>\<open>KeyValue\<close> (\<^verbatim>\<open>internal/storage/leveldb_store.go\<close>) and \<^verbatim>\<open>Handlers\<close> (\<^verbatim>\<open>api/http/handlers.go\<close>): a map and a table of routes the server does not use.

  \<^bold>\<open>State and operations.\<close> A struct is a record with the fields of the source, a method is a function from the state to the result and the new state;
  the result \<open>None\<close> is a run-time panic, an error is a value. A critical section is one atomic step; where the code leaves a lock in between, as the
  cache, \<^verbatim>\<open>AddVectors\<close> and \<^verbatim>\<open>DeleteVector\<close> do, the sections are separate steps of a relation. Randomness, clocks, faults of the operating system and what the Go specification leaves open are arguments over which
  the theorems quantify. Code outside the repository is an argument too: the B-tree, the JSON and YAML codecs, the \<^verbatim>\<open>netip\<close> parsers,
  the network. What is relied on is a named hypothesis (\<open>btree_ok\<close>, \<open>json_ok\<close>, \<open>env_ok\<close>, \<open>wire_ok\<close>, \<open>codecs_agree\<close>) with a concrete instance in
  the witness of each property that has one.

  \<^bold>\<open>What is shown.\<close>
  \<^item> Data structures: the kernels agree bit for bit; the two page selections agree; heap, accumulator and scans return the top \<open>k\<close>, serial or parallel; the approximate index keeps its
    invariant under insertion and deletion, its search ends, is sound, finds every reachable live vector if the beam is wide enough and does not depend on the
    reused workspace, the wrap-around of its epoch included.
  \<^item> Stores: memory, file and cached store implement one abstract map, records and reopening round-trip, and compaction keeps the contents.
  \<^item> Persistence: replay applies what was appended, a crash loses less than the sync interval, a snapshot is replaced atomically.
  \<^item> Service: writes are all-or-nothing under any fault, the parts describe one map in every reachable state, a restart restores exactly that map from the log or the file,
    searches and pages answer from it, what earlier requests left in pooled buffers cannot be observed, and reads between the sections of a batch or of a
    delete see the old vectors or the new state of the identifiers concerned.
  \<^item> Interfaces: the middleware keeps requests without the key away from the service, every sequence of requests is a sequence of service operations, what is created can be read,
    the limiter bounds bursts in floating-point arithmetic, configurations are typed and hardened, the gRPC walk terminates and is complete, a batch sent with the HTTP
    client arrives completely or not at all. The routes of \<^verbatim>\<open>Handlers\<close> refine the service as well, but lead past the middleware.
  \<^item> Tools: the load generator stores every vector it reports as stored, its workers search every index once in any interleaving and its percentiles are nearest ranks; the coverage
    check succeeds exactly when every package passes.
  \<^item> Errors: what a failed sync, a torn record, a torn or overlong log line, an unreadable record, a racing delete, a longer query and a search beside a batch that is refused do.

  \<^bold>\<open>Bounds and fuel.\<close> Loops are structural or have a measure; the search loop of the approximate index visits every slot once, which is its measure. The list loop of the gRPC client
  may run forever against an arbitrary server and is a partial function, as are the batch loop of the load generator and the search for the module root; that they return is part of what is
  proved. The steps of \<^verbatim>\<open>AddVectors\<close>, of \<^verbatim>\<open>DeleteVector\<close> and of the search workers lower a rank. Integers of type \<^verbatim>\<open>int\<close> are unbounded in the tools: an overflow needs more than \<open>2\<^sup>6\<^sup>2\<close> vectors. The limiter's theorem is for limits
  below \<open>2\<^sup>5\<^sup>3\<close>, where \<^verbatim>\<open>float64\<close> represents the integers; request bodies are bounded by \<open>2\<^sup>2\<^sup>9\<close> bytes (the default is \<open>2\<^sup>2\<^sup>0\<close>), so that record lengths fit 32 bits.

  \<^bold>\<open>Not modelled.\<close> File modes, once parsed, go to the operating system. Of the interleavings of service operations, those of \<^verbatim>\<open>AddVectors\<close> and \<^verbatim>\<open>DeleteVector\<close> with reads of the store and exact
  searches and those of the cache are modelled; the others, such as an approximate search during a rebuild of the graph, are not: writes are serialised by \<^verbatim>\<open>persistMu\<close>, and the state of each part is guarded by its mutex. The lazy construction of missing
  parts (\<^verbatim>\<open>ensureRuntimeDeps\<close>, \<^verbatim>\<open>currentANNIndex\<close>, \<^verbatim>\<open>persistenceBackend\<close>), which tests use: a service built by \<^verbatim>\<open>NewService\<close> has them all. The registration of metrics with their help
  texts is the Prometheus package's; their values are modelled. The time limits of the HTTP client are settings of its transport. What the tools print. The logger is pure output; benchmarks and examples are
  not parts of the program; \<^verbatim>\<open>api/proto\<close> is generated.
\<close>

end
